(* ===== verification/Prelude.thy ===== *)
theory Prelude
  imports Main "HOL-Library.Word" "HOL-Library.Monad_Syntax" "HOL-Library.List_Lexorder"
    "HOL-Library.Char_ord"
begin

text \<open>
  Shared vocabulary of the development: the machine types of the program, bounds-checked
  access to C++ arrays and vectors, the constants of \<^verbatim>\<open>engine_race/DBSystem/config.h\<close>,
  and the generic lemmas on lists and words that the components use.

  An operation that would run into undefined behaviour (an index outside a vector, a null or
  dangling pointer), a failed \<^verbatim>\<open>assert\<close>, or a call that never returns is the value
  \<^term>\<open>None\<close> of an option type; every component then proves that its invariant rules
  \<^term>\<open>None\<close> out.
\<close>

unbundle bit_operations_syntax

subsection \<open>Machine types\<close>

type_synonym u8 = "8 word"
type_synonym u32 = "32 word"
type_synonym u64 = "64 word"
type_synonym KEY_T = u64

text \<open>A \<^verbatim>\<open>std::string\<close>, or the bytes a \<^verbatim>\<open>char\<close> pointer can reach.\<close>

type_synonym cxx_string = "u8 list"

definition cstr :: "string \<Rightarrow> cxx_string" where
  "cstr s = map (\<lambda>c. of_nat (of_char c)) s"

named_theorems vec_simps \<open>evaluation of bounds-checked vector access\<close>
named_theorems config \<open>the numeric constants of config.h\<close>
named_theorems field_simps_idx \<open>how the setters and getters of the packed index interact\<close>

subsection \<open>Constants of config.h\<close>

definition HASH_TABLE_SIZE :: u32 where [config]: "HASH_TABLE_SIZE = 68000000"
definition SKIP_LIST_MAX_HEIGHT :: nat where [config]: "SKIP_LIST_MAX_HEIGHT = 12"
definition SKIP_LIST_INIT_CAPACITY :: nat where [config]: "SKIP_LIST_INIT_CAPACITY = 10"
definition POSSIBILITY_GEN_UPPER :: nat where [config]: "POSSIBILITY_GEN_UPPER = 4"
definition MAX_LOG_RECORD_NUM :: nat where [config]: "MAX_LOG_RECORD_NUM = 8192"
definition MEMTABLE_CO_WRITE_NUM :: nat where [config]: "MEMTABLE_CO_WRITE_NUM = 40"
definition RECORD_VALUE_LEN :: nat where [config]: "RECORD_VALUE_LEN = 4096"
definition RECORD_BUFF_SIZE :: nat where [config]: "RECORD_BUFF_SIZE = 1024"
definition RECORD_MATIC :: u32 where [config]: "RECORD_MATIC = 0xFFC42495"

subsection \<open>Bounds-checked vectors\<close>

definition vget :: "'a list \<Rightarrow> nat \<Rightarrow> 'a option" where
  "vget xs i = (if i < length xs then Some (xs ! i) else None)"

definition vset :: "'a list \<Rightarrow> nat \<Rightarrow> 'a \<Rightarrow> 'a list option" where
  "vset xs i x = (if i < length xs then Some (xs[i := x]) else None)"

lemma vget_in [simp, vec_simps]: "i < length xs \<Longrightarrow> vget xs i = Some (xs ! i)"
  by (simp add: vget_def)

lemma vget_out [simp, vec_simps]: "length xs \<le> i \<Longrightarrow> vget xs i = None"
  by (simp add: vget_def)

lemma vset_in [simp, vec_simps]: "i < length xs \<Longrightarrow> vset xs i x = Some (xs[i := x])"
  by (simp add: vset_def)

lemma vset_out [simp, vec_simps]: "length xs \<le> i \<Longrightarrow> vset xs i x = None"
  by (simp add: vset_def)

lemma vget_SomeD: "vget xs i = Some x \<Longrightarrow> i < length xs \<and> x = xs ! i"
  by (auto simp: vget_def split: if_splits)

lemma vset_SomeD: "vset xs i x = Some ys \<Longrightarrow> i < length xs \<and> ys = xs[i := x]"
  by (auto simp: vset_def split: if_splits)

lemma option_eqI: "(\<And>x. a = Some x \<longleftrightarrow> b = Some x) \<Longrightarrow> a = b"
  by (metis option.exhaust)

subsection \<open>Words\<close>

text \<open>Bits of numerals are decided by ranges in the component proofs, not by evaluation.\<close>

declare bit_numeral_word_iff [simp del]

lemma bit_less_exp:
  fixes p :: "'a::len word"
  assumes "unat p < 2 ^ k" and "bit p n"
  shows "n < k"
proof (rule ccontr)
  assume "\<not> n < k"
  then have "(2 :: nat) ^ k \<le> 2 ^ n" by simp
  with assms(1) have "unat p < 2 ^ n" by (rule less_le_trans)
  then have "unat p div 2 ^ n = 0" by simp
  moreover have "bit (unat p) n" using assms(2) by (simp add: bit_simps)
  ultimately show False by (simp add: bit_iff_odd)
qed

lemma word_xor_left_cancel: "c XOR x = c XOR y \<longleftrightarrow> x = (y :: 'a::len word)"
proof
  assume "c XOR x = c XOR y"
  then have "c XOR (c XOR x) = c XOR (c XOR y)" by (rule arg_cong)
  then show "x = y" by (simp flip: xor.assoc)
qed simp

lemma word_xor_right_cancel: "x XOR c = y XOR c \<longleftrightarrow> x = (y :: 'a::len word)"
  using word_xor_left_cancel [of c x y] by (simp only: xor.commute)

lemma xor_shift_right_inj:
  fixes x y :: "'a::len word"
  assumes k: "0 < k" and eq: "x XOR drop_bit k x = y XOR drop_bit k y"
  shows "x = y"
proof (rule bit_word_eqI)
  fix n assume "n < LENGTH('a)"
  show "bit x n \<longleftrightarrow> bit y n"
  proof (induction "LENGTH('a) - n" arbitrary: n rule: less_induct)
    case less
    have "bit (x XOR drop_bit k x) n = bit (y XOR drop_bit k y) n" by (simp add: eq)
    then have here: "(bit x n \<noteq> bit x (n + k)) = (bit y n \<noteq> bit y (n + k))"
      by (simp add: bit_simps add.commute)
    show ?case
    proof (cases "n + k < LENGTH('a)")
      case True
      with k have "LENGTH('a) - (n + k) < LENGTH('a) - n" by linarith
      from less [OF this] here show ?thesis by blast
    next
      case False
      then have "\<not> bit x (n + k)" "\<not> bit y (n + k)"
        by (auto dest: bit_imp_le_length)
      with here show ?thesis by blast
    qed
  qed
qed

text \<open>The same fact in the form in which the hash function uses it: the step is injective.\<close>

lemma inj_xor_shift_right: "0 < k \<Longrightarrow> inj (\<lambda>x :: 'a::len word. x XOR drop_bit k x)"
  by (rule injI) (rule xor_shift_right_inj)

lemma add_shift_left_bit_inj:
  fixes x y :: "'a::len word"
  assumes k: "0 < k" and eq: "x + push_bit k x = y + push_bit k y"
  shows "x = y"
proof -
  define z c where "z = x - y" and "c = - (2 ^ k :: 'a word)"
  from eq have "z = c * z"
    by (simp add: z_def c_def push_bit_eq_mult algebra_simps)
  then have "z = c ^ m * z" for m
  proof (induction m)
    case (Suc m)
    then show ?case by (simp add: mult.assoc)
  qed simp
  then have "z = c ^ LENGTH('a) * z" .
  also have "c ^ LENGTH('a) = (- 1) ^ LENGTH('a) * 2 ^ (k * LENGTH('a))"
    by (simp add: c_def power_mult flip: power_mult_distrib)
  also have "(2 :: 'a word) ^ (k * LENGTH('a)) = 0"
    using k by (simp add: exp_eq_zero_iff)
  finally show ?thesis by (simp add: z_def)
qed

lemma inj_add_shift_left: "0 < k \<Longrightarrow> inj (\<lambda>x :: 'a::len word. x + push_bit k x)"
  by (rule injI) (rule add_shift_left_bit_inj)

subsection \<open>Byte strings as big-endian numbers\<close>

definition be_val :: "u8 list \<Rightarrow> nat" where
  "be_val xs = foldl (\<lambda>a x. a * 256 + unat x) 0 xs"

lemma be_val_Nil [simp]: "be_val [] = 0"
  by (simp add: be_val_def)

lemma be_val_snoc [simp]: "be_val (xs @ [x]) = be_val xs * 256 + unat x"
  by (simp add: be_val_def)

lemma unat_u8_lt: "unat (x :: u8) < 256"
  using unsigned_less [of x, where ?'a = nat] by simp

lemma be_val_Cons: "be_val (x # xs) = unat x * 256 ^ length xs + be_val xs"
proof (induction xs rule: rev_induct)
  case Nil
  show ?case by (simp add: be_val_def)
next
  case (snoc y ys)
  have "be_val (x # ys @ [y]) = be_val (x # ys) * 256 + unat y"
    using be_val_snoc [of "x # ys" y] by simp
  with snoc show ?case by (simp add: algebra_simps)
qed

lemma be_val_bound: "be_val xs < 256 ^ length xs"
proof (induction xs rule: rev_induct)
  case (snoc y ys)
  then show ?case using unat_u8_lt [of y] by simp
qed simp

lemma be_val_less_iff:
  "length xs = length ys \<Longrightarrow> be_val xs < be_val ys \<longleftrightarrow> xs < ys"
proof (induction xs ys rule: list_induct2)
  case (Cons x xs y ys)
  have len: "be_val xs < 256 ^ length ys" "be_val ys < 256 ^ length ys"
    using be_val_bound [of xs] be_val_bound [of ys] Cons.hyps by auto
  consider "unat x < unat y" | "unat y < unat x" | "x = y"
    by (metis linorder_neqE_nat word_unat_eq_iff)
  then show ?case
  proof cases
    case 1
    then have "Suc (unat x) * 256 ^ length ys \<le> unat y * 256 ^ length ys"
      by (intro mult_le_mono1) simp
    with 1 len Cons.hyps show ?thesis
      by (simp add: be_val_Cons word_less_nat_alt)
  next
    case 2
    then have "Suc (unat y) * 256 ^ length ys \<le> unat x * 256 ^ length ys"
      by (intro mult_le_mono1) simp
    with 2 len Cons.hyps show ?thesis
      by (auto simp add: be_val_Cons word_less_nat_alt)
  next
    case 3
    with Cons show ?thesis by (simp add: be_val_Cons)
  qed
qed simp

lemma be_val_inj: "length xs = length ys \<Longrightarrow> be_val xs = be_val ys \<longleftrightarrow> xs = ys"
  by (metis be_val_less_iff linorder_less_linear order_less_irrefl)

end
