(* ===== verification/Utils.thy ===== *)
theory Utils
  imports Prelude
begin

text \<open>
  \<^verbatim>\<open>engine_race/DBSystem/utils.cpp\<close>: the packing of an 8-byte user key into the 64-bit
  \<^verbatim>\<open>KEY_T\<close>, path joining and the fixed-width decimal formatting that the test programs
  use to make keys. The file-existence helpers need the file system and are modelled with it
  in \<^verbatim>\<open>Disk\<close>.
\<close>

subsection \<open>Keys\<close>

text \<open>
  \<^verbatim>\<open>get_key(const char*)\<close>. The argument is the list of bytes that can be read from the
  pointer on; the loop reads eight of them, so fewer readable bytes are an out-of-bounds read.
  \<^verbatim>\<open>char\<close> is signed on the platforms of the build files, so the cast to
  \<^verbatim>\<open>KEY_T\<close> sign-extends.
\<close>

definition get_key_step :: "u8 list \<Rightarrow> nat \<Rightarrow> KEY_T \<Rightarrow> KEY_T" where
  "get_key_step data i ret = ret OR push_bit ((7 - i) * 8) (scast (data ! i))"

definition get_key :: "u8 list \<Rightarrow> KEY_T option" where
  "get_key data = (if length data < 8 then None else Some (fold (get_key_step data) [0..<8] 0))"

text \<open>
  \<^verbatim>\<open>get_key(const std::string&)\<close> passes \<^verbatim>\<open>path.data()\<close>: the bytes of the
  string and the terminating NUL.
\<close>

definition get_key_string :: "cxx_string \<Rightarrow> KEY_T option" where
  "get_key_string path = get_key (path @ [0])"

text \<open>The bytes for which no sign extension happens.\<close>

definition ascii :: "u8 list \<Rightarrow> bool" where
  "ascii xs \<longleftrightarrow> (\<forall>x \<in> set xs. x < 128)"

lemma bit7_iff: "bit (x :: u8) 7 \<longleftrightarrow> 128 \<le> x"
proof -
  have "bit x 7 \<longleftrightarrow> bit (unat x) 7" by (simp add: bit_simps)
  also have "\<dots> \<longleftrightarrow> odd (unat x div 128)" by (simp add: bit_iff_odd)
  also have "\<dots> \<longleftrightarrow> 128 \<le> unat x"
  proof -
    have "unat x div 128 < 2" using unat_u8_lt [of x] by (simp add: div_less_iff_less_mult)
    moreover have "unat x div 128 = 0 \<longleftrightarrow> unat x < 128" by (simp add: div_eq_0_iff)
    ultimately show ?thesis by (cases "unat x div 128") auto
  qed
  finally show ?thesis by (simp add: word_le_nat_alt)
qed

lemma scast_ascii:
  assumes "(x :: u8) < 128"
  shows "(scast x :: u64) = ucast x"
proof (rule bit_word_eqI)
  fix n assume n: "n < LENGTH(64)"
  have no: "\<not> bit x 7" using assms by (simp add: bit7_iff not_le)
  show "bit (scast x :: u64) n \<longleftrightarrow> bit (ucast x :: u64) n"
  proof (cases "n < 7")
    case True
    with n show ?thesis by (simp add: bit_simps min_def)
  next
    case False
    then have "\<not> bit x n" using no bit_imp_le_length [of x n]
      by (cases "n = 7") auto
    with n no False show ?thesis by (simp add: bit_simps min_def)
  qed
qed

lemma scast_high_bits:
  "128 \<le> (x :: u8) \<Longrightarrow> 7 \<le> n \<Longrightarrow> n < 64 \<Longrightarrow> bit (scast x :: u64) n"
  by (simp add: bit_simps min_def bit7_iff)

subsubsection \<open>Keys made of bytes below 0x80\<close>

lemma or_shifted_byte:
  fixes v :: u64 and x :: u8
  shows "push_bit 8 v OR ucast x = v * 256 + ucast x"
proof -
  have "push_bit 8 v AND ucast x = 0"
    by (rule bit_word_eqI) (auto simp: bit_simps dest: bit_imp_le_length)
  then have "push_bit 8 v + ucast x = push_bit 8 v OR ucast x"
    by (rule disjunctive_add_eq_or)
  then show ?thesis by (simp add: push_bit_eq_mult)
qed

lemma get_key_prefix:
  assumes "ascii data" and "8 \<le> length data" and "i \<le> 8"
  shows "fold (get_key_step data) [0..<i] 0
    = push_bit (8 * (8 - i)) (of_nat (be_val (take i data)))"
  using \<open>i \<le> 8\<close>
proof (induction i)
  case (Suc i)
  let ?v = "of_nat (be_val (take i data)) :: u64"
  have x: "data ! i < 128"
    using assms(1,2) Suc.prems by (auto simp: ascii_def)
  have split: "push_bit (8 * (8 - i)) ?v = push_bit ((7 - i) * 8) (push_bit 8 ?v)"
    using Suc.prems by (simp add: push_bit_push_bit algebra_simps)
  have "fold (get_key_step data) [0..<Suc i] 0
      = get_key_step data i (push_bit (8 * (8 - i)) ?v)"
    using Suc by simp
  also have "\<dots> = push_bit ((7 - i) * 8) (push_bit 8 ?v OR ucast (data ! i))"
    by (simp only: get_key_step_def split scast_ascii [OF x] push_bit_or)
  also have "push_bit 8 ?v OR ucast (data ! i) = of_nat (be_val (take (Suc i) data))"
    using assms(2) Suc.prems
    by (simp add: or_shifted_byte take_Suc_conv_app_nth)
  finally show ?case by (simp add: mult.commute)
qed simp

lemma get_key_be_val:
  assumes "ascii data" and "8 \<le> length data"
  shows "get_key data = Some (of_nat (be_val (take 8 data)))"
  using get_key_prefix [OF assms, of 8] assms(2) by (simp add: get_key_def)

lemma unat_key:
  assumes "8 \<le> length data"
  shows "unat (of_nat (be_val (take 8 data)) :: KEY_T) = be_val (take 8 data)"
proof -
  have "be_val (take 8 data) < 256 ^ length (take 8 data)" by (rule be_val_bound)
  also have "length (take 8 data) = 8" using assms by simp
  finally show ?thesis
    by (simp add: unat_of_nat)
qed

lemma get_key_less:
  assumes "ascii a" and "ascii b" and "8 \<le> length a" and "8 \<le> length b"
  shows "\<exists>ka kb. get_key a = Some ka \<and> get_key b = Some kb
    \<and> (ka < kb \<longleftrightarrow> take 8 a < take 8 b) \<and> (ka = kb \<longleftrightarrow> take 8 a = take 8 b)"
proof -
  let ?k = "\<lambda>x. of_nat (be_val (take 8 x)) :: KEY_T"
  have len: "length (take 8 a) = length (take 8 b)" using assms(3,4) by simp
  have "get_key a = Some (?k a)" "get_key b = Some (?k b)"
    using assms by (simp_all only: get_key_be_val)
  moreover have "?k a < ?k b \<longleftrightarrow> take 8 a < take 8 b"
    using assms(3,4) by (simp only: word_less_nat_alt unat_key be_val_less_iff [OF len])
  moreover have "?k a = ?k b \<longleftrightarrow> take 8 a = take 8 b"
    using assms(3,4) by (simp only: word_unat_eq_iff unat_key be_val_inj [OF len])
  ultimately show ?thesis by blast
qed

lemma be_val_sum: "be_val xs = (\<Sum>i<length xs. unat (xs ! i) * 256 ^ (length xs - 1 - i))"
proof (induction xs rule: rev_induct)
  case (snoc x xs)
  have "(\<Sum>i<length xs. unat (xs ! i) * 256 ^ (length xs - i)) = (\<Sum>i<length xs. unat (xs ! i) * 256 ^ (length xs - 1 - i)) * 256"
    unfolding sum_distrib_right
  proof (intro sum.cong refl)
    fix i assume "i \<in> {..<length xs}"
    then have "length xs - i = Suc (length xs - 1 - i)" by auto
    then show "unat (xs ! i) * 256 ^ (length xs - i) = unat (xs ! i) * 256 ^ (length xs - 1 - i) * 256"
      by (simp only: power_Suc mult_ac)
  qed
  with snoc show ?case by (simp add: nth_append)
qed simp

text \<open>C34: On keys of at least eight bytes, all of them below 0x80, \<^verbatim>\<open>get_key\<close> is
  the big-endian number of the first eight. So the order of the 64-bit keys is the byte-wise order of
  these bytes (the skip lists and dumped tables are in user-key order), and two keys get the same
  number only if they agree in them.\<close>

theorem get_key_order:
  assumes "ascii a" and "ascii b" and "8 \<le> length a" and "8 \<le> length b"
  shows "\<exists>ka kb. get_key a = Some ka \<and> get_key b = Some kb
    \<and> unat ka = (\<Sum>i<8. unat (a ! i) * 256 ^ (7 - i))
    \<and> (ka < kb \<longleftrightarrow> take 8 a < take 8 b) \<and> (ka = kb \<longleftrightarrow> take 8 a = take 8 b)"
proof -
  obtain ka kb where k: "get_key a = Some ka" "get_key b = Some kb"
    "ka < kb \<longleftrightarrow> take 8 a < take 8 b" "ka = kb \<longleftrightarrow> take 8 a = take 8 b"
    using get_key_less [OF assms] by blast
  have "unat ka = be_val (take 8 a)" using k(1) get_key_be_val [OF assms(1,3)] unat_key [OF assms(3)] by simp
  also have "\<dots> = (\<Sum>i<8. unat (a ! i) * 256 ^ (7 - i))" using assms(3) by (simp add: be_val_sum)
  finally show ?thesis using k by blast
qed

theorem get_key_order_witness:
  "get_key (cstr ''00000009'') = Some 0x3030303030303039 \<and>
   (\<exists>ka kb. get_key (cstr ''00000009'') = Some ka \<and> get_key (cstr ''00000010'') = Some kb
    \<and> unat ka = (\<Sum>i<8. unat (cstr ''00000009'' ! i) * 256 ^ (7 - i))
    \<and> (ka < kb \<longleftrightarrow> take 8 (cstr ''00000009'') < take 8 (cstr ''00000010''))
    \<and> (ka = kb \<longleftrightarrow> take 8 (cstr ''00000009'') = take 8 (cstr ''00000010'')))"
proof
  show "get_key (cstr ''00000009'') = Some 0x3030303030303039"
    by (simp add: get_key_def get_key_step_def cstr_def upt_rec)
  show "\<exists>ka kb. get_key (cstr ''00000009'') = Some ka \<and> get_key (cstr ''00000010'') = Some kb
    \<and> unat ka = (\<Sum>i<8. unat (cstr ''00000009'' ! i) * 256 ^ (7 - i))
    \<and> (ka < kb \<longleftrightarrow> take 8 (cstr ''00000009'') < take 8 (cstr ''00000010''))
    \<and> (ka = kb \<longleftrightarrow> take 8 (cstr ''00000009'') = take 8 (cstr ''00000010''))"
    by (rule get_key_order) (simp_all add: ascii_def cstr_def)
qed

subsubsection \<open>Bytes from 0x80 on\<close>

lemma get_key_step_mono: "bit ret n \<Longrightarrow> bit (get_key_step data i ret) n"
  by (simp add: get_key_step_def bit_simps)

lemma get_key_fold_mono: "bit ret n \<Longrightarrow> bit (fold (get_key_step data) is ret) n"
  by (induction "is" arbitrary: ret) (simp_all add: get_key_step_mono)

lemma get_key_fold_low:
  assumes "n < 8 * (8 - i)" and "i \<le> 8"
  shows "\<not> bit (fold (get_key_step data) [0..<i] 0) n"
  using assms
proof (induction i)
  case (Suc i)
  then show ?case by (simp add: get_key_step_def bit_simps)
qed simp

lemma get_key_step_high:
  assumes "128 \<le> data ! i" and "i < 8" and "8 * (8 - i) \<le> n" "n < 64"
  shows "bit (get_key_step data i acc) n"
proof -
  have "7 \<le> n - (7 - i) * 8" and "(7 - i) * 8 \<le> n" using assms by auto
  moreover have "bit (scast (data ! i) :: u64) (n - (7 - i) * 8)"
    using assms calculation by (intro scast_high_bits) auto
  ultimately show ?thesis using assms by (simp add: get_key_step_def bit_simps)
qed

lemma upt_8_split: "i < 8 \<Longrightarrow> [0..<8] = [0..<i] @ i # [Suc i..<8]"
  by (metis le0 less_imp_le_nat upt_add_eq_append upt_conv_Cons le_add_diff_inverse)

text \<open>A byte from 0x80 on wipes out everything before it: the packed keys of two user
  keys that agree from such a byte on are equal, whatever their earlier bytes are, because the
  sign extension sets all the bits above that byte. The later write replaces the earlier one.\<close>

lemma get_key_high_byte:
  assumes len: "8 \<le> length a" "8 \<le> length b" and i: "i < 8" and high: "128 \<le> a ! i"
    and agree: "\<And>j. i \<le> j \<Longrightarrow> j < 8 \<Longrightarrow> a ! j = b ! j"
  shows "get_key a = get_key b"
proof -
  let ?acc = "\<lambda>x. fold (get_key_step x) [0..<i] 0"
  have hb: "128 \<le> b ! i" and ab: "a ! i = b ! i" using high agree i by auto
  have "get_key_step a i (?acc a) = get_key_step b i (?acc b)"
  proof (rule bit_word_eqI)
    fix n assume "n < LENGTH(64)"
    then show "bit (get_key_step a i (?acc a)) n \<longleftrightarrow> bit (get_key_step b i (?acc b)) n"
      using get_key_step_high [of _ i n] high hb i get_key_fold_low [of n i] ab
      by (cases "8 * (8 - i) \<le> n") (simp_all add: get_key_step_def bit_or_iff)
  qed
  moreover have "fold (get_key_step a) [Suc i..<8] v = fold (get_key_step b) [Suc i..<8] v" for v
    by (rule fold_cong) (auto simp: get_key_step_def agree)
  ultimately show ?thesis
    using len by (simp add: get_key_def upt_8_split [OF i])
qed

lemma get_key_high_byte_example:
  "get_key [1, 128, 3, 4, 5, 6, 7, 8] = get_key [2, 128, 3, 4, 5, 6, 7, 8]
   \<and> get_key [1, 127, 3, 4, 5, 6, 7, 8] \<noteq> get_key [2, 127, 3, 4, 5, 6, 7, 8]"
proof
  show "get_key [1, 128, 3, 4, 5, 6, 7, 8] = get_key [2, 128, 3, 4, 5, 6, 7, 8]"
  proof (rule get_key_high_byte [of _ _ 1])
    fix j :: nat assume "1 \<le> j"
    then show "[1, 128, 3, 4, 5, 6, 7, 8] ! j = ([2, 128, 3, 4, 5, 6, 7, 8] :: u8 list) ! j"
      by (cases j) auto
  qed simp_all
  show "get_key [1, 127, 3, 4, 5, 6, 7, 8] \<noteq> get_key [2, 127, 3, 4, 5, 6, 7, 8]"
    by (simp add: get_key_def get_key_step_def upt_rec)
qed

subsection \<open>Paths\<close>

text \<open>
  \<^verbatim>\<open>path_join\<close>: every item but the last is followed by a slash unless it ends in
  one. For an empty item \<^verbatim>\<open>item[item.length()-1]\<close> reads far outside the string.
\<close>

fun path_join :: "cxx_string list \<Rightarrow> cxx_string option" where
  "path_join [] = Some []"
| "path_join (item # rest) =
     (if item = [] then None
      else do {
        ret_path \<leftarrow> path_join rest;
        Some (item @ (if last item \<noteq> 47 \<and> rest \<noteq> [] then [47] else []) @ ret_path)
      })"

lemma path_join_two:
  "base \<noteq> [] \<Longrightarrow> name \<noteq> [] \<Longrightarrow>
   path_join [base, name] = Some (base @ (if last base = 47 then [] else [47]) @ name)"
  by simp

lemma path_join_inj:
  "base \<noteq> [] \<Longrightarrow> path_join [base, a] = Some p \<Longrightarrow> path_join [base, b] = Some p \<Longrightarrow> a = b"
  by (auto split: if_splits)

subsection \<open>Decimal names\<close>

text \<open>The digits that \<^verbatim>\<open>%ld\<close> and \<^verbatim>\<open>operator<<\<close> print for a number.\<close>

fun dec_digits :: "nat \<Rightarrow> cxx_string" where
  "dec_digits n = (if n < 10 then [48 + of_nat n] else dec_digits (n div 10) @ [48 + of_nat (n mod 10)])"

declare dec_digits.simps [simp del]

definition sprintf_08ld :: "int \<Rightarrow> cxx_string" where
  "sprintf_08ld n =
     (let sign = (if n < 0 then [45] else []); ds = dec_digits (nat \<bar>n\<bar>)
      in sign @ replicate (8 - (length sign + length ds)) 48 @ ds)"

text \<open>
  \<^verbatim>\<open>itoa\<close>: the buffer \<^verbatim>\<open>tmp\<close> has nine bytes, one of them for the
  terminating NUL; a longer result overruns it.
\<close>

definition itoa :: "int \<Rightarrow> cxx_string option" where
  "itoa num = (let tmp = sprintf_08ld num in if length tmp + 1 \<le> 9 then Some tmp else None)"

text \<open>The \<^verbatim>\<open>w\<close> low decimal digits of a number, most significant first.\<close>

fun fixed_dec :: "nat \<Rightarrow> nat \<Rightarrow> cxx_string" where
  "fixed_dec 0 n = []"
| "fixed_dec (Suc w) n = fixed_dec w (n div 10) @ [48 + of_nat (n mod 10)]"

lemma length_fixed_dec [simp]: "length (fixed_dec w n) = w"
  by (induction w arbitrary: n) auto

lemma digit_byte: "d < 10 \<Longrightarrow> unat (48 + of_nat d :: u8) = 48 + d"
  by (simp add: unat_word_ariths unat_of_nat)

lemma fixed_dec_less_8:
  assumes "m < n" and "n < 10 ^ w"
  shows "be_val (fixed_dec w m) < be_val (fixed_dec w n)"
  using assms
proof (induction w arbitrary: m n)
  case (Suc w)
  have digits: "unat (48 + of_nat (m mod 10) :: u8) = 48 + m mod 10"
    "unat (48 + of_nat (n mod 10) :: u8) = 48 + n mod 10" by (simp_all add: digit_byte)
  have bound: "n div 10 < 10 ^ w" using Suc.prems by (simp add: div_less_iff_less_mult)
  have "m div 10 < n div 10 \<or> m div 10 = n div 10 \<and> m mod 10 < n mod 10"
    using Suc.prems(1) div_mult_mod_eq [of m 10] div_mult_mod_eq [of n 10]
      mod_less_divisor [of 10 m] mod_less_divisor [of 10 n] by linarith
  then show ?case
  proof
    assume "m div 10 < n div 10"
    from Suc.IH [OF this bound] have "be_val (fixed_dec w (m div 10)) < be_val (fixed_dec w (n div 10))" .
    moreover have "m mod 10 < 10" by simp
    ultimately show ?thesis using digits by (simp only: fixed_dec.simps be_val_snoc)
  next
    assume "m div 10 = n div 10 \<and> m mod 10 < n mod 10"
    then show ?thesis using digits by simp
  qed
qed simp

lemma fixed_dec_ascii: "ascii (fixed_dec w n)"
proof (induction w arbitrary: n)
  case (Suc w)
  have "(48 + of_nat (n mod 10) :: u8) < 128"
    using digit_byte [of "n mod 10"] by (simp add: word_less_nat_alt)
  with Suc show ?case by (auto simp: ascii_def)
qed (simp add: ascii_def)

lemma dec_digits_pad:
  assumes "n < 10 ^ w" and "0 < w"
  shows "length (dec_digits n) \<le> w \<and>
    replicate (w - length (dec_digits n)) 48 @ dec_digits n = fixed_dec w n"
  using assms
proof (induction w arbitrary: n)
  case (Suc w)
  show ?case
  proof (cases "n < 10")
    case True
    have "fixed_dec v 0 = replicate v 48" for v
      by (induction v) (auto simp: replicate_append_same)
    with True show ?thesis by (simp add: dec_digits.simps [of n])
  next
    case False
    with Suc.prems have "0 < w" by (cases w) auto
    moreover have "n div 10 < 10 ^ w"
      using Suc.prems by (simp add: div_less_iff_less_mult)
    ultimately have "length (dec_digits (n div 10)) \<le> w"
      "replicate (w - length (dec_digits (n div 10))) 48 @ dec_digits (n div 10)
        = fixed_dec w (n div 10)"
      using Suc.IH by blast+
    with False show ?thesis
      by (simp add: dec_digits.simps [of n] flip: append_assoc)
  qed
qed simp

lemma dec_digits_eqD: "dec_digits m = dec_digits n \<Longrightarrow> m = n"
proof (induction m arbitrary: n rule: less_induct)
  case (less m)
  have ne: "dec_digits i \<noteq> []" for i by (simp add: dec_digits.simps [of i])
  have digit: "last (dec_digits i) = 48 + of_nat (i mod 10)" for i by (simp add: dec_digits.simps [of i])
  have rest: "butlast (dec_digits i) = (if i < 10 then [] else dec_digits (i div 10))" for i by (simp add: dec_digits.simps [of i])
  have "(of_nat (m mod 10) :: u8) = of_nat (n mod 10)" using digit [of m] digit [of n] less.prems by simp
  then have "unat (of_nat (m mod 10) :: u8) = unat (of_nat (n mod 10) :: u8)" by simp
  then have md: "m mod 10 = n mod 10" by (simp add: unat_of_nat)
  have b: "(if m < 10 then [] else dec_digits (m div 10)) = (if n < 10 then [] else dec_digits (n div 10))"
    using rest [of m] rest [of n] less.prems by simp
  show ?case
  proof (cases "m < 10")
    case True
    then have "n < 10" using b ne [of "n div 10"] by (auto split: if_splits)
    with True md show ?thesis by simp
  next
    case False
    then have "dec_digits (m div 10) = dec_digits (n div 10)" using b ne by (auto split: if_splits)
    then have "m div 10 = n div 10" using False by (intro less.IH) simp_all
    with md show ?thesis by (metis div_mult_mod_eq)
  qed
qed

lemma dec_digits_inj: "dec_digits m = dec_digits n \<longleftrightarrow> m = n"
  using dec_digits_eqD by blast

lemma length_dec_digits: "0 < w \<Longrightarrow> length (dec_digits k) \<le> w \<longleftrightarrow> k < 10 ^ w"
proof (induction w arbitrary: k)
  case (Suc w)
  show ?case
  proof (cases "k < 10")
    case True
    then have "k < 10 ^ Suc w" by (rule less_le_trans) simp
    with True show ?thesis by (simp add: dec_digits.simps [of k])
  next
    case False
    show ?thesis
    proof (cases "w = 0")
      case True
      then show ?thesis using False
        by (simp add: dec_digits.simps [of k] dec_digits.simps [of "k div 10"])
    next
      case False
      with Suc.IH [of "k div 10"] \<open>\<not> k < 10\<close> show ?thesis
        by (simp add: dec_digits.simps [of k] div_less_iff_less_mult mult.commute)
    qed
  qed
qed simp

lemma itoa_fixed: "0 \<le> i \<Longrightarrow> i < 10 ^ 8 \<Longrightarrow> itoa i = Some (fixed_dec 8 (nat i))"
  using dec_digits_pad [of "nat i" 8]
  by (auto simp: itoa_def sprintf_08ld_def Let_def nat_less_iff)

text \<open>The keys of decimal names.\<close>

lemma fixed_dec_key:
  assumes "m < n" and "n < 10 ^ 8"
  shows "\<exists>km kn. get_key_string (fixed_dec 8 m) = Some km \<and> get_key_string (fixed_dec 8 n) = Some kn \<and> km < kn"
proof -
  have "be_val (fixed_dec 8 m) < be_val (fixed_dec 8 n)" using assms by (rule fixed_dec_less_8)
  then have less: "fixed_dec 8 m < fixed_dec 8 n" by (simp add: be_val_less_iff)
  have asc: "ascii (fixed_dec 8 m @ [0])" "ascii (fixed_dec 8 n @ [0])"
    using fixed_dec_ascii by (auto simp: ascii_def)
  obtain km kn where "get_key (fixed_dec 8 m @ [0]) = Some km" "get_key (fixed_dec 8 n @ [0]) = Some kn"
    and "km < kn \<longleftrightarrow> take 8 (fixed_dec 8 m @ [0]) < take 8 (fixed_dec 8 n @ [0])"
    using get_key_less [OF asc] by auto
  with less show ?thesis by (simp add: get_key_string_def)
qed

text \<open>For every number from 0 up to 99999999 \<^verbatim>\<open>itoa\<close> fits its buffer, and the
  keys made from the decimal strings are ordered as the numbers are; so the loop of
  \<^verbatim>\<open>test_db_write.cpp\<close> writes pairwise different, ascending keys.\<close>

lemma itoa_keys_ascending:
  assumes "0 \<le> i" and "i < j" and "j < 10 ^ 8"
  shows "\<exists>si sj ki kj. itoa i = Some si \<and> itoa j = Some sj \<and> length si = 8 \<and> length sj = 8
    \<and> get_key_string si = Some ki \<and> get_key_string sj = Some kj \<and> ki < kj"
proof -
  have "nat i < nat j" "nat j < 10 ^ 8" using assms by (simp_all add: nat_less_iff)
  then obtain ki kj where "get_key_string (fixed_dec 8 (nat i)) = Some ki"
    "get_key_string (fixed_dec 8 (nat j)) = Some kj" "ki < kj" using fixed_dec_key by blast
  with assms show ?thesis by (simp add: itoa_fixed)
qed

lemma itoa_keys_ascending_example:
  "(9 :: int) < 10 \<and> itoa 10 = Some (cstr ''00000010'') \<and>
   (\<exists>si sj ki kj. itoa 9 = Some si \<and> itoa 10 = Some sj \<and> length si = 8 \<and> length sj = 8
    \<and> get_key_string si = Some ki \<and> get_key_string sj = Some kj \<and> ki < kj)"
proof (intro conjI)
  have "dec_digits 10 = [49, 48]" by (simp add: dec_digits.simps)
  then show "itoa 10 = Some (cstr ''00000010'')"
    by (simp add: itoa_def sprintf_08ld_def cstr_def eval_nat_numeral)
  show "\<exists>si sj ki kj. itoa 9 = Some si \<and> itoa 10 = Some sj \<and> length si = 8 \<and> length sj = 8
    \<and> get_key_string si = Some ki \<and> get_key_string sj = Some kj \<and> ki < kj"
    by (rule itoa_keys_ascending) simp_all
qed simp

text \<open>Outside that range the nine-byte buffer is overrun (in the model: no result); the
  only other numbers that fit are the negative ones down to -9999999.\<close>

lemma itoa_fits_iff: "itoa n \<noteq> None \<longleftrightarrow> - (10 ^ 7) < n \<and> n < 10 ^ 8"
proof -
  have len: "length (dec_digits k) \<le> w \<longleftrightarrow> k < 10 ^ w" if "0 < w" for k w
    using that by (rule length_dec_digits)
  show ?thesis
    using len [of 8 "nat n"] len [of 7 "nat (- n)"]
    by (auto simp: itoa_def sprintf_08ld_def Let_def nat_less_iff not_le)
qed

end
