(* ===== verification/Index_Word.thy ===== *)
theory Index_Word
  imports Prelude
begin

text \<open>
  The class \<^verbatim>\<open>Index\<close> of \<^verbatim>\<open>engine_race/DBSystem/Index.h\<close>: a 32-bit
  word that packs a position (a buffer slot or a position in a file), a few status bits and a
  file number. C \<^verbatim>\<open>int\<close> arguments and results are their 32-bit patterns.
\<close>

record Index =
  status :: u32

subsection \<open>Getters and setters\<close>

definition get_fid :: "Index \<Rightarrow> u32" where
  "get_fid i = status i AND 0x000000ff"

definition get_idx :: "Index \<Rightarrow> u32" where
  "get_idx i = drop_bit 12 (status i AND 0xfffff000)"

definition clear_fid :: "Index \<Rightarrow> Index" where
  "clear_fid i = i\<lparr>status := status i AND 0xffffff00\<rparr>"

definition clear_idx :: "Index \<Rightarrow> Index" where
  "clear_idx i = i\<lparr>status := status i AND 0xc0000fff\<rparr>"

definition set_fid :: "u32 \<Rightarrow> Index \<Rightarrow> Index" where
  "set_fid fid i = (let i = clear_fid i in i\<lparr>status := status i OR fid\<rparr>)"

definition set_idx :: "u32 \<Rightarrow> Index \<Rightarrow> Index" where
  "set_idx pos i = (let i = clear_idx i in i\<lparr>status := status i OR push_bit 12 pos\<rparr>)"

definition if_valid :: "Index \<Rightarrow> u32" where
  "if_valid i = status i AND 0x00000f00"

definition if_in_hash :: "Index \<Rightarrow> u32" where
  "if_in_hash i = status i AND 0x00000200"

definition set_in_hash :: "bool \<Rightarrow> Index \<Rightarrow> Index" where
  "set_in_hash ifset i =
     (if ifset then i\<lparr>status := status i OR 0x00000200\<rparr>
      else i\<lparr>status := status i AND 0xfffffcff\<rparr>)"

definition if_in_file :: "Index \<Rightarrow> u32" where
  "if_in_file i = status i AND 0x00000100"

definition set_in_file :: "bool \<Rightarrow> Index \<Rightarrow> Index" where
  "set_in_file ifset i =
     (if ifset then i\<lparr>status := status i OR 0x00000100\<rparr>
      else i\<lparr>status := status i AND 0xfffffeff\<rparr>)"

definition if_writing :: "Index \<Rightarrow> u32" where
  "if_writing i = status i AND 0x00000400"

definition set_if_writing :: "bool \<Rightarrow> Index \<Rightarrow> Index" where
  "set_if_writing ifset i =
     (if ifset then i\<lparr>status := status i OR 0x00000400\<rparr>
      else i\<lparr>status := status i AND 0xfffffaff\<rparr>)"

definition index_equal :: "Index \<Rightarrow> Index \<Rightarrow> bool" where
  "index_equal i another \<longleftrightarrow> get_idx i = get_idx another"

text \<open>The constructors \<^verbatim>\<open>Index()\<close> and \<^verbatim>\<open>Index(int)\<close>.\<close>

definition Index_new :: Index where
  "Index_new = \<lparr>status = 0\<rparr>"

definition Index_of :: "u32 \<Rightarrow> Index" where
  "Index_of s = set_idx s \<lparr>status = 0\<rparr>"

text \<open>A key with its index, the element of the hash table and of the skip-list nodes.\<close>

record KeyIdxPair =
  kv_key :: KEY_T
  kv_idx :: Index

definition KeyIdxPair_new :: KeyIdxPair where
  "KeyIdxPair_new = \<lparr>kv_key = 0, kv_idx = Index_new\<rparr>"

subsection \<open>How the fields interact\<close>

lemmas index_defs = get_fid_def get_idx_def clear_fid_def clear_idx_def set_fid_def set_idx_def
  if_valid_def if_in_hash_def set_in_hash_def if_in_file_def set_in_file_def if_writing_def
  set_if_writing_def Let_def

text \<open>
  What each accessor reads: \<^term>\<open>get_idx\<close> the bits from 12 on, \<^term>\<open>get_fid\<close> the low
  byte, the flags one bit each. The setters are described by the bits of the word they leave.
\<close>

text \<open>The masks of the code, as ranges of bits.\<close>

lemma mask_ranges:
  "(0xff :: u32) = mask 8"
  "(0xf00 :: u32) = push_bit 8 (mask 4)"
  "(0xfffff :: u32) = mask 20"
  "(0xc0000 :: u32) = push_bit 18 (mask 2)"
  "(0xfffff000 :: u32) = push_bit 12 (mask 20)"
  "(0xffffff00 :: u32) = push_bit 8 (mask 24)"
  "(0xc0000fff :: u32) = NOT (push_bit 12 (mask 18))"
  "(0x100 :: u32) = 2 ^ 8"
  "(0x200 :: u32) = 2 ^ 9"
  "(0x400 :: u32) = 2 ^ 10"
  "(0xfffffeff :: u32) = NOT (2 ^ 8)"
  "(0xfffffcff :: u32) = NOT (push_bit 8 (mask 2))"
  "(0xfffffaff :: u32) = NOT (2 ^ 8 OR 2 ^ 10)"
  by (simp_all add: mask_eq_exp_minus_1 push_bit_eq_mult)

lemma mask_bits:
  fixes n :: nat
  shows "bit (0xff :: u32) n \<longleftrightarrow> n < 8"
    and "bit (0xf00 :: u32) n \<longleftrightarrow> 8 \<le> n \<and> n < 12"
    and "bit (0xfffff :: u32) n \<longleftrightarrow> n < 20"
    and "bit (0xc0000 :: u32) n \<longleftrightarrow> n = 18 \<or> n = 19"
    and "bit (0xfffff000 :: u32) n \<longleftrightarrow> 12 \<le> n \<and> n < 32"
    and "bit (0xffffff00 :: u32) n \<longleftrightarrow> 8 \<le> n \<and> n < 32"
    and "bit (0xc0000fff :: u32) n \<longleftrightarrow> n < 32 \<and> \<not> (12 \<le> n \<and> n < 30)"
    and "bit (0x100 :: u32) n \<longleftrightarrow> n = 8"
    and "bit (0x200 :: u32) n \<longleftrightarrow> n = 9"
    and "bit (0x400 :: u32) n \<longleftrightarrow> n = 10"
    and "bit (0xfffffeff :: u32) n \<longleftrightarrow> n < 32 \<and> n \<noteq> 8"
    and "bit (0xfffffcff :: u32) n \<longleftrightarrow> n < 32 \<and> n \<noteq> 8 \<and> n \<noteq> 9"
    and "bit (0xfffffaff :: u32) n \<longleftrightarrow> n < 32 \<and> n \<noteq> 8 \<and> n \<noteq> 10"
  unfolding mask_ranges bit_mask_iff bit_push_bit_iff bit_not_iff bit_or_iff bit_exp_iff
  by auto

lemmas index_bits = index_defs mask_bits bit_and_iff bit_or_iff bit_drop_bit_eq bit_push_bit_iff

lemma status_eqI: "(\<And>n. n < 32 \<Longrightarrow> bit (status i) n = bit (status j) n) \<Longrightarrow> i = (j :: Index)"
  by (intro Index.equality bit_word_eqI) simp_all

text \<open>
  \<^term>\<open>set_idx\<close> clears only eighteen of the twenty position bits that
  \<^term>\<open>get_idx\<close> reads, so bits 18 and 19 of the old position survive.
\<close>

lemma get_idx_set_idx:
  "get_idx (set_idx p i) = take_bit 20 p OR (get_idx i AND 0xc0000)"
  by (rule bit_word_eqI) (auto simp: index_bits bit_take_bit_iff bit_mask_iff)

lemma get_idx_bound: "get_idx i < 2 ^ 20"
proof -
  have "get_idx i = take_bit 20 (get_idx i)"
    by (rule bit_word_eqI) (auto simp: index_bits bit_take_bit_iff)
  also have "\<dots> < 2 ^ 20"
    using take_bit_nat_less_exp [of 20 "unat (get_idx i)"]
    by (simp add: word_less_nat_alt unsigned_take_bit_eq)
  finally show ?thesis .
qed

lemma small_idx_bits: "p < 0x100000 \<Longrightarrow> bit (p :: u32) n \<Longrightarrow> n < 20"
  by (rule bit_less_exp) (simp_all add: word_less_nat_alt)

lemma small_idx_18_bits: "p < 0x40000 \<Longrightarrow> bit (p :: u32) n \<Longrightarrow> n < 18"
  by (rule bit_less_exp) (simp_all add: word_less_nat_alt)

lemma small_fid_bits: "p < 0x100 \<Longrightarrow> bit (p :: u32) n \<Longrightarrow> n < 8"
  by (rule bit_less_exp) (simp_all add: word_less_nat_alt)

lemma get_idx_set_idx_small:
  assumes "p < 0x100000" and "get_idx i < 0x40000"
  shows "get_idx (set_idx p i) = p"
proof -
  have "take_bit 20 p = p"
    by (rule bit_word_eqI) (auto simp: bit_take_bit_iff dest: small_idx_bits [OF assms(1)])
  moreover have "get_idx i AND 0xc0000 = 0"
    by (rule bit_word_eqI)
      (auto simp: mask_bits bit_and_iff dest: small_idx_18_bits [OF assms(2)])
  ultimately show ?thesis by (simp add: get_idx_set_idx)
qed

text \<open>
  The frame conditions of the setters: the fields a setter does not touch. A file number
  must fit its eight bits, else the setter runs over the flags.
\<close>

lemma set_idx_frame [field_simps_idx]:
  "get_fid (set_idx p i) = get_fid i"
  "if_in_file (set_idx p i) = if_in_file i"
  "if_in_hash (set_idx p i) = if_in_hash i"
  "if_writing (set_idx p i) = if_writing i"
  "if_valid (set_idx p i) = if_valid i"
  by (rule bit_word_eqI, auto simp: index_bits)+

lemma get_fid_set_fid [field_simps_idx]: "get_fid (set_fid f i) = f AND 0xff"
  by (rule bit_word_eqI) (auto simp: index_bits)

lemma set_fid_frame [field_simps_idx]:
  assumes "f < 0x100"
  shows "get_idx (set_fid f i) = get_idx i"
    and "if_in_file (set_fid f i) = if_in_file i"
    and "if_in_hash (set_fid f i) = if_in_hash i"
    and "if_writing (set_fid f i) = if_writing i"
    and "if_valid (set_fid f i) = if_valid i"
  by (rule bit_word_eqI, auto simp: index_bits dest: small_fid_bits [OF assms])+

lemma set_in_hash_frame [field_simps_idx]:
  "get_idx (set_in_hash b i) = get_idx i"
  "get_fid (set_in_hash b i) = get_fid i"
  "if_in_file (set_in_hash True i) = if_in_file i"
  "if_in_hash (set_in_hash True i) = 0x200"
  "if_in_hash (set_in_hash False i) = 0"
  "if_writing (set_in_hash b i) = if_writing i"
  by (rule bit_word_eqI, auto simp: index_bits split: if_splits)+

lemma set_in_file_frame [field_simps_idx]:
  "get_idx (set_in_file b i) = get_idx i"
  "get_fid (set_in_file b i) = get_fid i"
  "if_in_hash (set_in_file b i) = if_in_hash i"
  "if_writing (set_in_file b i) = if_writing i"
  "if_in_file (set_in_file True i) = 0x100"
  "if_in_file (set_in_file False i) = 0"
  by (rule bit_word_eqI, auto simp: index_bits split: if_splits)+

lemma set_if_writing_frame [field_simps_idx]:
  "get_idx (set_if_writing b i) = get_idx i"
  "get_fid (set_if_writing b i) = get_fid i"
  "if_in_hash (set_if_writing b i) = if_in_hash i"
  "if_writing (set_if_writing True i) = 0x400"
  "if_writing (set_if_writing False i) = 0"
  "if_in_file (set_if_writing True i) = if_in_file i"
  by (rule bit_word_eqI, auto simp: index_bits split: if_splits)+

lemma set_in_hash_valid [field_simps_idx]: "if_valid (set_in_hash True i) \<noteq> 0"
proof
  assume "if_valid (set_in_hash True i) = 0"
  then have "\<not> bit (if_valid (set_in_hash True i)) 9" by simp
  then show False by (simp add: index_bits)
qed

lemma Index_new_fields [field_simps_idx]:
  "get_idx Index_new = 0" "get_fid Index_new = 0" "if_valid Index_new = 0"
  "if_in_file Index_new = 0" "if_in_hash Index_new = 0" "if_writing Index_new = 0"
  by (simp_all add: index_defs Index_new_def)

text \<open>A position below 2^20 written over one below 2^18 is read back, and the file number
  and the flags survive; so for buffer slots, which are below 1024, the packing is lossless.\<close>

lemma index_set_get:
  assumes "p < 0x100000" and "get_idx i < 0x40000"
  shows "get_idx (set_idx p i) = p \<and> get_fid (set_idx p i) = get_fid i
    \<and> if_in_file (set_idx p i) = if_in_file i \<and> if_in_hash (set_idx p i) = if_in_hash i
    \<and> if_writing (set_idx p i) = if_writing i"
  using assms by (simp add: get_idx_set_idx_small field_simps_idx)

lemma index_set_get_example:
  "get_idx (Index_of 7) = 7 \<and> get_idx (set_idx 1023 (set_in_file True (Index_of 7))) = 1023
   \<and> if_in_file (set_idx 1023 (set_in_file True (Index_of 7))) = 0x100"
proof -
  have seven: "get_idx (Index_of 7) = 7" by (simp add: Index_of_def index_defs)
  then show ?thesis
    using index_set_get [of 1023 "set_in_file True (Index_of 7)"]
    by (simp add: field_simps_idx)
qed

text \<open>In general a position is not replaced: the mask of \<^verbatim>\<open>clear_idx\<close> keeps
  bits 18 and 19 of the old position, which are or-ed into the new one, and positions are
  cut to twenty bits.\<close>

lemma index_set_idx_stale_bits:
  "get_idx (set_idx p i) = (p AND 0xfffff) OR (get_idx i AND 0xc0000)"
  by (rule bit_word_eqI) (auto simp: index_bits)

text \<open>Clearing one flag clears another: \<^verbatim>\<open>set_if_writing(false)\<close> and
  \<^verbatim>\<open>set_in_hash(false)\<close> also erase the in-file flag, so an index of a dumped record
  afterwards looks like an index into the buffer; setting the flags is harmless.\<close>

lemma index_flag_clearing_erases_in_file:
  "if_in_file (set_if_writing False i) = 0 \<and> if_in_file (set_in_hash False i) = 0
   \<and> if_in_file (set_if_writing True i) = if_in_file i
   \<and> if_in_file (set_in_hash True i) = if_in_file i"
  by (intro conjI; rule bit_word_eqI) (auto simp: index_bits)

text \<open>A file number fits eight bits; file number 256 is stored as number 0 with the
  in-file flag set, whatever the flag was.\<close>

lemma index_fid_256: "get_fid (set_fid 256 i) = 0 \<and> if_in_file (set_fid 256 i) = 0x100"
  by (intro conjI; rule bit_word_eqI) (auto simp: index_bits)

end
