(* ===== verification/Key_Hash.thy ===== *)
theory Key_Hash
  imports Index_Word
begin

text \<open>
  The hash function of \<^verbatim>\<open>engine_race/DBSystem/Index.cpp\<close>: \<^verbatim>\<open>crc32\<close>
  over the eight bytes of a key with its table, and Robert Jenkins' mixing steps of
  \<^verbatim>\<open>hash_key\<close>. The table is shown to be the one of the reflected polynomial
  0xEDB88320 and the mixing to be injective, so that two keys share a hash value only through
  the CRC or the final reduction modulo the table size.
\<close>

subsection \<open>The hash function\<close>

definition crc32_tab :: "u32 list" where
  "crc32_tab = [
     0x00000000, 0x77073096, 0xee0e612c, 0x990951ba, 0x076dc419,
     0x706af48f, 0xe963a535, 0x9e6495a3, 0x0edb8832, 0x79dcb8a4,
     0xe0d5e91e, 0x97d2d988, 0x09b64c2b, 0x7eb17cbd, 0xe7b82d07,
     0x90bf1d91, 0x1db71064, 0x6ab020f2, 0xf3b97148, 0x84be41de,
     0x1adad47d, 0x6ddde4eb, 0xf4d4b551, 0x83d385c7, 0x136c9856,
     0x646ba8c0, 0xfd62f97a, 0x8a65c9ec, 0x14015c4f, 0x63066cd9,
     0xfa0f3d63, 0x8d080df5, 0x3b6e20c8, 0x4c69105e, 0xd56041e4,
     0xa2677172, 0x3c03e4d1, 0x4b04d447, 0xd20d85fd, 0xa50ab56b,
     0x35b5a8fa, 0x42b2986c, 0xdbbbc9d6, 0xacbcf940, 0x32d86ce3,
     0x45df5c75, 0xdcd60dcf, 0xabd13d59, 0x26d930ac, 0x51de003a,
     0xc8d75180, 0xbfd06116, 0x21b4f4b5, 0x56b3c423, 0xcfba9599,
     0xb8bda50f, 0x2802b89e, 0x5f058808, 0xc60cd9b2, 0xb10be924,
     0x2f6f7c87, 0x58684c11, 0xc1611dab, 0xb6662d3d, 0x76dc4190,
     0x01db7106, 0x98d220bc, 0xefd5102a, 0x71b18589, 0x06b6b51f,
     0x9fbfe4a5, 0xe8b8d433, 0x7807c9a2, 0x0f00f934, 0x9609a88e,
     0xe10e9818, 0x7f6a0dbb, 0x086d3d2d, 0x91646c97, 0xe6635c01,
     0x6b6b51f4, 0x1c6c6162, 0x856530d8, 0xf262004e, 0x6c0695ed,
     0x1b01a57b, 0x8208f4c1, 0xf50fc457, 0x65b0d9c6, 0x12b7e950,
     0x8bbeb8ea, 0xfcb9887c, 0x62dd1ddf, 0x15da2d49, 0x8cd37cf3,
     0xfbd44c65, 0x4db26158, 0x3ab551ce, 0xa3bc0074, 0xd4bb30e2,
     0x4adfa541, 0x3dd895d7, 0xa4d1c46d, 0xd3d6f4fb, 0x4369e96a,
     0x346ed9fc, 0xad678846, 0xda60b8d0, 0x44042d73, 0x33031de5,
     0xaa0a4c5f, 0xdd0d7cc9, 0x5005713c, 0x270241aa, 0xbe0b1010,
     0xc90c2086, 0x5768b525, 0x206f85b3, 0xb966d409, 0xce61e49f,
     0x5edef90e, 0x29d9c998, 0xb0d09822, 0xc7d7a8b4, 0x59b33d17,
     0x2eb40d81, 0xb7bd5c3b, 0xc0ba6cad, 0xedb88320, 0x9abfb3b6,
     0x03b6e20c, 0x74b1d29a, 0xead54739, 0x9dd277af, 0x04db2615,
     0x73dc1683, 0xe3630b12, 0x94643b84, 0x0d6d6a3e, 0x7a6a5aa8,
     0xe40ecf0b, 0x9309ff9d, 0x0a00ae27, 0x7d079eb1, 0xf00f9344,
     0x8708a3d2, 0x1e01f268, 0x6906c2fe, 0xf762575d, 0x806567cb,
     0x196c3671, 0x6e6b06e7, 0xfed41b76, 0x89d32be0, 0x10da7a5a,
     0x67dd4acc, 0xf9b9df6f, 0x8ebeeff9, 0x17b7be43, 0x60b08ed5,
     0xd6d6a3e8, 0xa1d1937e, 0x38d8c2c4, 0x4fdff252, 0xd1bb67f1,
     0xa6bc5767, 0x3fb506dd, 0x48b2364b, 0xd80d2bda, 0xaf0a1b4c,
     0x36034af6, 0x41047a60, 0xdf60efc3, 0xa867df55, 0x316e8eef,
     0x4669be79, 0xcb61b38c, 0xbc66831a, 0x256fd2a0, 0x5268e236,
     0xcc0c7795, 0xbb0b4703, 0x220216b9, 0x5505262f, 0xc5ba3bbe,
     0xb2bd0b28, 0x2bb45a92, 0x5cb36a04, 0xc2d7ffa7, 0xb5d0cf31,
     0x2cd99e8b, 0x5bdeae1d, 0x9b64c2b0, 0xec63f226, 0x756aa39c,
     0x026d930a, 0x9c0906a9, 0xeb0e363f, 0x72076785, 0x05005713,
     0x95bf4a82, 0xe2b87a14, 0x7bb12bae, 0x0cb61b38, 0x92d28e9b,
     0xe5d5be0d, 0x7cdcefb7, 0x0bdbdf21, 0x86d3d2d4, 0xf1d4e242,
     0x68ddb3f8, 0x1fda836e, 0x81be16cd, 0xf6b9265b, 0x6fb077e1,
     0x18b74777, 0x88085ae6, 0xff0f6a70, 0x66063bca, 0x11010b5c,
     0x8f659eff, 0xf862ae69, 0x616bffd3, 0x166ccf45, 0xa00ae278,
     0xd70dd2ee, 0x4e048354, 0x3903b3c2, 0xa7672661, 0xd06016f7,
     0x4969474d, 0x3e6e77db, 0xaed16a4a, 0xd9d65adc, 0x40df0b66,
     0x37d83bf0, 0xa9bcae53, 0xdebb9ec5, 0x47b2cf7f, 0x30b5ffe9,
     0xbdbdf21c, 0xcabac28a, 0x53b39330, 0x24b4a3a6, 0xbad03605,
     0xcdd70693, 0x54de5729, 0x23d967bf, 0xb3667a2e, 0xc4614ab8,
     0x5d681b02, 0x2a6f2b94, 0xb40bbe37, 0xc30c8ea1, 0x5a05df1b,
     0x2d02ef8d]"

text \<open>
  The eight bytes of a key as they lie in memory (little endian), and the loop of
  \<^verbatim>\<open>crc32\<close>. The table index is below 256 by the mask.
\<close>

definition key_bytes :: "KEY_T \<Rightarrow> u8 list" where
  "key_bytes k = map (\<lambda>i. ucast (drop_bit (8 * i) k)) [0..<8]"

definition crc32_step :: "u8 \<Rightarrow> u32 \<Rightarrow> u32" where
  "crc32_step s crc32val =
     crc32_tab ! unat ((crc32val XOR ucast s) AND 0xff) XOR drop_bit 8 crc32val"

definition crc32 :: "u8 list \<Rightarrow> u32" where
  "crc32 s = fold crc32_step s 0"

definition jenkins_mix :: "u32 \<Rightarrow> u32" where
  "jenkins_mix key =
    (let key = key + push_bit 12 key;
         key = key XOR drop_bit 22 key;
         key = key + push_bit 4 key;
         key = key XOR drop_bit 9 key;
         key = key + push_bit 10 key;
         key = key XOR drop_bit 2 key;
         key = key + push_bit 7 key;
         key = key XOR drop_bit 12 key
     in key)"

definition hash_key :: "KEY_T \<Rightarrow> u32" where
  "hash_key key_in = jenkins_mix (crc32 (key_bytes key_in)) mod HASH_TABLE_SIZE"

text \<open>The byte loop of \<^verbatim>\<open>crc32\<close> over the memory of the key is bounded by eight.\<close>

lemma length_key_bytes [simp]: "length (key_bytes k) = 8"
  by (simp add: key_bytes_def)

lemma hash_key_bound: "hash_key k < HASH_TABLE_SIZE"
  by (simp add: hash_key_def HASH_TABLE_SIZE_def word_less_nat_alt unat_mod_distrib)

subsection \<open>The CRC table against the polynomial\<close>

text \<open>One bit and one byte of the reflected CRC-32 with the polynomial 0xEDB88320.\<close>

definition crc_bit :: "u32 \<Rightarrow> u32" where
  "crc_bit c = (if bit c 0 then drop_bit 1 c XOR 0xEDB88320 else drop_bit 1 c)"

definition crc_byte :: "u32 \<Rightarrow> u32" where
  "crc_byte c = (crc_bit ^^ 8) c"

text \<open>The same on natural numbers, where the numerals are cheap to compute with.\<close>

definition crc_bit_nat :: "nat \<Rightarrow> nat" where
  "crc_bit_nat c = (if odd c then (c div 2) XOR 0xEDB88320 else c div 2)"

definition crc_byte_nat :: "nat \<Rightarrow> nat" where
  "crc_byte_nat c = crc_bit_nat (crc_bit_nat (crc_bit_nat (crc_bit_nat
     (crc_bit_nat (crc_bit_nat (crc_bit_nat (crc_bit_nat c)))))))"

lemma unat_crc_bit: "unat (crc_bit c) = crc_bit_nat (unat c)"
proof -
  have "odd (unat c) \<longleftrightarrow> bit c 0"
    by (simp add: bit_unsigned_iff flip: bit_0)
  moreover have "unat (drop_bit 1 c) = unat c div 2"
    unfolding drop_bit_eq_div power_one_right by (simp add: unat_div_distrib)
  ultimately show ?thesis
    by (simp add: crc_bit_def crc_bit_nat_def unsigned_xor_eq)
qed

lemma unat_crc_byte: "unat (crc_byte c) = crc_byte_nat (unat c)"
  by (simp add: crc_byte_def crc_byte_nat_def unat_crc_bit eval_nat_numeral)

lemmas crc_nat_eval =
  crc_bit_nat_def [of "numeral k" for k] crc_bit_nat_def [of 0] crc_bit_nat_def [of "Suc 0"]
  crc_byte_nat_def [of "numeral k" for k] crc_byte_nat_def [of 0] crc_byte_nat_def [of "Suc 0"]

lemmas upt_eval = upt_rec_numeral upt_rec [of 0 "numeral k" for k]
  upt_rec [of "Suc 0" "numeral k" for k]

lemma length_crc32_tab [simp]: "length crc32_tab = 256"
  by (simp add: crc32_tab_def)

lemma crc32_tab_eval: "map crc_byte_nat [0..<256] = map unat crc32_tab"
  by (simp add: crc_nat_eval crc32_tab_def upt_eval flip: numeral_2_eq_2)

lemma crc32_tab_nth:
  assumes "n < 256"
  shows "crc32_tab ! n = crc_byte (of_nat n)"
proof -
  have "unat (crc32_tab ! n) = map crc_byte_nat [0..<256] ! n"
    using assms by (simp only: crc32_tab_eval nth_map length_crc32_tab)
  also have "\<dots> = unat (crc_byte (of_nat n))"
    using assms by (simp add: unat_crc_byte unat_of_nat)
  finally show ?thesis by (simp add: word_unat_eq_iff)
qed

subsection \<open>The table-driven loop is the bit-serial one\<close>

lemma crc_bit_xor: "crc_bit (x XOR y) = crc_bit x XOR crc_bit y"
  by (rule bit_word_eqI) (simp add: crc_bit_def bit_xor_iff bit_drop_bit_eq, blast)

lemma crc_bit_even: "\<not> bit x 0 \<Longrightarrow> crc_bit x = drop_bit 1 x"
  by (simp add: crc_bit_def)

lemma crc_bits_xor: "(crc_bit ^^ n) (x XOR y) = (crc_bit ^^ n) x XOR (crc_bit ^^ n) y"
  by (induction n) (simp_all add: crc_bit_xor)

lemma crc_byte_xor: "crc_byte (x XOR y) = crc_byte x XOR crc_byte y"
  by (simp add: crc_byte_def crc_bits_xor)

lemma crc_bits_zero_low:
  "(\<And>m. m < n \<Longrightarrow> \<not> bit x m) \<Longrightarrow> (crc_bit ^^ n) x = drop_bit n x"
proof (induction n)
  case (Suc n)
  then have "(crc_bit ^^ n) x = drop_bit n x" by simp
  moreover have "\<not> bit (drop_bit n x) 0" using Suc.prems [of n] by (simp add: bit_drop_bit_eq)
  ultimately show ?case by (simp add: crc_bit_even)
qed simp

lemma crc_byte_push: "crc_byte (push_bit 8 x) = drop_bit 8 (push_bit 8 x)"
  unfolding crc_byte_def by (rule crc_bits_zero_low) (simp add: bit_push_bit_iff)

lemma crc32_step_serial: "crc32_step s c = crc_byte (c XOR ucast s)"
proof -
  let ?x = "c XOR ucast s"
  define m where "m = (0xff :: u32)"
  have m: "bit m n \<longleftrightarrow> n < 8" for n by (simp only: m_def mask_bits)
  have split: "?x = (?x AND m) XOR (?x AND NOT m)"
    by (rule bit_word_eqI) (auto simp: bit_simps)
  have low: "unat (?x AND m) < 256"
  proof -
    have "?x AND m \<le> m" by (rule word_and_le1)
    then show ?thesis by (simp add: word_le_nat_alt m_def)
  qed
  have "crc_byte (?x AND NOT m) = drop_bit 8 (?x AND NOT m)"
    unfolding crc_byte_def
    by (rule crc_bits_zero_low) (auto simp: bit_and_iff bit_not_iff m)
  also have "\<dots> = drop_bit 8 c"
    by (rule bit_word_eqI)
      (auto simp: bit_simps m dest: bit_imp_le_length)
  finally have "crc_byte ?x = crc_byte (?x AND m) XOR drop_bit 8 c"
    by (subst split) (simp add: crc_byte_xor)
  moreover have "crc32_tab ! unat (?x AND m) = crc_byte (?x AND m)"
    using low by (simp add: crc32_tab_nth)
  ultimately show ?thesis by (simp add: crc32_step_def m_def)
qed

text \<open>C35: The table-driven \<^verbatim>\<open>crc32\<close> computes the CRC-32 of the reflected
  polynomial 0xEDB88320 (start value zero, no final inversion): it equals the bit-serial
  register, for byte strings of any length. All 256 table entries are right.\<close>

theorem crc32_bit_serial: "crc32 s = fold (\<lambda>b c. (crc_bit ^^ 8) (c XOR ucast b)) s 0"
  unfolding crc32_def
  by (rule fold_cong) (simp_all add: fun_eq_iff crc32_step_serial crc_byte_def)

subsection \<open>What the hash keeps apart\<close>

text \<open>The polynomial has its top bit set, so one CRC step can be undone.\<close>

lemma inj_crc_bit: "inj crc_bit"
proof (rule injI)
  fix x y assume eq: "crc_bit x = crc_bit y"
  have P: "bit (0xEDB88320 :: u32) 31" by (simp add: bit_numeral_word_iff)
  have top: "bit (crc_bit z) 31 \<longleftrightarrow> bit z 0" for z
    using P bit_imp_le_length [of z 32]
    by (auto simp: crc_bit_def bit_xor_iff bit_drop_bit_eq simp del: bit_numeral_word_iff)
  with eq have lsb: "bit x 0 \<longleftrightarrow> bit y 0" by metis
  with eq have "drop_bit 1 x = drop_bit 1 y"
    by (auto simp: crc_bit_def word_xor_right_cancel split: if_splits)
  then have "bit (drop_bit 1 x) n = bit (drop_bit 1 y) n" for n by (rule arg_cong)
  with lsb have "bit x n = bit y n" for n
    by (cases n) (simp_all add: bit_drop_bit_eq)
  then show "x = y" by (rule bit_word_eqI)
qed

lemma inj_crc_byte: "inj crc_byte"
  using inj_fn [OF inj_crc_bit] by (simp add: crc_byte_def [abs_def])

lemma crc32_step_inj: "crc32_step b c = crc32_step b d \<longleftrightarrow> c = d"
proof
  assume "crc32_step b c = crc32_step b d"
  then have "ucast b XOR c = ucast b XOR d"
    by (simp only: crc32_step_serial inj_eq [OF inj_crc_byte] xor.commute)
  then show "c = d" by (simp only: word_xor_left_cancel)
qed simp

lemma crc32_fold_inj: "fold crc32_step bs c = fold crc32_step bs d \<longleftrightarrow> c = d"
  by (induction bs arbitrary: c d) (simp_all add: crc32_step_inj)

text \<open>Feeding four bytes is feeding their little-endian word at once.\<close>

definition le_word :: "u8 \<Rightarrow> u8 \<Rightarrow> u8 \<Rightarrow> u8 \<Rightarrow> u32" where
  "le_word a b c d = ucast a XOR push_bit 8 (ucast b) XOR push_bit 16 (ucast c)
     XOR push_bit 24 (ucast d)"

lemma drop_push_byte: "drop_bit 8 (push_bit n (ucast (b :: u8)) :: u32) = push_bit (n - 8) (ucast b)"
  if "8 \<le> n" "n \<le> 24" for n
  by (rule bit_word_eqI) (use that in \<open>auto simp: bit_simps add.commute dest: bit_imp_le_length\<close>)

lemma crc_byte_push_byte:
  assumes "8 \<le> n" "n \<le> 24"
  shows "crc_byte (push_bit n (ucast (b :: u8))) = push_bit (n - 8) (ucast b)"
proof -
  have "crc_byte (push_bit n (ucast b)) = drop_bit 8 (push_bit n (ucast b))"
    unfolding crc_byte_def by (rule crc_bits_zero_low) (use assms in \<open>simp add: bit_push_bit_iff\<close>)
  then show ?thesis using drop_push_byte [OF assms] by simp
qed

lemma crc32_four:
  "fold crc32_step [a, b, c, d] x = (crc_byte ^^ 4) (x XOR le_word a b c d)"
proof -
  have p: "crc_byte (push_bit 8 (ucast v)) = ucast v"
    "crc_byte (push_bit 16 (ucast v)) = push_bit 8 (ucast v)"
    "crc_byte (push_bit 24 (ucast v)) = push_bit 16 (ucast v)" for v :: u8
    by (simp_all add: crc_byte_push_byte)
  have "(crc_byte ^^ 4) y = crc_byte (crc_byte (crc_byte (crc_byte y)))" for y
    by (simp add: eval_nat_numeral)
  then show ?thesis
    by (simp add: crc32_step_serial le_word_def crc_byte_xor p xor.assoc)
qed

lemma le_word_inj:
  assumes "le_word a b c d = le_word a' b' c' d'"
  shows "a = a' \<and> b = b' \<and> c = c' \<and> d = d'"
proof -
  have byte: "(ucast (le_word a b c d) :: u8) = a"
    "(ucast (drop_bit 8 (le_word a b c d)) :: u8) = b"
    "(ucast (drop_bit 16 (le_word a b c d)) :: u8) = c"
    "(ucast (drop_bit 24 (le_word a b c d)) :: u8) = d" for a b c d
    by (rule bit_word_eqI, auto simp: le_word_def bit_simps dest: bit_imp_le_length)+
  show ?thesis
    using byte [of a b c d] unfolding assms byte by (intro conjI) (rule sym, assumption)+
qed

text \<open>Keys that differ only within four consecutive bytes have different CRC values; in
  particular the decimal test keys with four varying digits do.\<close>

lemma crc32_window_injective:
  assumes "length w = 4" and "length w' = 4" and "w \<noteq> w'"
  shows "crc32 (pre @ w @ post) \<noteq> crc32 (pre @ w' @ post)"
proof -
  let ?c = "fold crc32_step pre 0"
  obtain a b c d a' b' c' d' where w: "w = [a, b, c, d]" "w' = [a', b', c', d']"
    using assms(1,2) by (auto simp: numeral_eq_Suc length_Suc_conv)
  with assms(3) have "le_word a b c d \<noteq> le_word a' b' c' d'"
    using le_word_inj by blast
  then have "?c XOR le_word a b c d \<noteq> ?c XOR le_word a' b' c' d'"
    by (simp only: word_xor_left_cancel not_False_eq_True)
  then have "fold crc32_step w ?c \<noteq> fold crc32_step w' ?c"
    unfolding w crc32_four using inj_fn [OF inj_crc_byte, of 4] by (simp add: inj_eq)
  then show ?thesis by (simp add: crc32_def crc32_fold_inj)
qed

lemma crc32_window_injective_example:
  "crc32 ([0x30] @ [1, 2, 3, 4] @ [0x30, 0x30, 0x30]) \<noteq> crc32 ([0x30] @ [1, 2, 3, 5] @ [0x30, 0x30, 0x30])"
  by (rule crc32_window_injective) simp_all

text \<open>The mixing steps of \<^verbatim>\<open>hash_key\<close> are a permutation of the 32-bit words:
  no two CRC values are merged before the reduction modulo the table size.\<close>

lemma jenkins_mix_inj: "inj jenkins_mix"
proof -
  define add xorr where "add k x = x + push_bit k x" and "xorr k x = x XOR drop_bit k x"
    for k :: nat and x :: u32
  have steps: "jenkins_mix = xorr 12 \<circ> add 7 \<circ> xorr 2 \<circ> add 10 \<circ> xorr 9 \<circ> add 4 \<circ> xorr 22 \<circ> add 12"
    by (simp add: fun_eq_iff jenkins_mix_def add_def xorr_def Let_def)
  have inj: "inj (add k)" "inj (xorr k)" if "0 < k" for k
    using inj_add_shift_left [OF that, where 'a = 32] inj_xor_shift_right [OF that, where 'a = 32]
    by (simp_all add: add_def [abs_def] xorr_def [abs_def])
  show ?thesis unfolding steps by (intro inj_compose inj) simp_all
qed

end
