(* ===== verification/Store_Spec.thy ===== *)
theory Store_Spec
  imports Prelude
begin

text \<open>
  The interfaces on which the components of the engines rely.

  \<^item> \<open>keyed_store\<close>: a fallible map from keys to values with a well-formedness invariant. The
    hash index, the skip list and the hash file of the example engine provide it.
  \<^item> \<open>open_addressing\<close>: a table that is searched along a fixed probe sequence per key, up to
    the first slot that is free or holds the key. The two hash tables provide it.
  \<^item> \<open>fifo\<close> and \<open>bounded_fifo\<close>: a queue whose operations may block. The wait queue and the
    list of free record slots provide them.
\<close>

subsection \<open>Keyed stores\<close>

text \<open>
  \<open>merge\<close> says which value is stored when a value is written over another one (or over
  nothing); \<open>update\<close> is \<^term>\<open>None\<close> where the code stops.
\<close>

locale keyed_store =
  fixes invar :: "'t \<Rightarrow> bool"
    and lookup :: "'t \<Rightarrow> 'k \<Rightarrow> 'v option"
    and update :: "'k \<Rightarrow> 'v \<Rightarrow> 't \<Rightarrow> 't option"
    and merge :: "'v option \<Rightarrow> 'v \<Rightarrow> 'v"
  assumes update_invar: "invar t \<Longrightarrow> update k v t = Some t' \<Longrightarrow> invar t'"
    and update_lookup: "invar t \<Longrightarrow> update k v t = Some t' \<Longrightarrow>
      lookup t' = (lookup t)(k \<mapsto> merge (lookup t k) v)"
begin

text \<open>Writing a list of pairs, in order; the first failure stops.\<close>

fun update_all :: "('k \<times> 'v) list \<Rightarrow> 't \<Rightarrow> 't option" where
  "update_all [] t = Some t"
| "update_all ((k, v) # kvs) t = Option.bind (update k v t) (update_all kvs)"

lemma update_same: "invar t \<Longrightarrow> update k v t = Some t' \<Longrightarrow> lookup t' k = Some (merge (lookup t k) v)"
  by (simp add: update_lookup)

lemma update_other: "invar t \<Longrightarrow> update k v t = Some t' \<Longrightarrow> k' \<noteq> k \<Longrightarrow> lookup t' k' = lookup t k'"
  by (simp add: update_lookup)

lemma update_dom: "invar t \<Longrightarrow> update k v t = Some t' \<Longrightarrow> dom (lookup t') = insert k (dom (lookup t))"
  by (auto simp: update_lookup)

lemma update_all_ConsE:
  assumes "invar t" and "update_all (kv # kvs) t = Some t'"
  obtains u where "update (fst kv) (snd kv) t = Some u" and "update_all kvs u = Some t'"
    and "invar u"
  using assms by (cases kv) (auto simp: Option.bind_eq_Some_conv intro: update_invar)

lemma update_all_invar: "invar t \<Longrightarrow> update_all kvs t = Some t' \<Longrightarrow> invar t'"
  by (induction kvs arbitrary: t) (simp, blast elim: update_all_ConsE)

text \<open>The value of a key depends only on what was written under that key.\<close>

lemma update_all_lookup:
  assumes "invar t" and "update_all kvs t = Some t'"
  shows "lookup t' k
    = fold (\<lambda>kv old. Some (merge old (snd kv))) (filter (\<lambda>kv. fst kv = k) kvs) (lookup t k)"
  using assms
proof (induction kvs arbitrary: t)
  case (Cons kv kvs)
  from Cons.prems obtain u where u: "update (fst kv) (snd kv) t = Some u"
    "update_all kvs u = Some t'" "invar u" by (rule update_all_ConsE)
  show ?case
    using Cons.IH [OF u(3,2)] update_lookup [OF Cons.prems(1) u(1)] by simp
qed simp

lemma update_all_other:
  assumes "invar t" and "update_all kvs t = Some t'" and "k \<notin> fst ` set kvs"
  shows "lookup t' k = lookup t k"
proof -
  have "filter (\<lambda>kv. fst kv = k) kvs = []"
    using assms(3) by (auto simp: filter_empty_conv)
  with update_all_lookup [OF assms(1,2)] show ?thesis by simp
qed

end

subsection \<open>Open addressing\<close>

text \<open>
  \<open>occ t a\<close> is the key in slot \<open>a\<close>, if the slot is taken; \<open>slot k n\<close> is the
  \<open>n\<close>-th slot tried for the key; \<open>search\<close> is the code's search, which gives up after
  \<open>N\<close> slots.
\<close>

definition probe_stops :: "('t \<Rightarrow> 'a \<Rightarrow> 'k option) \<Rightarrow> 't \<Rightarrow> 'k \<Rightarrow> 'a \<Rightarrow> bool" where
  "probe_stops occ t k a \<longleftrightarrow> occ t a = None \<or> occ t a = Some k"

definition probe_first ::
  "('t \<Rightarrow> 'a \<Rightarrow> 'k option) \<Rightarrow> ('k \<Rightarrow> nat \<Rightarrow> 'a) \<Rightarrow> nat \<Rightarrow> 't \<Rightarrow> 'k \<Rightarrow> 'a \<Rightarrow> bool" where
  "probe_first occ slot N t k a \<longleftrightarrow> (\<exists>n < N. a = slot k n \<and> probe_stops occ t k a
     \<and> (\<forall>m < n. \<not> probe_stops occ t k (slot k m)))"

text \<open>The table invariant: every stored key is found where it is stored.\<close>

definition probe_wf :: "('t \<Rightarrow> 'a \<Rightarrow> 'k option) \<Rightarrow> ('t \<Rightarrow> 'k \<Rightarrow> 'a option) \<Rightarrow> 't \<Rightarrow> bool" where
  "probe_wf occ search t \<longleftrightarrow> (\<forall>a k. occ t a = Some k \<longrightarrow> search t k = Some a)"

locale open_addressing =
  fixes occ :: "'t \<Rightarrow> 'a \<Rightarrow> 'k option"
    and slot :: "'k \<Rightarrow> nat \<Rightarrow> 'a"
    and N :: nat
    and search :: "'t \<Rightarrow> 'k \<Rightarrow> 'a option"
  assumes search_iff: "search t k = Some a \<longleftrightarrow> probe_first occ slot N t k a"
begin

lemma search_stops: "search t k = Some a \<Longrightarrow> probe_stops occ t k a"
  by (auto simp: search_iff probe_first_def)

lemma search_None_iff: "search t k = None \<longleftrightarrow> (\<forall>n < N. \<not> probe_stops occ t k (slot k n))"
proof
  assume none: "search t k = None"
  have False if "n < N" "probe_stops occ t k (slot k n)" for n
  proof -
    let ?P = "\<lambda>n. n < N \<and> probe_stops occ t k (slot k n)"
    have "?P (LEAST n. ?P n)" using that by (intro LeastI [of ?P]) blast
    moreover have "\<not> probe_stops occ t k (slot k m)" if "m < (LEAST n. ?P n)" for m
      using that not_less_Least [OF that] calculation by auto
    ultimately have "search t k = Some (slot k (LEAST n. ?P n))"
      unfolding search_iff probe_first_def by blast
    with none show False by simp
  qed
  then show "\<forall>n < N. \<not> probe_stops occ t k (slot k n)" by blast
next
  assume "\<forall>n < N. \<not> probe_stops occ t k (slot k n)"
  then show "search t k = None"
    by (cases "search t k") (auto simp: search_iff probe_first_def)
qed

text \<open>Only the answers at the slots of the probe sequence matter.\<close>

lemma search_cong:
  assumes "\<And>n. n < N \<Longrightarrow> probe_stops occ t' k (slot k n) = probe_stops occ t k (slot k n)"
  shows "search t' k = search t k"
proof -
  have "search t' k = Some a \<longleftrightarrow> search t k = Some a" for a
    unfolding search_iff probe_first_def using assms by (metis less_trans)
  then show ?thesis by (metis option.exhaust)
qed

lemma search_same:
  assumes "search t k = Some a" and "occ t' = (occ t)(a \<mapsto> k)"
  shows "search t' k = Some a"
proof -
  have "probe_stops occ t' k b = probe_stops occ t k b" for b
    using search_stops [OF assms(1)] assms(2) by (auto simp: probe_stops_def)
  then have "search t' k = search t k" by (intro search_cong)
  with assms(1) show ?thesis by simp
qed

text \<open>
  Taking the slot that the search for \<open>k\<close> returned hides no other key, and does not make
  the search find a slot with another key in it.
\<close>

lemma search_other_taken:
  assumes wf: "probe_wf occ search t"
    and a: "search t k = Some a" and occ': "occ t' = (occ t)(a \<mapsto> k)"
    and "k' \<noteq> k" and b: "occ t b = Some k'"
  shows "search t' k' = Some b"
proof -
  have fb: "search t k' = Some b" using wf b by (simp add: probe_wf_def)
  have "b \<noteq> a"
    using search_stops [OF a] b \<open>k' \<noteq> k\<close> by (auto simp: probe_stops_def)
  then obtain n where n: "n < N" "b = slot k' n" "\<forall>m < n. \<not> probe_stops occ t k' (slot k' m)"
    using fb by (auto simp: search_iff probe_first_def)
  have "\<not> probe_stops occ t' k' (slot k' m)" if "m < n" for m
    using that n(3) \<open>k' \<noteq> k\<close> occ' by (auto simp: probe_stops_def)
  moreover have "probe_stops occ t' k' b"
    using b \<open>b \<noteq> a\<close> occ' by (simp add: probe_stops_def)
  ultimately show ?thesis
    using n by (auto simp: search_iff probe_first_def)
qed

lemma search_other_free:
  assumes wf: "probe_wf occ search t"
    and a: "search t k = Some a" and occ': "occ t' = (occ t)(a \<mapsto> k)"
    and "k' \<noteq> k" and new: "\<And>b. occ t b \<noteq> Some k'" and b: "search t' k' = Some b"
  shows "occ t' b = None"
  using search_stops [OF b] new [of b] occ' \<open>k' \<noteq> k\<close>
  by (auto simp: probe_stops_def split: if_splits)

lemma take_slot_wf:
  assumes wf: "probe_wf occ search t"
    and a: "search t k = Some a" and occ': "occ t' = (occ t)(a \<mapsto> k)"
  shows "probe_wf occ search t'"
  unfolding probe_wf_def
proof (intro allI impI)
  fix b k' assume b: "occ t' b = Some k'"
  show "search t' k' = Some b"
  proof (cases "k' = k")
    case True
    moreover have "b = a"
    proof (rule ccontr)
      assume "b \<noteq> a"
      with b occ' True have "occ t b = Some k" by simp
      with wf a \<open>b \<noteq> a\<close> show False by (simp add: probe_wf_def)
    qed
    ultimately show ?thesis using search_same [OF a occ'] by simp
  next
    case False
    with b occ' have "b \<noteq> a" by auto
    with b occ' have "occ t b = Some k'" by simp
    then show ?thesis by (rule search_other_taken [OF wf a occ' False])
  qed
qed

lemma keys_distinct:
  "probe_wf occ search t \<Longrightarrow> occ t a = Some k \<Longrightarrow> occ t b = Some k \<Longrightarrow> a = b"
  unfolding probe_wf_def by (metis option.inject)

end

subsection \<open>Queues\<close>

text \<open>
  \<open>items\<close> lists the content, oldest first. An operation that would block is \<^term>\<open>None\<close>.
\<close>

datatype 'a fifo_op = Push 'a | Pop

locale fifo =
  fixes items :: "'s \<Rightarrow> 'a list"
    and push :: "'a \<Rightarrow> 's \<Rightarrow> 's option"
    and pop :: "'s \<Rightarrow> ('a \<times> 's) option"
  assumes push_items: "push v s = Some s' \<Longrightarrow> items s' = items s @ [v]"
    and pop_items: "pop s = Some (v, s') \<Longrightarrow> items s = v # items s'"
    and pop_blocks: "pop s = None \<longleftrightarrow> items s = []"
begin

text \<open>A sequence of operations, with the values it takes out; it stops where one blocks.\<close>

fun fifo_run :: "'a fifo_op list \<Rightarrow> 's \<Rightarrow> ('a list \<times> 's) option" where
  "fifo_run [] s = Some ([], s)"
| "fifo_run (Push v # ops) s = Option.bind (push v s) (fifo_run ops)"
| "fifo_run (Pop # ops) s =
     Option.bind (pop s) (\<lambda>(v, s). map_option (\<lambda>(vs, s). (v # vs, s)) (fifo_run ops s))"

lemma fifo_run_order:
  "fifo_run ops s = Some (vs, s') \<Longrightarrow>
   items s @ concat (map (\<lambda>c. case c of Push v \<Rightarrow> [v] | Pop \<Rightarrow> []) ops) = vs @ items s'"
proof (induction ops arbitrary: s vs)
  case (Cons c ops)
  show ?case
  proof (cases c)
    case (Push v)
    with Cons.prems obtain u where u: "push v s = Some u" "fifo_run ops u = Some (vs, s')"
      by (auto simp: Option.bind_eq_Some_conv)
    from Cons.IH [OF u(2)] push_items [OF u(1)] Push show ?thesis by simp
  next
    case Pop
    with Cons.prems obtain v u ws where u: "pop s = Some (v, u)" "fifo_run ops u = Some (ws, s')"
      "vs = v # ws"
      by (auto simp: Option.bind_eq_Some_conv)
    from Cons.IH [OF u(2)] pop_items [OF u(1)] u(3) Pop show ?thesis by simp
  qed
qed simp

end

locale bounded_fifo = fifo items push pop
  for items :: "'s \<Rightarrow> 'a list" and push :: "'a \<Rightarrow> 's \<Rightarrow> 's option"
    and pop :: "'s \<Rightarrow> ('a \<times> 's) option" +
  fixes capacity :: nat
  assumes push_blocks: "push v s = None \<longleftrightarrow> capacity \<le> length (items s)"
begin

lemma push_room: "push v s = Some s' \<Longrightarrow> length (items s') \<le> capacity"
  using push_blocks [of v s] push_items [of v s s'] by auto

lemma fifo_run_bound:
  "fifo_run ops s = Some (vs, s') \<Longrightarrow> length (items s) \<le> capacity \<Longrightarrow> length (items s') \<le> capacity"
proof (induction ops arbitrary: s vs)
  case (Cons c ops)
  show ?case
  proof (cases c)
    case (Push v)
    with Cons.prems(1) obtain u where "push v s = Some u" "fifo_run ops u = Some (vs, s')"
      by (auto simp: Option.bind_eq_Some_conv)
    with Cons.IH push_room show ?thesis by blast
  next
    case Pop
    with Cons.prems(1) obtain v u ws where "pop s = Some (v, u)" "fifo_run ops u = Some (ws, s')"
      by (auto simp: Option.bind_eq_Some_conv)
    with Cons.IH [of u ws] Cons.prems(2) show ?thesis by (auto dest: pop_items)
  qed
qed simp

end

end
