(* ===== verification/Index_Map.thy ===== *)
theory Index_Map
  imports Key_Hash Store_Spec
begin

text \<open>
  The classes \<^verbatim>\<open>IndexHashMap\<close> and \<^verbatim>\<open>Indexer\<close> of
  \<^verbatim>\<open>engine_race/DBSystem/Index.cpp\<close>: an open-addressing table from keys to packed
  indices. The array of \<^verbatim>\<open>HASH_TABLE_SIZE\<close> pairs is a function on its positions; the
  search loop is proved to stay below that size. The theory shows which slots the loop visits,
  when an insertion can fail, and that the table implements a map.
\<close>

subsection \<open>The table and its operations\<close>

type_synonym table = "u32 \<Rightarrow> KeyIdxPair"

text \<open>The constructor clears the whole array.\<close>

definition IndexHashMap_new :: table where
  "IndexHashMap_new = (\<lambda>_. KeyIdxPair_new)"

text \<open>
  The search loop that \<^verbatim>\<open>update\<close> and \<^verbatim>\<open>get\<close> share, with the variables
  \<^verbatim>\<open>entry\<close> and \<^verbatim>\<open>search_cnt\<close> it ends with.
\<close>

function probe :: "table \<Rightarrow> KEY_T \<Rightarrow> u32 \<Rightarrow> u32 \<Rightarrow> u32 \<times> u32" where
  "probe data key entry search_cnt =
     (if search_cnt < HASH_TABLE_SIZE then
        let entry = (entry + search_cnt) mod HASH_TABLE_SIZE in
        if if_valid (kv_idx (data entry)) = 0 \<or> kv_key (data entry) = key
        then (entry, search_cnt)
        else probe data key entry (search_cnt + 1)
      else (entry, search_cnt))"
  by pat_completeness auto
termination
  by (relation "measure (\<lambda>(_, _, _, c). unat HASH_TABLE_SIZE - unat c)")
    (auto simp: HASH_TABLE_SIZE_def word_less_nat_alt unat_word_ariths)

declare probe.simps [simp del]

text \<open>
  \<^verbatim>\<open>update\<close> returns the number of conflicts; the \<^verbatim>\<open>assert\<close> after the loop
  is the result \<^term>\<open>None\<close>.
\<close>

definition IndexHashMap_update :: "KEY_T \<Rightarrow> Index \<Rightarrow> table \<Rightarrow> (table \<times> u32) option" where
  "IndexHashMap_update key index data =
     (let (entry, search_cnt) = probe data key (hash_key key) 0 in
      if search_cnt < HASH_TABLE_SIZE then
        let e = data entry;
            e = (if if_valid (kv_idx e) = 0 then e\<lparr>kv_key := key\<rparr> else e);
            e = e\<lparr>kv_idx := index\<rparr>;
            e = e\<lparr>kv_idx := set_in_hash True (kv_idx e)\<rparr>
        in Some (data(entry := e), search_cnt)
      else None)"

text \<open>\<^verbatim>\<open>get\<close> hands out the address of the slot, or returns -1 (\<^term>\<open>None\<close>).\<close>

definition IndexHashMap_get :: "KEY_T \<Rightarrow> table \<Rightarrow> u32 option" where
  "IndexHashMap_get key data =
     (let (entry, search_cnt) = probe data key (hash_key key) 0 in
      if if_valid (kv_idx (data entry)) = 0 \<or> HASH_TABLE_SIZE \<le> search_cnt then None
      else Some entry)"

text \<open>
  The class \<^verbatim>\<open>Indexer\<close> locks its mutex around the map's operations, so each is one
  atomic step. Where \<^verbatim>\<open>get\<close> finds nothing, the flag operations go on with an
  uninitialised pointer.
\<close>

definition Indexer_update :: "KEY_T \<Rightarrow> Index \<Rightarrow> table \<Rightarrow> (table \<times> u32) option" where
  "Indexer_update key idx data = IndexHashMap_update key idx data"

definition Indexer_get :: "KEY_T \<Rightarrow> table \<Rightarrow> u32 option" where
  "Indexer_get key data = IndexHashMap_get key data"

definition Indexer_set_if_writing :: "KEY_T \<Rightarrow> bool \<Rightarrow> table \<Rightarrow> table option" where
  "Indexer_set_if_writing key b data = do {
     tmp \<leftarrow> IndexHashMap_get key data;
     Some (data(tmp := (data tmp)\<lparr>kv_idx := set_if_writing b (kv_idx (data tmp))\<rparr>))
   }"

definition Indexer_get_if_writing :: "KEY_T \<Rightarrow> table \<Rightarrow> bool option" where
  "Indexer_get_if_writing key data = do {
     tmp \<leftarrow> IndexHashMap_get key data;
     Some (if_writing (kv_idx (data tmp)) \<noteq> 0)
   }"

subsection \<open>The probe sequence\<close>

abbreviation table_size :: nat where "table_size \<equiv> 68000000"

lemma unat_HASH_TABLE_SIZE [simp]: "unat HASH_TABLE_SIZE = table_size"
  by (simp add: HASH_TABLE_SIZE_def)

fun slot :: "u32 \<Rightarrow> nat \<Rightarrow> u32" where
  "slot h 0 = h mod HASH_TABLE_SIZE"
| "slot h (Suc n) = (slot h n + of_nat (Suc n)) mod HASH_TABLE_SIZE"

text \<open>The value of \<^verbatim>\<open>entry\<close> when the loop starts its \<open>n\<close>-th round.\<close>

fun before :: "u32 \<Rightarrow> nat \<Rightarrow> u32" where
  "before h 0 = h"
| "before h (Suc n) = slot h n"

lemma slot_before: "(before h n + of_nat n) mod HASH_TABLE_SIZE = slot h n"
  by (cases n) simp_all

text \<open>The key in a slot.\<close>

definition occ :: "table \<Rightarrow> u32 \<Rightarrow> KEY_T option" where
  "occ data a = (if if_valid (kv_idx (data a)) = 0 then None else Some (kv_key (data a)))"

definition key_slot :: "KEY_T \<Rightarrow> nat \<Rightarrow> u32" where
  "key_slot key n = slot (hash_key key) n"

definition search :: "table \<Rightarrow> KEY_T \<Rightarrow> u32 option" where
  "search data key =
     (let (entry, search_cnt) = probe data key (hash_key key) 0 in
      if search_cnt < HASH_TABLE_SIZE then Some entry else None)"

lemma occ_stops:
  "probe_stops occ data key a \<longleftrightarrow> if_valid (kv_idx (data a)) = 0 \<or> kv_key (data a) = key"
  by (simp add: probe_stops_def occ_def)

lemma unat_count: "n \<le> table_size \<Longrightarrow> unat (of_nat n :: u32) = n"
  by (simp add: unat_of_nat)

lemma count_less: "n \<le> table_size \<Longrightarrow> (of_nat n :: u32) < HASH_TABLE_SIZE \<longleftrightarrow> n < table_size"
  by (simp add: word_less_nat_alt unat_count)

lemma probe_round:
  assumes "n < table_size"
  shows "probe data key (before h n) (of_nat n) =
    (if probe_stops occ data key (slot h n) then (slot h n, of_nat n)
     else probe data key (before h (Suc n)) (of_nat (Suc n)))"
  using assms
  by (subst probe.simps)
    (simp add: count_less slot_before occ_stops Let_def add.commute [of "of_nat n" 1])

lemma probe_found:
  assumes "n \<le> m" and "m < table_size" and "probe_stops occ data key (slot h m)"
    and "\<And>j. n \<le> j \<Longrightarrow> j < m \<Longrightarrow> \<not> probe_stops occ data key (slot h j)"
  shows "probe data key (before h n) (of_nat n) = (slot h m, of_nat m)"
  using assms
proof (induction "m - n" arbitrary: n)
  case 0
  then show ?case by (simp add: probe_round)
next
  case (Suc d)
  then have "n < m" and stop: "\<not> probe_stops occ data key (slot h n)" by auto
  have "probe data key (before h (Suc n)) (of_nat (Suc n)) = (slot h m, of_nat m)"
    using Suc.hyps(2) Suc.prems by (intro Suc.hyps(1)) auto
  with \<open>n < m\<close> stop Suc.prems(2) show ?case
    by (simp only: probe_round if_False)
qed

lemma probe_exhausted:
  assumes "n \<le> table_size"
    and "\<And>j. n \<le> j \<Longrightarrow> j < table_size \<Longrightarrow> \<not> probe_stops occ data key (slot h j)"
  shows "probe data key (before h n) (of_nat n) = (before h table_size, HASH_TABLE_SIZE)"
  using assms
proof (induction "table_size - n" arbitrary: n)
  case 0
  then have "n = table_size" by simp
  then show ?case by (subst probe.simps) (simp add: HASH_TABLE_SIZE_def)
next
  case (Suc d)
  then have n: "n < table_size" by simp
  have "probe data key (before h (Suc n)) (of_nat (Suc n)) = (before h table_size, HASH_TABLE_SIZE)"
    using Suc.hyps(2) Suc.prems n by (intro Suc.hyps(1)) auto
  with n Suc.prems(2) [of n] show ?case
    by (simp only: probe_round if_False order_refl)
qed

lemma search_iff: "search data k = Some a \<longleftrightarrow> probe_first occ key_slot table_size data k a"
proof -
  let ?P = "\<lambda>n. n < table_size \<and> probe_stops occ data k (key_slot k n)"
  have at0: "probe data k (hash_key k) 0 = probe data k (before (hash_key k) 0) (of_nat 0)" by simp
  show ?thesis
  proof (cases "\<exists>n. ?P n")
    case True
    define m where "m = (LEAST n. ?P n)"
    have m: "?P m" unfolding m_def using True by (rule LeastI_ex)
    have less: "\<not> probe_stops occ data k (key_slot k j)" if "j < m" for j
      using not_less_Least [of j ?P] that m by (auto simp: m_def)
    have "search data k = Some (key_slot k m)"
      using m less unfolding search_def at0 key_slot_def
      by (subst probe_found [of 0 m]) (simp_all add: count_less)
    then show ?thesis
      using m less by (auto simp: probe_first_def) (metis linorder_neqE_nat)
  next
    case False
    then have "search data k = None"
      unfolding search_def at0
      by (subst probe_exhausted) (auto simp: key_slot_def)
    with False show ?thesis by (auto simp: probe_first_def)
  qed
qed

interpretation index_table: open_addressing occ key_slot table_size search
  by unfold_locales (rule search_iff)

subsection \<open>The table as a map\<close>

definition index_lookup :: "table \<Rightarrow> KEY_T \<Rightarrow> Index option" where
  "index_lookup data key = map_option (\<lambda>a. kv_idx (data a)) (IndexHashMap_get key data)"

text \<open>
  The invariant: every key sits where its search finds it, and the slots in use carry the
  in-hash flag, so that clearing another flag does not free a slot.
\<close>

definition index_inv :: "table \<Rightarrow> bool" where
  "index_inv data \<longleftrightarrow> probe_wf occ search data
     \<and> (\<forall>a. if_valid (kv_idx (data a)) \<noteq> 0 \<longrightarrow> if_in_hash (kv_idx (data a)) \<noteq> 0)"

lemma get_search:
  "IndexHashMap_get key data = Some a \<longleftrightarrow> search data key = Some a \<and> occ data a = Some key"
proof -
  have "probe_stops occ data key a" if "search data key = Some a"
    using that by (rule index_table.search_stops)
  then show ?thesis
    by (auto simp: IndexHashMap_get_def search_def occ_def probe_stops_def not_le
        split: prod.splits if_splits)
qed

lemma lookup_iff:
  "index_lookup data key = Some i \<longleftrightarrow>
   (\<exists>a. search data key = Some a \<and> occ data a = Some key \<and> i = kv_idx (data a))"
  by (auto simp: index_lookup_def get_search)

lemma update_search:
  "IndexHashMap_update key i data = Some (data', c) \<Longrightarrow> \<exists>a. search data key = Some a
     \<and> data' = data(a := \<lparr>kv_key = key, kv_idx = set_in_hash True i\<rparr>)"
proof -
  assume upd: "IndexHashMap_update key i data = Some (data', c)"
  obtain a n where pr: "probe data key (hash_key key) 0 = (a, n)" by fastforce
  with upd have "search data key = Some a"
    by (auto simp: IndexHashMap_update_def search_def split: if_splits)
  moreover from this have "if_valid (kv_idx (data a)) = 0 \<or> kv_key (data a) = key"
    using index_table.search_stops by (simp add: occ_stops)
  with upd pr have "data' = data(a := \<lparr>kv_key = key, kv_idx = set_in_hash True i\<rparr>)"
    by (auto simp: IndexHashMap_update_def Let_def split: if_splits)
  ultimately show ?thesis by blast
qed

lemma update_None: "IndexHashMap_update key i data = None \<longleftrightarrow> search data key = None"
  by (auto simp: IndexHashMap_update_def search_def Let_def split: prod.splits)

lemma occ_update:
  "occ (data(a := \<lparr>kv_key = key, kv_idx = set_in_hash True i\<rparr>)) = (occ data)(a \<mapsto> key)"
  by (auto simp: occ_def fun_eq_iff field_simps_idx)

lemma index_update_inv:
  assumes "index_inv data" and "IndexHashMap_update key i data = Some (data', c)"
  shows "index_inv data'"
proof -
  obtain a where a: "search data key = Some a"
    and data': "data' = data(a := \<lparr>kv_key = key, kv_idx = set_in_hash True i\<rparr>)"
    using update_search [OF assms(2)] by blast
  have wf: "probe_wf occ search data" using assms(1) by (simp add: index_inv_def)
  have "occ data' = (occ data)(a \<mapsto> key)" by (simp only: data' occ_update)
  with wf a have "probe_wf occ search data'" by (rule index_table.take_slot_wf)
  then show ?thesis
    using assms(1) by (simp add: index_inv_def data' field_simps_idx)
qed

lemma index_update_lookup:
  assumes inv: "index_inv data" and upd: "IndexHashMap_update key i data = Some (data', c)"
  shows "index_lookup data' = (index_lookup data)(key \<mapsto> set_in_hash True i)"
proof
  fix k
  obtain a where a: "search data key = Some a"
    and data': "data' = data(a := \<lparr>kv_key = key, kv_idx = set_in_hash True i\<rparr>)"
    using update_search [OF upd] by blast
  have occ': "occ data' = (occ data)(a \<mapsto> key)" by (simp add: data' occ_update)
  have wf: "probe_wf occ search data" using inv by (simp add: index_inv_def)
  show "index_lookup data' k = ((index_lookup data)(key \<mapsto> set_in_hash True i)) k"
  proof (cases "k = key")
    case True
    have "search data' key = Some a" using a occ' by (rule index_table.search_same)
    then have "index_lookup data' key = Some (set_in_hash True i)"
      by (simp add: lookup_iff occ') (simp add: data')
    with True show ?thesis by simp
  next
    case False
    show ?thesis
    proof (cases "\<exists>b. occ data b = Some k")
      case True
      then obtain b where b: "occ data b = Some k" by blast
      have "search data k = Some b" using wf b by (simp add: probe_wf_def)
      moreover have "search data' k = Some b"
        using wf a occ' False b by (rule index_table.search_other_taken)
      moreover have "b \<noteq> a"
        using index_table.search_stops [OF a] b False by (auto simp: probe_stops_def)
      ultimately have "index_lookup data' k = Some (kv_idx (data b))"
        and "index_lookup data k = Some (kv_idx (data b))"
        using b occ' by (simp_all add: lookup_iff) (simp add: data')
      with False show ?thesis by simp
    next
      case no: False
      then have "index_lookup data k = None"
        by (cases "index_lookup data k") (auto simp: lookup_iff)
      moreover have "index_lookup data' k = None"
      proof (cases "index_lookup data' k")
        case (Some j)
        then obtain b where "search data' k = Some b" "occ data' b = Some k"
          by (auto simp: lookup_iff)
        with no False occ' show ?thesis by (auto split: if_splits)
      qed
      ultimately show ?thesis using False by simp
    qed
  qed
qed

lemma index_new_inv: "index_inv IndexHashMap_new"
  by (simp add: index_inv_def probe_wf_def occ_def IndexHashMap_new_def KeyIdxPair_new_def
      field_simps_idx)

lemma index_new_lookup: "index_lookup IndexHashMap_new = Map.empty"
proof
  fix k show "index_lookup IndexHashMap_new k = None"
    by (cases "index_lookup IndexHashMap_new k")
      (auto simp: lookup_iff occ_def IndexHashMap_new_def KeyIdxPair_new_def field_simps_idx)
qed

definition index_store :: "KEY_T \<Rightarrow> Index \<Rightarrow> table \<Rightarrow> table option" where
  "index_store key i data = map_option fst (IndexHashMap_update key i data)"

interpretation index_map: keyed_store index_inv index_lookup index_store "\<lambda>_ i. set_in_hash True i"
  by unfold_locales (auto simp: index_store_def index_update_inv index_update_lookup)

text \<open>C26: Whenever \<^verbatim>\<open>IndexHashMap::update\<close> returns, the table is again
  well-formed, the key maps to the new index with its in-hash flag set, and every other key maps
  to what it mapped to before, for tables of any contents and any collisions.\<close>

theorem index_map_update:
  assumes "index_inv data" and "IndexHashMap_update key i data = Some (data', c)"
  shows "index_inv data' \<and> index_lookup data' = (index_lookup data)(key \<mapsto> set_in_hash True i)"
proof -
  have "index_store key i data = Some data'" using assms(2) by (simp add: index_store_def)
  with assms(1) show ?thesis
    using index_map.update_invar index_map.update_lookup by blast
qed

lemma slot_closed:
  assumes "h < HASH_TABLE_SIZE" and "n < table_size"
  shows "unat (slot h n) = (unat h + n * (n + 1) div 2) mod table_size"
  using assms(2)
proof (induction n)
  case 0
  then show ?case by (simp add: unat_mod_distrib)
next
  case (Suc n)
  have lt: "unat (slot h n) < table_size"
    by (cases n) (simp_all add: unat_mod_distrib)
  have sn: "unat (of_nat (Suc n) :: u32) = Suc n" using Suc.prems by (intro unat_count) simp
  have "unat (slot h n) + unat (of_nat (Suc n) :: u32) < 2 ^ LENGTH(32)"
    unfolding sn using lt Suc.prems by simp
  then have "unat (slot h n + of_nat (Suc n)) = unat (slot h n) + Suc n"
    by (simp only: unat_add_lem) (simp only: sn)
  then have "unat (slot h (Suc n)) = (unat (slot h n) + Suc n) mod table_size"
    by (simp add: unat_mod_distrib)
  also have "\<dots> = (unat h + (n * (n + 1) div 2 + Suc n)) mod table_size"
    using Suc.IH Suc.prems by (simp only: mod_add_left_eq Suc_lessD add.assoc [symmetric])
  also have "n * (n + 1) div 2 + Suc n = Suc n * (Suc n + 1) div 2"
    by (simp add: algebra_simps)
  finally show ?case .
qed

lemma slot_bound: "slot h n < HASH_TABLE_SIZE"
  by (cases n) (simp_all add: word_less_nat_alt unat_mod_distrib)

text \<open>Which slots a search can return, in terms of the loop itself.\<close>

lemma probe_result:
  assumes "probe data key h 0 = (entry, cnt)" and "cnt < HASH_TABLE_SIZE"
  shows "entry = slot h (unat cnt) \<and> unat cnt < table_size"
proof -
  let ?P = "\<lambda>n. n < table_size \<and> probe_stops occ data key (slot h n)"
  have start: "probe data key h 0 = probe data key (before h 0) (of_nat 0)" by simp
  have "\<exists>n. ?P n"
    using assms probe_exhausted [of 0 data key h] unfolding start by fastforce
  then have m: "?P (LEAST n. ?P n)" by (rule LeastI_ex)
  have "probe data key h 0 = (slot h (LEAST n. ?P n), of_nat (LEAST n. ?P n))"
    unfolding start
  proof (rule probe_found)
    fix j assume j: "j < (LEAST n. ?P n)"
    then show "\<not> probe_stops occ data key (slot h j)"
      using not_less_Least [OF j] m by linarith
  qed (use m in auto)
  with assms(1) m show ?thesis by (auto simp: unat_count)
qed

text \<open>The search loop stays inside the array and its unsigned additions never wrap: a
  search that ends after \<open>c\<close> conflicts ends at the slot \<open>h + c(c+1)/2\<close> modulo the
  table size (the increment grows by one each round, so the probing is triangular, not
  linear).\<close>

lemma probe_triangular:
  assumes "h < HASH_TABLE_SIZE" and "probe data key h 0 = (entry, cnt)" and "cnt < HASH_TABLE_SIZE"
  shows "unat entry = (unat h + unat cnt * (unat cnt + 1) div 2) mod 68000000
    \<and> entry < HASH_TABLE_SIZE"
  using probe_result [OF assms(2,3)] slot_closed [OF assms(1)] slot_bound by simp

text \<open>A table whose first two slots on the way of key 5 are taken.\<close>

definition collision_example :: table where
  "collision_example = IndexHashMap_new
     (10 := \<lparr>kv_key = 1, kv_idx = \<lparr>status = 0x200\<rparr>\<rparr>,
      11 := \<lparr>kv_key = 2, kv_idx = \<lparr>status = 0x200\<rparr>\<rparr>)"

lemma probe_triangular_example:
  "probe collision_example 5 10 0 = (13, 2)
   \<and> unat (13 :: u32) = (unat (10 :: u32) + unat (2 :: u32) * (unat (2 :: u32) + 1) div 2) mod 68000000
   \<and> (13 :: u32) < HASH_TABLE_SIZE"
proof -
  have pr: "probe collision_example 5 10 0 = (13, 2)"
    by (simp add: collision_example_def probe.simps HASH_TABLE_SIZE_def Let_def if_valid_def
        IndexHashMap_new_def KeyIdxPair_new_def Index_new_def)
  with probe_triangular [OF _ pr] show ?thesis by (simp add: HASH_TABLE_SIZE_def)
qed

lemma two_triangular: "2 * (c * (c + 1) div 2) = c * (c + 1 :: nat)"
  by simp

lemma triangular_mod_5: "(c * (c + 1) div 2) mod 5 \<in> {0, 1, 3 :: nat}"
proof -
  define t where "t = c * (c + 1) div 2"
  define r where "r = c mod 5"
  have "r * (r + 1) mod 5 = (c mod 5) * ((c mod 5 + 1) mod 5) mod 5"
    by (simp only: r_def mod_mult_right_eq)
  also have "\<dots> = c * (c + 1) mod 5"
    by (simp only: mod_add_left_eq mod_mult_eq)
  also have "\<dots> = 2 * t mod 5"
    unfolding t_def two_triangular ..
  finally have "2 * t mod 5 = r * (r + 1) mod 5" ..
  moreover have "r = 0 \<or> r = 1 \<or> r = 2 \<or> r = 3 \<or> r = 4" unfolding r_def by presburger
  ultimately have "2 * t mod 5 = 0 \<or> 2 * t mod 5 = 1 \<or> 2 * t mod 5 = 2" by auto
  then have "t mod 5 = 0 \<or> t mod 5 = 1 \<or> t mod 5 = 3" by presburger
  then show ?thesis unfolding t_def by simp
qed

lemma apart_mod_5:
  fixes e h d :: nat
  assumes "e mod 5 = (h + d) mod 5" and "d \<in> {0, 1, 3}"
  shows "e mod 5 \<noteq> (h + 2) mod 5 \<and> e mod 5 \<noteq> (h + 4) mod 5"
proof -
  define r where "r = h mod 5"
  have shift: "(h + k) mod 5 = (r + k) mod 5" for k by (simp add: r_def mod_simps)
  have "r = 0 \<or> r = 1 \<or> r = 2 \<or> r = 3 \<or> r = 4" unfolding r_def by linarith
  with assms show ?thesis unfolding shift by auto
qed

text \<open>The search never looks at two fifths of the table: no slot at distance 2 or 4
  modulo 5 from the hash value of the key is ever tried. So the assertion "max hash table size
  reached" does not mean that the table is full: it can fail while two slots in five are free.\<close>

lemma probe_never_reaches:
  assumes "h < HASH_TABLE_SIZE" and "probe data key h 0 = (entry, cnt)" and "cnt < HASH_TABLE_SIZE"
  shows "unat entry mod 5 \<noteq> (unat h + 2) mod 5 \<and> unat entry mod 5 \<noteq> (unat h + 4) mod 5"
proof -
  let ?t = "unat cnt * (unat cnt + 1) div 2"
  have "unat entry = (unat h + ?t) mod 68000000"
    using probe_result [OF assms(2,3)] slot_closed [OF assms(1)] by simp
  then have "unat entry mod 5 = (unat h + ?t mod 5) mod 5"
    by (simp add: mod_mod_cancel mod_add_right_eq)
  moreover have "?t mod 5 \<in> {0, 1, 3}" by (rule triangular_mod_5)
  ultimately show ?thesis using apart_mod_5 by metis
qed

lemma probe_never_reaches_example:
  "probe collision_example 5 10 0 = (13, 2)
   \<and> unat (13 :: u32) mod 5 \<noteq> (unat (10 :: u32) + 2) mod 5
   \<and> unat (13 :: u32) mod 5 \<noteq> (unat (10 :: u32) + 4) mod 5"
proof -
  have pr: "probe collision_example 5 10 0 = (13, 2)"
    by (simp add: collision_example_def probe.simps HASH_TABLE_SIZE_def Let_def if_valid_def
        IndexHashMap_new_def KeyIdxPair_new_def Index_new_def)
  with probe_never_reaches [OF _ pr] show ?thesis by (simp add: HASH_TABLE_SIZE_def)
qed

text \<open>The first 11662 slots of every probe sequence are different.\<close>

lemma triangular_mono: "m \<le> n \<Longrightarrow> m * (m + 1) div 2 \<le> n * (n + 1) div (2 :: nat)"
  by (intro div_le_mono mult_le_mono) simp_all

lemma triangular_strict: "m < n \<Longrightarrow> m * (m + 1) div 2 < n * (n + 1) div (2 :: nat)"
proof -
  assume "m < n"
  then have "m * (m + 1) div 2 < Suc m * (Suc m + 1) div 2" by simp
  also have "\<dots> \<le> n * (n + 1) div 2" using \<open>m < n\<close> by (intro triangular_mono) simp
  finally show ?thesis .
qed

lemma inj_on_slot: "h < HASH_TABLE_SIZE \<Longrightarrow> inj_on (slot h) {..<11662}"
proof (rule linorder_inj_onI')
  fix m n :: nat
  assume h: "h < HASH_TABLE_SIZE" and n: "n \<in> {..<11662}" and "m < n"
  have t: "m * (m + 1) div 2 < n * (n + 1) div 2" using \<open>m < n\<close> by (rule triangular_strict)
  have "n * (n + 1) div 2 \<le> 11661 * (11661 + 1) div 2"
    using n by (intro triangular_mono) simp
  then have tn: "n * (n + 1) div 2 < table_size" by simp
  show "slot h m \<noteq> slot h n"
  proof
    assume "slot h m = slot h n"
    then have "(unat h + m * (m + 1) div 2) mod table_size = (unat h + n * (n + 1) div 2) mod table_size"
      using slot_closed [OF h, of m] slot_closed [OF h, of n] n \<open>m < n\<close> by simp
    then have "table_size dvd (unat h + n * (n + 1) div 2) - (unat h + m * (m + 1) div 2)"
      using t by (intro iffD1 [OF mod_eq_dvd_iff_nat]) (simp_all only: add_le_mono less_imp_le order_refl)
    then have "table_size dvd n * (n + 1) div 2 - m * (m + 1) div 2"
      by (simp only: diff_cancel)
    then have "table_size \<le> n * (n + 1) div 2 - m * (m + 1) div 2"
      using t by (intro dvd_imp_le) simp_all
    with tn show False by linarith
  qed
qed

lemma index_update_card:
  assumes "card {a. occ data a \<noteq> None} < 11662"
  shows "\<exists>data' c. IndexHashMap_update key i data = Some (data', c)"
proof (rule ccontr)
  assume "\<nexists>data' c. IndexHashMap_update key i data = Some (data', c)"
  then have "search data key = None"
    by (metis update_None not_None_eq surj_pair)
  then have "\<forall>n < table_size. \<not> probe_stops occ data key (key_slot key n)"
    by (simp only: index_table.search_None_iff)
  then have "slot (hash_key key) ` {..<11662} \<subseteq> {a. occ data a \<noteq> None}"
    by (auto simp: probe_stops_def key_slot_def)
  then have "card (slot (hash_key key) ` {..<11662}) \<le> card {a. occ data a \<noteq> None}"
    by (intro card_mono) simp_all
  with assms show False
    using card_image [OF inj_on_slot [OF hash_key_bound]] by simp
qed

lemma index_new_occ: "card {a. occ IndexHashMap_new a \<noteq> None} < 11662"
  by (simp add: occ_def IndexHashMap_new_def KeyIdxPair_new_def field_simps_idx)

text \<open>An insertion succeeds as long as fewer than 11662 slots of the table are in use,
  wherever they are; this is the number of different slots every search is sure to try.\<close>

lemma index_update_succeeds:
  assumes "card {a. occ data a \<noteq> None} < 11662"
  shows "\<exists>data' c. IndexHashMap_update key i data = Some (data', c)"
  using assms by (rule index_update_card)

lemma index_update_succeeds_example:
  "card {a. occ IndexHashMap_new a \<noteq> None} < 11662
   \<and> (\<exists>data' c. IndexHashMap_update 7 (Index_of 3) IndexHashMap_new = Some (data', c))"
  using index_update_succeeds [OF index_new_occ] index_new_occ by blast

theorem index_map_update_witness:
  "\<exists>data c. IndexHashMap_update 7 (Index_of 3) IndexHashMap_new = Some (data, c)
    \<and> index_lookup data 7 = Some (set_in_hash True (Index_of 3)) \<and> index_lookup data 8 = None"
proof -
  obtain data c where upd: "IndexHashMap_update 7 (Index_of 3) IndexHashMap_new = Some (data, c)"
    using index_update_card [OF index_new_occ] by blast
  with index_map_update [OF index_new_inv upd] show ?thesis
    by (simp add: index_new_lookup)
qed

subsection \<open>Histories of the index, and the writing flag\<close>

text \<open>A run of updates, as the test \<^verbatim>\<open>test_hash_index\<close> makes them; the first failed
  assertion stops it.\<close>

fun Indexer_updates :: "(KEY_T \<times> Index) list \<Rightarrow> table \<Rightarrow> table option" where
  "Indexer_updates [] data = Some data"
| "Indexer_updates ((k, i) # kis) data = do {
     (data, _) \<leftarrow> Indexer_update k i data;
     Indexer_updates kis data
   }"

lemma Indexer_updates_all: "Indexer_updates kis data = index_map.update_all kis data"
proof (induction kis data rule: Indexer_updates.induct)
  case (2 k i kis data)
  show ?case
  proof (cases "IndexHashMap_update k i data")
    case None
    then have "index_store k i data = None" by (simp add: index_store_def)
    with None show ?thesis by (simp add: Indexer_update_def)
  next
    case (Some r)
    then obtain data' c where r: "IndexHashMap_update k i data = Some (data', c)"
      by (cases r) simp
    then have "index_store k i data = Some data'" by (simp add: index_store_def)
    with r 2 show ?thesis by (simp add: Indexer_update_def)
  qed
qed simp

lemma last_write_fold:
  "fold (\<lambda>kv old. Some (f (snd kv))) (filter (\<lambda>kv. fst kv = k) kvs) None
   = map_option f (map_of (rev kvs) k)"
  by (induction kvs rule: rev_induct) auto

text \<open>After any sequence of updates of a fresh table the value of a key is the index of
  its last update (with the in-hash flag), and \<^verbatim>\<open>get\<close> reports -1 exactly for the keys
  never written.\<close>

lemma index_map_history:
  assumes "Indexer_updates kis IndexHashMap_new = Some data"
  shows "index_lookup data k = map_option (set_in_hash True) (map_of (rev kis) k)
    \<and> (Indexer_get k data = None \<longleftrightarrow> k \<notin> fst ` set kis)"
proof -
  have "index_lookup data k = map_option (set_in_hash True) (map_of (rev kis) k)"
    using index_map.update_all_lookup [OF index_new_inv, of kis data k] assms
    by (simp add: Indexer_updates_all index_new_lookup last_write_fold)
  moreover have "map_of (rev kis) k = None \<longleftrightarrow> k \<notin> fst ` set kis"
    by (simp add: map_of_eq_None_iff)
  moreover have "Indexer_get k data = None \<longleftrightarrow> index_lookup data k = None"
    by (simp add: Indexer_get_def index_lookup_def)
  ultimately show ?thesis by simp
qed

lemma index_map_history_example:
  "\<exists>data. Indexer_updates [(7, Index_of 3)] IndexHashMap_new = Some data
    \<and> index_lookup data 7 = Some (set_in_hash True (Index_of 3)) \<and> Indexer_get 8 data = None"
proof -
  obtain data c where "IndexHashMap_update 7 (Index_of 3) IndexHashMap_new = Some (data, c)"
    using index_update_card [of IndexHashMap_new 7 "Index_of 3"] index_new_occ by auto
  then have run: "Indexer_updates [(7, Index_of 3)] IndexHashMap_new = Some data"
    by (simp add: Indexer_update_def)
  from index_map_history [OF run, of 7] index_map_history [OF run, of 8] run show ?thesis
    by simp
qed

lemma set_if_writing_valid:
  "if_in_hash i \<noteq> 0 \<Longrightarrow> if_valid (set_if_writing b i) \<noteq> 0"
proof
  assume hash: "if_in_hash i \<noteq> 0" and zero: "if_valid (set_if_writing b i) = 0"
  have "bit (status i) 9"
  proof (rule ccontr)
    assume "\<not> bit (status i) 9"
    then have "if_in_hash i = 0" by (intro bit_word_eqI) (auto simp: index_bits)
    with hash show False by simp
  qed
  then have "bit (if_valid (set_if_writing b i)) 9" by (simp add: index_bits)
  with zero show False by simp
qed

text \<open>\<^verbatim>\<open>Indexer::set_if_writing\<close> on a stored key keeps the table well-formed,
  changes this key's index only, and is undefined (an uninitialised pointer) for a key that is
  not stored.\<close>

lemma Indexer_set_if_writing_correct:
  assumes inv: "index_inv data"
  shows "case index_lookup data key of
      None \<Rightarrow> Indexer_set_if_writing key b data = None
    | Some i \<Rightarrow> \<exists>data'. Indexer_set_if_writing key b data = Some data' \<and> index_inv data'
        \<and> index_lookup data' = (index_lookup data)(key \<mapsto> set_if_writing b i)"
proof (cases "index_lookup data key")
  case None
  then show ?thesis by (simp add: index_lookup_def Indexer_set_if_writing_def)
next
  case (Some i)
  then obtain a where a: "search data key = Some a" "occ data a = Some key" "i = kv_idx (data a)"
    by (auto simp: lookup_iff)
  define data' where "data' = data(a := (data a)\<lparr>kv_idx := set_if_writing b i\<rparr>)"
  have run: "Indexer_set_if_writing key b data = Some data'"
    using a by (simp add: Indexer_set_if_writing_def data'_def get_search [THEN iffD2])
  have "if_in_hash i \<noteq> 0" using inv a by (auto simp: index_inv_def occ_def split: if_splits)
  then have valid: "if_valid (set_if_writing b i) \<noteq> 0" by (rule set_if_writing_valid)
  have occ': "occ data' = occ data"
    using a valid by (auto simp: fun_eq_iff occ_def data'_def split: if_splits)
  have srch: "search data' k = search data k" for k
    by (rule index_table.search_cong) (simp add: probe_stops_def occ')
  have "index_inv data'"
    using inv \<open>if_in_hash i \<noteq> 0\<close> occ' srch
    by (auto simp: index_inv_def probe_wf_def data'_def field_simps_idx)
  moreover have "index_lookup data' = (index_lookup data)(key \<mapsto> set_if_writing b i)"
  proof (intro ext option_eqI)
    fix k j
    have neq: "c \<noteq> a" if "occ data c = Some k" "k \<noteq> key" for c
      using that a(2) by auto
    have idx': "kv_idx (data' c) = (if c = a then set_if_writing b i else kv_idx (data c))" for c
      by (simp add: data'_def)
    show "index_lookup data' k = Some j
        \<longleftrightarrow> ((index_lookup data)(key \<mapsto> set_if_writing b i)) k = Some j"
    proof (cases "k = key")
      case True
      with a show ?thesis by (auto simp: lookup_iff srch occ' idx')
    next
      case False
      then have "index_lookup data' k = Some j \<longleftrightarrow> index_lookup data k = Some j"
        unfolding lookup_iff srch occ' idx' using neq by metis
      with False show ?thesis by simp
    qed
  qed
  ultimately show ?thesis using run Some by auto
qed

lemma Indexer_set_if_writing_correct_example:
  "index_inv IndexHashMap_new \<and> Indexer_set_if_writing 5 True IndexHashMap_new = None
   \<and> (\<exists>data data'. Indexer_updates [(7, Index_of 3)] IndexHashMap_new = Some data
     \<and> Indexer_set_if_writing 7 True data = Some data'
     \<and> index_lookup data' 7 = Some (set_if_writing True (set_in_hash True (Index_of 3))))"
proof (intro conjI)
  show "index_inv IndexHashMap_new" by (rule index_new_inv)
  show "Indexer_set_if_writing 5 True IndexHashMap_new = None"
    using Indexer_set_if_writing_correct [OF index_new_inv, of 5 True]
    by (simp add: index_new_lookup)
  obtain data c where upd: "IndexHashMap_update 7 (Index_of 3) IndexHashMap_new = Some (data, c)"
    using index_update_card [OF index_new_occ] by blast
  have inv: "index_inv data" using index_new_inv upd by (rule index_update_inv)
  have "index_lookup data 7 = Some (set_in_hash True (Index_of 3))"
    using index_update_lookup [OF index_new_inv upd] by simp
  with Indexer_set_if_writing_correct [OF inv, of 7 True]
  obtain data' where "Indexer_set_if_writing 7 True data = Some data'"
    and "index_lookup data' 7 = Some (set_if_writing True (set_in_hash True (Index_of 3)))"
    by auto
  with upd show "\<exists>data data'. Indexer_updates [(7, Index_of 3)] IndexHashMap_new = Some data
     \<and> Indexer_set_if_writing 7 True data = Some data'
     \<and> index_lookup data' 7 = Some (set_if_writing True (set_in_hash True (Index_of 3)))"
    by (auto simp: Indexer_update_def)
qed

end
