(* ===== verification/Skip_List.thy ===== *)
theory Skip_List
  imports Index_Word Store_Spec
begin

text \<open>
  \<^verbatim>\<open>engine_race/DBSystem/SkipList.h\<close> and \<^verbatim>\<open>SkipList.cpp\<close>: a skip list with one vector of
  nodes per level. In every vector node 0 is the head: its \<^verbatim>\<open>next\<close> starts the data chain
  and its \<^verbatim>\<open>bottom\<close> starts the chain of free nodes, which is linked through
  \<^verbatim>\<open>next\<close>; 0 ends a chain. In a data node \<^verbatim>\<open>bottom\<close> is the node with the same
  key one level below.

  This theory holds the program; its correctness is in \<^verbatim>\<open>Skip_List_Correct\<close>.
\<close>

record SkipListNode =
  nd_data :: KeyIdxPair
  nd_next :: nat
  nd_bottom :: nat

definition SkipListNode_new :: SkipListNode where
  "SkipListNode_new = \<lparr>nd_data = KeyIdxPair_new, nd_next = 0, nd_bottom = 0\<rparr>"

text \<open>
  \<^verbatim>\<open>data_mutex\<close> and \<^verbatim>\<open>dumping_mutex\<close> are locked around single operations,
  except that a successful \<^verbatim>\<open>try_lock\<close> keeps the former until \<^verbatim>\<open>un_lock\<close>:
  \<^term>\<open>sk_locked\<close> says that it is held.
\<close>

record SkipList =
  sk_data :: "SkipListNode list list"
  sk_capacity :: "nat list"
  sk_id :: u32
  sk_dumping :: bool
  sk_locked :: bool

subsection \<open>Construction and free nodes\<close>

text \<open>Pushing nodes onto the free chain, in order; both the constructor and the resizing do it.\<close>

fun push_empty :: "nat list \<Rightarrow> SkipListNode list \<Rightarrow> SkipListNode list option" where
  "push_empty [] l = Some l"
| "push_empty (j # js) l = do {
     head \<leftarrow> vget l 0;
     node \<leftarrow> vget l j;
     l \<leftarrow> vset l j (node\<lparr>nd_next := nd_bottom head\<rparr>);
     head \<leftarrow> vget l 0;
     l \<leftarrow> vset l 0 (head\<lparr>nd_bottom := j\<rparr>);
     push_empty js l
   }"

definition SkipList_level_new :: "SkipListNode list option" where
  "SkipList_level_new =
     push_empty [1..<SKIP_LIST_INIT_CAPACITY] (replicate SKIP_LIST_INIT_CAPACITY SkipListNode_new)"

definition SkipList_new :: "u32 \<Rightarrow> SkipList option" where
  "SkipList_new list_id = do {
     level \<leftarrow> SkipList_level_new;
     Some \<lparr>sk_data = replicate SKIP_LIST_MAX_HEIGHT level,
       sk_capacity = replicate SKIP_LIST_MAX_HEIGHT (SKIP_LIST_INIT_CAPACITY - 1),
       sk_id = list_id, sk_dumping = False, sk_locked = False\<rparr>
   }"

text \<open>
  Doubling a full level. Sizes and node numbers are exact naturals here; the model stops where
  the code's cast of the size to \<^verbatim>\<open>int\<close> would leave its range.
\<close>

definition level_resize :: "SkipListNode list \<Rightarrow> SkipListNode list option" where
  "level_resize list_level =
     (let pre_size = length list_level in
      push_empty [pre_size..<pre_size * 2] (list_level @ replicate pre_size SkipListNode_new))"

definition check_and_resize :: "nat \<Rightarrow> SkipList \<Rightarrow> SkipList option" where
  "check_and_resize level s = do {
     cap \<leftarrow> vget (sk_capacity s) level;
     if cap \<le> 0 then do {
       list_level \<leftarrow> vget (sk_data s) level;
       let pre_size = length list_level;
       list_level \<leftarrow> level_resize list_level;
       caps \<leftarrow> vset (sk_capacity s) level pre_size;
       data \<leftarrow> vset (sk_data s) level list_level;
       if pre_size < 2 ^ 31 then Some (s\<lparr>sk_data := data, sk_capacity := caps\<rparr>) else None
     } else Some s
   }"

text \<open>
  The height of a new node. \<open>rnd i\<close> is what the \<open>i\<close>-th call of \<^verbatim>\<open>random()\<close>
  during this insertion returns; the call comes before the test of the height.
\<close>

function height_from :: "(nat \<Rightarrow> nat) \<Rightarrow> nat \<Rightarrow> nat" where
  "height_from rnd k =
     (if rnd (k - 1) mod POSSIBILITY_GEN_UPPER = 0 \<and> k < SKIP_LIST_MAX_HEIGHT
      then height_from rnd (k + 1) else k)"
  by pat_completeness auto
termination
  by (relation "measure (\<lambda>(_, k). SKIP_LIST_MAX_HEIGHT - k)") auto

declare height_from.simps [simp del]

definition get_insert_height :: "(nat \<Rightarrow> nat) \<Rightarrow> nat" where
  "get_insert_height rnd = height_from rnd 1"

definition cnt_ns :: "SkipList \<Rightarrow> int option" where
  "cnt_ns s = do {
     level \<leftarrow> vget (sk_data s) 0;
     cap \<leftarrow> vget (sk_capacity s) 0;
     Some (int (length level) - int cap - 1)
   }"

subsection \<open>Searching\<close>

fun highest_from :: "SkipListNode list list \<Rightarrow> nat \<Rightarrow> nat option" where
  "highest_from data 0 = Some 0"
| "highest_from data (Suc ret) = do {
     level \<leftarrow> vget data (Suc ret);
     head \<leftarrow> vget level 0;
     if nd_next head \<noteq> 0 then Some (Suc ret) else highest_from data ret
   }"

definition get_heighest_level :: "SkipList \<Rightarrow> nat option" where
  "get_heighest_level s = highest_from (sk_data s) (length (sk_data s) - 1)"

text \<open>The inner loop of \<^verbatim>\<open>get\<close>; on a cyclic chain it might not return.\<close>

partial_function (option) walk :: "SkipListNode list \<Rightarrow> KEY_T \<Rightarrow> nat \<Rightarrow> nat option" where
  "walk level key curridx = do {
     node \<leftarrow> vget level curridx;
     if nd_next node = 0 then Some curridx
     else do {
       succ \<leftarrow> vget level (nd_next node);
       if kv_key (nd_data succ) \<le> key then walk level key (nd_next node) else Some curridx
     }
   }"

declare walk.simps [code]

text \<open>Once the key is found, the way down to level 0, with the rest of the trace.\<close>

fun descend :: "SkipListNode list list \<Rightarrow> nat \<Rightarrow> nat \<Rightarrow> nat list \<Rightarrow> (nat \<times> nat list) option" where
  "descend data 0 curridx trace = Some (curridx, trace)"
| "descend data (Suc lvl) curridx trace = do {
     level \<leftarrow> vget data (Suc lvl);
     node \<leftarrow> vget level curridx;
     descend data lvl (nd_bottom node) (trace @ [curridx])
   }"

text \<open>One round of the outer loop: the node reached, and whether it carries the key.\<close>

definition search_level ::
  "SkipListNode list list \<Rightarrow> KEY_T \<Rightarrow> nat \<Rightarrow> nat \<Rightarrow> (nat \<times> SkipListNode \<times> bool) option" where
  "search_level data key lvl curridx = do {
     level \<leftarrow> vget data lvl;
     curridx \<leftarrow> walk level key curridx;
     node \<leftarrow> vget level curridx;
     Some (curridx, node, (curridx \<noteq> 0 \<or> key \<noteq> 0) \<and> kv_key (nd_data node) = key)
   }"

text \<open>The outer loop: the node at level 0 (\<^term>\<open>None\<close> for -1) and the trace.\<close>

fun get_from ::
  "SkipListNode list list \<Rightarrow> KEY_T \<Rightarrow> nat \<Rightarrow> nat \<Rightarrow> nat list \<Rightarrow> (nat option \<times> nat list) option" where
  "get_from data key 0 curridx trace = do {
     (curridx, node, found) \<leftarrow> search_level data key 0 curridx;
     if found then do {
       (ret, trace) \<leftarrow> descend data 0 curridx trace;
       Some (Some ret, trace)
     } else Some (None, trace @ [curridx])
   }"
| "get_from data key (Suc lvl) curridx trace = do {
     (curridx, node, found) \<leftarrow> search_level data key (Suc lvl) curridx;
     if found then do {
       (ret, trace) \<leftarrow> descend data (Suc lvl) curridx trace;
       Some (Some ret, trace)
     } else
       get_from data key lvl (if curridx \<noteq> 0 then nd_bottom node else curridx) (trace @ [curridx])
   }"

text \<open>
  \<^verbatim>\<open>get\<close>: the node and its index (the output argument \<^verbatim>\<open>*arg\<close>), and the trace.
\<close>

definition SkipList_get :: "KEY_T \<Rightarrow> SkipList \<Rightarrow> ((nat \<times> Index) option \<times> nat list) option" where
  "SkipList_get key s = do {
     heighestLevel \<leftarrow> get_heighest_level s;
     (ret, trace) \<leftarrow> get_from (sk_data s) key heighestLevel 0 [];
     case ret of
       None \<Rightarrow> Some (None, trace)
     | Some ret \<Rightarrow> do {
         level \<leftarrow> vget (sk_data s) 0;
         node \<leftarrow> vget level ret;
         Some (Some (ret, kv_idx (nd_data node)), trace)
       }
   }"

definition direct_get :: "nat \<Rightarrow> SkipList \<Rightarrow> Index option" where
  "direct_get lvl0_idx s = do {
     level \<leftarrow> vget (sk_data s) 0;
     node \<leftarrow> vget level lvl0_idx;
     Some (kv_idx (nd_data node))
   }"

subsection \<open>Insertion\<close>

text \<open>The changes of \<^verbatim>\<open>insert_after\<close> to one level, one assignment after the other.\<close>

definition level_insert ::
  "KEY_T \<Rightarrow> Index \<Rightarrow> nat \<Rightarrow> SkipListNode list \<Rightarrow> (SkipListNode list \<times> nat) option" where
  "level_insert key index insert_node_idx l = do {
     head \<leftarrow> vget l 0;
     let empty_node_idx = nd_bottom head;
     empty_node \<leftarrow> vget l empty_node_idx;
     l \<leftarrow> vset l 0 (head\<lparr>nd_bottom := nd_next empty_node\<rparr>);
     insert_node \<leftarrow> vget l insert_node_idx;
     empty_node \<leftarrow> vget l empty_node_idx;
     l \<leftarrow> vset l empty_node_idx (empty_node\<lparr>nd_next := nd_next insert_node\<rparr>);
     insert_node \<leftarrow> vget l insert_node_idx;
     l \<leftarrow> vset l insert_node_idx (insert_node\<lparr>nd_next := empty_node_idx\<rparr>);
     empty_node \<leftarrow> vget l empty_node_idx;
     l \<leftarrow> vset l empty_node_idx (empty_node\<lparr>nd_data := \<lparr>kv_key = key, kv_idx = index\<rparr>\<rparr>);
     Some (l, empty_node_idx)
   }"

definition insert_after ::
  "KEY_T \<Rightarrow> Index \<Rightarrow> nat \<Rightarrow> nat \<Rightarrow> SkipList \<Rightarrow> (SkipList \<times> nat) option" where
  "insert_after key index level insert_node_idx s = do {
     list_level \<leftarrow> vget (sk_data s) level;
     cap \<leftarrow> vget (sk_capacity s) level;
     if cap = 0 then None
     else do {
       (list_level, empty_node_idx) \<leftarrow> level_insert key index insert_node_idx list_level;
       data \<leftarrow> vset (sk_data s) level list_level;
       caps \<leftarrow> vset (sk_capacity s) level (cap - 1);
       s \<leftarrow> check_and_resize level (s\<lparr>sk_data := data, sk_capacity := caps\<rparr>);
       Some (s, empty_node_idx)
     }
   }"

definition set_node_bottom :: "nat \<Rightarrow> nat \<Rightarrow> nat \<Rightarrow> SkipList \<Rightarrow> SkipList option" where
  "set_node_bottom level node_idx below s = do {
     l \<leftarrow> vget (sk_data s) level;
     node \<leftarrow> vget l node_idx;
     l \<leftarrow> vset l node_idx (node\<lparr>nd_bottom := below\<rparr>);
     data \<leftarrow> vset (sk_data s) level l;
     Some (s\<lparr>sk_data := data\<rparr>)
   }"

text \<open>
  The insertion loop of \<^verbatim>\<open>update\<close>. The first argument is \<^verbatim>\<open>insert_lvl + 1\<close>, so
  the loop ends at 0. The trace is a queue whose front belongs to the highest level; entries of
  levels above the insertion level are thrown away by the \<^verbatim>\<open>continue\<close>. The result is
  \<^verbatim>\<open>prev_insert_place\<close>, which equals \<^verbatim>\<open>idx\<close> after every round.
\<close>

function insert_loop ::
  "KEY_T \<Rightarrow> Index \<Rightarrow> nat \<Rightarrow> nat list \<Rightarrow> nat \<Rightarrow> SkipList \<Rightarrow> (SkipList \<times> nat) option" where
  "insert_loop key index 0 trace prev s = Some (s, prev)"
| "insert_loop key index (Suc lvl) trace prev s =
     (let (insert_after_point, trace') =
        (if length trace \<le> lvl then (0, trace) else (hd trace, tl trace)) in
      if lvl < length trace' then insert_loop key index (Suc lvl) trace' prev s
      else do {
        (s, insert_place) \<leftarrow> insert_after key index lvl insert_after_point s;
        s \<leftarrow> (if prev \<noteq> 0 then set_node_bottom (lvl + 1) prev insert_place s else Some s);
        insert_loop key index lvl trace' insert_place s
      })"
  by pat_completeness auto
termination
  by (relation "measures [\<lambda>(_, _, n, _). n, \<lambda>(_, _, _, trace, _). length trace]")
    (auto split: if_splits)

declare insert_loop.simps(2) [simp del]

text \<open>\<^verbatim>\<open>update\<close> returns the list and the node of the key at level 0.\<close>

definition SkipList_update ::
  "(nat \<Rightarrow> nat) \<Rightarrow> KEY_T \<Rightarrow> Index \<Rightarrow> SkipList \<Rightarrow> (SkipList \<times> nat) option" where
  "SkipList_update rnd key index s = do {
     (ret, trace) \<leftarrow> SkipList_get key s;
     let idx = (case ret of None \<Rightarrow> 0 | Some (i, _) \<Rightarrow> i);
     if 0 < idx then do {
       level \<leftarrow> vget (sk_data s) 0;
       node \<leftarrow> vget level idx;
       let i = set_fid (sk_id s) (set_idx (get_idx index) (kv_idx (nd_data node)));
       level \<leftarrow> vset level idx (node\<lparr>nd_data := (nd_data node)\<lparr>kv_idx := i\<rparr>\<rparr>);
       data \<leftarrow> vset (sk_data s) 0 level;
       Some (s\<lparr>sk_data := data\<rparr>, idx)
     } else insert_loop key index (get_insert_height rnd) trace 0 s
   }"

subsection \<open>Locking and dumping\<close>

text \<open>
  \<^verbatim>\<open>try_lock\<close>: the result, and the list with the mutex taken if it was free, whatever
  the result is.
\<close>

definition try_lock :: "SkipList \<Rightarrow> bool \<times> SkipList" where
  "try_lock s =
     (if sk_locked s then (False, s)
      else let s = s\<lparr>sk_locked := True\<rparr> in (\<not> sk_dumping s, s))"

definition un_lock :: "SkipList \<Rightarrow> SkipList" where
  "un_lock s = s\<lparr>sk_locked := False\<rparr>"

definition set_dumping :: "SkipList \<Rightarrow> SkipList" where
  "set_dumping s = s\<lparr>sk_dumping := True\<rparr>"

text \<open>
  \<^verbatim>\<open>pop_lvl_0\<close> unlinks the first data node of level 0 and frees it; the result is the
  address of its pair (\<^term>\<open>None\<close> for the null pointer), which stays in the vector.
\<close>

definition pop_lvl_0 :: "SkipList \<Rightarrow> (SkipList \<times> nat option) option" where
  "pop_lvl_0 s = do {
     data \<leftarrow> vget (sk_data s) 0;
     head \<leftarrow> vget data 0;
     if nd_next head \<noteq> 0 then do {
       let pop_idx = nd_next head;
       node \<leftarrow> vget data pop_idx;
       data \<leftarrow> vset data 0 (head\<lparr>nd_next := nd_next node\<rparr>);
       head \<leftarrow> vget data 0;
       node \<leftarrow> vget data pop_idx;
       data \<leftarrow> vset data pop_idx (node\<lparr>nd_next := nd_bottom head\<rparr>);
       head \<leftarrow> vget data 0;
       data \<leftarrow> vset data 0 (head\<lparr>nd_bottom := pop_idx\<rparr>);
       levels \<leftarrow> vset (sk_data s) 0 data;
       Some (s\<lparr>sk_data := levels\<rparr>, Some pop_idx)
     } else Some (s, None)
   }"

definition front_lvl_0 :: "SkipList \<Rightarrow> nat option option" where
  "front_lvl_0 s = do {
     data \<leftarrow> vget (sk_data s) 0;
     head \<leftarrow> vget data 0;
     if nd_next head \<noteq> 0 then do {
       _ \<leftarrow> vget data (nd_next head);
       Some (Some (nd_next head))
     } else Some None
   }"

end
