(* ===== verification/Skip_List_Correct.thy ===== *)
theory Skip_List_Correct
  imports Skip_List
begin

text \<open>
  Correctness of the skip list: the representation invariant (every level is a sorted data chain
  and a chain of free nodes that share the vector without overlap, and every data node of a level
  points to a node with the same key one level below), the search against it, the insertion, and
  the resulting map from keys to indices.
\<close>

subsection \<open>Chains\<close>

primrec chain :: "SkipListNode list \<Rightarrow> nat \<Rightarrow> nat list \<Rightarrow> bool" where
  "chain l x [] \<longleftrightarrow> x = 0"
| "chain l x (a # as) \<longleftrightarrow> x = a \<and> a \<noteq> 0 \<and> a < length l \<and> chain l (nd_next (l ! a)) as"

definition nkey :: "SkipListNode list \<Rightarrow> nat \<Rightarrow> KEY_T" where
  "nkey l a = kv_key (nd_data (l ! a))"

definition nidx :: "SkipListNode list \<Rightarrow> nat \<Rightarrow> Index" where
  "nidx l a = kv_idx (nd_data (l ! a))"

lemma chain_0 [simp]: "chain l 0 as \<longleftrightarrow> as = []"
  by (cases as) auto

lemma chain_pos: "x \<noteq> 0 \<Longrightarrow> chain l x as \<longleftrightarrow> (\<exists>bs. as = x # bs \<and> x < length l \<and> chain l (nd_next (l ! x)) bs)"
  by (cases as) auto

lemma chain_bounds: "chain l x as \<Longrightarrow> a \<in> set as \<Longrightarrow> a \<noteq> 0 \<and> a < length l"
  by (induction as arbitrary: x) auto

lemma chain_cong:
  "chain l x as \<Longrightarrow> length l \<le> length l' \<Longrightarrow> (\<And>a. a \<in> set as \<Longrightarrow> nd_next (l' ! a) = nd_next (l ! a))
   \<Longrightarrow> chain l' x as"
  by (induction as arbitrary: x) auto

text \<open>Following a chain, for at most as many nodes as the vector has.\<close>

fun follow :: "nat \<Rightarrow> SkipListNode list \<Rightarrow> nat \<Rightarrow> nat list" where
  "follow 0 l x = []"
| "follow (Suc n) l x = (if x = 0 \<or> length l \<le> x then [] else x # follow n l (nd_next (l ! x)))"

lemma chain_follow: "chain l x as \<Longrightarrow> length as \<le> n \<Longrightarrow> follow n l x = as"
proof (induction as arbitrary: x n)
  case Nil
  then show ?case by (cases n) auto
next
  case (Cons a as)
  then show ?case by (cases n) auto
qed

subsection \<open>One level\<close>

text \<open>
  \<open>ds\<close> are the data nodes and \<open>fs\<close> the free nodes of a level, in the order of their chains.
\<close>

definition level_rep :: "SkipListNode list \<Rightarrow> nat list \<Rightarrow> nat list \<Rightarrow> bool" where
  "level_rep l ds fs \<longleftrightarrow> l \<noteq> [] \<and> chain l (nd_next (l ! 0)) ds \<and> chain l (nd_bottom (l ! 0)) fs
     \<and> distinct (ds @ fs) \<and> length l = Suc (length ds + length fs)
     \<and> nkey l 0 = 0 \<and> sorted_wrt (<) (map (nkey l) ds)"

lemma level_rep_data: "level_rep l ds fs \<Longrightarrow> a \<in> set ds \<Longrightarrow> a \<noteq> 0 \<and> a < length l"
  by (auto simp: level_rep_def dest: chain_bounds)

lemma level_rep_pos: "level_rep l ds fs \<Longrightarrow> 0 < length l"
  unfolding level_rep_def by blast

lemma level_rep_distinct: "level_rep l ds fs \<Longrightarrow> distinct ds"
  by (simp add: level_rep_def)

lemma level_rep_inj:
  "level_rep l ds fs \<Longrightarrow> inj_on (nkey l) (set ds)"
  by (metis level_rep_def strict_sorted_iff distinct_map)

lemma level_rep_follow:
  "level_rep l ds fs \<Longrightarrow> follow (length l) l (nd_next (l ! 0)) = ds"
  by (rule chain_follow) (simp_all add: level_rep_def)

text \<open>Pushing unused nodes onto the free chain.\<close>

lemma push_empty_rep:
  assumes "l \<noteq> []" and "chain l (nd_next (l ! 0)) ds" and "chain l (nd_bottom (l ! 0)) fs"
    and "distinct js" and "\<And>j. j \<in> set js \<Longrightarrow> j \<noteq> 0 \<and> j < length l"
    and "set js \<inter> set (ds @ fs) = {}" and "distinct (ds @ fs)"
  shows "\<exists>l'. push_empty js l = Some l' \<and> length l' = length l \<and> chain l' (nd_next (l' ! 0)) ds
    \<and> chain l' (nd_bottom (l' ! 0)) (rev js @ fs)
    \<and> (\<forall>a. nd_data (l' ! a) = nd_data (l ! a)) \<and> (\<forall>a. a \<noteq> 0 \<longrightarrow> nd_bottom (l' ! a) = nd_bottom (l ! a))"
  using assms
proof (induction js arbitrary: l fs)
  case (Cons j js)
  have j: "j \<noteq> 0" "j < length l" "0 < length l" using Cons.prems(1,5) by auto
  define l1 where "l1 = l[j := (l ! j)\<lparr>nd_next := nd_bottom (l ! 0)\<rparr>, 0 := (l ! 0)\<lparr>nd_bottom := j\<rparr>]"
  have step: "push_empty (j # js) l = push_empty js l1"
    using j by (simp add: l1_def)
  have nodes: "length l1 = length l" "nd_next (l1 ! 0) = nd_next (l ! 0)" "nd_bottom (l1 ! 0) = j"
    "nd_next (l1 ! j) = nd_bottom (l ! 0)"
    "\<And>a. a \<noteq> 0 \<Longrightarrow> a \<noteq> j \<Longrightarrow> nd_next (l1 ! a) = nd_next (l ! a)"
    "\<And>a. nd_data (l1 ! a) = nd_data (l ! a)"
    "\<And>a. a \<noteq> 0 \<Longrightarrow> nd_bottom (l1 ! a) = nd_bottom (l ! a)"
    using j by (auto simp: l1_def nth_list_update)
  have ne: "a \<noteq> 0 \<and> a \<noteq> j" if "a \<in> set ds \<or> a \<in> set fs" for a
    using that Cons.prems(2,3,6) by (auto dest: chain_bounds)
  have "chain l1 (nd_next (l1 ! 0)) ds"
    unfolding nodes using Cons.prems(2) by (rule chain_cong) (simp_all add: nodes ne)
  moreover have "chain l1 (nd_bottom (l1 ! 0)) (j # fs)"
  proof -
    have "chain l1 (nd_bottom (l ! 0)) fs"
      using Cons.prems(3) by (rule chain_cong) (simp_all add: nodes ne)
    then show ?thesis using j by (simp add: nodes)
  qed
  ultimately have "\<exists>l'. push_empty js l1 = Some l' \<and> length l' = length l1
    \<and> chain l' (nd_next (l' ! 0)) ds \<and> chain l' (nd_bottom (l' ! 0)) (rev js @ j # fs)
    \<and> (\<forall>a. nd_data (l' ! a) = nd_data (l1 ! a)) \<and> (\<forall>a. a \<noteq> 0 \<longrightarrow> nd_bottom (l' ! a) = nd_bottom (l1 ! a))"
    using Cons.prems nodes(1) by (intro Cons.IH) auto
  then show ?case unfolding step by (auto simp: nodes)
qed simp

lemma SkipList_level_new_rep:
  "\<exists>l. SkipList_level_new = Some l \<and> level_rep l [] (rev [1..<SKIP_LIST_INIT_CAPACITY])"
proof -
  let ?l = "replicate SKIP_LIST_INIT_CAPACITY SkipListNode_new" and ?js = "[1..<SKIP_LIST_INIT_CAPACITY]"
  have cap: "0 < SKIP_LIST_INIT_CAPACITY" by (simp add: SKIP_LIST_INIT_CAPACITY_def)
  then have head: "?l ! 0 = SkipListNode_new" "?l \<noteq> []" by simp_all
  have "\<exists>l'. push_empty ?js ?l = Some l' \<and> length l' = length ?l \<and> chain l' (nd_next (l' ! 0)) []
    \<and> chain l' (nd_bottom (l' ! 0)) (rev ?js @ [])
    \<and> (\<forall>a. nd_data (l' ! a) = nd_data (?l ! a)) \<and> (\<forall>a. a \<noteq> 0 \<longrightarrow> nd_bottom (l' ! a) = nd_bottom (?l ! a))"
    using cap by (intro push_empty_rep) (auto simp: SkipListNode_new_def)
  then show ?thesis
    by (auto simp: SkipList_level_new_def level_rep_def nkey_def head SkipListNode_new_def
        KeyIdxPair_new_def SKIP_LIST_INIT_CAPACITY_def)
qed

text \<open>Doubling a level without free nodes.\<close>

lemma resize_rep:
  assumes "level_rep l ds []"
  shows "\<exists>l' fs. level_resize l = Some l'
    \<and> level_rep l' ds fs \<and> length fs = length l
    \<and> (\<forall>a \<in> set ds. nd_data (l' ! a) = nd_data (l ! a) \<and> nd_bottom (l' ! a) = nd_bottom (l ! a))"
proof -
  let ?m = "l @ replicate (length l) SkipListNode_new" and ?js = "[length l..<length l * 2]"
  have l: "l \<noteq> []" "chain l (nd_next (l ! 0)) ds" "nd_bottom (l ! 0) = 0" "distinct ds"
    "length l = Suc (length ds)" "nkey l 0 = 0" "sorted_wrt (<) (map (nkey l) ds)"
    using assms by (auto simp: level_rep_def)
  have old: "?m ! a = l ! a" if "a < length l" for a using that by (simp add: nth_append)
  have ds: "a < length l" "a \<noteq> 0" if "a \<in> set ds" for a
    using level_rep_data [OF assms that] by auto
  have head: "?m ! 0 = l ! 0" using l(1) by (intro old) simp
  have "chain ?m (nd_next (?m ! 0)) ds"
    unfolding head using l(2) by (rule chain_cong) (simp_all add: old ds)
  then have "\<exists>l'. push_empty ?js ?m = Some l' \<and> length l' = length ?m \<and> chain l' (nd_next (l' ! 0)) ds
    \<and> chain l' (nd_bottom (l' ! 0)) (rev ?js @ [])
    \<and> (\<forall>a. nd_data (l' ! a) = nd_data (?m ! a)) \<and> (\<forall>a. a \<noteq> 0 \<longrightarrow> nd_bottom (l' ! a) = nd_bottom (?m ! a))"
  proof (intro push_empty_rep)
    show "set ?js \<inter> set (ds @ []) = {}" using ds by fastforce
    show "j \<noteq> 0 \<and> j < length ?m" if "j \<in> set ?js" for j
      using that l(1) by (cases "length l") auto
  qed (use l(1,4) in \<open>simp_all only: head l(3) chain_0 append_Nil2 distinct_upt
      append_is_Nil_conv simp_thms\<close>)
  then obtain l' where l': "push_empty ?js ?m = Some l'" "length l' = length ?m"
    "chain l' (nd_next (l' ! 0)) ds" "chain l' (nd_bottom (l' ! 0)) (rev ?js)"
    "\<And>a. nd_data (l' ! a) = nd_data (?m ! a)" "\<And>a. a \<noteq> 0 \<Longrightarrow> nd_bottom (l' ! a) = nd_bottom (?m ! a)"
    by auto
  have keys: "nkey l' a = nkey l a" if "a < length l" for a
    using that by (simp add: nkey_def l'(5) old)
  then have "map (nkey l') ds = map (nkey l) ds" using ds by simp
  moreover have "nkey l' 0 = 0" using keys [of 0] l by simp
  moreover have "distinct (ds @ rev ?js)" using l(4) ds by fastforce
  moreover have "length l' = Suc (length ds + length (rev ?js))"
    unfolding l'(2) length_append length_replicate length_rev length_upt using l(5) by linarith
  moreover have "l' \<noteq> []" using l(1) l'(2) by (metis append_is_Nil_conv length_0_conv)
  ultimately have "level_rep l' ds (rev ?js)"
    unfolding level_rep_def by (simp only: l'(3,4) l(7) simp_thms)
  moreover have "length (rev ?js) = length l"
    unfolding length_rev length_upt by linarith
  moreover have "\<forall>a \<in> set ds. nd_data (l' ! a) = nd_data (l ! a) \<and> nd_bottom (l' ! a) = nd_bottom (l ! a)"
  proof
    fix a assume a: "a \<in> set ds"
    show "nd_data (l' ! a) = nd_data (l ! a) \<and> nd_bottom (l' ! a) = nd_bottom (l ! a)"
      unfolding l'(5) l'(6) [OF ds(2) [OF a]] old [OF ds(1) [OF a]] by simp
  qed
  ultimately show ?thesis using l'(1) unfolding level_resize_def Let_def by blast
qed

subsection \<open>The walk along a level\<close>

text \<open>The last data node whose key is not above the searched one, or the head.\<close>

definition pred :: "SkipListNode list \<Rightarrow> nat list \<Rightarrow> KEY_T \<Rightarrow> nat" where
  "pred l ds key = last (0 # takeWhile (\<lambda>a. nkey l a \<le> key) ds)"

lemma walk_chain:
  "chain l (nd_next (l ! x)) ds \<Longrightarrow> x < length l \<Longrightarrow>
   walk l key x = Some (last (x # takeWhile (\<lambda>a. nkey l a \<le> key) ds))"
  by (induction ds arbitrary: x) (subst walk.simps, simp add: nkey_def)+

lemma sorted_takeWhile_prefix:
  "sorted_wrt (<) (map (nkey l) (ds @ x # es)) \<Longrightarrow> nkey l x \<le> key \<Longrightarrow>
   takeWhile (\<lambda>a. nkey l a \<le> key) (ds @ x # es)
     = ds @ x # takeWhile (\<lambda>a. nkey l a \<le> key) es"
proof -
  assume sorted: "sorted_wrt (<) (map (nkey l) (ds @ x # es))" and x: "nkey l x \<le> key"
  have "nkey l a \<le> key" if "a \<in> set ds" for a
    using sorted that x by (fastforce simp: sorted_wrt_append)
  with x show ?thesis by (simp add: takeWhile_append)
qed

lemma chain_suffix:
  "chain l x (as @ a # bs) \<Longrightarrow> chain l (nd_next (l ! a)) bs"
  by (induction as arbitrary: x) auto

lemma walk_pred:
  assumes rep: "level_rep l ds fs" and x: "x = 0 \<or> x \<in> set ds \<and> nkey l x \<le> key"
  shows "walk l key x = Some (pred l ds key)"
proof (cases "x = 0")
  case True
  then show ?thesis
    using rep walk_chain [of l 0 ds key] by (auto simp: level_rep_def pred_def)
next
  case False
  with x obtain as bs where ds: "ds = as @ x # bs" by (auto dest: split_list)
  have "walk l key x = Some (last (x # takeWhile (\<lambda>a. nkey l a \<le> key) bs))"
    using rep chain_suffix [of l _ as x bs] level_rep_data [OF rep, of x]
    by (intro walk_chain) (auto simp: level_rep_def ds)
  moreover have "pred l ds key = last (x # takeWhile (\<lambda>a. nkey l a \<le> key) bs)"
    using rep x False sorted_takeWhile_prefix [of l as x bs key]
    by (auto simp: pred_def level_rep_def ds)
  ultimately show ?thesis by simp
qed

lemma pred_cases:
  assumes "level_rep l ds fs"
  shows "pred l ds key = 0 \<or> pred l ds key \<in> set ds \<and> nkey l (pred l ds key) \<le> key"
proof (cases "takeWhile (\<lambda>a. nkey l a \<le> key) ds = []")
  case True
  then show ?thesis by (simp add: pred_def)
next
  case False
  then have "last (takeWhile (\<lambda>a. nkey l a \<le> key) ds) \<in> set (takeWhile (\<lambda>a. nkey l a \<le> key) ds)"
    by (rule last_in_set)
  from set_takeWhileD [OF this] show ?thesis using False by (simp add: pred_def)
qed

lemma pred_found:
  assumes rep: "level_rep l ds fs" and a: "a \<in> set ds" and key: "nkey l a = key"
  shows "pred l ds key = a"
proof -
  obtain as bs where ds: "ds = as @ a # bs" using a by (auto dest: split_list)
  have sorted: "sorted_wrt (<) (map (nkey l) ds)" using rep by (simp add: level_rep_def)
  have "takeWhile (\<lambda>b. nkey l b \<le> key) bs = []"
    using sorted key by (cases bs) (auto simp: ds sorted_wrt_append not_le)
  with sorted_takeWhile_prefix [of l as a bs key] sorted key show ?thesis
    by (simp add: pred_def ds)
qed

lemma pred_less:
  assumes "level_rep l ds fs" and "key \<notin> nkey l ` set ds"
  shows "pred l ds key = 0 \<or> pred l ds key \<in> set ds \<and> nkey l (pred l ds key) < key"
  using pred_cases [OF assms(1), of key] assms(2) by (metis image_eqI order_le_imp_less_or_eq)

lemma pred_bound:
  assumes "level_rep l ds fs"
  shows "pred l ds key < length l"
  using pred_cases [OF assms, of key]
proof
  assume "pred l ds key = 0"
  with level_rep_pos [OF assms] show ?thesis by simp
qed (blast dest: level_rep_data [OF assms])

subsection \<open>Insertion into a level\<close>

lemma chain_insert:
  assumes "chain l (nd_next (l ! x)) (as @ bs)" and "distinct (x # as @ bs)"
    and "e \<notin> set (x # as @ bs)" and "e \<noteq> 0" and "e < length l'" and "length l \<le> length l'"
    and "p = last (x # as)" and "nd_next (l' ! p) = e" and "nd_next (l' ! e) = nd_next (l ! p)"
    and "\<And>a. a \<in> set (x # as @ bs) \<Longrightarrow> a \<noteq> p \<Longrightarrow> nd_next (l' ! a) = nd_next (l ! a)"
  shows "chain l' (nd_next (l' ! x)) (as @ e # bs)"
  using assms
proof (induction as arbitrary: x)
  case Nil
  have "chain l (nd_next (l ! x)) bs" using Nil.prems(1) by simp
  then have "chain l' (nd_next (l ! x)) bs"
    using Nil.prems(6) by (rule chain_cong) (use Nil.prems(2,7,10) in auto)
  with Nil.prems show ?case by simp
next
  case (Cons a as)
  have p: "p = last (a # as)" using Cons.prems(7) by simp
  then have "p \<in> set (a # as)" by (metis last_in_set list.distinct(1))
  with Cons.prems(2) have "x \<noteq> p" by auto
  then have x: "nd_next (l' ! x) = nd_next (l ! x)" using Cons.prems(10) by simp
  have "chain l' (nd_next (l' ! a)) (as @ e # bs)"
    by (rule Cons.IH) (use Cons.prems p in auto)
  with Cons.prems(1,6) show ?case by (auto simp: x)
qed

text \<open>The data nodes after the insertion of a node for a key.\<close>

definition insert_chain :: "SkipListNode list \<Rightarrow> KEY_T \<Rightarrow> nat \<Rightarrow> nat list \<Rightarrow> nat list" where
  "insert_chain l key e ds =
     takeWhile (\<lambda>a. nkey l a \<le> key) ds @ e # dropWhile (\<lambda>a. nkey l a \<le> key) ds"

lemma set_insert_chain [simp]: "set (insert_chain l key e ds) = insert e (set ds)"
  unfolding insert_chain_def
  by (metis Un_insert_right list.simps(15) set_append takeWhile_dropWhile_id)

lemma length_insert_chain [simp]: "length (insert_chain l key e ds) = Suc (length ds)"
  unfolding insert_chain_def
  by (metis add_Suc_right length_Cons length_append takeWhile_dropWhile_id)

lemma distinct_insert_chain:
  "distinct (insert_chain l key e ds) \<longleftrightarrow> e \<notin> set ds \<and> distinct ds"
proof -
  define as bs where "as = takeWhile (\<lambda>a. nkey l a \<le> key) ds"
    and "bs = dropWhile (\<lambda>a. nkey l a \<le> key) ds"
  then have ds: "ds = as @ bs" by simp
  have chain: "insert_chain l key e ds = as @ e # bs" by (simp add: insert_chain_def as_def bs_def)
  show ?thesis unfolding chain unfolding ds by auto
qed

lemma sorted_insert_chain:
  assumes sorted: "sorted_wrt (<) (map (nkey l) ds)" and new: "key \<notin> nkey l ` set ds"
    and keys: "\<And>a. a \<in> set ds \<Longrightarrow> nkey l' a = nkey l a" and e: "nkey l' e = key"
  shows "sorted_wrt (<) (map (nkey l') (insert_chain l key e ds))"
proof -
  define as bs where "as = takeWhile (\<lambda>a. nkey l a \<le> key) ds"
    and "bs = dropWhile (\<lambda>a. nkey l a \<le> key) ds"
  then have ds: "ds = as @ bs" by simp
  have chain: "insert_chain l key e ds = as @ e # bs" by (simp add: insert_chain_def as_def bs_def)
  have "map (nkey l') ds = map (nkey l) ds" using keys by simp
  with sorted have sorted': "sorted_wrt (<) (map (nkey l') as @ map (nkey l') bs)"
    unfolding ds by (metis map_append)
  have as: "nkey l' a < key" if "a \<in> set as" for a
  proof -
    have "a \<in> set ds" "nkey l a \<le> key" using that by (auto simp: as_def dest: set_takeWhileD)
    with new keys show ?thesis by (metis image_eqI order_le_imp_less_or_eq)
  qed
  have bs: "key < nkey l' b" if "b \<in> set bs" for b
  proof (cases bs)
    case (Cons c cs)
    have "\<not> nkey l c \<le> key" using Cons unfolding bs_def by (metis hd_dropWhile list.distinct(1) list.sel(1))
    then have "key < nkey l' c" using keys [of c] by (simp add: ds Cons)
    with that sorted' show ?thesis by (auto simp: Cons sorted_wrt_append)
  qed (use that in simp)
  from sorted' as bs show ?thesis
    unfolding chain by (auto simp: sorted_wrt_append e)
qed

lemma insert_chain_eq:
  "as = takeWhile (\<lambda>a. nkey l a \<le> key) ds \<Longrightarrow> bs = dropWhile (\<lambda>a. nkey l a \<le> key) ds
   \<Longrightarrow> ds = as @ bs \<and> insert_chain l key e ds = as @ e # bs \<and> pred l ds key = last (0 # as)"
  by (simp add: insert_chain_def pred_def)

lemma level_insert_rep:
  assumes rep: "level_rep l ds (e # fs)" and new: "key \<notin> nkey l ` set ds"
  shows "\<exists>l'. level_insert key index (pred l ds key) l = Some (l', e)
    \<and> level_rep l' (insert_chain l key e ds) fs \<and> length l' = length l
    \<and> nd_data (l' ! e) = \<lparr>kv_key = key, kv_idx = index\<rparr>
    \<and> (\<forall>a \<in> set ds. nd_data (l' ! a) = nd_data (l ! a) \<and> nd_bottom (l' ! a) = nd_bottom (l ! a))"
proof -
  define p where "p = pred l ds key"
  define l1 where "l1 = l[0 := (l ! 0)\<lparr>nd_bottom := nd_next (l ! e)\<rparr>]"
  define l2 where "l2 = l1[e := (l1 ! e)\<lparr>nd_next := nd_next (l1 ! p)\<rparr>]"
  define l3 where "l3 = l2[p := (l2 ! p)\<lparr>nd_next := e\<rparr>]"
  define l4 where "l4 = l3[e := (l3 ! e)\<lparr>nd_data := \<lparr>kv_key = key, kv_idx = index\<rparr>\<rparr>]"
  have l: "chain l (nd_next (l ! 0)) ds" "nd_bottom (l ! 0) = e" "e \<noteq> 0" "e < length l"
    "chain l (nd_next (l ! e)) fs" "distinct ds" "distinct fs" "e \<notin> set ds" "e \<notin> set fs"
    "set ds \<inter> set fs = {}" "0 < length l" "nkey l 0 = 0" "length l = length ds + length fs + 2"
    "sorted_wrt (<) (map (nkey l) ds)"
    using rep by (auto simp: level_rep_def)
  have p: "p = 0 \<or> p \<in> set ds" using pred_cases [OF rep, of key] by (auto simp: p_def)
  have pl: "p < length l" using pred_bound [OF rep] by (simp add: p_def)
  have pe: "p \<noteq> e" using p l(3,8) by auto
  have nz: "0 \<notin> set ds" "0 \<notin> set fs"
    using chain_bounds [OF l(1)] chain_bounds [OF l(5)] by auto
  have len: "length l1 = length l" "length l2 = length l" "length l3 = length l" "length l4 = length l"
    by (simp_all add: l1_def l2_def l3_def l4_def)
  have run: "level_insert key index p l = Some (l4, e)"
    using l(2,4,11) pl len
    by (simp add: level_insert_def Let_def l1_def [symmetric] l2_def [symmetric] l3_def [symmetric]
        l4_def [symmetric])
  have next4: "nd_next (l4 ! p) = e" "nd_next (l4 ! e) = nd_next (l ! p)"
    "\<And>a. a \<noteq> p \<Longrightarrow> a \<noteq> e \<Longrightarrow> nd_next (l4 ! a) = nd_next (l ! a)"
    using l(3,4,11) pl pe by (auto simp: l1_def l2_def l3_def l4_def nth_list_update)
  have data4: "nd_data (l4 ! e) = \<lparr>kv_key = key, kv_idx = index\<rparr>"
    "\<And>a. a \<noteq> e \<Longrightarrow> nd_data (l4 ! a) = nd_data (l ! a)"
    using l(3,4,11) pl pe by (auto simp: l1_def l2_def l3_def l4_def nth_list_update)
  have bottom4: "nd_bottom (l4 ! 0) = nd_next (l ! e)"
    "\<And>a. a \<noteq> 0 \<Longrightarrow> nd_bottom (l4 ! a) = nd_bottom (l ! a)"
    using l(3,4,11) pl pe by (auto simp: l1_def l2_def l3_def l4_def nth_list_update)
  define as bs where "as = takeWhile (\<lambda>a. nkey l a \<le> key) ds"
    and "bs = dropWhile (\<lambda>a. nkey l a \<le> key) ds"
  note split = insert_chain_eq [OF as_def bs_def, of e]
  have "chain l4 (nd_next (l4 ! 0)) (as @ e # bs)"
  proof (rule chain_insert [where p = p])
    show "chain l (nd_next (l ! 0)) (as @ bs)" "distinct (0 # as @ bs)" "e \<notin> set (0 # as @ bs)"
      using l(1,3,6,8) nz split by auto
    show "p = last (0 # as)" unfolding p_def using split by blast
    show "nd_next (l4 ! a) = nd_next (l ! a)" if "a \<in> set (0 # as @ bs)" "a \<noteq> p" for a
      using that split l(3,8) by (intro next4(3)) auto
  qed (simp_all only: next4(1,2) l(3,4) len order_refl not_False_eq_True)
  then have "chain l4 (nd_next (l4 ! 0)) (insert_chain l key e ds)"
    unfolding conjunct1 [OF conjunct2 [OF split]] .
  moreover have "chain l4 (nd_bottom (l4 ! 0)) fs"
    unfolding bottom4(1) using l(5)
  proof (rule chain_cong)
    fix a assume a: "a \<in> set fs"
    with l(9,10) p nz have "a \<noteq> p" "a \<noteq> e" by blast+
    then show "nd_next (l4 ! a) = nd_next (l ! a)" by (rule next4(3))
  qed (simp add: len)
  moreover have "distinct (insert_chain l key e ds @ fs)"
    using l(6-10) by (simp add: distinct_insert_chain)
  moreover have "sorted_wrt (<) (map (nkey l4) (insert_chain l key e ds))"
    using l(14) new
  proof (rule sorted_insert_chain)
    fix a assume "a \<in> set ds"
    with l(8) have "a \<noteq> e" by blast
    then show "nkey l4 a = nkey l a" by (simp add: nkey_def data4(2))
  qed (simp add: nkey_def data4(1))
  moreover have "nkey l4 0 = 0" using l(3,12) data4(2) [of 0] by (simp add: nkey_def)
  moreover have "l4 \<noteq> []" using l(11) len by auto
  moreover have "length l4 = Suc (length (insert_chain l key e ds) + length fs)"
    unfolding len l(13) by simp
  ultimately have "level_rep l4 (insert_chain l key e ds) fs" unfolding level_rep_def by blast
  moreover have "nd_data (l4 ! a) = nd_data (l ! a)" "nd_bottom (l4 ! a) = nd_bottom (l ! a)"
    if "a \<in> set ds" for a
    using that nz l(8) data4(2) bottom4(2) by metis+
  ultimately show ?thesis using run len(4) data4(1) by (auto simp: p_def)
qed

subsection \<open>All levels\<close>

definition data_nodes :: "SkipListNode list \<Rightarrow> nat list" where
  "data_nodes l = follow (length l) l (nd_next (l ! 0))"

definition free_nodes :: "SkipListNode list \<Rightarrow> nat list" where
  "free_nodes l = follow (length l) l (nd_bottom (l ! 0))"

definition level_ok :: "SkipListNode list \<Rightarrow> bool" where
  "level_ok l \<longleftrightarrow> level_rep l (data_nodes l) (free_nodes l)"

lemma level_rep_ok:
  assumes "level_rep l ds fs"
  shows "data_nodes l = ds" and "free_nodes l = fs" and "level_ok l"
proof -
  show nodes: "data_nodes l = ds" "free_nodes l = fs"
    unfolding data_nodes_def free_nodes_def
    by (rule chain_follow; use assms in \<open>simp add: level_rep_def\<close>)+
  show "level_ok l" using assms by (simp add: level_ok_def nodes)
qed

definition keys_of :: "SkipListNode list \<Rightarrow> KEY_T set" where
  "keys_of l = nkey l ` set (data_nodes l)"

abbreviation place :: "SkipListNode list \<Rightarrow> KEY_T \<Rightarrow> nat" where
  "place l key \<equiv> pred l (data_nodes l) key"

text \<open>
  Every data node of the upper level, except possibly one, is linked to the node with its key one
  level below.
\<close>

definition linked_but :: "nat \<Rightarrow> SkipListNode list \<Rightarrow> SkipListNode list \<Rightarrow> bool" where
  "linked_but x lu ll \<longleftrightarrow> (\<forall>a \<in> set (data_nodes lu). a \<noteq> x \<longrightarrow>
     nd_bottom (lu ! a) \<in> set (data_nodes ll) \<and> nkey ll (nd_bottom (lu ! a)) = nkey lu a)"

definition levels_ok :: "SkipListNode list list \<Rightarrow> bool" where
  "levels_ok data \<longleftrightarrow> length data = SKIP_LIST_MAX_HEIGHT \<and> (\<forall>l \<in> set data. level_ok l)
     \<and> (\<forall>i < SKIP_LIST_MAX_HEIGHT - 1. linked_but 0 (data ! Suc i) (data ! i))"

definition sl_inv :: "SkipList \<Rightarrow> bool" where
  "sl_inv s \<longleftrightarrow> levels_ok (sk_data s)
     \<and> sk_capacity s = map (\<lambda>l. length (free_nodes l)) (sk_data s)
     \<and> (\<forall>l \<in> set (sk_data s). free_nodes l \<noteq> [])"

definition sl_map :: "SkipList \<Rightarrow> KEY_T \<Rightarrow> Index option" where
  "sl_map s = (let l = sk_data s ! 0 in map_of (map (\<lambda>a. (nkey l a, nidx l a)) (data_nodes l)))"

lemma levels_okD:
  assumes "levels_ok data"
  shows "length data = SKIP_LIST_MAX_HEIGHT"
    and "i < SKIP_LIST_MAX_HEIGHT \<Longrightarrow> level_ok (data ! i)"
    and "Suc i < SKIP_LIST_MAX_HEIGHT \<Longrightarrow> linked_but 0 (data ! Suc i) (data ! i)"
  using assms by (auto simp: levels_ok_def SKIP_LIST_MAX_HEIGHT_def)

lemma level_ok_node:
  "level_ok l \<Longrightarrow> a \<in> set (data_nodes l) \<Longrightarrow> a \<noteq> 0 \<and> a < length l"
  unfolding level_ok_def by (rule level_rep_data)

lemma linked_0D:
  assumes "linked_but 0 lu ll" and "level_ok lu" and "a \<in> set (data_nodes lu)"
  shows "nd_bottom (lu ! a) \<in> set (data_nodes ll)" and "nkey ll (nd_bottom (lu ! a)) = nkey lu a"
  using assms level_ok_node [of lu a] by (auto simp: linked_but_def)

lemma keys_of_down:
  "linked_but 0 lu ll \<Longrightarrow> level_ok lu \<Longrightarrow> keys_of lu \<subseteq> keys_of ll"
proof
  fix k assume ok: "linked_but 0 lu ll" "level_ok lu" and "k \<in> keys_of lu"
  then obtain a where "a \<in> set (data_nodes lu)" "k = nkey lu a" unfolding keys_of_def by blast
  with linked_0D [OF ok this(1)] show "k \<in> keys_of ll" unfolding keys_of_def by force
qed

lemma keys_of_level_0:
  "levels_ok data \<Longrightarrow> i < SKIP_LIST_MAX_HEIGHT \<Longrightarrow> keys_of (data ! i) \<subseteq> keys_of (data ! 0)"
proof (induction i)
  case (Suc i)
  then show ?case using keys_of_down levels_okD(2,3) [OF Suc.prems(1)]
    by (metis Suc_lessD order.trans)
qed simp

lemma card_keys_of: "level_ok l \<Longrightarrow> card (keys_of l) = length (data_nodes l)"
  unfolding keys_of_def level_ok_def
  by (simp add: card_image level_rep_inj distinct_card level_rep_distinct)

lemma length_level_0:
  "levels_ok data \<Longrightarrow> i < SKIP_LIST_MAX_HEIGHT \<Longrightarrow>
   length (data_nodes (data ! i)) \<le> length (data_nodes (data ! 0))"
  using keys_of_level_0 [of data i] card_keys_of levels_okD(2) [of data]
  by (metis List.finite_set SKIP_LIST_MAX_HEIGHT_def card_mono finite_imageI keys_of_def zero_less_numeral)

lemma map_of_nodes:
  assumes "level_ok l"
  shows "map_of (map (\<lambda>a. (nkey l a, nidx l a)) (data_nodes l)) k = Some i
    \<longleftrightarrow> (\<exists>a \<in> set (data_nodes l). nkey l a = k \<and> nidx l a = i)"
proof -
  have "inj_on (nkey l) (set (data_nodes l))" "distinct (data_nodes l)"
    using assms level_rep_inj level_rep_distinct unfolding level_ok_def by blast+
  then have "distinct (map fst (map (\<lambda>a. (nkey l a, nidx l a)) (data_nodes l)))"
    by (simp add: comp_def distinct_map)
  then show ?thesis by (subst map_of_eq_Some_iff) auto
qed

lemma sl_map_Some:
  assumes "levels_ok (sk_data s)"
  shows "sl_map s k = Some i \<longleftrightarrow>
    (\<exists>a \<in> set (data_nodes (sk_data s ! 0)). nkey (sk_data s ! 0) a = k \<and> nidx (sk_data s ! 0) a = i)"
  using map_of_nodes [OF levels_okD(2) [OF assms, of 0]]
  by (simp add: sl_map_def Let_def SKIP_LIST_MAX_HEIGHT_def)

lemma dom_sl_map: "levels_ok (sk_data s) \<Longrightarrow> dom (sl_map s) = keys_of (sk_data s ! 0)"
  by (auto simp: dom_def sl_map_Some keys_of_def)

subsection \<open>Searching\<close>

lemma place_found:
  assumes "level_ok l"
  shows "(place l key \<noteq> 0 \<or> key \<noteq> 0) \<and> nkey l (place l key) = key \<longleftrightarrow> key \<in> keys_of l"
proof
  assume found: "(place l key \<noteq> 0 \<or> key \<noteq> 0) \<and> nkey l (place l key) = key"
  have "nkey l 0 = 0" using assms by (simp add: level_ok_def level_rep_def)
  with found have "place l key \<noteq> 0" by metis
  with pred_cases [OF assms [unfolded level_ok_def], of key]
  have "place l key \<in> set (data_nodes l)" by blast
  with found show "key \<in> keys_of l" unfolding keys_of_def by force
next
  assume "key \<in> keys_of l"
  then obtain a where a: "a \<in> set (data_nodes l)" "nkey l a = key" by (auto simp: keys_of_def)
  then have "place l key = a" using assms pred_found unfolding level_ok_def by blast
  with a level_ok_node [OF assms a(1)]
  show "(place l key \<noteq> 0 \<or> key \<noteq> 0) \<and> nkey l (place l key) = key" by simp
qed

definition start_ok :: "SkipListNode list \<Rightarrow> KEY_T \<Rightarrow> nat \<Rightarrow> bool" where
  "start_ok l key x \<longleftrightarrow> x = 0 \<or> x \<in> set (data_nodes l) \<and> nkey l x \<le> key"

lemma search_level_eq:
  assumes "levels_ok data" and "lvl < SKIP_LIST_MAX_HEIGHT" and "start_ok (data ! lvl) key x"
  shows "search_level data key lvl x = Some (place (data ! lvl) key,
    data ! lvl ! place (data ! lvl) key, key \<in> keys_of (data ! lvl))"
proof -
  note ok = levels_okD(2) [OF assms(1,2)]
  have "walk (data ! lvl) key x = Some (place (data ! lvl) key)"
    using ok assms(3) by (auto simp: level_ok_def start_ok_def intro!: walk_pred)
  moreover have "place (data ! lvl) key < length (data ! lvl)"
    using ok pred_bound unfolding level_ok_def by blast
  ultimately show ?thesis
    using place_found [OF ok, of key] assms(2)
    by (simp add: search_level_def levels_okD(1) [OF assms(1)] nkey_def)
qed

lemma descend_eq:
  assumes "levels_ok data" and "lvl < SKIP_LIST_MAX_HEIGHT"
    and "a \<in> set (data_nodes (data ! lvl))" and "nkey (data ! lvl) a = key"
  shows "\<exists>tr. descend data lvl a trace = Some (place (data ! 0) key, tr)"
  using assms(2-)
proof (induction lvl arbitrary: a trace)
  case 0
  with levels_okD(2) [OF assms(1), of 0] pred_found show ?case
    unfolding level_ok_def by fastforce
next
  case (Suc lvl)
  note ok = levels_okD(2) [OF assms(1) Suc.prems(1)] levels_okD(3) [OF assms(1) Suc.prems(1)]
  have "\<exists>tr. descend data lvl (nd_bottom (data ! Suc lvl ! a)) (trace @ [a])
    = Some (place (data ! 0) key, tr)"
    using Suc.prems linked_0D [OF ok(2,1), of a] by (intro Suc.IH) auto
  with Suc.prems(1) level_ok_node [OF ok(1) Suc.prems(2)] show ?case
    by (simp add: levels_okD(1) [OF assms(1)])
qed

lemma place_down:
  assumes "levels_ok data" and "Suc lvl < SKIP_LIST_MAX_HEIGHT"
  shows "start_ok (data ! lvl) key (if place (data ! Suc lvl) key \<noteq> 0
    then nd_bottom (data ! Suc lvl ! place (data ! Suc lvl) key) else 0)"
proof -
  note ok = levels_okD(2) [OF assms] levels_okD(3) [OF assms]
  show ?thesis
    using pred_cases [OF ok(1) [unfolded level_ok_def], of key] linked_0D [OF ok(2,1)]
    by (auto simp: start_ok_def)
qed

lemma get_from_found:
  assumes "levels_ok data" and "key \<in> keys_of (data ! 0)"
  shows "lvl < SKIP_LIST_MAX_HEIGHT \<Longrightarrow> start_ok (data ! lvl) key x \<Longrightarrow>
    \<exists>tr. get_from data key lvl x trace = Some (Some (place (data ! 0) key), tr)"
proof (induction lvl arbitrary: x trace)
  case 0
  then show ?case using assms by (simp add: search_level_eq)
next
  case (Suc lvl)
  show ?case
  proof (cases "key \<in> keys_of (data ! Suc lvl)")
    case True
    note ok = levels_okD(2) [OF assms(1) Suc.prems(1)]
    obtain a where a: "a \<in> set (data_nodes (data ! Suc lvl))" "nkey (data ! Suc lvl) a = key"
      using True by (auto simp: keys_of_def)
    then have "place (data ! Suc lvl) key = a" using ok pred_found unfolding level_ok_def by blast
    with descend_eq [OF assms(1) Suc.prems(1) a, of trace] True Suc.prems assms(1)
    show ?thesis by (auto simp: search_level_eq simp del: descend.simps)
  next
    case False
    have "\<exists>tr. get_from data key lvl (if place (data ! Suc lvl) key \<noteq> 0
        then nd_bottom (data ! Suc lvl ! place (data ! Suc lvl) key) else 0)
        (trace @ [place (data ! Suc lvl) key]) = Some (Some (place (data ! 0) key), tr)"
      using Suc.prems place_down [OF assms(1), of lvl key] by (intro Suc.IH) simp_all
    with False Suc.prems assms(1) show ?thesis by (simp add: search_level_eq split: if_splits)
  qed
qed

lemma get_from_missing:
  assumes "levels_ok data" and "key \<notin> keys_of (data ! 0)"
  shows "lvl < SKIP_LIST_MAX_HEIGHT \<Longrightarrow> start_ok (data ! lvl) key x \<Longrightarrow>
    get_from data key lvl x trace
      = Some (None, trace @ map (\<lambda>i. place (data ! i) key) (rev [0..<Suc lvl]))"
proof (induction lvl arbitrary: x trace)
  case 0
  then show ?case using assms by (simp add: search_level_eq)
next
  case (Suc lvl)
  have "get_from data key lvl (if place (data ! Suc lvl) key \<noteq> 0
      then nd_bottom (data ! Suc lvl ! place (data ! Suc lvl) key) else 0)
      (trace @ [place (data ! Suc lvl) key])
    = Some (None, (trace @ [place (data ! Suc lvl) key])
        @ map (\<lambda>i. place (data ! i) key) (rev [0..<Suc lvl]))"
    using Suc.prems place_down [OF assms(1), of lvl key] by (intro Suc.IH) simp_all
  moreover have "key \<notin> keys_of (data ! Suc lvl)"
    using keys_of_level_0 [OF assms(1) Suc.prems(1)] assms(2) by blast
  ultimately show ?case using Suc.prems assms(1) by (simp add: search_level_eq split: if_splits)
qed

lemma highest_from_eq:
  assumes "levels_ok data" and "n < SKIP_LIST_MAX_HEIGHT"
  shows "\<exists>h \<le> n. highest_from data n = Some h \<and> (\<forall>i. h < i \<and> i \<le> n \<longrightarrow> data_nodes (data ! i) = [])"
  using assms(2)
proof (induction n)
  case (Suc n)
  note ok = levels_okD(2) [OF assms(1) Suc.prems]
  then have pos: "0 < length (data ! Suc n)" using level_rep_pos unfolding level_ok_def by blast
  have len: "Suc n < length data" using Suc.prems levels_okD(1) [OF assms(1)] by simp
  show ?case
  proof (cases "nd_next (data ! Suc n ! 0) = 0")
    case True
    then have "data_nodes (data ! Suc n) = []"
      using ok by (simp add: level_ok_def level_rep_def)
    moreover obtain h where "h \<le> n" "highest_from data n = Some h"
      "\<forall>i. h < i \<and> i \<le> n \<longrightarrow> data_nodes (data ! i) = []"
      using Suc by auto
    ultimately show ?thesis using True pos len by (intro exI [of _ h]) (auto simp: le_Suc_eq)
  next
    case False
    then show ?thesis using pos len by (intro exI [of _ "Suc n"]) auto
  qed
qed simp

end
