(* ===== verification/Skip_List_Map.thy ===== *)
theory Skip_List_Map
  imports Skip_List_Correct
begin

text \<open>
  The insertion loop and \<^verbatim>\<open>update\<close> of the skip list keep its invariant, and the
  list implements a map from keys to packed indices: the interface \<^verbatim>\<open>keyed_store\<close>
  is interpreted on the model of the code.
\<close>

subsection \<open>The lookup\<close>

lemma sl_invD:
  assumes "sl_inv s"
  shows "levels_ok (sk_data s)"
    and "i < SKIP_LIST_MAX_HEIGHT \<Longrightarrow> level_ok (sk_data s ! i)"
    and "i < SKIP_LIST_MAX_HEIGHT \<Longrightarrow> free_nodes (sk_data s ! i) \<noteq> []"
    and "length (sk_data s) = SKIP_LIST_MAX_HEIGHT"
    and "length (sk_capacity s) = SKIP_LIST_MAX_HEIGHT"
    and "i < SKIP_LIST_MAX_HEIGHT \<Longrightarrow> sk_capacity s ! i = length (free_nodes (sk_data s ! i))"
  using assms by (auto simp: sl_inv_def dest: levels_okD)

lemma height_pos: "0 < SKIP_LIST_MAX_HEIGHT"
  by (simp add: SKIP_LIST_MAX_HEIGHT_def)

lemma get_heighest_level_eq:
  assumes "levels_ok (sk_data s)"
  shows "\<exists>h < SKIP_LIST_MAX_HEIGHT. get_heighest_level s = Some h
    \<and> (\<forall>i. h < i \<and> i < SKIP_LIST_MAX_HEIGHT \<longrightarrow> data_nodes (sk_data s ! i) = [])"
  using highest_from_eq [OF assms, of "SKIP_LIST_MAX_HEIGHT - 1"]
  by (auto simp: get_heighest_level_def levels_okD(1) [OF assms] SKIP_LIST_MAX_HEIGHT_def)

lemma start_ok_0 [simp]: "start_ok l key 0"
  by (simp add: start_ok_def)

text \<open>The node at level 0 and its index.\<close>

definition sl_node :: "SkipList \<Rightarrow> KEY_T \<Rightarrow> nat" where
  "sl_node s key = place (sk_data s ! 0) key"

lemma sl_node:
  assumes "levels_ok (sk_data s)" and "key \<in> dom (sl_map s)"
  shows "sl_node s key \<in> set (data_nodes (sk_data s ! 0))"
    and "nkey (sk_data s ! 0) (sl_node s key) = key"
    and "sl_map s key = Some (nidx (sk_data s ! 0) (sl_node s key))"
    and "sl_node s key \<noteq> 0" and "sl_node s key < length (sk_data s ! 0)"
proof -
  note ok = levels_okD(2) [OF assms(1) height_pos]
  obtain a where a: "a \<in> set (data_nodes (sk_data s ! 0))" "nkey (sk_data s ! 0) a = key"
    using assms by (auto simp: dom_sl_map keys_of_def)
  then have node: "sl_node s key = a"
    using ok pred_found unfolding sl_node_def level_ok_def by blast
  show "sl_node s key \<in> set (data_nodes (sk_data s ! 0))"
    "nkey (sk_data s ! 0) (sl_node s key) = key" using a node by simp_all
  show "sl_map s key = Some (nidx (sk_data s ! 0) (sl_node s key))"
    using a by (auto simp: sl_map_Some [OF assms(1)] node)
  show "sl_node s key \<noteq> 0" "sl_node s key < length (sk_data s ! 0)"
    using level_ok_node [OF ok a(1)] node by simp_all
qed

lemma SkipList_get_found:
  assumes "levels_ok (sk_data s)" and "sl_map s key = Some i"
  shows "\<exists>tr. SkipList_get key s = Some (Some (sl_node s key, i), tr)"
proof -
  have key: "key \<in> dom (sl_map s)" using assms(2) by blast
  obtain h where h: "h < SKIP_LIST_MAX_HEIGHT" "get_heighest_level s = Some h"
    using get_heighest_level_eq [OF assms(1)] by blast
  obtain tr where "get_from (sk_data s) key h 0 [] = Some (Some (sl_node s key), tr)"
    using get_from_found [OF assms(1) key [unfolded dom_sl_map [OF assms(1)]] h(1) start_ok_0]
    unfolding sl_node_def by blast
  with sl_node(3,5) [OF assms(1) key] assms(2) h(2) levels_okD(1) [OF assms(1)] show ?thesis
    by (simp add: SkipList_get_def height_pos nidx_def)
qed

lemma SkipList_get_missing:
  assumes "levels_ok (sk_data s)" and "sl_map s key = None"
  shows "\<exists>h < SKIP_LIST_MAX_HEIGHT.
    SkipList_get key s = Some (None, map (\<lambda>i. place (sk_data s ! i) key) (rev [0..<Suc h]))
    \<and> (\<forall>i. h < i \<and> i < SKIP_LIST_MAX_HEIGHT \<longrightarrow> data_nodes (sk_data s ! i) = [])"
proof -
  obtain h where h: "h < SKIP_LIST_MAX_HEIGHT" "get_heighest_level s = Some h"
    "\<forall>i. h < i \<and> i < SKIP_LIST_MAX_HEIGHT \<longrightarrow> data_nodes (sk_data s ! i) = []"
    using get_heighest_level_eq [OF assms(1)] by blast
  have "key \<notin> keys_of (sk_data s ! 0)" using assms by (auto simp flip: dom_sl_map)
  from get_from_missing [OF assms(1) this h(1) start_ok_0, of "[]"] h(2)
  have "SkipList_get key s = Some (None, map (\<lambda>i. place (sk_data s ! i) key) (rev [0..<Suc h]))"
    by (simp add: SkipList_get_def)
  with h show ?thesis by blast
qed

subsection \<open>Insertion into one level\<close>

text \<open>What \<^verbatim>\<open>insert_after\<close> does to the level it works on.\<close>

definition level_step ::
  "KEY_T \<Rightarrow> Index \<Rightarrow> nat \<Rightarrow> SkipListNode list \<Rightarrow> SkipListNode list \<Rightarrow> bool" where
  "level_step key index e l l' \<longleftrightarrow> level_ok l' \<and> free_nodes l' \<noteq> []
     \<and> e \<notin> set (data_nodes l) \<and> set (data_nodes l') = insert e (set (data_nodes l))
     \<and> nd_data (l' ! e) = \<lparr>kv_key = key, kv_idx = index\<rparr>
     \<and> (\<forall>a \<in> set (data_nodes l). nd_data (l' ! a) = nd_data (l ! a) \<and> nd_bottom (l' ! a) = nd_bottom (l ! a))"

lemma level_rep_empty_free: "level_rep l ds fs \<Longrightarrow> fs = [] \<Longrightarrow> length l = Suc (length ds)"
  by (simp add: level_rep_def)

lemma insert_resize:
  assumes ok: "level_ok l" and free: "free_nodes l = e # fs" and new: "key \<notin> keys_of l"
  shows "\<exists>l1 l'. level_insert key index (place l key) l = Some (l1, e) \<and> level_step key index e l l'
    \<and> (if fs = [] then level_resize l1 = Some l'
          \<and> length (free_nodes l') = length l1 \<and> length l1 = length (data_nodes l) + 2
        else l' = l1 \<and> free_nodes l' = fs)"
proof -
  let ?ds = "data_nodes l"
  have rep: "level_rep l ?ds (e # fs)" using ok free by (simp add: level_ok_def)
  then have e: "e \<notin> set ?ds" by (simp add: level_rep_def)
  obtain l1 where l1: "level_insert key index (place l key) l = Some (l1, e)"
    "level_rep l1 (insert_chain l key e ?ds) fs"
    "nd_data (l1 ! e) = \<lparr>kv_key = key, kv_idx = index\<rparr>"
    "\<forall>a \<in> set ?ds. nd_data (l1 ! a) = nd_data (l ! a) \<and> nd_bottom (l1 ! a) = nd_bottom (l ! a)"
    using level_insert_rep [OF rep new [unfolded keys_of_def], of index] by blast
  show ?thesis
  proof (cases "fs = []")
    case False
    then have "level_step key index e l l1"
      using l1 level_rep_ok [OF l1(2)] e by (simp add: level_step_def)
    with l1(1) level_rep_ok(2) [OF l1(2)] False show ?thesis by auto
  next
    case True
    then obtain l' fs' where l': "level_resize l1 = Some l'"
      "level_rep l' (insert_chain l key e ?ds) fs'" "length fs' = length l1"
      "\<forall>a \<in> insert e (set ?ds). nd_data (l' ! a) = nd_data (l1 ! a) \<and> nd_bottom (l' ! a) = nd_bottom (l1 ! a)"
      using resize_rep [of l1 "insert_chain l key e ?ds"] l1(2) by auto
    have len: "length l1 = length ?ds + 2"
      using level_rep_empty_free [OF l1(2) True] by simp
    have "level_step key index e l l'"
      unfolding level_step_def level_rep_ok(1,2) [OF l'(2)]
      using l1(3,4) l'(4) e level_rep_ok(3) [OF l'(2)] l'(3) len by (simp flip: length_0_conv)
    with l1(1) l'(1,3) level_rep_ok(2) [OF l'(2)] True len show ?thesis by auto
  qed
qed

lemma insert_after_eq:
  assumes len: "length (sk_data s) = SKIP_LIST_MAX_HEIGHT" "lvl < SKIP_LIST_MAX_HEIGHT"
    and ok: "level_ok (sk_data s ! lvl)" and free: "free_nodes (sk_data s ! lvl) \<noteq> []"
    and cap: "sk_capacity s = map (\<lambda>l. length (free_nodes l)) (sk_data s)"
    and new: "key \<notin> keys_of (sk_data s ! lvl)"
    and size: "length (data_nodes (sk_data s ! lvl)) + 2 < 2 ^ 31"
  shows "\<exists>l' e. insert_after key index lvl (place (sk_data s ! lvl) key) s
      = Some (s\<lparr>sk_data := (sk_data s)[lvl := l'],
          sk_capacity := map (\<lambda>l. length (free_nodes l)) ((sk_data s)[lvl := l'])\<rparr>, e)
    \<and> level_step key index e (sk_data s ! lvl) l'"
proof -
  obtain e fs where fs: "free_nodes (sk_data s ! lvl) = e # fs"
    using free by (cases "free_nodes (sk_data s ! lvl)") auto
  from insert_resize [OF ok fs new, of index] obtain l1 l' where
    l1: "level_insert key index (place (sk_data s ! lvl) key) (sk_data s ! lvl) = Some (l1, e)"
    and step: "level_step key index e (sk_data s ! lvl) l'"
    and l': "if fs = [] then level_resize l1 = Some l'
          \<and> length (free_nodes l') = length l1 \<and> length l1 = length (data_nodes (sk_data s ! lvl)) + 2
        else l' = l1 \<and> free_nodes l' = fs"
    by blast
  have lens: "lvl < length (sk_data s)" "lvl < length (sk_capacity s)" using len cap by simp_all
  have c: "sk_capacity s ! lvl = Suc (length fs)" using cap lens fs by simp
  have caps: "(sk_capacity s)[lvl := length (free_nodes l')]
      = map (\<lambda>l. length (free_nodes l)) ((sk_data s)[lvl := l'])"
    by (simp add: cap map_update)
  show ?thesis
  proof (cases "fs = []")
    case True
    with l' size have "level_resize l1 = Some l'"
      "length (free_nodes l') = length l1" "length l1 < 2 ^ 31" by simp_all
    with lens c l1 True step caps show ?thesis
      by (intro exI [of _ l'] exI [of _ e]) (simp add: insert_after_def check_and_resize_def Let_def)
  next
    case False
    with l' have "l' = l1" "free_nodes l' = fs" by auto
    with lens c l1 False step caps show ?thesis
      by (intro exI [of _ l'] exI [of _ e]) (simp add: insert_after_def check_and_resize_def Let_def)
  qed
qed

subsection \<open>The insertion loop\<close>

lemma set_node_bottom_eq:
  "lvl < length (sk_data s) \<Longrightarrow> a < length (sk_data s ! lvl) \<Longrightarrow>
   set_node_bottom lvl a b s = Some (s\<lparr>sk_data := (sk_data s)[lvl :=
     (sk_data s ! lvl)[a := (sk_data s ! lvl ! a)\<lparr>nd_bottom := b\<rparr>]]\<rparr>)"
  by (simp add: set_node_bottom_def)

text \<open>Setting the bottom of a data node changes nothing else of its level.\<close>

lemma level_rep_set_bottom:
  assumes rep: "level_rep l ds fs" and a: "a \<in> set ds"
  shows "level_rep (l[a := (l ! a)\<lparr>nd_bottom := b\<rparr>]) ds fs"
proof -
  let ?l = "l[a := (l ! a)\<lparr>nd_bottom := b\<rparr>]"
  have al: "a \<noteq> 0" "a < length l" using level_rep_data [OF rep a] by auto
  have same: "nd_next (?l ! x) = nd_next (l ! x)" "nkey ?l x = nkey l x" for x
    using al by (auto simp: nth_list_update nkey_def)
  have "chain ?l (nd_next (l ! 0)) ds" "chain ?l (nd_bottom (l ! 0)) fs"
    using rep by (auto simp: level_rep_def same intro: chain_cong)
  moreover have "nkey ?l = nkey l" using same(2) by blast
  ultimately show ?thesis using rep al by (simp add: level_rep_def same(1) nth_list_update)
qed

lemma level_ok_set_bottom:
  assumes "level_ok l" and "a \<in> set (data_nodes l)"
  shows "level_ok (l[a := (l ! a)\<lparr>nd_bottom := b\<rparr>])"
    and "data_nodes (l[a := (l ! a)\<lparr>nd_bottom := b\<rparr>]) = data_nodes l"
    and "free_nodes (l[a := (l ! a)\<lparr>nd_bottom := b\<rparr>]) = free_nodes l"
  using level_rep_ok [OF level_rep_set_bottom [OF assms(1) [unfolded level_ok_def] assms(2)]]
  by blast+

text \<open>Entries of the trace above the insertion level are dropped.\<close>

lemma insert_loop_step:
  "insert_loop key index (Suc lvl) (map P (rev [0..<n])) prev s = do {
     (s, insert_place) \<leftarrow> insert_after key index lvl (if n \<le> lvl then 0 else P lvl) s;
     s \<leftarrow> (if prev \<noteq> 0 then set_node_bottom (lvl + 1) prev insert_place s else Some s);
     insert_loop key index lvl (map P (rev [0..<min n lvl])) insert_place s
   }"
proof (induction n)
  case (Suc n)
  consider "n < lvl" | "n = lvl" | "lvl < n" by linarith
  then show ?case
  proof cases
    case 3
    then have "insert_loop key index (Suc lvl) (map P (rev [0..<Suc n])) prev s
      = insert_loop key index (Suc lvl) (map P (rev [0..<n])) prev s"
      by (simp add: insert_loop.simps(2))
    with Suc 3 show ?thesis by (simp add: min_def)
  qed (simp_all add: insert_loop.simps(2) min_def)
qed (simp add: insert_loop.simps(2))

text \<open>
  The state of the loop when the levels from \<open>n\<close> on hold the key: the links are complete but for
  the node \<open>prev\<close> of level \<open>n\<close>, and the lower levels do not have the key.
\<close>

definition loop_inv :: "KEY_T \<Rightarrow> nat \<Rightarrow> nat \<Rightarrow> SkipListNode list list \<Rightarrow> bool" where
  "loop_inv key n prev data \<longleftrightarrow> length data = SKIP_LIST_MAX_HEIGHT \<and> n \<le> SKIP_LIST_MAX_HEIGHT
     \<and> (\<forall>i < SKIP_LIST_MAX_HEIGHT. level_ok (data ! i) \<and> free_nodes (data ! i) \<noteq> [])
     \<and> (\<forall>i. Suc i < SKIP_LIST_MAX_HEIGHT \<longrightarrow>
          linked_but (if Suc i = n then prev else 0) (data ! Suc i) (data ! i))
     \<and> (prev \<noteq> 0 \<longrightarrow> n < SKIP_LIST_MAX_HEIGHT \<and> prev \<in> set (data_nodes (data ! n))
          \<and> nkey (data ! n) prev = key)
     \<and> (\<forall>i < n. key \<notin> keys_of (data ! i) \<and> length (data_nodes (data ! i)) + 2 < 2 ^ 31)"

lemma linked_but_cong:
  assumes "linked_but x lu ll" and "set (data_nodes lu') = set (data_nodes lu)"
    and "set (data_nodes ll) \<subseteq> set (data_nodes ll')"
    and "\<And>a. a \<in> set (data_nodes lu) \<Longrightarrow> nkey lu' a = nkey lu a"
    and "\<And>a. a \<in> set (data_nodes lu) \<Longrightarrow> a \<noteq> x \<Longrightarrow> nd_bottom (lu' ! a) = nd_bottom (lu ! a)"
    and "\<And>a. a \<in> set (data_nodes ll) \<Longrightarrow> nkey ll' a = nkey ll a"
  shows "linked_but x lu' ll'"
  using assms unfolding linked_but_def by (metis subsetD)

lemma level_step_nkey:
  assumes "level_step key index e l l'"
  shows "a \<in> set (data_nodes l) \<Longrightarrow> nkey l' a = nkey l a" and "nkey l' e = key"
  using assms by (auto simp: level_step_def nkey_def)

lemma linked_but_added:
  assumes "linked_but prev lu ll" and "set (data_nodes lu') = set (data_nodes lu)"
    and "level_step key index e ll ll'" and "nkey lu' = nkey lu"
    and "\<And>a. a \<in> set (data_nodes lu) \<Longrightarrow> a \<noteq> prev \<Longrightarrow> nd_bottom (lu' ! a) = nd_bottom (lu ! a)"
    and "prev \<in> set (data_nodes lu) \<Longrightarrow> nd_bottom (lu' ! prev) = e \<and> nkey lu prev = key"
  shows "linked_but 0 lu' ll'"
  unfolding linked_but_def
proof (intro ballI impI)
  fix a assume "a \<in> set (data_nodes lu')"
  then have a: "a \<in> set (data_nodes lu)" using assms(2) by simp
  have nodes: "set (data_nodes ll') = insert e (set (data_nodes ll))"
    using assms(3) by (simp add: level_step_def)
  show "nd_bottom (lu' ! a) \<in> set (data_nodes ll') \<and> nkey ll' (nd_bottom (lu' ! a)) = nkey lu' a"
  proof (cases "a = prev")
    case True
    with a assms(4,6) nodes level_step_nkey(2) [OF assms(3)] show ?thesis by simp
  next
    case False
    with a assms(1) have "nd_bottom (lu ! a) \<in> set (data_nodes ll)"
      "nkey ll (nd_bottom (lu ! a)) = nkey lu a" by (auto simp: linked_but_def)
    with assms(5) [OF a False] nodes level_step_nkey(1) [OF assms(3)] assms(4) show ?thesis by simp
  qed
qed

lemma linked_but_inserted:
  assumes "linked_but 0 lu ll" and "level_ok lu" and "level_step key index e lu lu'"
  shows "linked_but e lu' ll"
  unfolding linked_but_def
proof (intro ballI impI)
  fix a assume "a \<in> set (data_nodes lu')" "a \<noteq> e"
  then have a: "a \<in> set (data_nodes lu)" using assms(3) by (simp add: level_step_def)
  with linked_0D [OF assms(1,2) a] level_step_nkey(1) [OF assms(3) a] assms(3)
  show "nd_bottom (lu' ! a) \<in> set (data_nodes ll) \<and> nkey ll (nd_bottom (lu' ! a)) = nkey lu' a"
    by (simp add: level_step_def)
qed

lemma loop_inv_step:
  assumes inv: "loop_inv key (Suc lvl) prev data"
    and step: "level_step key index e (data ! lvl) l'"
    and data': "data' = data[lvl := l']"
    and data'': "data'' = (if prev \<noteq> 0 then data'[Suc lvl := (data' ! Suc lvl)
      [prev := (data' ! Suc lvl ! prev)\<lparr>nd_bottom := e\<rparr>]] else data')"
  shows "loop_inv key lvl e data''"
proof -
  have D: "length data = SKIP_LIST_MAX_HEIGHT" "lvl < SKIP_LIST_MAX_HEIGHT"
    "\<And>i. i < SKIP_LIST_MAX_HEIGHT \<Longrightarrow> level_ok (data ! i) \<and> free_nodes (data ! i) \<noteq> []"
    "\<And>i. Suc i < SKIP_LIST_MAX_HEIGHT \<Longrightarrow>
      linked_but (if i = lvl then prev else 0) (data ! Suc i) (data ! i)"
    "prev \<noteq> 0 \<Longrightarrow> Suc lvl < SKIP_LIST_MAX_HEIGHT \<and> prev \<in> set (data_nodes (data ! Suc lvl))
      \<and> nkey (data ! Suc lvl) prev = key"
    "\<And>i. i < Suc lvl \<Longrightarrow> key \<notin> keys_of (data ! i) \<and> length (data_nodes (data ! i)) + 2 < 2 ^ 31"
    using inv by (auto simp: loop_inv_def)
  have S: "level_ok l'" "free_nodes l' \<noteq> []" "e \<in> set (data_nodes l')" "nkey l' e = key"
    using step level_step_nkey(2) [OF step] by (simp_all add: level_step_def)
  let ?u = "data ! Suc lvl" and ?u' = "data'' ! Suc lvl"
  have len: "length data'' = SKIP_LIST_MAX_HEIGHT" using D(1) data' data'' by simp
  have at: "data'' ! lvl = l'" "\<And>i. i \<noteq> lvl \<Longrightarrow> i \<noteq> Suc lvl \<Longrightarrow> data'' ! i = data ! i"
    using D(1,2) data' data'' by simp_all
  have above: "?u' = (if prev \<noteq> 0 then ?u[prev := (?u ! prev)\<lparr>nd_bottom := e\<rparr>] else ?u)"
    if "Suc lvl < SKIP_LIST_MAX_HEIGHT"
    using that D(1,2) data' data'' by simp
  have upper: "level_ok ?u'" "data_nodes ?u' = data_nodes ?u" "free_nodes ?u' = free_nodes ?u"
    "nkey ?u' = nkey ?u"
    "\<And>a. a \<noteq> prev \<Longrightarrow> nd_bottom (?u' ! a) = nd_bottom (?u ! a)"
    "prev \<in> set (data_nodes ?u) \<Longrightarrow> nd_bottom (?u' ! prev) = e \<and> nkey ?u prev = key"
    if lt: "Suc lvl < SKIP_LIST_MAX_HEIGHT"
  proof -
    have ok: "level_ok ?u" using D(3) [OF lt] by blast
    show "level_ok ?u'" "data_nodes ?u' = data_nodes ?u" "free_nodes ?u' = free_nodes ?u"
      using level_ok_set_bottom [OF ok, of prev e] D(5) ok by (simp_all add: above [OF lt])
    show "nkey ?u' = nkey ?u"
      using level_ok_node [OF ok, of prev] D(5)
      by (intro ext) (auto simp: above [OF lt] nkey_def nth_list_update)
    show "nd_bottom (?u' ! a) = nd_bottom (?u ! a)" if "a \<noteq> prev" for a
      using that by (simp add: above [OF lt])
    show "nd_bottom (?u' ! prev) = e \<and> nkey ?u prev = key" if "prev \<in> set (data_nodes ?u)"
      using level_ok_node [OF ok that] D(5) by (simp add: above [OF lt])
  qed
  have ok: "level_ok (data'' ! i) \<and> free_nodes (data'' ! i) \<noteq> []" if "i < SKIP_LIST_MAX_HEIGHT" for i
    using that S(1,2) at D(3) [OF that] upper(1,3) by (metis (no_types, lifting))
  have links: "linked_but (if Suc i = lvl then e else 0) (data'' ! Suc i) (data'' ! i)"
    if lt: "Suc i < SKIP_LIST_MAX_HEIGHT" for i
  proof -
    note old = D(4) [OF lt]
    consider "i = lvl" | "Suc i = lvl" | "i = Suc lvl" | "i \<noteq> lvl" "Suc i \<noteq> lvl" "i \<noteq> Suc lvl" by blast
    then show ?thesis
    proof cases
      case 1
      then have "linked_but prev ?u (data ! lvl)" "Suc lvl < SKIP_LIST_MAX_HEIGHT" using old lt by simp_all
      then have "linked_but 0 ?u' l'"
        using upper by (intro linked_but_added [OF _ _ step, where prev = prev]) auto
      with 1 show ?thesis by (simp add: at)
    next
      case 2
      then have "linked_but 0 (data ! lvl) (data ! i)" using old by auto
      with 2 D(2,3) step have "linked_but e l' (data ! i)" by (blast intro: linked_but_inserted)
      with 2 at(2) [of i] show ?thesis by (simp add: at(1))
    next
      case 3
      then have "linked_but 0 (data ! Suc i) ?u" using old by simp
      then have "linked_but 0 (data ! Suc i) ?u'"
        by (rule linked_but_cong) (use upper 3 lt in auto)
      with 3 at(2) [of "Suc i"] show ?thesis by simp
    next
      case 4
      with old at(2) [of i] at(2) [of "Suc i"] show ?thesis by simp
    qed
  qed
  have "key \<notin> keys_of (data'' ! i) \<and> length (data_nodes (data'' ! i)) + 2 < 2 ^ 31" if "i < lvl" for i
    using that D(6) [of i] at(2) [of i] by simp
  with len ok links D(2) S(3,4) at(1) show ?thesis unfolding loop_inv_def by simp
qed

lemma loop_inv_insert:
  assumes inv: "loop_inv key (Suc lvl) prev (sk_data s)"
    and cap: "sk_capacity s = map (\<lambda>l. length (free_nodes l)) (sk_data s)"
    and P: "\<And>i. i < Suc lvl \<Longrightarrow> P i = place (sk_data s ! i) key"
    and T: "\<And>i. i < Suc lvl \<Longrightarrow> T \<le> i \<Longrightarrow> P i = 0"
  shows "\<exists>d e. insert_loop key index (Suc lvl) (map P (rev [0..<T])) prev s
      = insert_loop key index lvl (map P (rev [0..<min T lvl])) e
          (s\<lparr>sk_data := d, sk_capacity := map (\<lambda>l. length (free_nodes l)) d\<rparr>)
    \<and> loop_inv key lvl e d \<and> level_step key index e (sk_data s ! lvl) (d ! lvl)
    \<and> (\<forall>i < lvl. d ! i = sk_data s ! i)"
proof -
  let ?data = "sk_data s" and ?caps = "map (\<lambda>l. length (free_nodes l))"
  have D: "length ?data = SKIP_LIST_MAX_HEIGHT" "lvl < SKIP_LIST_MAX_HEIGHT"
    "level_ok (?data ! lvl)" "free_nodes (?data ! lvl) \<noteq> []" "key \<notin> keys_of (?data ! lvl)"
    "length (data_nodes (?data ! lvl)) + 2 < 2 ^ 31"
    "prev \<noteq> 0 \<Longrightarrow> Suc lvl < SKIP_LIST_MAX_HEIGHT \<and> prev \<in> set (data_nodes (?data ! Suc lvl))"
    "Suc lvl < SKIP_LIST_MAX_HEIGHT \<Longrightarrow> level_ok (?data ! Suc lvl)"
    using inv by (auto simp: loop_inv_def)
  have point: "(if T \<le> lvl then 0 else P lvl) = place (?data ! lvl) key"
    using P [of lvl] T [of lvl] by auto
  obtain l' e where ins: "insert_after key index lvl (place (?data ! lvl) key) s
      = Some (s\<lparr>sk_data := ?data[lvl := l'], sk_capacity := ?caps (?data[lvl := l'])\<rparr>, e)"
    and step: "level_step key index e (?data ! lvl) l'"
    using insert_after_eq [OF D(1-4) cap D(5,6), of index] by blast
  define d' where "d' = ?data[lvl := l']"
  define d where "d = (if prev \<noteq> 0 then d'[Suc lvl := (d' ! Suc lvl)
      [prev := (d' ! Suc lvl ! prev)\<lparr>nd_bottom := e\<rparr>]] else d')"
  have inv': "loop_inv key lvl e d" by (rule loop_inv_step [OF inv step d'_def d_def])
  have caps: "?caps d' = ?caps d"
  proof (cases "prev = 0")
    case False
    have "d' ! Suc lvl = ?data ! Suc lvl" by (simp add: d'_def)
    moreover have "prev \<in> set (data_nodes (?data ! Suc lvl))" "level_ok (?data ! Suc lvl)"
      using D(7,8) False by blast+
    ultimately have "length (free_nodes ((d' ! Suc lvl)
        [prev := (d' ! Suc lvl ! prev)\<lparr>nd_bottom := e\<rparr>])) = length (free_nodes (d' ! Suc lvl))"
      by (simp add: level_ok_set_bottom)
    with False D(1,7) show ?thesis
      by (intro nth_equalityI) (auto simp: d_def d'_def nth_list_update)
  qed (simp add: d_def)
  have "(if prev \<noteq> 0 then set_node_bottom (lvl + 1) prev e (s\<lparr>sk_data := d', sk_capacity := ?caps d'\<rparr>)
      else Some (s\<lparr>sk_data := d', sk_capacity := ?caps d'\<rparr>))
    = Some (s\<lparr>sk_data := d, sk_capacity := ?caps d\<rparr>)"
  proof (cases "prev = 0")
    case False
    then have "Suc lvl < SKIP_LIST_MAX_HEIGHT" "prev < length (?data ! Suc lvl)"
      using D(7,8) level_ok_node by blast+
    with False D(1) caps show ?thesis by (simp add: set_node_bottom_eq d_def d'_def)
  qed (use caps in \<open>simp add: d_def\<close>)
  then have "insert_loop key index (Suc lvl) (map P (rev [0..<T])) prev s
      = insert_loop key index lvl (map P (rev [0..<min T lvl])) e
          (s\<lparr>sk_data := d, sk_capacity := ?caps d\<rparr>)"
    using ins unfolding insert_loop_step point d'_def by simp
  moreover have "d ! lvl = l'" "\<forall>i < lvl. d ! i = ?data ! i"
    using D(1,2) by (auto simp: d_def d'_def)
  ultimately show ?thesis using inv' step by blast
qed

lemma insert_loop_eq:
  assumes "loop_inv key (Suc lvl) prev (sk_data s)"
    and "sk_capacity s = map (\<lambda>l. length (free_nodes l)) (sk_data s)"
    and "\<And>i. i < Suc lvl \<Longrightarrow> P i = place (sk_data s ! i) key"
    and "\<And>i. i < Suc lvl \<Longrightarrow> T \<le> i \<Longrightarrow> P i = 0"
  shows "\<exists>d e. insert_loop key index (Suc lvl) (map P (rev [0..<T])) prev s
      = Some (s\<lparr>sk_data := d, sk_capacity := map (\<lambda>l. length (free_nodes l)) d\<rparr>, e)
    \<and> loop_inv key 0 e d \<and> level_step key index e (sk_data s ! 0) (d ! 0)"
  using assms
proof (induction lvl arbitrary: prev s T)
  case 0
  from loop_inv_insert [OF 0] show ?case by simp
next
  case (Suc lvl)
  from loop_inv_insert [where P = P and T = T and index = index, OF Suc.prems] obtain d e where
    run: "insert_loop key index (Suc (Suc lvl)) (map P (rev [0..<T])) prev s
      = insert_loop key index (Suc lvl) (map P (rev [0..<min T (Suc lvl)])) e
          (s\<lparr>sk_data := d, sk_capacity := map (\<lambda>l. length (free_nodes l)) d\<rparr>)"
    and inv: "loop_inv key (Suc lvl) e d" and d: "\<forall>i < Suc lvl. d ! i = sk_data s ! i"
    by auto
  have "\<exists>d' e'. insert_loop key index (Suc lvl) (map P (rev [0..<min T (Suc lvl)])) e
      (s\<lparr>sk_data := d, sk_capacity := map (\<lambda>l. length (free_nodes l)) d\<rparr>)
    = Some (s\<lparr>sk_data := d, sk_capacity := map (\<lambda>l. length (free_nodes l)) d\<rparr>
        \<lparr>sk_data := d', sk_capacity := map (\<lambda>l. length (free_nodes l)) d'\<rparr>, e')
    \<and> loop_inv key 0 e' d' \<and> level_step key index e'
        (sk_data (s\<lparr>sk_data := d, sk_capacity := map (\<lambda>l. length (free_nodes l)) d\<rparr>) ! 0) (d' ! 0)"
    by (rule Suc.IH) (use inv d Suc.prems(3,4) in \<open>auto simp: min_def split: if_splits\<close>)
  with run d show ?case by simp
qed

subsection \<open>Update\<close>

lemma loop_inv_start:
  assumes inv: "sl_inv s" and new: "sl_map s key = None" and n: "n \<le> SKIP_LIST_MAX_HEIGHT"
    and size: "length (data_nodes (sk_data s ! 0)) + 2 < 2 ^ 31"
  shows "loop_inv key n 0 (sk_data s)"
proof -
  note ok = sl_invD(1) [OF inv]
  have "key \<notin> keys_of (sk_data s ! 0)" using new by (auto simp flip: dom_sl_map [OF ok])
  then have "key \<notin> keys_of (sk_data s ! i) \<and> length (data_nodes (sk_data s ! i)) + 2 < 2 ^ 31"
    if "i < SKIP_LIST_MAX_HEIGHT" for i
    using keys_of_level_0 [OF ok that] length_level_0 [OF ok that] size by auto
  then show ?thesis
    using n sl_invD(2,3,4) [OF inv] levels_okD(3) [OF ok] by (auto simp: loop_inv_def)
qed

lemma loop_inv_end:
  assumes "loop_inv key 0 e d" and "sk_data s = d"
    and "sk_capacity s = map (\<lambda>l. length (free_nodes l)) d"
  shows "sl_inv s"
  using assms unfolding sl_inv_def levels_ok_def loop_inv_def
  by (auto simp: in_set_conv_nth SKIP_LIST_MAX_HEIGHT_def)

lemma level_step_map:
  assumes "levels_ok (sk_data s)" and "levels_ok (sk_data s')"
    and "sl_map s key = None" and step: "level_step key index e (sk_data s ! 0) (sk_data s' ! 0)"
  shows "sl_map s' = (sl_map s)(key \<mapsto> index)"
proof (intro ext option_eqI)
  fix k i
  let ?l = "sk_data s ! 0" and ?l' = "sk_data s' ! 0"
  have nodes: "set (data_nodes ?l') = insert e (set (data_nodes ?l))" "nkey ?l' e = key"
    "nidx ?l' e = index"
    and old: "\<And>a. a \<in> set (data_nodes ?l) \<Longrightarrow> nkey ?l' a = nkey ?l a \<and> nidx ?l' a = nidx ?l a"
    using step by (auto simp: level_step_def nkey_def nidx_def)
  have "nkey ?l a \<noteq> key" if "a \<in> set (data_nodes ?l)" for a
    using assms(3) that sl_map_Some [OF assms(1), of key] by (metis option.distinct(1))
  then show "sl_map s' k = Some i \<longleftrightarrow> ((sl_map s)(key \<mapsto> index)) k = Some i"
    unfolding sl_map_Some [OF assms(2)] fun_upd_apply using nodes old
    by (auto simp: sl_map_Some [OF assms(1)])
qed

lemma get_insert_height_bounds: "height_from rnd k \<le> max k SKIP_LIST_MAX_HEIGHT \<and> k \<le> height_from rnd k"
proof (induction rnd k rule: height_from.induct)
  case (1 rnd k)
  then show ?case by (subst (1 2) height_from.simps) auto
qed

lemma insert_height: "\<exists>lvl < SKIP_LIST_MAX_HEIGHT. get_insert_height rnd = Suc lvl"
  using get_insert_height_bounds [of rnd 1]
  by (cases "get_insert_height rnd") (auto simp: get_insert_height_def SKIP_LIST_MAX_HEIGHT_def)

lemma update_new:
  assumes inv: "sl_inv s" and new: "sl_map s key = None"
    and size: "length (data_nodes (sk_data s ! 0)) + 2 < 2 ^ 31"
  shows "\<exists>s' e. SkipList_update rnd key index s = Some (s', e) \<and> sl_inv s'
    \<and> sl_map s' = (sl_map s)(key \<mapsto> index) \<and> s' = s\<lparr>sk_data := sk_data s', sk_capacity := sk_capacity s'\<rparr>
    \<and> e = sl_node s' key"
proof -
  note ok = sl_invD(1) [OF inv]
  obtain lvl where lvl: "lvl < SKIP_LIST_MAX_HEIGHT" "get_insert_height rnd = Suc lvl"
    using insert_height by blast
  let ?P = "\<lambda>i. place (sk_data s ! i) key"
  obtain h where h: "SkipList_get key s = Some (None, map ?P (rev [0..<Suc h]))"
    "\<And>i. h < i \<Longrightarrow> i < SKIP_LIST_MAX_HEIGHT \<Longrightarrow> data_nodes (sk_data s ! i) = []"
    using SkipList_get_missing [OF ok new] by blast
  obtain d e where run: "insert_loop key index (Suc lvl) (map ?P (rev [0..<Suc h])) 0 s
      = Some (s\<lparr>sk_data := d, sk_capacity := map (\<lambda>l. length (free_nodes l)) d\<rparr>, e)"
    and d: "loop_inv key 0 e d" "level_step key index e (sk_data s ! 0) (d ! 0)"
  proof -
    have "loop_inv key (Suc lvl) 0 (sk_data s)"
      using lvl(1) by (intro loop_inv_start [OF inv new _ size]) simp
    moreover have "sk_capacity s = map (\<lambda>l. length (free_nodes l)) (sk_data s)"
      using inv by (simp add: sl_inv_def)
    moreover have "?P i = 0" if "i < Suc lvl" "Suc h \<le> i" for i
      using h(2) [of i] that lvl(1) by (simp add: pred_def)
    ultimately show ?thesis using insert_loop_eq [where P = ?P and T = "Suc h"] that by blast
  qed
  define s' where "s' = s\<lparr>sk_data := d, sk_capacity := map (\<lambda>l. length (free_nodes l)) d\<rparr>"
  have inv': "sl_inv s'" by (rule loop_inv_end [OF d(1)]) (simp_all add: s'_def)
  have step: "level_step key index e (sk_data s ! 0) (sk_data s' ! 0)" using d(2) by (simp add: s'_def)
  note map = level_step_map [OF ok sl_invD(1) [OF inv'] new step]
  have "e \<in> set (data_nodes (sk_data s' ! 0))" "nkey (sk_data s' ! 0) e = key"
    using step level_step_nkey(2) [OF step] by (simp_all add: level_step_def)
  then have "e = sl_node s' key"
    using sl_invD(2) [OF inv' height_pos] pred_found unfolding level_ok_def sl_node_def by metis
  moreover have "SkipList_update rnd key index s = Some (s', e)"
    using run by (simp add: SkipList_update_def h(1) lvl(2) s'_def del: upt_Suc)
  ultimately show ?thesis using inv' map by (simp add: s'_def)
qed

text \<open>Replacing the index of a node of level 0.\<close>

lemma level_rep_set_idx:
  assumes rep: "level_rep l ds fs" and a: "a \<in> set ds"
  shows "level_rep (l[a := (l ! a)\<lparr>nd_data := (nd_data (l ! a))\<lparr>kv_idx := i\<rparr>\<rparr>]) ds fs"
proof -
  let ?l = "l[a := (l ! a)\<lparr>nd_data := (nd_data (l ! a))\<lparr>kv_idx := i\<rparr>\<rparr>]"
  have al: "a \<noteq> 0" "a < length l" using level_rep_data [OF rep a] by auto
  have same: "nd_next (?l ! x) = nd_next (l ! x)" "nkey ?l x = nkey l x" for x
    using al by (auto simp: nth_list_update nkey_def)
  have "chain ?l (nd_next (l ! 0)) ds" "chain ?l (nd_bottom (l ! 0)) fs"
    using rep by (auto simp: level_rep_def same intro: chain_cong)
  moreover have "nkey ?l = nkey l" using same(2) by blast
  ultimately show ?thesis using rep al by (simp add: level_rep_def same(1) nth_list_update)
qed

definition merge_idx :: "SkipList \<Rightarrow> Index \<Rightarrow> Index \<Rightarrow> Index" where
  "merge_idx s index old = set_fid (sk_id s) (set_idx (get_idx index) old)"

lemma update_old:
  assumes inv: "sl_inv s" and old: "sl_map s key = Some i"
  shows "\<exists>s'. SkipList_update rnd key index s = Some (s', sl_node s key) \<and> sl_inv s'
    \<and> sl_map s' = (sl_map s)(key \<mapsto> merge_idx s index i)
    \<and> s' = s\<lparr>sk_data := sk_data s'\<rparr> \<and> sl_node s key = sl_node s' key"
proof -
  note ok = sl_invD(1) [OF inv]
  let ?l = "sk_data s ! 0" and ?a = "sl_node s key" and ?i = "merge_idx s index i"
  have key: "key \<in> dom (sl_map s)" using old by blast
  note node = sl_node [OF ok key]
  have i: "kv_idx (nd_data (?l ! ?a)) = i" using node(3) old by (simp add: nidx_def)
  define l where "l = ?l[?a := (?l ! ?a)\<lparr>nd_data := (nd_data (?l ! ?a))\<lparr>kv_idx := ?i\<rparr>\<rparr>]"
  define s' where "s' = s\<lparr>sk_data := (sk_data s)[0 := l]\<rparr>"
  have len: "0 < length (sk_data s)" using sl_invD(4) [OF inv] height_pos by simp
  obtain tr where "SkipList_get key s = Some (Some (?a, i), tr)"
    using SkipList_get_found [OF ok old] by blast
  then have run: "SkipList_update rnd key index s = Some (s', ?a)"
    using node(4,5) len i by (simp add: SkipList_update_def s'_def l_def merge_idx_def Let_def)
  have "level_rep l (data_nodes ?l) (free_nodes ?l)"
    unfolding l_def using node(1) sl_invD(2) [OF inv height_pos]
    by (intro level_rep_set_idx) (simp_all add: level_ok_def)
  note nodes = level_rep_ok [OF this]
  have vals: "nkey l = nkey ?l" "nidx l b = (if b = ?a then ?i else nidx ?l b)"
    "nd_bottom (l ! b) = nd_bottom (?l ! b)" for b
    using node(5) by (auto simp: l_def nkey_def nidx_def nth_list_update)
  have at: "sk_data s' ! 0 = l" "sk_data s' ! Suc j = sk_data s ! Suc j" for j
    using len by (simp_all add: s'_def)
  have levels: "levels_ok (sk_data s')"
  proof -
    have "length (sk_data s') = SKIP_LIST_MAX_HEIGHT" using sl_invD(4) [OF inv] by (simp add: s'_def)
    moreover have "level_ok (sk_data s' ! j)" if "j < SKIP_LIST_MAX_HEIGHT" for j
      using that sl_invD(2) [OF inv that] nodes(3) at by (cases j) simp_all
    moreover have "linked_but 0 (sk_data s' ! Suc j) (sk_data s' ! j)"
      if "Suc j < SKIP_LIST_MAX_HEIGHT" for j
      using levels_okD(3) [OF ok that] nodes(1) vals(1) at by (cases j) (simp_all add: linked_but_def)
    ultimately show ?thesis
      unfolding levels_ok_def by (auto simp: in_set_conv_nth SKIP_LIST_MAX_HEIGHT_def)
  qed
  have "map (\<lambda>l. length (free_nodes l)) (sk_data s') = map (\<lambda>l. length (free_nodes l)) (sk_data s)"
    using len by (intro nth_equalityI) (auto simp: s'_def nth_list_update nodes(2))
  moreover have "free_nodes (sk_data s' ! j) \<noteq> []" if "j < SKIP_LIST_MAX_HEIGHT" for j
    using that sl_invD(3) [OF inv that] nodes(2) at by (cases j) simp_all
  ultimately have inv': "sl_inv s'"
    using inv levels levels_okD(1) [OF levels]
    by (auto simp: sl_inv_def in_set_conv_nth) (simp add: s'_def)
  have "sl_map s' = (sl_map s)(key \<mapsto> ?i)"
  proof (intro ext option_eqI)
    fix k j
    have "b = ?a" if "b \<in> set (data_nodes ?l)" "nkey ?l b = key" for b
      using pred_found that sl_invD(2) [OF inv height_pos] unfolding level_ok_def sl_node_def by metis
    note only = this
    show "sl_map s' k = Some j \<longleftrightarrow> ((sl_map s)(key \<mapsto> ?i)) k = Some j"
    proof (cases "k = key")
      case True
      have "(\<exists>b \<in> set (data_nodes ?l). nkey ?l b = key \<and> nidx l b = j) \<longleftrightarrow> ?i = j"
      proof
        assume "\<exists>b \<in> set (data_nodes ?l). nkey ?l b = key \<and> nidx l b = j"
        then obtain b where "b \<in> set (data_nodes ?l)" "nkey ?l b = key" "nidx l b = j" by blast
        with only vals(2) [of ?a] show "?i = j" by force
      next
        assume "?i = j"
        with vals(2) [of ?a] node(1,2)
        show "\<exists>b \<in> set (data_nodes ?l). nkey ?l b = key \<and> nidx l b = j" by force
      qed
      then show ?thesis
        unfolding True sl_map_Some [OF levels] at(1) nodes(1) vals(1) fun_upd_same option.inject .
    next
      case False
      then show ?thesis
        unfolding sl_map_Some [OF levels] at(1) nodes(1) vals(1) fun_upd_other [OF False]
          sl_map_Some [OF ok]
        using node(2) vals(2) by (intro bex_cong refl conj_cong) (auto simp del: One_nat_def)
    qed
  qed
  moreover have "sl_node s' key = ?a"
    unfolding sl_node_def at(1) nodes(1) by (simp add: pred_def vals(1))
  ultimately show ?thesis using run inv' by (auto simp: s'_def)
qed

subsection \<open>The list as a map\<close>

lemma SkipList_new_eq:
  "\<exists>s. SkipList_new list_id = Some s \<and> sl_inv s \<and> sl_map s = Map.empty \<and> sk_id s = list_id
    \<and> \<not> sk_dumping s \<and> \<not> sk_locked s"
proof -
  obtain l where l: "SkipList_level_new = Some l"
    "level_rep l [] (rev [1..<SKIP_LIST_INIT_CAPACITY])"
    using SkipList_level_new_rep by blast
  note nodes = level_rep_ok [OF l(2)]
  have free: "free_nodes l \<noteq> []" "length (free_nodes l) = SKIP_LIST_INIT_CAPACITY - 1"
    by (simp_all add: nodes(2) SKIP_LIST_INIT_CAPACITY_def)
  define s where "s = \<lparr>sk_data = replicate SKIP_LIST_MAX_HEIGHT l,
    sk_capacity = replicate SKIP_LIST_MAX_HEIGHT (SKIP_LIST_INIT_CAPACITY - 1),
    sk_id = list_id, sk_dumping = False, sk_locked = False\<rparr>"
  have "levels_ok (sk_data s)"
    using nodes by (auto simp: levels_ok_def s_def linked_but_def SKIP_LIST_MAX_HEIGHT_def)
  with free have "sl_inv s" by (simp add: sl_inv_def s_def)
  moreover have "sl_map s = Map.empty"
    using height_pos by (simp add: sl_map_def s_def nodes(1) Let_def)
  moreover have "SkipList_new list_id = Some s" by (simp add: SkipList_new_def l(1) s_def)
  ultimately show ?thesis by (simp add: s_def)
qed

lemma direct_get_node:
  assumes "sl_inv s" and "sl_map s key = Some i"
  shows "direct_get (sl_node s key) s = Some i"
proof -
  have "key \<in> dom (sl_map s)" using assms(2) by blast
  note node = sl_node [OF sl_invD(1) [OF assms(1)] this]
  have "0 < length (sk_data s)" using sl_invD(4) [OF assms(1)] height_pos by simp
  with node assms(2) show ?thesis by (simp add: direct_get_def nidx_def)
qed

definition sl_merge :: "u32 \<Rightarrow> Index option \<Rightarrow> Index \<Rightarrow> Index" where
  "sl_merge list_id old index =
     (case old of None \<Rightarrow> index | Some i \<Rightarrow> set_fid list_id (set_idx (get_idx index) i))"

lemma card_dom_sl_map:
  "levels_ok (sk_data s) \<Longrightarrow> card (dom (sl_map s)) = length (data_nodes (sk_data s ! 0))"
  using card_keys_of [OF levels_okD(2) [OF _ height_pos]] by (simp add: dom_sl_map)

lemma finite_dom_sl_map: "finite (dom (sl_map s))"
  by (simp add: sl_map_def Let_def finite_dom_map_of)

lemma SkipList_update_ok:
  assumes "sl_inv s" and "card (dom (sl_map s)) + 2 < 2 ^ 31"
  shows "\<exists>s'. SkipList_update rnd key index s = Some (s', sl_node s' key) \<and> sl_inv s'
    \<and> sl_map s' = (sl_map s)(key \<mapsto> sl_merge (sk_id s) (sl_map s key) index)
    \<and> s' = s\<lparr>sk_data := sk_data s', sk_capacity := sk_capacity s'\<rparr>"
proof (cases "sl_map s key")
  case None
  have "length (data_nodes (sk_data s ! 0)) + 2 < 2 ^ 31"
    using assms card_dom_sl_map [OF sl_invD(1) [OF assms(1)]] by simp
  from update_new [OF assms(1) None this, of rnd index] None show ?thesis
    by (auto simp: sl_merge_def)
next
  case (Some i)
  from update_old [OF assms(1) Some, of rnd index] obtain s' where
    "SkipList_update rnd key index s = Some (s', sl_node s' key)" "sl_inv s'"
    "sl_map s' = (sl_map s)(key \<mapsto> merge_idx s index i)" and s': "s' = s\<lparr>sk_data := sk_data s'\<rparr>"
    by auto
  moreover from s' have "s' = s\<lparr>sk_data := sk_data s', sk_capacity := sk_capacity s'\<rparr>"
    by (metis SkipList.surjective SkipList.update_convs(1,2) SkipList.ext_inject)
  ultimately show ?thesis using Some by (auto simp: sl_merge_def merge_idx_def)
qed

text \<open>The constructor gives a well-formed, empty list that is neither locked nor dumping.\<close>

lemma SkipList_new_correct:
  "\<exists>s. SkipList_new list_id = Some s \<and> sl_inv s \<and> sl_map s = Map.empty \<and> sk_id s = list_id
    \<and> \<not> sk_dumping s \<and> \<not> sk_locked s"
  by (rule SkipList_new_eq)

text \<open>\<^verbatim>\<open>SkipList::get\<close> on a well-formed list always returns, within the
  vectors: it reports -1 exactly for the keys that are not in the list, and otherwise the node at
  level 0 that carries the key, with its index, which is also what \<^verbatim>\<open>direct_get\<close>
  reads at that node later.\<close>

lemma SkipList_get_correct:
  assumes "sl_inv s"
  shows "\<exists>ret trace. SkipList_get key s = Some (ret, trace)
    \<and> map_option snd ret = sl_map s key
    \<and> (\<forall>a i. ret = Some (a, i) \<longrightarrow> 0 < a \<and> nkey (sk_data s ! 0) a = key \<and> direct_get a s = Some i)"
proof (cases "sl_map s key")
  case None
  with SkipList_get_missing [OF sl_invD(1) [OF assms] None] show ?thesis by auto
next
  case (Some i)
  note ok = sl_invD(1) [OF assms]
  have "key \<in> dom (sl_map s)" using Some by blast
  note node = sl_node [OF ok this]
  obtain trace where "SkipList_get key s = Some (Some (sl_node s key, i), trace)"
    using SkipList_get_found [OF ok Some] by blast
  with node(2,4) Some direct_get_node [OF assms Some] show ?thesis by simp
qed

lemma SkipList_get_correct_example:
  "\<exists>s ret trace. SkipList_new 3 = Some s \<and> SkipList_get 5 s = Some (ret, trace) \<and> ret = None"
proof -
  obtain s where s: "SkipList_new 3 = Some s" "sl_inv s" "sl_map s = Map.empty"
    using SkipList_new_eq by blast
  from SkipList_get_correct [OF s(2), of 5] s show ?thesis by auto
qed

text \<open>C24: \<^verbatim>\<open>SkipList::update\<close> returns for every sequence of random numbers and
  keeps the list well-formed while it has fewer than \<open>2^31 - 2\<close> keys; it returns the node of
  the key at level 0, maps a new key to the given index, gives a present key the new position and
  the list's own number while its flags stay, and changes no other key.\<close>

theorem SkipList_update_correct:
  assumes "sl_inv s" and "card (dom (sl_map s)) + 2 < 2 ^ 31"
  shows "\<exists>s' a. SkipList_update rnd key index s = Some (s', a) \<and> sl_inv s'
    \<and> sl_map s' = (sl_map s)(key \<mapsto> (case sl_map s key of None \<Rightarrow> index
        | Some old \<Rightarrow> set_fid (sk_id s) (set_idx (get_idx index) old)))
    \<and> nkey (sk_data s' ! 0) a = key \<and> direct_get a s' = sl_map s' key"
proof -
  obtain s' where s': "SkipList_update rnd key index s = Some (s', sl_node s' key)" "sl_inv s'"
    "sl_map s' = (sl_map s)(key \<mapsto> sl_merge (sk_id s) (sl_map s key) index)"
    using SkipList_update_ok [OF assms] by blast
  then have key: "sl_map s' key = Some (sl_merge (sk_id s) (sl_map s key) index)" by simp
  then have "key \<in> dom (sl_map s')" by blast
  note node = sl_node(2) [OF sl_invD(1) [OF s'(2)] this]
  with s' direct_get_node [OF s'(2) key] show ?thesis by (auto simp: sl_merge_def)
qed

theorem SkipList_update_correct_witness:
  "\<exists>s s' a. SkipList_new 3 = Some s \<and> SkipList_update (\<lambda>_. 0) 5 (Index_of 9) s = Some (s', a)
    \<and> sl_map s' 5 = Some (Index_of 9)"
proof -
  obtain s where s: "SkipList_new 3 = Some s" "sl_inv s" "sl_map s = Map.empty"
    using SkipList_new_eq by blast
  from SkipList_update_correct [OF s(2), of "\<lambda>_. 0" 5 "Index_of 9"] s show ?thesis by auto
qed

text \<open>
  The list together with the random numbers still to come, as a keyed store. The stream has one
  sequence of numbers per update.
\<close>

definition sl_store ::
  "KEY_T \<Rightarrow> Index \<Rightarrow> SkipList \<times> (nat \<Rightarrow> nat \<Rightarrow> nat) \<Rightarrow> (SkipList \<times> (nat \<Rightarrow> nat \<Rightarrow> nat)) option" where
  "sl_store key index t =
     (if card (dom (sl_map (fst t))) + 2 < 2 ^ 31
      then map_option (\<lambda>(s, _). (s, \<lambda>n. snd t (Suc n))) (SkipList_update (snd t 0) key index (fst t))
      else None)"

interpretation skip_map: keyed_store "\<lambda>t. sl_inv (fst t) \<and> sk_id (fst t) = list_id"
  "\<lambda>t. sl_map (fst t)" sl_store "sl_merge list_id" for list_id
proof unfold_locales
  fix t t' :: "SkipList \<times> (nat \<Rightarrow> nat \<Rightarrow> nat)" and k v
  assume inv: "sl_inv (fst t) \<and> sk_id (fst t) = list_id" and run: "sl_store k v t = Some t'"
  then have size: "card (dom (sl_map (fst t))) + 2 < 2 ^ 31"
    by (auto simp: sl_store_def split: if_splits)
  obtain s' where s': "SkipList_update (snd t 0) k v (fst t) = Some (s', sl_node s' k)" "sl_inv s'"
    "sl_map s' = (sl_map (fst t))(k \<mapsto> sl_merge (sk_id (fst t)) (sl_map (fst t) k) v)"
    "s' = (fst t)\<lparr>sk_data := sk_data s', sk_capacity := sk_capacity s'\<rparr>"
    using SkipList_update_ok [OF conjunct1 [OF inv] size] by blast
  have t': "fst t' = s'" using run s'(1) size by (auto simp: sl_store_def)
  have "sk_id s' = sk_id (fst t)" by (subst s'(4)) simp
  with s' t' inv show "sl_inv (fst t') \<and> sk_id (fst t') = list_id"
    "sl_map (fst t') = (sl_map (fst t))(k \<mapsto> sl_merge list_id (sl_map (fst t) k) v)"
    by simp_all
qed

fun SkipList_updates :: "(nat \<Rightarrow> nat \<Rightarrow> nat) \<Rightarrow> (KEY_T \<times> Index) list \<Rightarrow> SkipList \<Rightarrow> SkipList option" where
  "SkipList_updates g [] s = Some s"
| "SkipList_updates g ((k, i) # kis) s = do {
     (s, _) \<leftarrow> SkipList_update (g 0) k i s;
     SkipList_updates (\<lambda>n. g (Suc n)) kis s
   }"

lemma cnt_ns_eq:
  assumes "sl_inv s"
  shows "cnt_ns s = Some (int (card (dom (sl_map s))))"
proof -
  note len = sl_invD(4,5) [OF assms]
  have "length (sk_data s ! 0) = Suc (length (data_nodes (sk_data s ! 0)) + length (free_nodes (sk_data s ! 0)))"
    using sl_invD(2) [OF assms height_pos] unfolding level_ok_def level_rep_def by blast
  then show ?thesis
    using len height_pos sl_invD(6) [OF assms height_pos] card_dom_sl_map [OF sl_invD(1) [OF assms]]
    by (simp add: cnt_ns_def)
qed

lemma SkipList_updates_ok:
  assumes "sl_inv s" and "card (dom (sl_map s)) + length kis + 2 \<le> 2 ^ 31"
  shows "\<exists>s'. SkipList_updates g kis s = Some s'
    \<and> skip_map.update_all kis (s, g) = Some (s', \<lambda>n. g (n + length kis))"
  using assms
proof (induction kis arbitrary: s g)
  case (Cons ki kis)
  obtain k i where ki: "ki = (k, i)" by (cases ki)
  have size: "card (dom (sl_map s)) + 2 < 2 ^ 31" using Cons.prems(2) by simp
  obtain s1 where s1: "SkipList_update (g 0) k i s = Some (s1, sl_node s1 k)" "sl_inv s1"
    "sl_map s1 = (sl_map s)(k \<mapsto> sl_merge (sk_id s) (sl_map s k) i)"
    using SkipList_update_ok [OF Cons.prems(1) size] by blast
  have "card (dom (sl_map s1)) \<le> Suc (card (dom (sl_map s)))"
    by (simp add: s1(3) card_insert_if finite_dom_sl_map)
  then have "card (dom (sl_map s1)) + length kis + 2 \<le> 2 ^ 31" using Cons.prems(2) by simp
  note rest = Cons.IH [OF s1(2) this, of "\<lambda>n. g (Suc n)"]
  have "sl_store k i (s, g) = Some (s1, \<lambda>n. g (Suc n))" using s1(1) size by (simp add: sl_store_def)
  with rest s1(1) show ?case by (auto simp: ki)
qed simp

text \<open>What a list of writes leaves under a key.\<close>

definition sl_written :: "u32 \<Rightarrow> (KEY_T \<times> Index) list \<Rightarrow> KEY_T \<Rightarrow> Index option" where
  "sl_written list_id kis k =
     (case map snd (filter (\<lambda>ki. fst ki = k) kis) of
        [] \<Rightarrow> None
      | i # is \<Rightarrow> Some (fold (\<lambda>new old. set_fid list_id (set_idx (get_idx new) old)) is i))"

lemma sl_merge_None [simp]: "sl_merge list_id None i = i"
  by (simp add: sl_merge_def)

lemma sl_written_None: "sl_written list_id kis k = None \<longleftrightarrow> k \<notin> fst ` set kis"
proof -
  have "sl_written list_id kis k = None \<longleftrightarrow> filter (\<lambda>ki. fst ki = k) kis = []"
    by (cases "filter (\<lambda>ki. fst ki = k) kis") (simp_all add: sl_written_def)
  then show ?thesis by (auto simp: filter_empty_conv)
qed

lemma fold_sl_merge:
  "fold (\<lambda>kv old. Some (sl_merge list_id old (snd kv))) kis (Some i)
   = Some (fold (\<lambda>new old. set_fid list_id (set_idx (get_idx new) old)) (map snd kis) i)"
  by (induction kis arbitrary: i) (simp_all add: sl_merge_def)

lemma sl_written_eq:
  "fold (\<lambda>kv old. Some (sl_merge list_id old (snd kv))) (filter (\<lambda>kv. fst kv = k) kis) None
   = sl_written list_id kis k"
  by (cases "filter (\<lambda>kv. fst kv = k) kis") (simp_all add: sl_written_def fold_sl_merge)

lemma SkipList_updates_new:
  assumes "length kis + 2 \<le> 2 ^ 31"
  shows "\<exists>s0 s. SkipList_new list_id = Some s0 \<and> SkipList_updates g kis s0 = Some s
    \<and> sl_inv s \<and> (\<forall>k. sl_map s k = sl_written list_id kis k)"
proof -
  obtain s0 where s0: "SkipList_new list_id = Some s0" "sl_inv s0" "sl_map s0 = Map.empty"
    "sk_id s0 = list_id"
    using SkipList_new_eq by blast
  obtain s where s: "SkipList_updates g kis s0 = Some s"
    "skip_map.update_all kis (s0, g) = Some (s, \<lambda>n. g (n + length kis))"
    using SkipList_updates_ok [OF s0(2), of kis g] assms s0(3) by auto
  have start: "sl_inv (fst (s0, g)) \<and> sk_id (fst (s0, g)) = list_id" using s0 by simp
  have "sl_map s k = sl_written list_id kis k" for k
    using skip_map.update_all_lookup [OF start s(2), of k] s0(3) by (simp add: sl_written_eq)
  with skip_map.update_all_invar [OF start s(2)] s0(1) s(1) show ?thesis by auto
qed

text \<open>C25: Any sequence of up to \<open>2^31 - 2\<close> updates of a new list succeeds, whatever the
  random numbers are; afterwards every key has the index of its first write with the later
  positions merged in, and \<^verbatim>\<open>cnt_ns\<close> is the number of distinct keys written.\<close>

theorem SkipList_history:
  assumes "length kis + 2 \<le> 2 ^ 31"
  shows "\<exists>s0 s. SkipList_new list_id = Some s0 \<and> SkipList_updates g kis s0 = Some s
    \<and> sl_map s = sl_written list_id kis \<and> cnt_ns s = Some (int (card (fst ` set kis)))"
proof -
  obtain s0 s where s: "SkipList_new list_id = Some s0" "SkipList_updates g kis s0 = Some s"
    "sl_inv s" "\<And>k. sl_map s k = sl_written list_id kis k"
    using SkipList_updates_new [OF assms] by blast
  have "dom (sl_map s) = fst ` set kis" by (auto simp: s(4) dom_def sl_written_None)
  with cnt_ns_eq [OF s(3)] s show ?thesis by (metis ext)
qed

theorem SkipList_history_witness:
  "\<exists>s0 s. SkipList_new 1 = Some s0
    \<and> SkipList_updates (\<lambda>_ _. 4) [(7, Index_of 1), (3, Index_of 2), (7, Index_of 3)] s0 = Some s
    \<and> cnt_ns s = Some 2"
proof -
  have "card (fst ` set [(7 :: KEY_T, Index_of 1), (3, Index_of 2), (7, Index_of 3)]) = 2"
    by (simp add: card_insert_if)
  with SkipList_history [of "[(7, Index_of 1), (3, Index_of 2), (7, Index_of 3)]" 1 "\<lambda>_ _. 4"]
  show ?thesis by (simp del: SkipList_updates.simps) blast
qed

lemma height_from_eq:
  "k \<le> SKIP_LIST_MAX_HEIGHT \<Longrightarrow>
   height_from rnd k \<le> SKIP_LIST_MAX_HEIGHT \<and> k \<le> height_from rnd k
   \<and> (\<forall>j. k \<le> j \<and> j < height_from rnd k \<longrightarrow> rnd (j - 1) mod POSSIBILITY_GEN_UPPER = 0)
   \<and> (height_from rnd k < SKIP_LIST_MAX_HEIGHT \<longrightarrow>
        rnd (height_from rnd k - 1) mod POSSIBILITY_GEN_UPPER \<noteq> 0)"
proof (induction rnd k rule: height_from.induct)
  case (1 rnd k)
  show ?case
  proof (cases "rnd (k - 1) mod POSSIBILITY_GEN_UPPER = 0 \<and> k < SKIP_LIST_MAX_HEIGHT")
    case True
    then have step: "height_from rnd k = height_from rnd (k + 1)"
      by (subst height_from.simps) simp
    have "rnd (j - 1) mod POSSIBILITY_GEN_UPPER = 0" if "k \<le> j" "j < height_from rnd (k + 1)" for j
      using that 1(1) [OF True] True by (cases "j = k") auto
    with 1(1) [OF True] True show ?thesis unfolding step by simp
  next
    case False
    then have "height_from rnd k = k" by (subst height_from.simps) auto
    with False 1(2) show ?thesis by auto
  qed
qed

text \<open>The height of a new node is one more than the number of leading random numbers that
  are divisible by \<^verbatim>\<open>POSSIBILITY_GEN_UPPER\<close>, and at most
  \<^verbatim>\<open>SKIP_LIST_MAX_HEIGHT\<close>, so \<^verbatim>\<open>insert_lvl\<close> is an existing level.\<close>

lemma get_insert_height_correct:
  "let k = get_insert_height rnd in 1 \<le> k \<and> k \<le> SKIP_LIST_MAX_HEIGHT
    \<and> {j. j < k - 1} \<subseteq> {j. rnd j mod POSSIBILITY_GEN_UPPER = 0}
    \<and> (k = SKIP_LIST_MAX_HEIGHT \<or> \<not> POSSIBILITY_GEN_UPPER dvd rnd (k - 1))"
proof -
  let ?k = "get_insert_height rnd"
  have k: "?k \<le> SKIP_LIST_MAX_HEIGHT" "1 \<le> ?k"
    "\<And>j. 1 \<le> j \<Longrightarrow> j < ?k \<Longrightarrow> rnd (j - 1) mod POSSIBILITY_GEN_UPPER = 0"
    "?k < SKIP_LIST_MAX_HEIGHT \<Longrightarrow> rnd (?k - 1) mod POSSIBILITY_GEN_UPPER \<noteq> 0"
    using height_from_eq [of 1 rnd] by (auto simp: get_insert_height_def SKIP_LIST_MAX_HEIGHT_def)
  have "rnd j mod POSSIBILITY_GEN_UPPER = 0" if "j < ?k - 1" for j using k(3) [of "Suc j"] that by simp
  with k(1,2,4) show ?thesis by (auto simp: Let_def mod_eq_0_iff_dvd)
qed

lemma get_insert_height_correct_example: "get_insert_height (\<lambda>j. if j < 2 then 4 else 1) = 3"
proof -
  let ?rnd = "\<lambda>j. if j < 2 then 4 else (1 :: nat)" let ?k = "get_insert_height ?rnd"
  have k: "1 \<le> ?k" "{j. j < ?k - 1} \<subseteq> {j. ?rnd j mod POSSIBILITY_GEN_UPPER = 0}"
    "?k = SKIP_LIST_MAX_HEIGHT \<or> \<not> POSSIBILITY_GEN_UPPER dvd ?rnd (?k - 1)"
    using get_insert_height_correct [of ?rnd] unfolding Let_def by blast+
  have "\<not> 2 < ?k - 1"
  proof
    assume "2 < ?k - 1"
    then have "2 \<in> {j. j < ?k - 1}" by simp
    from subsetD [OF k(2) this] show False by (simp add: POSSIBILITY_GEN_UPPER_def)
  qed
  moreover have "\<not> ?k - 1 < 2"
  proof
    assume *: "?k - 1 < 2"
    then have "POSSIBILITY_GEN_UPPER dvd ?rnd (?k - 1)" by (simp add: POSSIBILITY_GEN_UPPER_def)
    with k(3) have "?k = 12" by (simp add: SKIP_LIST_MAX_HEIGHT_def)
    with * show False by simp
  qed
  ultimately have "?k - 1 = 2" by (simp only: not_less le_antisym)
  with k(1) show ?thesis by arith
qed

subsection \<open>Draining level 0\<close>

text \<open>
  While a list is written out, its pairs are taken from level 0 alone; the upper levels then have
  dangling links, so only level 0 keeps its representation.
\<close>

definition level_0_ok :: "SkipList \<Rightarrow> bool" where
  "level_0_ok s \<longleftrightarrow> sk_data s \<noteq> [] \<and> level_ok (sk_data s ! 0)"

lemma sl_inv_level_0: "sl_inv s \<Longrightarrow> level_0_ok s"
  using sl_invD(2) [OF _ height_pos] sl_invD(4) [of s] height_pos by (auto simp: level_0_ok_def)

lemma level_rep_pop:
  assumes rep: "level_rep l (a # ds) fs"
  shows "level_rep (l[0 := (l ! 0)\<lparr>nd_next := nd_next (l ! a), nd_bottom := a\<rparr>,
    a := (l ! a)\<lparr>nd_next := nd_bottom (l ! 0)\<rparr>]) ds (a # fs)"
proof -
  let ?l = "l[0 := (l ! 0)\<lparr>nd_next := nd_next (l ! a), nd_bottom := a\<rparr>,
    a := (l ! a)\<lparr>nd_next := nd_bottom (l ! 0)\<rparr>]"
  have l: "0 < length l" "a \<noteq> 0" "a < length l" "chain l (nd_next (l ! a)) ds"
    "chain l (nd_bottom (l ! 0)) fs" "a \<notin> set ds" "a \<notin> set fs"
    using rep by (auto simp: level_rep_def)
  have nodes: "nd_next (?l ! 0) = nd_next (l ! a)" "nd_bottom (?l ! 0) = a"
    "nd_next (?l ! a) = nd_bottom (l ! 0)" "nkey ?l = nkey l"
    "\<And>b. b \<noteq> 0 \<Longrightarrow> b \<noteq> a \<Longrightarrow> nd_next (?l ! b) = nd_next (l ! b)"
    using l by (auto simp: nth_list_update nkey_def fun_eq_iff)
  have "b \<noteq> 0 \<and> b \<noteq> a" if "b \<in> set ds \<or> b \<in> set fs" for b
    using that l(4-7) by (auto dest: chain_bounds)
  then have "chain ?l (nd_next (l ! a)) ds" "chain ?l (nd_bottom (l ! 0)) fs"
    using chain_cong [OF l(4), of ?l] chain_cong [OF l(5), of ?l] nodes(5) by simp_all
  moreover have "distinct (ds @ a # fs)" "sorted_wrt (<) (map (nkey l) ds)" "nkey l 0 = 0"
    "length l = Suc (length ds + length (a # fs))"
    using rep by (auto simp: level_rep_def)
  moreover have "?l \<noteq> []" "length ?l = length l" using l(1) by auto
  ultimately show ?thesis
    unfolding level_rep_def nodes(1,2,4) using nodes(3) l(2,3) by simp
qed

lemma pop_lvl_0_eq:
  assumes "level_0_ok s" and "data_nodes (sk_data s ! 0) = a # ds"
  shows "\<exists>s' l. pop_lvl_0 s = Some (s', Some a) \<and> s' = s\<lparr>sk_data := (sk_data s)[0 := l]\<rparr>
    \<and> level_ok l \<and> data_nodes l = ds \<and> free_nodes l = a # free_nodes (sk_data s ! 0)
    \<and> (\<forall>b. nd_data (l ! b) = nd_data (sk_data s ! 0 ! b)) \<and> length l = length (sk_data s ! 0)"
proof -
  let ?l = "sk_data s ! 0"
  let ?l' = "?l[0 := (?l ! 0)\<lparr>nd_next := nd_next (?l ! a), nd_bottom := a\<rparr>,
    a := (?l ! a)\<lparr>nd_next := nd_bottom (?l ! 0)\<rparr>]"
  have rep: "level_rep ?l (a # ds) (free_nodes ?l)"
    using assms by (simp add: level_0_ok_def level_ok_def)
  then have l: "0 < length ?l" "nd_next (?l ! 0) = a" "a \<noteq> 0" "a < length ?l"
    by (auto simp: level_rep_def)
  have "?l[0 := (?l ! 0)\<lparr>nd_next := nd_next (?l ! a)\<rparr>, a := (?l ! a)\<lparr>nd_next := nd_bottom (?l ! 0)\<rparr>,
      0 := (?l ! 0)\<lparr>nd_next := nd_next (?l ! a), nd_bottom := a\<rparr>] = ?l'"
    using l by (intro nth_equalityI) (auto simp: nth_list_update)
  then have run: "pop_lvl_0 s = Some (s\<lparr>sk_data := (sk_data s)[0 := ?l']\<rparr>, Some a)"
    using l assms(1) by (simp add: pop_lvl_0_def level_0_ok_def)
  have "nd_data (?l' ! b) = nd_data (?l ! b)" for b
    using l by (auto simp: nth_list_update)
  with run level_rep_ok [OF level_rep_pop [OF rep]] show ?thesis by (metis length_list_update)
qed

lemma pop_lvl_0_empty:
  assumes "level_0_ok s" and "data_nodes (sk_data s ! 0) = []"
  shows "pop_lvl_0 s = Some (s, None)" and "front_lvl_0 s = Some None"
proof -
  have "level_rep (sk_data s ! 0) [] (free_nodes (sk_data s ! 0))"
    using assms by (simp add: level_0_ok_def level_ok_def)
  then have "0 < length (sk_data s ! 0)" "nd_next (sk_data s ! 0 ! 0) = 0"
    by (auto simp: level_rep_def)
  then show "pop_lvl_0 s = Some (s, None)" "front_lvl_0 s = Some None"
    using assms(1) by (simp_all add: pop_lvl_0_def front_lvl_0_def level_0_ok_def)
qed

lemma front_lvl_0_eq:
  assumes "level_0_ok s" and "data_nodes (sk_data s ! 0) = a # ds"
  shows "front_lvl_0 s = Some (Some a)"
proof -
  have "level_rep (sk_data s ! 0) (a # ds) (free_nodes (sk_data s ! 0))"
    using assms by (simp add: level_0_ok_def level_ok_def)
  then have "0 < length (sk_data s ! 0)" "nd_next (sk_data s ! 0 ! 0) = a" "a \<noteq> 0" "a < length (sk_data s ! 0)"
    by (auto simp: level_rep_def)
  then show ?thesis using assms(1) by (simp add: front_lvl_0_def level_0_ok_def)
qed

text \<open>The pairs of level 0, in the order of the chain.\<close>

definition level_0_pairs :: "SkipList \<Rightarrow> KeyIdxPair list" where
  "level_0_pairs s = (let l = sk_data s ! 0 in map (\<lambda>a. nd_data (l ! a)) (data_nodes l))"

lemma level_0_pairs_sorted:
  assumes "level_0_ok s"
  shows "sorted_wrt (<) (map kv_key (level_0_pairs s))"
  using assms by (simp add: level_0_ok_def level_ok_def level_rep_def level_0_pairs_def Let_def
      nkey_def [abs_def] comp_def)

lemma level_0_pairs_map:
  assumes "level_0_ok s"
  shows "sl_map s k = Some i \<longleftrightarrow> (\<exists>p \<in> set (level_0_pairs s). kv_key p = k \<and> kv_idx p = i)"
  using map_of_nodes [of "sk_data s ! 0" k i] assms
  by (simp add: sl_map_def Let_def level_0_ok_def level_0_pairs_def nkey_def nidx_def)

lemma pop_lvl_0_cases:
  assumes ok: "level_0_ok s"
  shows "case level_0_pairs s of
      [] \<Rightarrow> pop_lvl_0 s = Some (s, None) \<and> front_lvl_0 s = Some None
    | p # ps \<Rightarrow> \<exists>s' a. pop_lvl_0 s = Some (s', Some a) \<and> front_lvl_0 s = Some (Some a)
        \<and> level_0_ok s' \<and> level_0_pairs s' = ps \<and> cnt_ns s' = cnt_ns s
        \<and> a < length (sk_data s' ! 0) \<and> nd_data (sk_data s ! 0 ! a) = p \<and> nd_data (sk_data s' ! 0 ! a) = p"
proof (cases "data_nodes (sk_data s ! 0)")
  case Nil
  then show ?thesis using pop_lvl_0_empty [OF ok] by (simp add: level_0_pairs_def)
next
  case (Cons a ds)
  obtain s' l where s': "pop_lvl_0 s = Some (s', Some a)" "s' = s\<lparr>sk_data := (sk_data s)[0 := l]\<rparr>"
    "level_ok l" "data_nodes l = ds" "\<forall>b. nd_data (l ! b) = nd_data (sk_data s ! 0 ! b)"
    "length l = length (sk_data s ! 0)"
    using pop_lvl_0_eq [OF ok Cons] by blast
  have at: "sk_data s' ! 0 = l" "sk_data s' \<noteq> []" "sk_data s \<noteq> []"
    using ok s'(2) by (simp_all add: level_0_ok_def)
  have "cnt_ns s' = cnt_ns s" using s'(2,6) at by (simp add: cnt_ns_def)
  moreover have "a < length l"
    using level_ok_node [of "sk_data s ! 0" a] ok Cons s'(6) by (simp add: level_0_ok_def)
  ultimately show ?thesis
    using s'(1,3-5) at front_lvl_0_eq [OF ok Cons] Cons
    by (simp add: level_0_pairs_def level_0_ok_def Let_def)
qed

text \<open>\<^verbatim>\<open>pop_lvl_0\<close> on a non-empty level 0 removes the pair with the
  least key, which \<^verbatim>\<open>front_lvl_0\<close> shows before, and no other; the removed pair stays
  readable at its address, and \<^verbatim>\<open>cnt_ns\<close> does not change, since the capacity is not
  given back.\<close>

lemma pop_lvl_0_minimum:
  assumes "level_0_ok s" and "sl_map s \<noteq> Map.empty"
  shows "\<exists>s' a. pop_lvl_0 s = Some (s', Some a) \<and> front_lvl_0 s = Some (Some a) \<and> level_0_ok s'
    \<and> is_arg_min id (\<lambda>k. k \<in> dom (sl_map s)) (nkey (sk_data s ! 0) a)
    \<and> sl_map s' = (sl_map s)(nkey (sk_data s ! 0) a := None)
    \<and> nd_data (sk_data s' ! 0 ! a) = nd_data (sk_data s ! 0 ! a) \<and> cnt_ns s' = cnt_ns s"
proof (cases "level_0_pairs s")
  case Nil
  then have "sl_map s k \<noteq> Some i" for k i using level_0_pairs_map [OF assms(1)] by simp
  with assms(2) show ?thesis by (meson ext option.exhaust)
next
  case (Cons p ps)
  then obtain s' a where s': "pop_lvl_0 s = Some (s', Some a)" "front_lvl_0 s = Some (Some a)"
    "level_0_ok s'" "level_0_pairs s' = ps" "cnt_ns s' = cnt_ns s"
    "nd_data (sk_data s ! 0 ! a) = p" "nd_data (sk_data s' ! 0 ! a) = p"
    using pop_lvl_0_cases [OF assms(1)] by auto
  have p: "nkey (sk_data s ! 0) a = kv_key p" using s'(6) by (simp add: nkey_def)
  have least: "\<forall>q \<in> set ps. kv_key p < kv_key q"
    using level_0_pairs_sorted [OF assms(1)] by (simp add: Cons)
  have "is_arg_min id (\<lambda>k. k \<in> dom (sl_map s)) (kv_key p)"
    using least by (auto simp: is_arg_min_linorder dom_def level_0_pairs_map [OF assms(1)] Cons)
  moreover have "sl_map s' = (sl_map s)(kv_key p := None)"
  proof (intro ext option_eqI)
    fix k i
    show "sl_map s' k = Some i \<longleftrightarrow> ((sl_map s)(kv_key p := None)) k = Some i"
      using least by (auto simp: level_0_pairs_map [OF s'(3)] level_0_pairs_map [OF assms(1)] s'(4) Cons)
  qed
  ultimately show ?thesis using s' p by (intro exI [of _ s'] exI [of _ a]) simp
qed

lemma pop_lvl_0_minimum_example:
  "\<exists>s s'. sl_map s = [2 \<mapsto> Index_of 1, 1 \<mapsto> Index_of 4]
    \<and> pop_lvl_0 s = Some s' \<and> sl_map (fst s') = [2 \<mapsto> Index_of 1]"
proof -
  let ?kis = "[(2, Index_of 1), (1, Index_of 4)]"
  obtain s where s: "sl_inv s" "\<And>k. sl_map s k = sl_written 0 ?kis k"
    using SkipList_updates_new [of ?kis 0 "\<lambda>_ _. 0"] by auto
  have map: "sl_map s = [2 \<mapsto> Index_of 1, 1 \<mapsto> Index_of 4]"
    by (rule ext) (simp add: s(2) sl_written_def)
  have "sl_map s \<noteq> Map.empty" unfolding map by simp
  from pop_lvl_0_minimum [OF sl_inv_level_0 [OF s(1)] this] obtain s' a where
    s': "pop_lvl_0 s = Some (s', Some a)"
    "is_arg_min id (\<lambda>k. k \<in> dom (sl_map s)) (nkey (sk_data s ! 0) a)"
    "sl_map s' = (sl_map s)(nkey (sk_data s ! 0) a := None)" by blast
  have "nkey (sk_data s ! 0) a = 1"
    using s'(2) unfolding map by (auto simp: is_arg_min_linorder word_le_nat_alt)
  with s' map show ?thesis by (auto simp: fun_upd_twist)
qed

end
