(* ===== verification/Wait_Queue.thy ===== *)
theory Wait_Queue
  imports Store_Spec "HOL-Library.Multiset"
begin

text \<open>
  \<^verbatim>\<open>engine_race/DBSystem/WaitQueue.h\<close>: a bounded queue that producers and consumers
  wait for on two condition variables. The operations are given first as what they do to the
  queue once the mutex is held (\<^term>\<open>None\<close> where the thread has to wait); the step
  relation then adds the waiting threads, the notifications and spurious wake-ups.
\<close>

subsection \<open>The operations on the queue\<close>

definition wait_and_push :: "nat \<Rightarrow> 'a \<Rightarrow> 'a list \<Rightarrow> 'a list option" where
  "wait_and_push capacity new_value data_queue =
     (if capacity \<le> length data_queue then None else Some (data_queue @ [new_value]))"

fun wait_and_pop :: "'a list \<Rightarrow> ('a \<times> 'a list) option" where
  "wait_and_pop [] = None"
| "wait_and_pop (front # data_queue) = Some (front, data_queue)"

definition try_push :: "nat \<Rightarrow> 'a \<Rightarrow> 'a list \<Rightarrow> bool \<times> 'a list" where
  "try_push capacity new_value data_queue =
     (if capacity \<le> length data_queue then (False, data_queue)
      else (True, data_queue @ [new_value]))"

interpretation wait_queue: bounded_fifo "\<lambda>q. q" "wait_and_push capacity" wait_and_pop capacity
  for capacity
  by unfold_locales
    (auto simp: wait_and_push_def split: if_splits elim: wait_and_pop.elims)

subsection \<open>Waiting threads\<close>

text \<open>
  A producer that waits on \<^verbatim>\<open>cnd_if_not_full\<close> carries its value. A woken thread
  still has to take the mutex and test its condition again, so it is kept apart from the ones
  that sleep.
\<close>

record 'a WaitQueue =
  wq_data :: "'a list"
  wq_full :: "'a multiset"
  wq_full_woken :: "'a multiset"
  wq_empty :: nat
  wq_empty_woken :: nat

definition WaitQueue_new :: "'a WaitQueue" where
  "WaitQueue_new = \<lparr>wq_data = [], wq_full = {#}, wq_full_woken = {#}, wq_empty = 0,
     wq_empty_woken = 0\<rparr>"

text \<open>\<^verbatim>\<open>notify_one\<close> wakes any one of the sleeping threads, if there is one.\<close>

definition notify_not_empty :: "'a WaitQueue \<Rightarrow> 'a WaitQueue" where
  "notify_not_empty w =
     (if wq_empty w = 0 then w
      else w\<lparr>wq_empty := wq_empty w - 1, wq_empty_woken := wq_empty_woken w + 1\<rparr>)"

inductive notify_not_full :: "'a WaitQueue \<Rightarrow> 'a WaitQueue \<Rightarrow> bool" where
  nobody: "wq_full w = {#} \<Longrightarrow> notify_not_full w w"
| someone: "v \<in># wq_full w \<Longrightarrow> notify_not_full w
    (w\<lparr>wq_full := wq_full w - {#v#}, wq_full_woken := add_mset v (wq_full_woken w)\<rparr>)"

datatype 'a wq_event = Pushed 'a | Popped 'a | Silent

inductive wq_step :: "nat \<Rightarrow> 'a WaitQueue \<Rightarrow> 'a wq_event \<Rightarrow> 'a WaitQueue \<Rightarrow> bool"
  for capacity :: nat where
  push: "wait_and_push capacity v (wq_data w) = Some q \<Longrightarrow>
    wq_step capacity w (Pushed v) (notify_not_empty (w\<lparr>wq_data := q\<rparr>))"
| push_waits: "wait_and_push capacity v (wq_data w) = None \<Longrightarrow>
    wq_step capacity w Silent (w\<lparr>wq_full := add_mset v (wq_full w)\<rparr>)"
| push_woken: "v \<in># wq_full_woken w \<Longrightarrow> wait_and_push capacity v (wq_data w) = Some q \<Longrightarrow>
    wq_step capacity w (Pushed v)
      (notify_not_empty (w\<lparr>wq_data := q, wq_full_woken := wq_full_woken w - {#v#}\<rparr>))"
| push_waits_again: "v \<in># wq_full_woken w \<Longrightarrow> wait_and_push capacity v (wq_data w) = None \<Longrightarrow>
    wq_step capacity w Silent
      (w\<lparr>wq_full := add_mset v (wq_full w), wq_full_woken := wq_full_woken w - {#v#}\<rparr>)"
| push_spurious: "v \<in># wq_full w \<Longrightarrow>
    wq_step capacity w Silent
      (w\<lparr>wq_full := wq_full w - {#v#}, wq_full_woken := add_mset v (wq_full_woken w)\<rparr>)"
| pop: "wait_and_pop (wq_data w) = Some (v, q) \<Longrightarrow> notify_not_full (w\<lparr>wq_data := q\<rparr>) w' \<Longrightarrow>
    wq_step capacity w (Popped v) w'"
| pop_waits: "wait_and_pop (wq_data w) = None \<Longrightarrow>
    wq_step capacity w Silent (w\<lparr>wq_empty := wq_empty w + 1\<rparr>)"
| pop_woken: "0 < wq_empty_woken w \<Longrightarrow> wait_and_pop (wq_data w) = Some (v, q) \<Longrightarrow>
    notify_not_full (w\<lparr>wq_data := q, wq_empty_woken := wq_empty_woken w - 1\<rparr>) w' \<Longrightarrow>
    wq_step capacity w (Popped v) w'"
| pop_waits_again: "0 < wq_empty_woken w \<Longrightarrow> wait_and_pop (wq_data w) = None \<Longrightarrow>
    wq_step capacity w Silent
      (w\<lparr>wq_empty := wq_empty w + 1, wq_empty_woken := wq_empty_woken w - 1\<rparr>)"
| pop_spurious: "0 < wq_empty w \<Longrightarrow>
    wq_step capacity w Silent
      (w\<lparr>wq_empty := wq_empty w - 1, wq_empty_woken := wq_empty_woken w + 1\<rparr>)"
| try_push: "try_push capacity v (wq_data w) = (True, q) \<Longrightarrow>
    wq_step capacity w (Pushed v) (notify_not_empty (w\<lparr>wq_data := q\<rparr>))"
| try_push_full: "try_push capacity v (wq_data w) = (False, q) \<Longrightarrow>
    wq_step capacity w Silent (w\<lparr>wq_data := q\<rparr>)"

text \<open>\<^verbatim>\<open>try_pop\<close> takes the front like \<^verbatim>\<open>wait_and_pop\<close>, but notifies nobody.\<close>

definition try_pop :: "'a WaitQueue \<Rightarrow> ('a \<times> 'a WaitQueue) option" where
  "try_pop w = map_option (\<lambda>(value, q). (value, w\<lparr>wq_data := q\<rparr>)) (wait_and_pop (wq_data w))"

inductive wq_run :: "nat \<Rightarrow> 'a wq_event list \<Rightarrow> 'a WaitQueue \<Rightarrow> bool" for capacity :: nat where
  start: "wq_run capacity [] WaitQueue_new"
| step: "wq_run capacity es w \<Longrightarrow> wq_step capacity w e w' \<Longrightarrow> wq_run capacity (es @ [e]) w'"

definition pushed :: "'a wq_event list \<Rightarrow> 'a list" where
  "pushed es = concat (map (\<lambda>e. case e of Pushed v \<Rightarrow> [v] | _ \<Rightarrow> []) es)"

definition popped :: "'a wq_event list \<Rightarrow> 'a list" where
  "popped es = concat (map (\<lambda>e. case e of Popped v \<Rightarrow> [v] | _ \<Rightarrow> []) es)"

lemmas wq_trace_simps = pushed_def popped_def

inductive_cases wq_stepE: "wq_step capacity w e w'"
inductive_cases notify_not_fullE: "notify_not_full w w'"

lemma notify_not_empty_simps [simp]:
  "wq_data (notify_not_empty w) = wq_data w" "wq_full (notify_not_empty w) = wq_full w"
  "wq_full_woken (notify_not_empty w) = wq_full_woken w"
  by (simp_all add: notify_not_empty_def)

lemma notify_not_full_data: "notify_not_full w w' \<Longrightarrow> wq_data w' = wq_data w"
  and notify_not_full_empty: "notify_not_full w w' \<Longrightarrow> wq_empty w' = wq_empty w"
  and notify_not_full_empty_woken: "notify_not_full w w' \<Longrightarrow> wq_empty_woken w' = wq_empty_woken w"
  by (auto elim: notify_not_fullE)

lemma wait_and_push_Some:
  "wait_and_push capacity v q = Some q' \<longleftrightarrow> length q < capacity \<and> q' = q @ [v]"
  by (auto simp: wait_and_push_def)

lemma wait_and_pop_Some: "wait_and_pop q = Some (v, q') \<longleftrightarrow> q = v # q'"
  by (cases q) auto

lemma wait_and_pop_None: "wait_and_pop q = None \<longleftrightarrow> q = []"
  by (cases q) auto

lemmas wq_op_simps = wait_and_push_Some wait_and_pop_Some wait_and_pop_None try_push_def

text \<open>One step changes the queue as its event says.\<close>

lemma wq_step_data:
  assumes "wq_step capacity w e w'"
  shows "wq_data w @ pushed [e] = popped [e] @ wq_data w'"
    and "length (wq_data w) \<le> capacity \<Longrightarrow> length (wq_data w') \<le> capacity"
  using assms
  by (cases rule: wq_step.cases;
      auto simp: wq_op_simps wq_trace_simps dest!: notify_not_full_data split: if_splits)+

text \<open>No wake-up is lost.\<close>

definition wakeups_ok :: "nat \<Rightarrow> 'a WaitQueue \<Rightarrow> bool" where
  "wakeups_ok capacity w \<longleftrightarrow>
     (wq_full w = {#} \<or> capacity - length (wq_data w) \<le> size (wq_full_woken w))
     \<and> (wq_empty w = 0 \<or> length (wq_data w) \<le> wq_empty_woken w)"

lemma notify_not_full_total: "\<exists>w'. notify_not_full w w'"
proof (cases "wq_full w = {#}")
  case True
  then show ?thesis by (blast intro: notify_not_full.nobody)
next
  case False
  then obtain v where "v \<in># wq_full w" by (rule multiset_nonemptyE)
  then show ?thesis by (blast intro: notify_not_full.someone)
qed

lemma wq_step_wakeups:
  assumes "wq_step capacity w e w'" and "length (wq_data w) \<le> capacity" and "wakeups_ok capacity w"
  shows "wakeups_ok capacity w'"
  using assms
proof (cases rule: wq_step.cases)
  case (pop v q)
  from pop(3) show ?thesis using assms(2,3) pop
    by (cases rule: notify_not_full.cases) (auto simp: wakeups_ok_def wq_op_simps)
next
  case (pop_woken v q)
  from pop_woken(4) show ?thesis using assms(2,3) pop_woken
    by (cases rule: notify_not_full.cases) (auto simp: wakeups_ok_def wq_op_simps)
next
  case (push_woken v q)
  then show ?thesis using assms(2,3)
    by (auto simp: wakeups_ok_def wq_op_simps notify_not_empty_def size_Diff_singleton)
next
  case (push_waits_again v)
  then show ?thesis using assms(2,3) by (auto simp: wakeups_ok_def wait_and_push_def split: if_splits)
qed (auto simp: wakeups_ok_def wq_op_simps notify_not_empty_def wait_and_push_def split: if_splits)

lemma wq_run_inv:
  "wq_run capacity es w \<Longrightarrow> pushed es = popped es @ wq_data w \<and> length (wq_data w) \<le> capacity
    \<and> wakeups_ok capacity w"
proof (induction rule: wq_run.induct)
  case start
  then show ?case by (simp add: WaitQueue_new_def wakeups_ok_def pushed_def popped_def)
next
  case (step es w e w')
  have "pushed (es @ [e]) = pushed es @ pushed [e]" "popped (es @ [e]) = popped es @ popped [e]"
    by (simp_all add: pushed_def popped_def)
  with step.IH wq_step_data [OF step.hyps(2)] wq_step_wakeups [OF step.hyps(2)] show ?case by simp
qed

text \<open>C32: Under every schedule of producers and consumers, with spurious wake-ups, the values
  leave the wait queue in the order in which they entered it, none is lost or duplicated, and it
  never holds more than its capacity.\<close>

theorem wait_queue_fifo:
  assumes "wq_run capacity es w"
  shows "pushed es = popped es @ wq_data w \<and> length (wq_data w) \<le> capacity"
  using wq_run_inv [OF assms] by simp

theorem wait_queue_fifo_witness:
  "\<exists>es w. wq_run 1 es w \<and> pushed es = [7 :: nat] \<and> popped es @ wq_data w = [7]"
proof -
  have run: "wq_run 1 ([] @ [Pushed (7 :: nat)])
      (notify_not_empty (WaitQueue_new\<lparr>wq_data := [7]\<rparr>))"
    by (rule wq_run.step, rule wq_run.start, rule wq_step.push)
      (simp add: wait_and_push_def WaitQueue_new_def)
  moreover have "pushed ([] @ [Pushed (7 :: nat)]) = [7]" by (simp add: pushed_def)
  ultimately show ?thesis using wait_queue_fifo [OF run] by metis
qed

text \<open>C33: No wake-up is lost as long as only the waiting operations and \<^verbatim>\<open>try_push\<close>
  are used: whenever a producer sleeps although there is room, or a consumer although there is a
  value, another one of its kind has been woken and can complete its operation at once.\<close>

theorem wait_queue_no_lost_wakeup:
  assumes "wq_run capacity es w"
  shows "(wq_full w \<noteq> {#} \<and> length (wq_data w) < capacity \<longrightarrow>
      (\<exists>v w'. v \<in># wq_full_woken w \<and> wq_step capacity w (Pushed v) w'))
    \<and> (0 < wq_empty w \<and> wq_data w \<noteq> [] \<longrightarrow>
      0 < wq_empty_woken w \<and> (\<exists>w'. wq_step capacity w (Popped (hd (wq_data w))) w'))"
proof (intro conjI impI)
  have ok: "wakeups_ok capacity w" using wq_run_inv [OF assms] by simp
  assume "wq_full w \<noteq> {#} \<and> length (wq_data w) < capacity"
  with ok have room: "wq_full_woken w \<noteq> {#}" "length (wq_data w) < capacity"
    by (auto simp: wakeups_ok_def)
  then obtain v where v: "v \<in># wq_full_woken w" by auto
  with room(2) have "wq_step capacity w (Pushed v)
      (notify_not_empty (w\<lparr>wq_data := wq_data w @ [v], wq_full_woken := wq_full_woken w - {#v#}\<rparr>))"
    by (intro wq_step.push_woken) (simp_all add: wait_and_push_def)
  with v show "\<exists>v w'. v \<in># wq_full_woken w \<and> wq_step capacity w (Pushed v) w'" by blast
next
  have ok: "wakeups_ok capacity w" using wq_run_inv [OF assms] by simp
  assume some: "0 < wq_empty w \<and> wq_data w \<noteq> []"
  with ok show woken: "0 < wq_empty_woken w" by (cases "wq_data w") (auto simp: wakeups_ok_def)
  obtain v q where q: "wq_data w = v # q" using some by (cases "wq_data w") auto
  let ?w = "w\<lparr>wq_data := q, wq_empty_woken := wq_empty_woken w - 1\<rparr>"
  have "\<exists>w'. notify_not_full ?w w'" by (rule notify_not_full_total)
  then obtain w' where "notify_not_full ?w w'" by blast
  with woken q have "wq_step capacity w (Popped v) w'"
    by (intro wq_step.pop_woken) simp_all
  with q show "\<exists>w'. wq_step capacity w (Popped (hd (wq_data w))) w'" by auto
qed

text \<open>A full queue of one place with two producers asleep, and its consumer.\<close>

definition busy_queue :: "nat list \<Rightarrow> nat multiset \<Rightarrow> nat multiset \<Rightarrow> nat WaitQueue" where
  "busy_queue q full woken = \<lparr>wq_data = q, wq_full = full, wq_full_woken = woken, wq_empty = 0,
     wq_empty_woken = 0\<rparr>"

lemma wq_run_snoc:
  "wq_run capacity es w \<Longrightarrow> wq_step capacity w e w' \<Longrightarrow> es' = es @ [e] \<Longrightarrow> wq_run capacity es' w'"
  by (simp add: wq_run.step)

lemma busy_queue_prefix: "wq_run 1 [Pushed 7, Silent] (busy_queue [7] {#8#} {#})"
proof -
  have "wq_run 1 [] (busy_queue [] {#} {#})"
    using wq_run.start [of 1, where 'a = nat] by (simp add: WaitQueue_new_def busy_queue_def)
  moreover have "wq_step 1 (busy_queue [] {#} {#}) (Pushed 7) (busy_queue [7] {#} {#})"
    using wq_step.push [of 1 7 "busy_queue [] {#} {#}" "[7]"]
    by (simp add: wait_and_push_def busy_queue_def notify_not_empty_def)
  ultimately have "wq_run 1 [Pushed 7] (busy_queue [7] {#} {#})" by (rule wq_run_snoc) simp
  moreover have "wq_step 1 (busy_queue [7] {#} {#}) Silent (busy_queue [7] {#8#} {#})"
    using wq_step.push_waits [of 1 8 "busy_queue [7] {#} {#}"]
    by (simp add: wait_and_push_def busy_queue_def)
  ultimately show ?thesis by (rule wq_run_snoc) simp
qed

lemma busy_queue_run:
  "wq_run 1 [Pushed 7, Silent, Silent, Popped 7] (busy_queue [] {#9#} {#8#})"
proof -
  note busy_queue_prefix
  moreover have "wq_step 1 (busy_queue [7] {#8#} {#}) Silent (busy_queue [7] {#8, 9#} {#})"
    using wq_step.push_waits [of 1 9 "busy_queue [7] {#8#} {#}"]
    by (simp add: wait_and_push_def busy_queue_def add_mset_commute)
  ultimately have "wq_run 1 [Pushed 7, Silent, Silent] (busy_queue [7] {#8, 9#} {#})"
    by (rule wq_run_snoc) simp
  moreover have "notify_not_full (busy_queue [] {#8, 9#} {#}) (busy_queue [] {#9#} {#8#})"
    using notify_not_full.someone [of 8 "busy_queue [] {#8, 9#} {#}"] by (simp add: busy_queue_def)
  then have "wq_step 1 (busy_queue [7] {#8, 9#} {#}) (Popped 7) (busy_queue [] {#9#} {#8#})"
    by (intro wq_step.pop [where q = "[]"]) (simp_all add: busy_queue_def)
  ultimately show ?thesis by (rule wq_run_snoc) simp
qed

theorem wait_queue_no_lost_wakeup_witness:
  "\<exists>es w. wq_run 1 es w \<and> wq_full w \<noteq> {#} \<and> wq_data w = []
    \<and> (\<exists>v :: nat. \<exists>w'. v \<in># wq_full_woken w \<and> wq_step 1 w (Pushed v) w')"
  using wait_queue_no_lost_wakeup [OF busy_queue_run] busy_queue_run
  by (intro exI [of _ "[Pushed 7, Silent, Silent, Popped 7]"] exI [of _ "busy_queue [] {#9#} {#8#}"])
    (simp add: busy_queue_def)

text \<open>\<^verbatim>\<open>try_pop\<close> breaks this: it does not notify
  \<^verbatim>\<open>cnd_if_not_full\<close>, so a run in which it takes the last value leaves the queue
  empty while a producer sleeps and no thread is on its way to wake it.\<close>

lemma try_pop_loses_wakeup:
  "\<exists>es (w :: nat WaitQueue) w'. wq_run 1 es w \<and> try_pop w = Some (7, w')
    \<and> wq_data w' = [] \<and> wq_full w' \<noteq> {#} \<and> wq_full_woken w' = {#} \<and> \<not> wakeups_ok 1 w'"
  by (rule exI, rule exI, rule exI, rule conjI, rule busy_queue_prefix)
    (auto simp: try_pop_def busy_queue_def wakeups_ok_def)

end
