(* ===== verification/Record_Buffer.thy ===== *)
theory Record_Buffer
  imports Index_Word Store_Spec
begin

text \<open>
  The record (\<^verbatim>\<open>struct Record\<close>) and the pool of record slots
  (\<^verbatim>\<open>class Buffer\<close>) of \<^verbatim>\<open>engine_race/DBSystem/DBSystem.h\<close> and
  \<^verbatim>\<open>DBSystem.cpp\<close>. A thread that has to wait for a slot, or for the access to
  one, is \<^term>\<open>None\<close>, like a failed assertion and an index outside the arrays.
\<close>

subsection \<open>Records\<close>

record Record =
  rc_magic :: u32
  rc_key :: KEY_T
  rc_value :: "u8 list"
  rc_check :: u32

definition Record_new :: Record where
  "Record_new = \<lparr>rc_magic = RECORD_MATIC, rc_key = 0, rc_value = replicate RECORD_VALUE_LEN 0,
     rc_check = 0\<rparr>"

text \<open>
  \<^verbatim>\<open>memcpy\<close> of \<^verbatim>\<open>RECORD_VALUE_LEN\<close> bytes; a shorter source would be
  read out of bounds.
\<close>

definition set_value :: "u8 list \<Rightarrow> Record \<Rightarrow> Record option" where
  "set_value data r =
     (if RECORD_VALUE_LEN \<le> length data then Some (r\<lparr>rc_value := take RECORD_VALUE_LEN data\<rparr>)
      else None)"

definition get_value :: "Record \<Rightarrow> u8 list" where
  "get_value r = take RECORD_VALUE_LEN (rc_value r)"

definition make_check :: "Record \<Rightarrow> Record" where
  "make_check r = r\<lparr>rc_check := 0\<rparr>"

definition check_valid :: "Record \<Rightarrow> bool" where
  "check_valid r = True"

subsection \<open>The pool\<close>

text \<open>
  \<open>bf_wrote\<close> is a \<^verbatim>\<open>std::list<int>\<close> with the addresses of its nodes, so that
  \<^verbatim>\<open>wrote_mapping\<close> can hold iterators; \<open>bf_fresh\<close> is the next unused address.
\<close>

record Buffer =
  bf_data :: "Record list"
  bf_accessing :: "bool list"
  bf_empty :: "nat list"
  bf_wrote :: "(nat \<times> nat) list"
  bf_mapping :: "nat \<Rightarrow> nat option"
  bf_fresh :: nat

definition Buffer_new :: Buffer where
  "Buffer_new = \<lparr>bf_data = replicate RECORD_BUFF_SIZE Record_new,
     bf_accessing = replicate RECORD_BUFF_SIZE False, bf_empty = [0..<RECORD_BUFF_SIZE],
     bf_wrote = [], bf_mapping = Map.empty, bf_fresh = 0\<rparr>"

text \<open>The ends at which the list of free slots is used.\<close>

definition take_free :: "nat list \<Rightarrow> (nat \<times> nat list) option" where
  "take_free idxes_empty =
     (if idxes_empty = [] then None else Some (last idxes_empty, butlast idxes_empty))"

definition put_free :: "nat \<Rightarrow> nat list \<Rightarrow> nat list option" where
  "put_free idx idxes_empty = Some (idx # idxes_empty)"

interpretation free_slots: fifo rev put_free take_free
  by unfold_locales (auto simp: put_free_def take_free_def rev_swap
      simp flip: append_butlast_last_id split: if_splits)

text \<open>\<^verbatim>\<open>std::map::insert\<close> keeps an entry that is there already.\<close>

definition request_record_buff :: "Buffer \<Rightarrow> (nat \<times> Buffer) option" where
  "request_record_buff b = do {
     (ret, idxes_empty) \<leftarrow> take_free (bf_empty b);
     let node = bf_fresh b;
     let mapping = bf_mapping b;
     Some (ret, b\<lparr>bf_empty := idxes_empty, bf_wrote := (node, ret) # bf_wrote b,
       bf_mapping := (if mapping ret = None then mapping(ret \<mapsto> node) else mapping),
       bf_fresh := node + 1\<rparr>)
   }"

definition release_buff :: "nat \<Rightarrow> Buffer \<Rightarrow> Buffer option" where
  "release_buff idx_id b = do {
     node \<leftarrow> bf_mapping b idx_id;
     idx \<leftarrow> map_of (bf_wrote b) node;
     idxes_empty \<leftarrow> put_free idx (bf_empty b);
     Some (b\<lparr>bf_wrote := filter (\<lambda>(a, _). a \<noteq> node) (bf_wrote b),
       bf_mapping := (bf_mapping b)(idx_id := None), bf_empty := idxes_empty\<rparr>)
   }"

definition wait_for_access :: "nat \<Rightarrow> Buffer \<Rightarrow> Buffer option" where
  "wait_for_access idx b = do {
     busy \<leftarrow> vget (bf_accessing b) idx;
     if busy then None
     else do {
       accessing \<leftarrow> vset (bf_accessing b) idx True;
       Some (b\<lparr>bf_accessing := accessing\<rparr>)
     }
   }"

definition end_access :: "nat \<Rightarrow> Buffer \<Rightarrow> Buffer option" where
  "end_access idx b = do {
     accessing \<leftarrow> vset (bf_accessing b) idx False;
     Some (b\<lparr>bf_accessing := accessing\<rparr>)
   }"

definition if_full :: "Buffer \<Rightarrow> bool" where
  "if_full b \<longleftrightarrow> bf_empty b = []"

text \<open>The record behind the pointer that \<^verbatim>\<open>wait_for_access\<close> returns.\<close>

definition record_at :: "nat \<Rightarrow> Buffer \<Rightarrow> Record option" where
  "record_at idx b = vget (bf_data b) idx"

definition set_record :: "nat \<Rightarrow> Record \<Rightarrow> Buffer \<Rightarrow> Buffer option" where
  "set_record idx r b = do {
     data \<leftarrow> vset (bf_data b) idx r;
     Some (b\<lparr>bf_data := data\<rparr>)
   }"

subsection \<open>Ownership of the slots\<close>

definition buffer_inv :: "Buffer \<Rightarrow> bool" where
  "buffer_inv b \<longleftrightarrow> length (bf_data b) = RECORD_BUFF_SIZE \<and> length (bf_accessing b) = RECORD_BUFF_SIZE
     \<and> distinct (bf_empty b @ map snd (bf_wrote b))
     \<and> set (bf_empty b) \<union> snd ` set (bf_wrote b) = {..<RECORD_BUFF_SIZE}
     \<and> distinct (map fst (bf_wrote b)) \<and> (\<forall>n \<in> set (bf_wrote b). fst n < bf_fresh b)
     \<and> bf_mapping b = map_of (map (\<lambda>(a, i). (i, a)) (bf_wrote b))"

definition in_use :: "Buffer \<Rightarrow> nat set" where
  "in_use b = snd ` set (bf_wrote b)"

lemma take_free_Some: "take_free es = Some (i, es') \<longleftrightarrow> es = es' @ [i]"
  by (auto simp: take_free_def)

lemma buffer_new_inv: "buffer_inv Buffer_new"
  by (auto simp: buffer_inv_def Buffer_new_def)

lemma map_of_swap:
  assumes "distinct (map snd ns)"
  shows "map_of (map (\<lambda>(a, i). (i, a)) ns) i = Some a \<longleftrightarrow> (a, i) \<in> set ns"
proof -
  have "map fst (map (\<lambda>(a, i). (i, a)) ns) = map snd ns" by (induction ns) auto
  then have "distinct (map fst (map (\<lambda>(a, i). (i, a)) ns))" using assms by (simp only:)
  from map_of_eq_Some_iff [OF this, of i a] show ?thesis by force
qed

lemma mapping_iff:
  assumes "buffer_inv b"
  shows "bf_mapping b i = Some a \<longleftrightarrow> (a, i) \<in> set (bf_wrote b)"
  using assms map_of_swap [of "bf_wrote b" i a] by (simp add: buffer_inv_def)

lemma mapping_None:
  assumes "buffer_inv b"
  shows "bf_mapping b i = None \<longleftrightarrow> i \<notin> in_use b"
  using mapping_iff [OF assms, of i] by (cases "bf_mapping b i") (force simp: in_use_def)+

lemma request_ok:
  assumes inv: "buffer_inv b" and some: "bf_empty b \<noteq> []"
  shows "\<exists>b'. request_record_buff b = Some (last (bf_empty b), b') \<and> buffer_inv b'
    \<and> bf_empty b' = butlast (bf_empty b) \<and> in_use b' = insert (last (bf_empty b)) (in_use b)
    \<and> bf_data b' = bf_data b \<and> bf_accessing b' = bf_accessing b"
proof -
  obtain es i where es: "bf_empty b = es @ [i]" using some by (cases "bf_empty b" rule: rev_cases) auto
  have i: "i \<notin> in_use b" using inv by (auto simp: buffer_inv_def es in_use_def)
  then have new: "bf_mapping b i = None" by (simp add: mapping_None [OF inv])
  let ?b = "b\<lparr>bf_empty := es, bf_wrote := (bf_fresh b, i) # bf_wrote b,
    bf_mapping := (bf_mapping b)(i \<mapsto> bf_fresh b), bf_fresh := bf_fresh b + 1\<rparr>"
  have run: "request_record_buff b = Some (i, ?b)"
    using new by (simp add: request_record_buff_def take_free_def es Let_def)
  have "buffer_inv ?b"
    using inv i by (auto simp: buffer_inv_def es in_use_def less_Suc_eq)
  with run show ?thesis by (simp add: es in_use_def)
qed

lemma release_ok:
  assumes inv: "buffer_inv b" and used: "i \<in> in_use b"
  shows "\<exists>b'. release_buff i b = Some b' \<and> buffer_inv b' \<and> bf_empty b' = i # bf_empty b
    \<and> in_use b' = in_use b - {i} \<and> bf_data b' = bf_data b \<and> bf_accessing b' = bf_accessing b"
proof -
  obtain a where a: "(a, i) \<in> set (bf_wrote b)" "bf_mapping b i = Some a"
    using used mapping_None [OF inv, of i] mapping_iff [OF inv, of i]
    by (cases "bf_mapping b i") auto
  have fsts: "distinct (map fst (bf_wrote b))" and snds: "distinct (map snd (bf_wrote b))"
    using inv by (auto simp: buffer_inv_def)
  have node: "map_of (bf_wrote b) a = Some i" using a(1) fsts by simp
  obtain xs ys where split: "bf_wrote b = xs @ (a, i) # ys" using a(1) by (auto dest: split_list)
  have filt: "filter (\<lambda>(c, _). c \<noteq> a) (bf_wrote b) = xs @ ys"
  proof -
    have "filter (\<lambda>(c, _). c \<noteq> a) xs = xs" "filter (\<lambda>(c, _). c \<noteq> a) ys = ys"
      using fsts by (auto simp: split filter_id_conv image_iff)
    then show ?thesis by (simp add: split)
  qed
  let ?b = "b\<lparr>bf_wrote := xs @ ys, bf_mapping := (bf_mapping b)(i := None), bf_empty := i # bf_empty b\<rparr>"
  have run: "release_buff i b = Some ?b"
    by (simp add: release_buff_def a(2) node put_free_def filt)
  have map: "(bf_mapping b)(i := None) = map_of (map (\<lambda>(a, i). (i, a)) (xs @ ys))"
  proof (intro ext option_eqI)
    fix j c
    have "distinct (map snd (xs @ ys))" using snds by (simp add: split)
    from map_of_swap [OF this, of j c]
    show "((bf_mapping b)(i := None)) j = Some c
        \<longleftrightarrow> map_of (map (\<lambda>(a, i). (i, a)) (xs @ ys)) j = Some c"
      using snds by (auto simp: mapping_iff [OF inv] split image_iff)
  qed
  have "buffer_inv ?b"
    unfolding buffer_inv_def using inv map by (auto simp: buffer_inv_def split)
  moreover have "in_use ?b = in_use b - {i}"
    using snds by (auto simp: in_use_def split image_iff)
  ultimately show ?thesis using run by simp
qed

subsection \<open>Histories\<close>

datatype buf_op = Request | Release nat

fun buffer_run :: "buf_op list \<Rightarrow> Buffer \<Rightarrow> (nat list \<times> Buffer) option" where
  "buffer_run [] b = Some ([], b)"
| "buffer_run (Request # ops) b = do {
     (idx, b) \<leftarrow> request_record_buff b;
     (idxes, b) \<leftarrow> buffer_run ops b;
     Some (idx # idxes, b)
   }"
| "buffer_run (Release idx # ops) b = do {
     b \<leftarrow> release_buff idx b;
     buffer_run ops b
   }"

primrec as_fifo :: "buf_op \<Rightarrow> nat fifo_op" where
  "as_fifo Request = Pop"
| "as_fifo (Release i) = Push i"

lemma request_None: "buffer_inv b \<Longrightarrow> request_record_buff b = None \<longleftrightarrow> if_full b"
  by (auto simp: request_record_buff_def take_free_def if_full_def Let_def)

lemma release_None:
  assumes "buffer_inv b"
  shows "release_buff i b = None \<longleftrightarrow> i \<notin> in_use b"
proof (cases "i \<in> in_use b")
  case False
  then show ?thesis using mapping_None [OF assms, of i] by (simp add: release_buff_def)
qed (use release_ok [OF assms, of i] in auto)

lemma buffer_run_fifo:
  "buffer_run ops b = Some (idxes, b') \<Longrightarrow> buffer_inv b \<Longrightarrow>
   buffer_inv b' \<and> free_slots.fifo_run (map as_fifo ops) (bf_empty b) = Some (idxes, bf_empty b')"
proof (induction ops arbitrary: b idxes)
  case (Cons c ops)
  show ?case
  proof (cases c)
    case Request
    with Cons.prems(1) obtain i b1 js where step: "request_record_buff b = Some (i, b1)"
      "buffer_run ops b1 = Some (js, b')" "idxes = i # js"
      by (auto simp: Option.bind_eq_Some_conv)
    then have "bf_empty b \<noteq> []" using request_None [OF Cons.prems(2)] by (auto simp: if_full_def)
    from request_ok [OF Cons.prems(2) this] step(1)
    have "take_free (bf_empty b) = Some (i, bf_empty b1)" "buffer_inv b1"
      using \<open>bf_empty b \<noteq> []\<close> by (auto simp: take_free_def)
    with Cons.IH [OF step(2)] step(3) Request show ?thesis by simp
  next
    case (Release i)
    with Cons.prems(1) obtain b1 where step: "release_buff i b = Some b1"
      "buffer_run ops b1 = Some (idxes, b')"
      by (auto simp: Option.bind_eq_Some_conv)
    then have "i \<in> in_use b" using release_None [OF Cons.prems(2), of i] by auto
    from release_ok [OF Cons.prems(2) this] step(1)
    have "put_free i (bf_empty b) = Some (bf_empty b1)" "buffer_inv b1"
      by (auto simp: put_free_def)
    with Cons.IH [OF step(2)] Release show ?thesis by simp
  qed
qed simp

definition released :: "buf_op list \<Rightarrow> nat list" where
  "released ops = concat (map (\<lambda>c. case c of Request \<Rightarrow> [] | Release i \<Rightarrow> [i]) ops)"

lemma released_eq:
  "concat (map (\<lambda>c. case c of Push v \<Rightarrow> [v] | Pop \<Rightarrow> []) (map as_fifo ops)) = released ops"
  unfolding released_def by (induction ops) (auto split: buf_op.splits)

text \<open>C29: Every slot is either free or handed out, never both: after any sequence of requests
  and releases the free list and the used list partition the \<^verbatim>\<open>RECORD_BUFF_SIZE\<close>
  slots, and the iterators of \<^verbatim>\<open>wrote_mapping\<close> point to the right nodes. The slots
  are handed out in the order 1023, ..., 0 followed by the order of their release, so the free
  list is a queue, although its comment says that it is used at one end only.\<close>

theorem buffer_history:
  assumes "buffer_run ops Buffer_new = Some (idxes, b)"
  shows "rev [0..<RECORD_BUFF_SIZE] @ released ops = idxes @ rev (bf_empty b)
    \<and> in_use b \<inter> set (bf_empty b) = {} \<and> in_use b \<union> set (bf_empty b) = {..<RECORD_BUFF_SIZE}
    \<and> (\<forall>i a. bf_mapping b i = Some a \<longleftrightarrow> (a, i) \<in> set (bf_wrote b))"
proof -
  have inv: "buffer_inv b"
    and run: "free_slots.fifo_run (map as_fifo ops) (bf_empty Buffer_new) = Some (idxes, bf_empty b)"
    using buffer_run_fifo [OF assms buffer_new_inv] by auto
  have "rev [0..<RECORD_BUFF_SIZE] @ released ops = idxes @ rev (bf_empty b)"
    using free_slots.fifo_run_order [OF run] by (simp only: released_eq) (simp add: Buffer_new_def)
  moreover have "in_use b \<inter> set (bf_empty b) = {}" "in_use b \<union> set (bf_empty b) = {..<RECORD_BUFF_SIZE}"
    using inv by (auto simp: buffer_inv_def in_use_def)
  ultimately show ?thesis using mapping_iff [OF inv] by blast
qed

theorem buffer_history_witness:
  "\<exists>b. buffer_run [Request, Release (RECORD_BUFF_SIZE - 1)] Buffer_new = Some ([RECORD_BUFF_SIZE - 1], b)
    \<and> rev [0..<RECORD_BUFF_SIZE] @ [RECORD_BUFF_SIZE - 1] = (RECORD_BUFF_SIZE - 1) # rev (bf_empty b)"
proof -
  have "0 < RECORD_BUFF_SIZE" by (simp add: RECORD_BUFF_SIZE_def)
  then have new: "bf_empty Buffer_new \<noteq> []" "last (bf_empty Buffer_new) = RECORD_BUFF_SIZE - 1"
    by (simp_all add: Buffer_new_def)
  obtain b1 where b1: "request_record_buff Buffer_new = Some (RECORD_BUFF_SIZE - 1, b1)" "buffer_inv b1"
    "RECORD_BUFF_SIZE - 1 \<in> in_use b1"
    using request_ok [OF buffer_new_inv new(1)] unfolding new(2) by blast
  obtain b2 where "release_buff (RECORD_BUFF_SIZE - 1) b1 = Some b2"
    using release_ok [OF b1(2,3)] by blast
  with b1(1) have "buffer_run [Request, Release (RECORD_BUFF_SIZE - 1)] Buffer_new
      = Some ([RECORD_BUFF_SIZE - 1], b2)"
    by simp
  with buffer_history [OF this] show ?thesis by (auto simp: released_def)
qed

text \<open>On a well-formed pool a request blocks exactly when all slots are in use, and else
  hands out a slot that nobody uses, below \<^verbatim>\<open>RECORD_BUFF_SIZE\<close>; a release fails its
  assertion exactly on slots that are not in use, and else frees that slot only.\<close>

lemma buffer_request_release:
  assumes inv: "buffer_inv b"
  shows "(case request_record_buff b of
      None \<Rightarrow> in_use b = {..<RECORD_BUFF_SIZE}
    | Some (i, b') \<Rightarrow> buffer_inv b' \<and> i < RECORD_BUFF_SIZE \<and> i \<notin> in_use b \<and> in_use b' = insert i (in_use b))
    \<and> (case release_buff j b of
      None \<Rightarrow> j \<notin> in_use b
    | Some b' \<Rightarrow> buffer_inv b' \<and> j \<in> in_use b \<and> in_use b' = in_use b - {j} \<and> \<not> if_full b')"
proof
  show "case request_record_buff b of
      None \<Rightarrow> in_use b = {..<RECORD_BUFF_SIZE}
    | Some (i, b') \<Rightarrow> buffer_inv b' \<and> i < RECORD_BUFF_SIZE \<and> i \<notin> in_use b \<and> in_use b' = insert i (in_use b)"
  proof (cases "bf_empty b = []")
    case True
    then have "request_record_buff b = None" by (simp add: request_None [OF inv] if_full_def)
    with inv True show ?thesis by (simp add: buffer_inv_def in_use_def)
  next
    case False
    then have "last (bf_empty b) \<in> set (bf_empty b)" by simp
    with inv have "last (bf_empty b) < RECORD_BUFF_SIZE" "last (bf_empty b) \<notin> in_use b"
      by (auto simp: buffer_inv_def in_use_def)
    moreover obtain b' where "request_record_buff b = Some (last (bf_empty b), b')" "buffer_inv b'"
      "in_use b' = insert (last (bf_empty b)) (in_use b)"
      using request_ok [OF inv False] by blast
    ultimately show ?thesis by simp
  qed
next
  show "case release_buff j b of
      None \<Rightarrow> j \<notin> in_use b
    | Some b' \<Rightarrow> buffer_inv b' \<and> j \<in> in_use b \<and> in_use b' = in_use b - {j} \<and> \<not> if_full b'"
  proof (cases "j \<in> in_use b")
    case True
    then obtain b' where "release_buff j b = Some b'" "buffer_inv b'" "bf_empty b' = j # bf_empty b"
      "in_use b' = in_use b - {j}"
      using release_ok [OF inv] by blast
    with True show ?thesis by (simp add: if_full_def)
  next
    case False
    then have "release_buff j b = None" by (simp add: release_None [OF inv])
    with False show ?thesis by simp
  qed
qed

lemma buffer_request_release_example:
  "case request_record_buff Buffer_new of
      None \<Rightarrow> in_use Buffer_new = {..<RECORD_BUFF_SIZE}
    | Some (i, b') \<Rightarrow> in_use b' = insert i (in_use Buffer_new)"
  using buffer_request_release [OF buffer_new_inv] by (auto split: option.splits)

end
