(* ===== verification/Mem_Tables.thy ===== *)
theory Mem_Tables
  imports Skip_List_Map Wait_Queue
begin

text \<open>
  The class \<^verbatim>\<open>MemTables\<close> of \<^verbatim>\<open>engine_race/DBSystem/DBSystem.cpp\<close>:
  the skip lists that take the writes, the creator thread that supplies new ones, and the dumper
  thread that merges the lists of a finished generation. The lists live in a heap, from addresses
  to lists; a deleted list is not in the heap any more, and reaching it through a pointer is
  \<^term>\<open>None\<close>, like waiting for something that no other thread of the model provides.

  This theory holds the operations and the merge; what the dumper does with the merged records
  is in \<^verbatim>\<open>DB_System\<close>.
\<close>

subsection \<open>State\<close>

type_synonym heap = "nat \<Rightarrow> SkipList option"

record MemTables =
  mt_heap :: heap
  mt_fresh :: nat
  mt_can_insert :: "nat list"
  mt_wait_for_dump :: "nat list option list"
  mt_current :: "nat list"
  mt_working :: bool

text \<open>The capacities are the template arguments of the two queues.\<close>

definition can_insert_capacity :: nat where [config]: "can_insert_capacity = 5"
definition wait_for_dump_capacity :: nat where [config]: "wait_for_dump_capacity = 10"

subsection \<open>New lists\<close>

text \<open>One round of the creator thread.\<close>

definition buffers_creater_round :: "MemTables \<Rightarrow> MemTables option" where
  "buffers_creater_round m = do {
     list \<leftarrow> SkipList_new 0;
     let ptr = mt_fresh m;
     queue \<leftarrow> wait_and_push can_insert_capacity ptr (mt_can_insert m);
     Some (m\<lparr>mt_heap := (mt_heap m)(ptr \<mapsto> list), mt_fresh := ptr + 1, mt_can_insert := queue\<rparr>)
   }"

text \<open>
  Taking a list from the queue. Where the queue is empty, the thread sleeps until the creator has
  made a round; once the creator has stopped it sleeps forever.
\<close>

definition pop_memtable :: "MemTables \<Rightarrow> (nat \<times> MemTables) option" where
  "pop_memtable m = do {
     m \<leftarrow> (if mt_can_insert m = [] \<and> mt_working m then buffers_creater_round m else Some m);
     (ptr, queue) \<leftarrow> wait_and_pop (mt_can_insert m);
     Some (ptr, m\<lparr>mt_can_insert := queue\<rparr>)
   }"

fun add_memtables :: "nat \<Rightarrow> (nat \<Rightarrow> nat list \<Rightarrow> nat list) \<Rightarrow> MemTables \<Rightarrow> MemTables option" where
  "add_memtables 0 insert_ptr m = Some m"
| "add_memtables (Suc n) insert_ptr m = do {
     (ptr, m) \<leftarrow> pop_memtable m;
     add_memtables n insert_ptr (m\<lparr>mt_current := insert_ptr ptr (mt_current m)\<rparr>)
   }"

text \<open>The constructor puts the lists to the front, \<^verbatim>\<open>submit_dump\<close> to the back.\<close>

definition MemTables_new :: "MemTables option" where
  "MemTables_new = add_memtables MEMTABLE_CO_WRITE_NUM (#)
     \<lparr>mt_heap = Map.empty, mt_fresh = 0, mt_can_insert = [], mt_wait_for_dump = [], mt_current = [],
       mt_working = True\<rparr>"

subsection \<open>Using the current lists\<close>

text \<open>
  The search for a list whose mutex is free, over and over; \<open>rest\<close> starts at \<^verbatim>\<open>iter\<close>.
  Each attempt may change the list (see \<^const>\<open>try_lock\<close>).
\<close>

partial_function (option) get_memtable_loop ::
  "nat list \<Rightarrow> nat list \<Rightarrow> heap \<Rightarrow> (nat \<times> heap) option" where
  "get_memtable_loop current rest heap =
     (case rest of
        [] \<Rightarrow> None
      | ptr # rest \<Rightarrow> do {
          list \<leftarrow> heap ptr;
          let (locked, list) = try_lock list;
          let heap = heap(ptr \<mapsto> list);
          if locked then Some (ptr, heap)
          else get_memtable_loop current (if rest = [] then current else rest) heap
        })"

definition get_memtable :: "MemTables \<Rightarrow> (nat \<times> MemTables) option" where
  "get_memtable m = do {
     (ptr, heap) \<leftarrow> get_memtable_loop (mt_current m) (mt_current m) (mt_heap m);
     Some (ptr, m\<lparr>mt_heap := heap\<rparr>)
   }"

text \<open>\<^verbatim>\<open>cnt_ns\<close> takes the mutex of the list, so it waits for a list that is locked.\<close>

fun total_items :: "heap \<Rightarrow> nat list \<Rightarrow> int option" where
  "total_items heap [] = Some 0"
| "total_items heap (ptr # ptrs) = do {
     list \<leftarrow> heap ptr;
     if sk_locked list then None
     else do {
       n \<leftarrow> cnt_ns list;
       rest \<leftarrow> total_items heap ptrs;
       Some (n + rest)
     }
   }"

definition get_total_items :: "MemTables \<Rightarrow> int option" where
  "get_total_items m = total_items (mt_heap m) (mt_current m)"

fun set_all_dumping :: "nat list \<Rightarrow> heap \<Rightarrow> heap option" where
  "set_all_dumping [] heap = Some heap"
| "set_all_dumping (ptr # ptrs) heap = do {
     list \<leftarrow> heap ptr;
     set_all_dumping ptrs (heap(ptr \<mapsto> set_dumping list))
   }"

definition submit_dump :: "MemTables \<Rightarrow> MemTables option" where
  "submit_dump m = do {
     let dump_seq = mt_current m;
     heap \<leftarrow> set_all_dumping dump_seq (mt_heap m);
     m \<leftarrow> add_memtables MEMTABLE_CO_WRITE_NUM (\<lambda>ptr ptrs. ptrs @ [ptr])
       (m\<lparr>mt_heap := heap, mt_current := []\<rparr>);
     queue \<leftarrow> wait_and_push wait_for_dump_capacity (Some dump_seq) (mt_wait_for_dump m);
     Some (m\<lparr>mt_wait_for_dump := queue\<rparr>)
   }"

subsection \<open>The merge of the dumper thread\<close>

definition INT64_MAX :: KEY_T where "INT64_MAX = 0x7FFFFFFFFFFFFFFF"

text \<open>
  The scan for the least front record: \<open>i\<close> is the position of the iterator, the results are the
  positions \<^verbatim>\<open>min_iter\<close> and \<^verbatim>\<open>erase\<close> (\<^term>\<open>None\<close> for the end).
\<close>

fun find_min :: "heap \<Rightarrow> nat list \<Rightarrow> nat \<Rightarrow> KEY_T \<Rightarrow> nat option \<Rightarrow> nat option
  \<Rightarrow> (nat option \<times> nat option) option" where
  "find_min heap [] i minK min_iter erase = Some (min_iter, erase)"
| "find_min heap (ptr # ptrs) i minK min_iter erase = do {
     list \<leftarrow> heap ptr;
     tmp \<leftarrow> front_lvl_0 list;
     case tmp of
       None \<Rightarrow> find_min heap ptrs (Suc i) minK min_iter (Some i)
     | Some node \<Rightarrow> do {
         level \<leftarrow> vget (sk_data list) 0;
         tmp \<leftarrow> vget level node;
         if kv_key (nd_data tmp) < minK
         then find_min heap ptrs (Suc i) (kv_key (nd_data tmp)) (Some i) erase
         else find_min heap ptrs (Suc i) minK min_iter erase
       }
   }"

text \<open>
  The loop. \<open>kvs\<close> holds the addresses of the records, each a list and a node of its level 0.
  Reading \<^verbatim>\<open>record_writing->idx\<close> needs the popped address not to be null.
\<close>

partial_function (option) merge_loop ::
  "heap \<Rightarrow> nat list \<Rightarrow> (nat \<times> nat) list \<Rightarrow> (heap \<times> nat list \<times> (nat \<times> nat) list) option" where
  "merge_loop heap curr_writing kvs = do {
     (min_iter, erase) \<leftarrow> find_min heap curr_writing 0 INT64_MAX None None;
     case min_iter of
       None \<Rightarrow> Some (heap, curr_writing, kvs)
     | Some m \<Rightarrow> do {
         ptr \<leftarrow> vget curr_writing m;
         list \<leftarrow> heap ptr;
         (list, record_writing) \<leftarrow> pop_lvl_0 list;
         node \<leftarrow> record_writing;
         let heap = heap(ptr \<mapsto> list);
         let kvs = kvs @ [(ptr, node)];
         case erase of
           None \<Rightarrow> merge_loop heap curr_writing kvs
         | Some e \<Rightarrow> do {
             del \<leftarrow> vget curr_writing e;
             _ \<leftarrow> heap del;
             merge_loop (heap(del := None)) (take e curr_writing @ drop (Suc e) curr_writing) kvs
           }
       }
   }"

text \<open>Reading a record through its address.\<close>

definition deref :: "heap \<Rightarrow> nat \<times> nat \<Rightarrow> KeyIdxPair option" where
  "deref heap kv = do {
     list \<leftarrow> heap (fst kv);
     level \<leftarrow> vget (sk_data list) 0;
     node \<leftarrow> vget level (snd kv);
     Some (nd_data node)
   }"

subsection \<open>One round of the merge\<close>

definition pairs :: "heap \<Rightarrow> nat \<Rightarrow> KeyIdxPair list" where
  "pairs heap p = (case heap p of None \<Rightarrow> [] | Some s \<Rightarrow> level_0_pairs s)"

definition live :: "heap \<Rightarrow> nat list \<Rightarrow> bool" where
  "live heap ptrs \<longleftrightarrow> distinct ptrs \<and> (\<forall>p \<in> set ptrs. \<exists>s. heap p = Some s \<and> level_0_ok s)"

lemma liveE:
  assumes "live heap ptrs" and "p \<in> set ptrs"
  obtains s where "heap p = Some s" and "level_0_ok s" and "pairs heap p = level_0_pairs s"
  using assms by (auto simp: live_def pairs_def)

lemma pop_lvl_0_Cons:
  assumes ok: "level_0_ok s" and q: "level_0_pairs s = q # qs"
  shows "\<exists>s' a. pop_lvl_0 s = Some (s', Some a) \<and> front_lvl_0 s = Some (Some a) \<and> level_0_ok s'
    \<and> level_0_pairs s' = qs \<and> sk_data s' \<noteq> [] \<and> a < length (sk_data s ! 0) \<and> nd_data (sk_data s ! 0 ! a) = q
    \<and> length (sk_data s' ! 0) = length (sk_data s ! 0)
    \<and> (\<forall>b. nd_data (sk_data s' ! 0 ! b) = nd_data (sk_data s ! 0 ! b))"
proof -
  obtain a as where as: "data_nodes (sk_data s ! 0) = a # as"
    using q by (cases "data_nodes (sk_data s ! 0)") (auto simp: level_0_pairs_def)
  then have a: "nd_data (sk_data s ! 0 ! a) = q" "map (\<lambda>a. nd_data (sk_data s ! 0 ! a)) as = qs"
    using q by (auto simp: level_0_pairs_def Let_def)
  obtain s' l where s': "pop_lvl_0 s = Some (s', Some a)" "s' = s\<lparr>sk_data := (sk_data s)[0 := l]\<rparr>"
    "level_ok l" "data_nodes l = as" "\<forall>b. nd_data (l ! b) = nd_data (sk_data s ! 0 ! b)"
    "length l = length (sk_data s ! 0)"
    using pop_lvl_0_eq [OF ok as] by blast
  have at: "sk_data s' ! 0 = l" "sk_data s' \<noteq> []" using ok s'(2) by (simp_all add: level_0_ok_def)
  have "a < length (sk_data s ! 0)" using level_ok_node [of "sk_data s ! 0" a] ok as
    by (simp add: level_0_ok_def)
  then show ?thesis
    using s'(1,3-6) at a front_lvl_0_eq [OF ok as]
    by (simp add: level_0_pairs_def level_0_ok_def Let_def)
qed

text \<open>The scan as a function of the keys at the front.\<close>

definition front_key :: "heap \<Rightarrow> nat \<Rightarrow> KEY_T option" where
  "front_key heap p = (case pairs heap p of [] \<Rightarrow> None | q # _ \<Rightarrow> Some (kv_key q))"

fun scan :: "KEY_T option list \<Rightarrow> nat \<Rightarrow> KEY_T \<Rightarrow> nat option \<Rightarrow> nat option \<Rightarrow> nat option \<times> nat option" where
  "scan [] i minK min_iter erase = (min_iter, erase)"
| "scan (None # fs) i minK min_iter erase = scan fs (Suc i) minK min_iter (Some i)"
| "scan (Some k # fs) i minK min_iter erase =
     (if k < minK then scan fs (Suc i) k (Some i) erase else scan fs (Suc i) minK min_iter erase)"

lemma find_min_scan:
  assumes "\<forall>p \<in> set ptrs. \<exists>s. heap p = Some s \<and> level_0_ok s"
  shows "find_min heap ptrs i minK min_iter erase
    = Some (scan (map (front_key heap) ptrs) i minK min_iter erase)"
  using assms
proof (induction ptrs arbitrary: i minK min_iter erase)
  case (Cons p ptrs)
  obtain s where s: "heap p = Some s" "level_0_ok s" using Cons.prems by auto
  have data: "sk_data s \<noteq> []" using s(2) by (simp add: level_0_ok_def)
  show ?case
  proof (cases "level_0_pairs s")
    case Nil
    then have "front_lvl_0 s = Some None" "front_key heap p = None"
      using pop_lvl_0_cases [OF s(2)] s(1) by (simp_all add: front_key_def pairs_def)
    with s(1) Cons show ?thesis by simp
  next
    case (Cons q qs)
    then obtain a where "front_lvl_0 s = Some (Some a)" "a < length (sk_data s ! 0)"
      "nd_data (sk_data s ! 0 ! a) = q"
      using pop_lvl_0_Cons [OF s(2) Cons] by blast
    moreover have "front_key heap p = Some (kv_key q)"
      using s(1) Cons by (simp add: front_key_def pairs_def)
    ultimately show ?thesis using s(1) data Cons.IH Cons.prems by simp
  qed
qed simp

lemma scan_erase:
  "scan fs i minK mi er = (mi', er') \<Longrightarrow>
   er' = er \<and> None \<notin> set fs \<or> (\<exists>j < length fs. fs ! j = None \<and> er' = Some (i + j))"
proof (induction fs i minK mi er rule: scan.induct)
  case (2 fs i minK mi er)
  from 2(2) have "scan fs (Suc i) minK mi (Some i) = (mi', er')" by simp
  from 2(1) [OF this] show ?case
  proof
    assume "er' = Some i \<and> None \<notin> set fs"
    then show ?thesis by (intro disjI2 exI [of _ 0]) simp
  next
    assume "\<exists>j < length fs. fs ! j = None \<and> er' = Some (Suc i + j)"
    then obtain j where "j < length fs" "fs ! j = None" "er' = Some (Suc i + j)" by blast
    then show ?thesis by (intro disjI2 exI [of _ "Suc j"]) simp
  qed
next
  case (3 k fs i minK mi er)
  have "er' = er \<and> None \<notin> set fs \<or> (\<exists>j < length fs. fs ! j = None \<and> er' = Some (Suc i + j))"
    using 3 by (simp split: if_splits)
  then show ?case
  proof
    assume "\<exists>j < length fs. fs ! j = None \<and> er' = Some (Suc i + j)"
    then obtain j where "j < length fs" "fs ! j = None" "er' = Some (Suc i + j)" by blast
    then show ?thesis by (intro disjI2 exI [of _ "Suc j"]) simp
  qed simp
qed simp

lemma scan_min:
  "scan fs i minK mi er = (mi', er') \<Longrightarrow>
   mi' = mi \<and> (\<forall>k. Some k \<in> set fs \<longrightarrow> minK \<le> k)
   \<or> (\<exists>j k. j < length fs \<and> fs ! j = Some k \<and> mi' = Some (i + j) \<and> k < minK
        \<and> (\<forall>k'. Some k' \<in> set fs \<longrightarrow> k \<le> k'))"
proof (induction fs i minK mi er rule: scan.induct)
  case (2 fs i minK mi er)
  from 2(2) have "scan fs (Suc i) minK mi (Some i) = (mi', er')" by simp
  from 2(1) [OF this] show ?case
  proof
    assume "\<exists>j k. j < length fs \<and> fs ! j = Some k \<and> mi' = Some (Suc i + j) \<and> k < minK
        \<and> (\<forall>k'. Some k' \<in> set fs \<longrightarrow> k \<le> k')"
    then obtain j k where "j < length fs" "fs ! j = Some k" "mi' = Some (Suc i + j)" "k < minK"
      "\<forall>k'. Some k' \<in> set fs \<longrightarrow> k \<le> k'" by blast
    then show ?thesis by (intro disjI2 exI [of _ "Suc j"] exI [of _ k]) simp
  qed simp
next
  case (3 k fs i minK mi er)
  let ?m = "if k < minK then k else minK" and ?mi = "if k < minK then Some i else mi"
  have "mi' = ?mi \<and> (\<forall>k'. Some k' \<in> set fs \<longrightarrow> ?m \<le> k')
   \<or> (\<exists>j k'. j < length fs \<and> fs ! j = Some k' \<and> mi' = Some (Suc i + j) \<and> k' < ?m
        \<and> (\<forall>k''. Some k'' \<in> set fs \<longrightarrow> k' \<le> k''))"
    using 3 by (cases "k < minK") simp_all
  then show ?case
  proof
    assume *: "mi' = ?mi \<and> (\<forall>k'. Some k' \<in> set fs \<longrightarrow> ?m \<le> k')"
    show ?thesis
    proof (cases "k < minK")
      case True
      with * show ?thesis by (intro disjI2 exI [of _ 0] exI [of _ k]) auto
    qed (use * in auto)
  next
    assume "\<exists>j k'. j < length fs \<and> fs ! j = Some k' \<and> mi' = Some (Suc i + j) \<and> k' < ?m
        \<and> (\<forall>k''. Some k'' \<in> set fs \<longrightarrow> k' \<le> k'')"
    then obtain j k' where "j < length fs" "fs ! j = Some k'" "mi' = Some (Suc i + j)" "k' < ?m"
      "\<forall>k''. Some k'' \<in> set fs \<longrightarrow> k' \<le> k''" by blast
    then show ?thesis
      by (intro disjI2 exI [of _ "Suc j"] exI [of _ k']) (auto split: if_splits)
  qed
qed simp

text \<open>The records that the merge will take from a list: those below \<^verbatim>\<open>INT64_MAX\<close>.\<close>

definition eligible :: "heap \<Rightarrow> nat \<Rightarrow> KeyIdxPair list" where
  "eligible heap p = filter (\<lambda>q. kv_key q < INT64_MAX) (pairs heap p)"

lemma live_sorted:
  "live heap ptrs \<Longrightarrow> p \<in> set ptrs \<Longrightarrow> sorted_wrt (<) (map kv_key (pairs heap p))"
  by (erule liveE) (auto simp: level_0_pairs_sorted)

lemma eligible_Nil:
  assumes "live heap ptrs" and "p \<in> set ptrs"
  shows "eligible heap p = [] \<longleftrightarrow> (\<forall>k. front_key heap p = Some k \<longrightarrow> INT64_MAX \<le> k)"
proof (cases "pairs heap p")
  case (Cons q qs)
  with live_sorted [OF assms] show ?thesis
    by (auto simp: eligible_def front_key_def filter_empty_conv not_less)
qed (simp add: eligible_def front_key_def)

text \<open>What a pointer shows later: the record it showed before, unless its list is gone.\<close>

definition heap_keeps :: "heap \<Rightarrow> heap \<Rightarrow> bool" where
  "heap_keeps heap heap' \<longleftrightarrow> (\<forall>kv. heap' (fst kv) = None \<or> deref heap' kv = deref heap kv)
     \<and> (\<forall>p. heap p = None \<longrightarrow> heap' p = None)"

lemma heap_keeps_trans: "heap_keeps h h1 \<Longrightarrow> heap_keeps h1 h2 \<Longrightarrow> heap_keeps h h2"
  unfolding heap_keeps_def by metis

lemma heap_keeps_refl: "heap_keeps h h"
  by (simp add: heap_keeps_def)

text \<open>The merge leaves the other lists alone and creates none.\<close>

definition merge_frame :: "heap \<Rightarrow> nat list \<Rightarrow> heap \<Rightarrow> nat list \<Rightarrow> bool" where
  "merge_frame heap ptrs heap' ptrs' \<longleftrightarrow>
     (\<forall>p. p \<notin> set ptrs \<longrightarrow> heap' p = heap p) \<and> (\<forall>p. heap p = None \<longrightarrow> heap' p = None) \<and> set ptrs' \<subseteq> set ptrs"

lemma merge_frame_refl: "merge_frame heap ptrs heap ptrs"
  by (simp add: merge_frame_def)

lemma merge_frame_trans:
  "merge_frame h ps h1 ps1 \<Longrightarrow> merge_frame h1 ps1 h2 ps2 \<Longrightarrow> merge_frame h ps h2 ps2"
  unfolding merge_frame_def by (metis subset_iff)

text \<open>The heap after one round: the front of one list taken, and perhaps an empty list deleted.\<close>

definition merge_step :: "heap \<Rightarrow> nat list \<Rightarrow> nat \<Rightarrow> nat \<Rightarrow> heap \<Rightarrow> nat list \<Rightarrow> bool" where
  "merge_step heap ptrs p a heap' ptrs' \<longleftrightarrow>
     p \<in> set ptrs \<and> live heap' ptrs' \<and> heap_keeps heap heap' \<and> merge_frame heap ptrs heap' ptrs'
     \<and> (\<exists>q qs. pairs heap p = q # qs \<and> pairs heap' p = qs \<and> kv_key q < INT64_MAX
          \<and> deref heap (p, a) = Some q \<and> heap' p \<noteq> None
          \<and> (\<forall>p' \<in> set ptrs. \<forall>q' \<in> set (pairs heap p'). kv_key q \<le> kv_key q'))
     \<and> (\<forall>p'. p' \<noteq> p \<longrightarrow> pairs heap' p' = pairs heap p')
     \<and> (set ptrs' = set ptrs \<and> (\<forall>p' \<in> set ptrs. pairs heap p' \<noteq> []) \<and> length ptrs' = length ptrs
        \<or> (\<exists>e \<in> set ptrs. e \<noteq> p \<and> pairs heap e = [] \<and> heap' e = None \<and> set ptrs' = set ptrs - {e}))"

lemma live_remove:
  assumes "live heap ptrs" and "e < length ptrs"
  shows "distinct (take e ptrs @ drop (Suc e) ptrs)"
    and "set (take e ptrs @ drop (Suc e) ptrs) = set ptrs - {ptrs ! e}"
proof -
  have split: "ptrs = take e ptrs @ ptrs ! e # drop (Suc e) ptrs"
    using assms(2) by (simp add: id_take_nth_drop)
  have "distinct ptrs" using assms(1) by (simp add: live_def)
  then have d: "distinct (take e ptrs @ ptrs ! e # drop (Suc e) ptrs)" using split by metis
  then show "distinct (take e ptrs @ drop (Suc e) ptrs)" by simp
  have "set ptrs = set (take e ptrs @ ptrs ! e # drop (Suc e) ptrs)" using split by metis
  with d show "set (take e ptrs @ drop (Suc e) ptrs) = set ptrs - {ptrs ! e}" by auto
qed

lemma deref_upd:
  assumes "heap p = Some s" and "sk_data s \<noteq> []" and "sk_data s' \<noteq> []"
    and "length (sk_data s' ! 0) = length (sk_data s ! 0)"
    and "\<forall>b. nd_data (sk_data s' ! 0 ! b) = nd_data (sk_data s ! 0 ! b)"
  shows "deref (heap(p \<mapsto> s')) kv = deref heap kv"
  using assms by (simp add: deref_def vget_def)

lemma heap_keeps_delete: "heap_keeps heap (heap(e := None))"
  by (auto simp: heap_keeps_def deref_def)

lemma merge_round:
  assumes live: "live heap ptrs"
  shows "(merge_loop heap ptrs kvs = Some (heap, ptrs, kvs) \<and> (\<forall>p \<in> set ptrs. eligible heap p = []))
    \<or> (\<exists>p a heap' ptrs'. merge_step heap ptrs p a heap' ptrs'
        \<and> merge_loop heap ptrs kvs = merge_loop heap' ptrs' (kvs @ [(p, a)]))"
proof -
  let ?fs = "map (front_key heap) ptrs"
  obtain mi er where sc: "scan ?fs 0 INT64_MAX None None = (mi, er)" by fastforce
  have "\<forall>p \<in> set ptrs. \<exists>s. heap p = Some s \<and> level_0_ok s" using live by (simp add: live_def)
  then have fm: "find_min heap ptrs 0 INT64_MAX None None = Some (mi, er)"
    using sc by (simp add: find_min_scan)
  from scan_min [OF sc] show ?thesis
  proof
    assume "mi = None \<and> (\<forall>k. Some k \<in> set ?fs \<longrightarrow> INT64_MAX \<le> k)"
    then have "mi = None" "\<forall>p \<in> set ptrs. eligible heap p = []"
      using eligible_Nil [OF live] by (auto simp: image_iff) metis
    then show ?thesis using fm by (subst merge_loop.simps) simp
  next
    assume "\<exists>j k. j < length ?fs \<and> ?fs ! j = Some k \<and> mi = Some (0 + j) \<and> k < INT64_MAX
      \<and> (\<forall>k'. Some k' \<in> set ?fs \<longrightarrow> k \<le> k')"
    then obtain j k where jk: "j < length ?fs" "?fs ! j = Some k" "mi = Some (0 + j)" "k < INT64_MAX"
      "\<forall>k'. Some k' \<in> set ?fs \<longrightarrow> k \<le> k'" by blast
    then have j: "j < length ptrs" "front_key heap (ptrs ! j) = Some k" "mi = Some j" "k < INT64_MAX"
      by simp_all
    have least: "k \<le> k'" if "p \<in> set ptrs" "front_key heap p = Some k'" for p k'
      using jk(5) that by force
    let ?p = "ptrs ! j"
    have p: "?p \<in> set ptrs" using j(1) by simp
    obtain s where s: "heap ?p = Some s" "level_0_ok s" "pairs heap ?p = level_0_pairs s"
      using live p by (rule liveE)
    obtain q qs where q: "level_0_pairs s = q # qs" "kv_key q = k"
      using j(2) s(3) by (cases "level_0_pairs s") (auto simp: front_key_def)
    obtain s' a where s': "pop_lvl_0 s = Some (s', Some a)" "level_0_ok s'" "level_0_pairs s' = qs"
      "sk_data s' \<noteq> []" "a < length (sk_data s ! 0)" "nd_data (sk_data s ! 0 ! a) = q"
      "length (sk_data s' ! 0) = length (sk_data s ! 0)"
      "\<forall>b. nd_data (sk_data s' ! 0 ! b) = nd_data (sk_data s ! 0 ! b)"
      using pop_lvl_0_Cons [OF s(2) q(1)] by blast
    have data: "sk_data s \<noteq> []" using s(2) by (simp add: level_0_ok_def)
    let ?h = "heap(?p \<mapsto> s')"
    have keeps: "heap_keeps heap ?h"
      using deref_upd [where heap = heap and p = ?p, OF s(1) data s'(4,7,8)] s(1) by (auto simp: heap_keeps_def)
    have at: "deref heap (?p, a) = Some q" using s(1) data s'(5,6) by (simp add: deref_def)
    have min: "kv_key q \<le> kv_key q'" if "p' \<in> set ptrs" "q' \<in> set (pairs heap p')" for p' q'
    proof (cases "pairs heap p'")
      case (Cons r rs)
      with live_sorted [OF live that(1)] that(2) have "kv_key r \<le> kv_key q'" by auto
      moreover have "k \<le> kv_key r" using least [OF that(1)] Cons by (simp add: front_key_def)
      ultimately show ?thesis using q(2) by simp
    qed (use that in simp)
    have pairs': "pairs ?h ?p = qs" "\<And>p'. p' \<noteq> ?p \<Longrightarrow> pairs ?h p' = pairs heap p'"
      using s'(3) by (simp_all add: pairs_def)
    have live': "live ?h ptrs" using live s'(2) by (auto simp: live_def)
    show ?thesis
    proof (cases er)
      case None
      then have "None \<notin> set ?fs" using scan_erase [OF sc] by auto
      then have "\<forall>p' \<in> set ptrs. pairs heap p' \<noteq> []"
        by (force simp: front_key_def image_iff split: list.splits)
      moreover have "merge_frame heap ptrs ?h ptrs" using p s(1) by (auto simp: merge_frame_def)
      ultimately have "merge_step heap ptrs ?p a ?h ptrs"
        using p live' keeps s(3) q j(4) pairs' at min unfolding merge_step_def by simp
      moreover have "merge_loop heap ptrs kvs = merge_loop ?h ptrs (kvs @ [(?p, a)])"
        using fm j(1,3) s(1) s'(1) None by (subst merge_loop.simps) (simp add: Let_def)
      ultimately show ?thesis by blast
    next
      case (Some e)
      then have e: "e < length ptrs" "front_key heap (ptrs ! e) = None"
        using scan_erase [OF sc] by auto
      let ?e = "ptrs ! e" and ?ptrs = "take e ptrs @ drop (Suc e) ptrs"
      have ep: "?e \<in> set ptrs" "?e \<noteq> ?p" using e j(2) by auto
      have empty: "pairs heap ?e = []"
        using e(2) by (auto simp: front_key_def split: list.splits)
      obtain t where "heap ?e = Some t" using live ep(1) by (rule liveE)
      then have "merge_loop heap ptrs kvs = merge_loop (?h(?e := None)) ?ptrs (kvs @ [(?p, a)])"
        using fm j(1,3) s(1) s'(1) Some e(1) ep(2) by (subst merge_loop.simps) (simp add: Let_def)
      moreover have "live (?h(?e := None)) ?ptrs"
        using live live_remove [OF live e(1)] live' by (auto simp: live_def)
      moreover have "heap_keeps heap (?h(?e := None))"
        using keeps heap_keeps_delete heap_keeps_trans by blast
      moreover have "pairs (?h(?e := None)) p' = pairs heap p'" if "p' \<noteq> ?p" for p'
        using pairs'(2) [OF that] empty by (cases "p' = ?e") (simp_all add: pairs_def)
      moreover have "pairs (?h(?e := None)) ?p = qs"
        using pairs'(1) ep(2) by (simp add: pairs_def)
      moreover have "merge_frame heap ptrs (?h(?e := None)) ?ptrs"
        using p s(1) ep(1) live_remove(2) [OF live e(1)] by (auto simp: merge_frame_def)
      ultimately have "merge_step heap ptrs ?p a (?h(?e := None)) ?ptrs"
        and "merge_loop heap ptrs kvs = merge_loop (?h(?e := None)) ?ptrs (kvs @ [(?p, a)])"
        using p s(3) q j(4) at min ep empty live_remove(2) [OF live e(1)]
        unfolding merge_step_def by auto
      then show ?thesis by blast
    qed
  qed
qed

subsection \<open>The whole merge\<close>

definition remaining :: "heap \<Rightarrow> nat list \<Rightarrow> KeyIdxPair multiset" where
  "remaining heap ptrs = (\<Sum>p \<in> set ptrs. mset (eligible heap p))"

lemma remaining_step:
  assumes step: "merge_step heap ptrs p a heap' ptrs'" and live: "live heap ptrs"
  shows "\<exists>q. deref heap (p, a) = Some q \<and> remaining heap ptrs = add_mset q (remaining heap' ptrs')
    \<and> (\<forall>q' \<in># remaining heap ptrs. kv_key q \<le> kv_key q')"
proof -
  obtain q qs where q: "p \<in> set ptrs" "pairs heap p = q # qs" "pairs heap' p = qs"
    "kv_key q < INT64_MAX" "deref heap (p, a) = Some q"
    "\<forall>p' \<in> set ptrs. \<forall>q' \<in> set (pairs heap p'). kv_key q \<le> kv_key q'"
    and other: "\<forall>p'. p' \<noteq> p \<longrightarrow> pairs heap' p' = pairs heap p'"
    using step unfolding merge_step_def by blast
  have el: "mset (eligible heap p) = add_mset q (mset (eligible heap' p))"
    "\<And>p'. p' \<noteq> p \<Longrightarrow> eligible heap' p' = eligible heap p'"
    using q(2-4) other by (simp_all add: eligible_def)
  have all: "remaining heap ptrs = add_mset q (\<Sum>p \<in> set ptrs. mset (eligible heap' p))"
    unfolding remaining_def using q(1) el by (simp add: sum.remove [where x = p])
  have "(\<Sum>p \<in> set ptrs. mset (eligible heap' p)) = (\<Sum>p \<in> set ptrs'. mset (eligible heap' p))"
    using step unfolding merge_step_def
  proof (elim conjE disjE)
    assume "\<exists>e \<in> set ptrs. e \<noteq> p \<and> pairs heap e = [] \<and> heap' e = None \<and> set ptrs' = set ptrs - {e}"
    then obtain e where "e \<in> set ptrs" "eligible heap' e = []" "set ptrs' = set ptrs - {e}"
      by (auto simp: eligible_def pairs_def)
    then show ?thesis by (simp add: sum.remove [where x = e])
  qed simp
  moreover have "\<forall>q' \<in># remaining heap ptrs. kv_key q \<le> kv_key q'"
    using q(6) by (auto simp: remaining_def eligible_def set_mset_sum)
  ultimately show ?thesis using all q(5) by (simp add: remaining_def)
qed

lemma merge_loop_result:
  assumes "live heap ptrs"
  shows "\<exists>heap' ptrs' kvs' ps. merge_loop heap ptrs kvs = Some (heap', ptrs', kvs @ kvs')
    \<and> map (deref heap) kvs' = map Some ps \<and> heap_keeps heap heap'
    \<and> sorted (map kv_key ps) \<and> mset ps = remaining heap ptrs
    \<and> (\<forall>p \<in> set ptrs'. eligible heap' p = []) \<and> live heap' ptrs' \<and> set ptrs' \<subseteq> set ptrs"
  using assms
proof (induction "size (remaining heap ptrs)" arbitrary: heap ptrs kvs)
  case 0
  then have none: "remaining heap ptrs = {#}" by simp
  have "\<not> merge_step heap ptrs p a heap' ptrs'" for p a heap' ptrs'
    using remaining_step [OF _ 0(2), of p a heap' ptrs'] none by auto
  with merge_round [OF 0(2), of kvs] have
    "merge_loop heap ptrs kvs = Some (heap, ptrs, kvs)" "\<forall>p \<in> set ptrs. eligible heap p = []" by blast+
  with 0(2) none show ?case
    by (intro exI [of _ heap] exI [of _ ptrs] exI [of _ "[]"]) (simp add: heap_keeps_refl)
next
  case (Suc n)
  have "\<exists>p \<in> set ptrs. eligible heap p \<noteq> []"
  proof (rule ccontr)
    assume "\<not> ?thesis"
    then have "remaining heap ptrs = {#}" by (simp add: remaining_def)
    with Suc(2) show False by simp
  qed
  then obtain p a h1 ptrs1 where step: "merge_step heap ptrs p a h1 ptrs1"
    and run: "merge_loop heap ptrs kvs = merge_loop h1 ptrs1 (kvs @ [(p, a)])"
    using merge_round [OF Suc(3), of kvs] by blast
  obtain q where q: "deref heap (p, a) = Some q" "remaining heap ptrs = add_mset q (remaining h1 ptrs1)"
    "\<forall>q' \<in># remaining heap ptrs. kv_key q \<le> kv_key q'"
    using remaining_step [OF step Suc(3)] by blast
  have live1: "live h1 ptrs1" and keep1: "heap_keeps heap h1" and sub: "set ptrs1 \<subseteq> set ptrs"
    using step by (auto simp: merge_step_def)
  have "n = size (remaining h1 ptrs1)" using q(2) Suc(2) by simp
  from Suc(1) [OF this live1, of "kvs @ [(p, a)]"] obtain heap' ptrs' kvs' ps where
    r: "merge_loop h1 ptrs1 (kvs @ [(p, a)]) = Some (heap', ptrs', (kvs @ [(p, a)]) @ kvs')"
    "map (deref h1) kvs' = map Some ps" "heap_keeps h1 heap'" "sorted (map kv_key ps)"
    "mset ps = remaining h1 ptrs1" "\<forall>p \<in> set ptrs'. eligible heap' p = []" "live heap' ptrs'"
    "set ptrs' \<subseteq> set ptrs1" by blast
  have same: "deref heap kv = deref h1 kv" if "kv \<in> set kvs'" for kv
  proof -
    have "deref h1 kv \<in> set (map Some ps)" using that r(2) by (metis image_eqI list.set_map)
    then have "h1 (fst kv) \<noteq> None" by (auto simp: deref_def Option.bind_eq_Some_conv)
    with keep1 show ?thesis unfolding heap_keeps_def by metis
  qed
  have "map (deref heap) ((p, a) # kvs') = map Some (q # ps)"
    using same r(2) q(1) by (simp cong: map_cong)
  moreover have "sorted (map kv_key (q # ps))"
    using r(4,5) q(2,3) by (auto simp flip: set_mset_mset)
  moreover have "mset (q # ps) = remaining heap ptrs" using q(2) r(5) by simp
  moreover have "heap_keeps heap heap'" using keep1 r(3) by (rule heap_keeps_trans)
  moreover have "merge_loop heap ptrs kvs = Some (heap', ptrs', kvs @ ((p, a) # kvs'))"
    using run r(1) by simp
  ultimately show ?case using r(6-8) sub by blast
qed

lemma merge_loop_frame:
  assumes "live heap ptrs" and "merge_loop heap ptrs kvs = Some (heap', ptrs', kvs')"
  shows "merge_frame heap ptrs heap' ptrs'"
  using assms
proof (induction "size (remaining heap ptrs)" arbitrary: heap ptrs kvs rule: less_induct)
  case less
  from merge_round [OF less(2), of kvs] show ?case
  proof
    assume "merge_loop heap ptrs kvs = Some (heap, ptrs, kvs) \<and> (\<forall>p \<in> set ptrs. eligible heap p = [])"
    then show ?thesis using less(3) by (simp add: merge_frame_refl)
  next
    assume "\<exists>p a h1 ptrs1. merge_step heap ptrs p a h1 ptrs1
      \<and> merge_loop heap ptrs kvs = merge_loop h1 ptrs1 (kvs @ [(p, a)])"
    then obtain p a h1 ptrs1 where step: "merge_step heap ptrs p a h1 ptrs1"
      and run: "merge_loop heap ptrs kvs = merge_loop h1 ptrs1 (kvs @ [(p, a)])" by blast
    obtain q where "remaining heap ptrs = add_mset q (remaining h1 ptrs1)"
      using remaining_step [OF step less(2)] by blast
    moreover have "live h1 ptrs1" "merge_frame heap ptrs h1 ptrs1" using step by (simp_all add: merge_step_def)
    ultimately show ?thesis using less(1) [of h1 ptrs1 "kvs @ [(p, a)]"] less(3) run merge_frame_trans by simp
  qed
qed

lemma remaining_empty: "remaining heap ptrs = {#} \<longleftrightarrow> (\<forall>p \<in> set ptrs. eligible heap p = [])"
  by (simp add: remaining_def sum_eq_empty_iff)

lemma merge_loop_dangling:
  assumes "live heap ptrs" and "\<forall>p \<in> set ptrs. eligible heap p = pairs heap p"
    and "2 \<le> length ptrs" and "\<forall>p \<in> set ptrs. pairs heap p \<noteq> [] \<or> p \<in> fst ` set kvs"
    and "remaining heap ptrs \<noteq> {#}"
  shows "\<exists>heap' ptrs' kvs'. merge_loop heap ptrs kvs = Some (heap', ptrs', kvs')
    \<and> (\<exists>kv \<in> set kvs'. heap' (fst kv) = None)"
  using assms
proof (induction "size (remaining heap ptrs)" arbitrary: heap ptrs kvs)
  case (Suc n)
  note live = Suc(3) and elig = Suc(4) and two = Suc(5) and seen = Suc(6)
  have "\<exists>p \<in> set ptrs. eligible heap p \<noteq> []"
    using Suc(7) by (simp add: remaining_empty)
  then obtain p a h1 ptrs1 where step: "merge_step heap ptrs p a h1 ptrs1"
    and run: "merge_loop heap ptrs kvs = merge_loop h1 ptrs1 (kvs @ [(p, a)])"
    using merge_round [OF live, of kvs] by blast
  have live1: "live h1 ptrs1" and p: "p \<in> set ptrs"
    and other: "\<And>p'. p' \<noteq> p \<Longrightarrow> pairs h1 p' = pairs heap p'"
    using step by (auto simp: merge_step_def)
  obtain q qs where q: "pairs heap p = q # qs" "pairs h1 p = qs"
    using step unfolding merge_step_def by blast
  have "set ptrs1 = set ptrs \<and> (\<forall>p' \<in> set ptrs. pairs heap p' \<noteq> []) \<and> length ptrs1 = length ptrs
      \<or> (\<exists>e \<in> set ptrs. e \<noteq> p \<and> pairs heap e = [] \<and> h1 e = None)"
    using step unfolding merge_step_def by blast
  then show ?case
  proof
    assume "\<exists>e \<in> set ptrs. e \<noteq> p \<and> pairs heap e = [] \<and> h1 e = None"
    then obtain e where e: "e \<in> fst ` set kvs" "h1 e = None" using seen by blast
    obtain heap' ptrs' kvs' where r:
      "merge_loop h1 ptrs1 (kvs @ [(p, a)]) = Some (heap', ptrs', (kvs @ [(p, a)]) @ kvs')"
      "heap_keeps h1 heap'"
      using merge_loop_result [OF live1] by blast
    have "heap' e = None" using r(2) e(2) by (simp add: heap_keeps_def)
    with e(1) r(1) run show ?thesis by (auto simp: image_iff)
  next
    assume all: "set ptrs1 = set ptrs \<and> (\<forall>p' \<in> set ptrs. pairs heap p' \<noteq> []) \<and> length ptrs1 = length ptrs"
    have "distinct ptrs" using live by (simp add: live_def)
    then have "card (set ptrs) = length ptrs" by (rule distinct_card)
    with two have "\<not> set ptrs \<subseteq> {p}" by (auto dest: card_mono [rotated])
    then obtain p' where p': "p' \<in> set ptrs" "p' \<noteq> p" by blast
    have elig1: "\<forall>p' \<in> set ptrs1. eligible h1 p' = pairs h1 p'"
    proof
      fix x assume "x \<in> set ptrs1"
      then have "eligible heap x = pairs heap x" using elig all by blast
      then have "\<forall>q \<in> set (pairs heap x). kv_key q < INT64_MAX"
        by (simp add: eligible_def filter_id_conv)
      moreover have "set (pairs h1 x) \<subseteq> set (pairs heap x)"
        using other [of x] q by (cases "x = p") auto
      ultimately show "eligible h1 x = pairs h1 x" by (auto simp: eligible_def filter_id_conv)
    qed
    have "eligible h1 p' \<noteq> []" using elig1 p' all other by metis
    then have ne: "remaining h1 ptrs1 \<noteq> {#}" using p'(1) all by (auto simp: remaining_empty)
    have "size (remaining heap ptrs) = Suc (size (remaining h1 ptrs1))" using remaining_step [OF step live] by auto
    then have n: "n = size (remaining h1 ptrs1)" using Suc(2) by simp
    have two1: "2 \<le> length ptrs1" using two all by simp
    have seen1: "\<forall>x \<in> set ptrs1. pairs h1 x \<noteq> [] \<or> x \<in> fst ` set (kvs @ [(p, a)])"
      using all other by auto
    show ?thesis unfolding run by (rule Suc(1) [OF n live1 elig1 two1 seen1 ne])
  qed
qed simp

lemma deref_None: "heap (fst kv) = None \<Longrightarrow> deref heap kv = None"
  by (simp add: deref_def)

text \<open>Lists with one record, for the examples.\<close>

lemma one_record_list:
  "\<exists>s. level_0_ok s \<and> level_0_pairs s = [\<lparr>kv_key = k, kv_idx = i\<rparr>]"
proof -
  obtain s where s: "sl_inv s" "\<And>k'. sl_map s k' = sl_written 0 [(k, i)] k'"
    using SkipList_updates_new [of "[(k, i)]" 0 "\<lambda>_ _. 0"] by auto
  note ok = sl_inv_level_0 [OF s(1)]
  have elems: "(\<exists>p \<in> set (level_0_pairs s). kv_key p = k' \<and> kv_idx p = j) \<longleftrightarrow> k' = k \<and> j = i" for k' j
  proof -
    have "sl_map s k' = (if k' = k then Some i else None)" by (simp add: s(2) sl_written_def)
    with level_0_pairs_map [OF ok, of k' j] show ?thesis by (auto split: if_splits)
  qed
  then have only: "p = \<lparr>kv_key = k, kv_idx = i\<rparr>" if "p \<in> set (level_0_pairs s)" for p
    using that by (metis KeyIdxPair.surjective old.unit.exhaust)
  have "level_0_pairs s = [\<lparr>kv_key = k, kv_idx = i\<rparr>]"
  proof (cases "level_0_pairs s")
    case Nil
    with elems [of k i] show ?thesis by simp
  next
    case (Cons p ps)
    then show ?thesis using only level_0_pairs_sorted [OF ok] by (cases ps) auto
  qed
  with ok show ?thesis by blast
qed

lemma two_lists:
  "\<exists>h. live h [0, 1] \<and> pairs h 0 = [\<lparr>kv_key = k, kv_idx = i\<rparr>] \<and> pairs h 1 = [\<lparr>kv_key = k', kv_idx = i'\<rparr>]"
proof -
  obtain s s' where "level_0_ok s" "level_0_pairs s = [\<lparr>kv_key = k, kv_idx = i\<rparr>]"
    "level_0_ok s'" "level_0_pairs s' = [\<lparr>kv_key = k', kv_idx = i'\<rparr>]"
    using one_record_list by metis
  then show ?thesis by (intro exI [of _ "[0 \<mapsto> s, 1 \<mapsto> s']"]) (simp add: live_def pairs_def)
qed

text \<open>C27: The dumper's merge always ends. It leaves the addresses of exactly those records
  whose keys are below \<^verbatim>\<open>INT64_MAX\<close> (the start value of \<^verbatim>\<open>minK\<close>), in
  ascending order of their keys; a record at or above that bound is never written out, although
  keys are unsigned 64-bit numbers.\<close>

theorem merge_sorted:
  assumes "live heap ptrs"
  shows "\<exists>heap' ptrs' kvs ps. merge_loop heap ptrs [] = Some (heap', ptrs', kvs)
    \<and> map (deref heap) kvs = map Some ps \<and> sorted (map kv_key ps)
    \<and> mset ps = (\<Sum>p \<in> set ptrs. {# q \<in># mset (pairs heap p). kv_key q < INT64_MAX #})
    \<and> {.. 2 ^ 63 - 2 :: KEY_T} = {..< INT64_MAX}"
proof -
  have "{.. 2 ^ 63 - 2 :: KEY_T} = {..< INT64_MAX}"
  proof -
    have "k \<le> (2 ^ 63 - 2 :: KEY_T) \<longleftrightarrow> k < INT64_MAX" for k
      unfolding INT64_MAX_def word_le_nat_alt word_less_nat_alt by (simp; linarith)
    then show ?thesis by auto
  qed
  with merge_loop_result [OF assms, of "[]"] show ?thesis
    by (simp add: remaining_def eligible_def) blast
qed

text \<open>C28: The merge deletes a list as soon as it finds it empty, while the records it took from
  it are still to be written out. Whenever it starts with at least two lists, all of them non-empty and
  all keys below \<^verbatim>\<open>INT64_MAX\<close>, some of the addresses it hands to \<^verbatim>\<open>dump_all\<close> point
  into a deleted list.\<close>

theorem merge_use_after_free:
  assumes "live heap ptrs" and "2 \<le> length ptrs" and "\<forall>p \<in> set ptrs. pairs heap p \<noteq> []"
    and "\<forall>p \<in> set ptrs. \<forall>q \<in> set (pairs heap p). kv_key q < INT64_MAX"
  shows "\<exists>heap' ptrs' kvs. merge_loop heap ptrs [] = Some (heap', ptrs', kvs)
    \<and> (\<exists>kv \<in> set kvs. deref heap' kv = None)"
proof -
  have "\<forall>p \<in> set ptrs. eligible heap p = pairs heap p"
    using assms(4) by (simp add: eligible_def filter_id_conv)
  moreover have "remaining heap ptrs \<noteq> {#}"
  proof -
    obtain p where "p \<in> set ptrs" using assms(2) by (cases ptrs) auto
    with assms(3) calculation show ?thesis by (auto simp: remaining_empty)
  qed
  ultimately have "\<exists>heap' ptrs' kvs. merge_loop heap ptrs [] = Some (heap', ptrs', kvs)
      \<and> (\<exists>kv \<in> set kvs. heap' (fst kv) = None)"
    using assms(1-3) by (intro merge_loop_dangling) auto
  then show ?thesis using deref_None by blast
qed

theorem merge_sorted_witness:
  "\<exists>h heap' ptrs' kvs ps. pairs h 0 = [\<lparr>kv_key = 9, kv_idx = Index_of 1\<rparr>] \<and> merge_loop h [0, 1] [] = Some (heap', ptrs', kvs)
    \<and> map (deref h) kvs = map Some ps \<and> sorted (map kv_key ps)"
proof -
  obtain h where h: "live h [0, 1]" "pairs h 0 = [\<lparr>kv_key = 9, kv_idx = Index_of 1\<rparr>]"
    using two_lists [of 9 "Index_of 1" 3 "Index_of 2"] by blast
  from merge_sorted [OF h(1)] h(2) show ?thesis by blast
qed

theorem merge_use_after_free_witness:
  "\<exists>h heap' ptrs' kvs. pairs h 0 = [\<lparr>kv_key = 9, kv_idx = Index_of 1\<rparr>]
    \<and> merge_loop h [0, 1] [] = Some (heap', ptrs', kvs) \<and> (\<exists>kv \<in> set kvs. deref heap' kv = None)"
proof -
  obtain h where h: "live h [0, 1]" "pairs h 0 = [\<lparr>kv_key = 9, kv_idx = Index_of 1\<rparr>]"
    "pairs h 1 = [\<lparr>kv_key = 3, kv_idx = Index_of 2\<rparr>]"
    using two_lists [of 9 "Index_of 1" 3 "Index_of 2"] by blast
  have "\<forall>p \<in> set [0, 1]. pairs h p \<noteq> []" using h by simp
  moreover have "\<forall>p \<in> set [0, 1]. \<forall>q \<in> set (pairs h p). kv_key q < INT64_MAX"
    using h by (simp add: INT64_MAX_def)
  moreover have "2 \<le> length [0 :: nat, 1]" by simp
  ultimately show ?thesis using merge_use_after_free [OF h(1)] h(2) by blast
qed

subsection \<open>Invariant of the tables\<close>

text \<open>
  A list that is ready for writes is well-formed and not dumping; a new one is also empty and
  unlocked. Every address belongs to one place only.
\<close>

definition ready :: "heap \<Rightarrow> nat \<Rightarrow> bool" where
  "ready heap p \<longleftrightarrow> (\<exists>s. heap p = Some s \<and> sl_inv s \<and> sk_id s = 0 \<and> \<not> sk_dumping s)"

definition fresh_list :: "heap \<Rightarrow> nat \<Rightarrow> bool" where
  "fresh_list heap p \<longleftrightarrow>
     (\<exists>s. heap p = Some s \<and> sl_inv s \<and> sk_id s = 0 \<and> \<not> sk_dumping s \<and> \<not> sk_locked s
        \<and> sl_map s = Map.empty)"

definition dump_lists :: "MemTables \<Rightarrow> nat list" where
  "dump_lists m = concat (map (case_option [] id) (mt_wait_for_dump m))"

definition tables_ok :: "MemTables \<Rightarrow> bool" where
  "tables_ok m \<longleftrightarrow> distinct (mt_current m @ mt_can_insert m @ dump_lists m)
     \<and> (\<forall>p \<in> set (mt_current m). ready (mt_heap m) p)
     \<and> (\<forall>p \<in> set (mt_can_insert m). fresh_list (mt_heap m) p)
     \<and> (\<forall>p \<in> set (dump_lists m). \<exists>s. mt_heap m p = Some s \<and> sl_inv s)
     \<and> (\<forall>p. mt_heap m p \<noteq> None \<longrightarrow> p < mt_fresh m)"

lemma fresh_ready: "fresh_list heap p \<Longrightarrow> ready heap p"
  by (auto simp: fresh_list_def ready_def)

lemma ready_cong: "heap' p = heap p \<Longrightarrow> ready heap' p = ready heap p"
  by (simp add: ready_def)

lemma fresh_list_cong: "heap' p = heap p \<Longrightarrow> fresh_list heap' p = fresh_list heap p"
  by (simp add: fresh_list_def)

text \<open>What adding lists does to the current ones.\<close>

definition grown :: "MemTables \<Rightarrow> nat list \<Rightarrow> MemTables \<Rightarrow> bool" where
  "grown m new m' \<longleftrightarrow> tables_ok m' \<and> mt_working m' = mt_working m
     \<and> mt_wait_for_dump m' = mt_wait_for_dump m
     \<and> (\<forall>p. mt_heap m p \<noteq> None \<longrightarrow> mt_heap m' p = mt_heap m p)
     \<and> (\<forall>p \<in> set new. fresh_list (mt_heap m') p) \<and> set new \<inter> set (mt_current m) = {}
     \<and> set new \<inter> set (dump_lists m) = {} \<and> distinct new"

lemma pop_memtable_ok:
  assumes ok: "tables_ok m" and working: "mt_working m"
  shows "\<exists>p m'. pop_memtable m = Some (p, m') \<and> mt_current m' = mt_current m
    \<and> grown m [p] m' \<and> p \<notin> set (mt_can_insert m')"
proof (cases "mt_can_insert m")
  case (Cons p ps)
  let ?m = "m\<lparr>mt_can_insert := ps\<rparr>"
  have "tables_ok ?m" using ok by (auto simp: tables_ok_def dump_lists_def Cons)
  moreover have "fresh_list (mt_heap m) p" "p \<notin> set (mt_current m)" "p \<notin> set (dump_lists m)" "p \<notin> set ps"
    using ok by (auto simp: tables_ok_def Cons)
  moreover have "pop_memtable m = Some (p, ?m)" by (simp add: pop_memtable_def Cons)
  ultimately show ?thesis by (auto simp: grown_def)
next
  case Nil
  let ?p = "mt_fresh m"
  obtain s where s: "SkipList_new 0 = Some s" "sl_inv s" "sl_map s = Map.empty" "sk_id s = 0"
    "\<not> sk_dumping s" "\<not> sk_locked s"
    using SkipList_new_eq by blast
  let ?h = "(mt_heap m)(?p \<mapsto> s)"
  let ?m = "m\<lparr>mt_heap := ?h, mt_fresh := ?p + 1, mt_can_insert := []\<rparr>"
  have new: "mt_heap m ?p = None" using ok by (force simp: tables_ok_def)
  have old: "p \<noteq> ?p" if "p \<in> set (mt_current m) \<or> p \<in> set (dump_lists m)" for p
    using that ok new by (auto simp: tables_ok_def ready_def)
  have run: "pop_memtable m = Some (?p, ?m)"
    using working s(1) by (simp add: pop_memtable_def Nil buffers_creater_round_def Let_def
        wait_and_push_def can_insert_capacity_def)
  have "fresh_list ?h ?p" using s by (simp add: fresh_list_def)
  moreover have "tables_ok ?m"
    using ok old by (auto simp: tables_ok_def dump_lists_def Nil ready_def less_Suc_eq)
  ultimately show ?thesis using run old new by (auto simp: grown_def)
qed

lemma add_memtables_ok:
  assumes "tables_ok m" and "mt_working m"
    and ins: "\<And>p ps. set (ins p ps) = insert p (set ps) \<and> length (ins p ps) = Suc (length ps)"
  shows "\<exists>new m'. add_memtables n ins m = Some m' \<and> grown m new m' \<and> length new = n
    \<and> set (mt_current m') = set new \<union> set (mt_current m) \<and> length (mt_current m') = n + length (mt_current m)"
  using assms(1,2)
proof (induction n arbitrary: m)
  case 0
  then show ?case by (intro exI [of _ "[]"]) (simp add: grown_def)
next
  case (Suc n)
  obtain p m1 where m1: "pop_memtable m = Some (p, m1)" "mt_current m1 = mt_current m"
    "grown m [p] m1" "p \<notin> set (mt_can_insert m1)"
    using pop_memtable_ok [OF Suc.prems] by blast
  let ?m = "m1\<lparr>mt_current := ins p (mt_current m1)\<rparr>"
  have ok1: "tables_ok m1" "fresh_list (mt_heap m1) p" "p \<notin> set (mt_current m)" "p \<notin> set (dump_lists m)"
    using m1(3) by (auto simp: grown_def)
  have dl: "dump_lists m1 = dump_lists m" "dump_lists ?m = dump_lists m"
    using m1(3) by (simp_all add: grown_def dump_lists_def)
  have "card (set (ins p (mt_current m1))) = length (ins p (mt_current m1))"
    using ins ok1(1,3) m1(2) by (simp add: tables_ok_def distinct_card)
  then have "distinct (ins p (mt_current m1))" by (rule card_distinct)
  then have ok: "tables_ok ?m"
    using ok1 ins m1(2,4) dl fresh_ready [OF ok1(2)] by (auto simp: tables_ok_def)
  have "mt_working ?m" using m1(3) Suc.prems(2) by (simp add: grown_def)
  from Suc.IH [OF ok this] obtain new m' where m': "add_memtables n ins ?m = Some m'" "grown ?m new m'"
    "length new = n" "set (mt_current m') = set new \<union> set (mt_current ?m)"
    "length (mt_current m') = n + length (mt_current ?m)" by blast
  have "mt_heap m1 p \<noteq> None" using ok1(2) by (auto simp: fresh_list_def)
  then have p: "fresh_list (mt_heap m') p" "p \<notin> set new"
    using m'(2) ok1(2) ins by (auto simp: grown_def fresh_list_def)
  have "grown m (p # new) m'"
    using m1(2,3) m'(2) p ins dl ok1(3,4) unfolding grown_def by auto
  moreover have "set (mt_current m') = set (p # new) \<union> set (mt_current m)"
    "length (mt_current m') = Suc n + length (mt_current m)"
    using m'(4,5) ins m1(2) by auto
  ultimately show ?case using m1(1) m'(1,3)
    by (intro exI [of _ "p # new"] exI [of _ m']) simp
qed

lemma MemTables_new_ok:
  "\<exists>m. MemTables_new = Some m \<and> tables_ok m \<and> mt_working m \<and> length (mt_current m) = MEMTABLE_CO_WRITE_NUM
    \<and> mt_wait_for_dump m = [] \<and> (\<forall>p \<in> set (mt_current m). fresh_list (mt_heap m) p)"
proof -
  let ?m = "\<lparr>mt_heap = Map.empty, mt_fresh = 0, mt_can_insert = [], mt_wait_for_dump = [],
    mt_current = [], mt_working = True\<rparr>"
  have "tables_ok ?m" by (simp add: tables_ok_def dump_lists_def)
  then have "\<exists>new m'. add_memtables MEMTABLE_CO_WRITE_NUM (#) ?m = Some m' \<and> grown ?m new m'
    \<and> length new = MEMTABLE_CO_WRITE_NUM \<and> set (mt_current m') = set new \<union> set (mt_current ?m)
    \<and> length (mt_current m') = MEMTABLE_CO_WRITE_NUM + length (mt_current ?m)"
    by (intro add_memtables_ok) simp_all
  then show ?thesis by (auto simp: MemTables_new_def grown_def)
qed

lemma set_all_dumping_ok:
  "distinct ps \<Longrightarrow> \<forall>p \<in> set ps. heap p \<noteq> None \<Longrightarrow>
   set_all_dumping ps heap
     = Some (\<lambda>p. if p \<in> set ps then map_option set_dumping (heap p) else heap p)"
proof (induction ps arbitrary: heap)
  case (Cons p ps)
  then obtain s where s: "heap p = Some s" by auto
  have "set_all_dumping ps (heap(p \<mapsto> set_dumping s))
    = Some (\<lambda>x. if x \<in> set ps then map_option set_dumping ((heap(p \<mapsto> set_dumping s)) x)
        else (heap(p \<mapsto> set_dumping s)) x)"
    using Cons by (intro Cons.IH) auto
  then show ?case using s Cons.prems(1) by (auto simp: fun_eq_iff)
qed simp

lemma sl_inv_dumping [simp]: "sl_inv (set_dumping s) = sl_inv s"
  by (simp add: set_dumping_def sl_inv_def)

text \<open>After \<^verbatim>\<open>submit_dump\<close>.\<close>

lemma submit_dump_ok:
  assumes ok: "tables_ok m" and working: "mt_working m"
    and room: "length (mt_wait_for_dump m) < wait_for_dump_capacity"
  shows "\<exists>m'. submit_dump m = Some m' \<and> tables_ok m' \<and> mt_working m'
    \<and> length (mt_current m') = MEMTABLE_CO_WRITE_NUM
    \<and> (\<forall>p \<in> set (mt_current m'). fresh_list (mt_heap m') p)
    \<and> mt_wait_for_dump m' = mt_wait_for_dump m @ [Some (mt_current m)]
    \<and> (\<forall>p \<in> set (mt_current m). mt_heap m' p = map_option set_dumping (mt_heap m p))"
proof -
  let ?h = "\<lambda>p. if p \<in> set (mt_current m) then map_option set_dumping (mt_heap m p) else mt_heap m p"
  let ?m = "m\<lparr>mt_heap := ?h, mt_current := []\<rparr>"
  have cur: "\<forall>p \<in> set (mt_current m). \<exists>s. mt_heap m p = Some s \<and> sl_inv s" "distinct (mt_current m)"
    using ok by (auto simp: tables_ok_def ready_def)
  then have dumping: "set_all_dumping (mt_current m) (mt_heap m) = Some ?h"
    by (intro set_all_dumping_ok) auto
  have "fresh_list ?h p" if "p \<in> set (mt_can_insert m)" for p
    using that ok by (auto simp: tables_ok_def fresh_list_def)
  moreover have "\<exists>s. ?h p = Some s \<and> sl_inv s" if "p \<in> set (dump_lists m)" for p
    using that ok by (auto simp: tables_ok_def)
  ultimately have ok1: "tables_ok ?m" using ok by (auto simp: tables_ok_def dump_lists_def)
  have w1: "mt_working ?m" using working by simp
  have "\<exists>new m'. add_memtables MEMTABLE_CO_WRITE_NUM (\<lambda>p ps. ps @ [p]) ?m = Some m'
    \<and> grown ?m new m' \<and> length new = MEMTABLE_CO_WRITE_NUM
    \<and> set (mt_current m') = set new \<union> set (mt_current ?m)
    \<and> length (mt_current m') = MEMTABLE_CO_WRITE_NUM + length (mt_current ?m)"
    using ok1 w1 by (rule add_memtables_ok) simp
  then obtain new m' where m': "add_memtables MEMTABLE_CO_WRITE_NUM (\<lambda>p ps. ps @ [p]) ?m = Some m'"
    "grown ?m new m'" "set (mt_current m') = set new" "length (mt_current m') = MEMTABLE_CO_WRITE_NUM"
    by auto
  have keep: "mt_heap m' p = ?h p" if "p \<in> set (mt_current m)" for p
  proof -
    have "mt_heap ?m p \<noteq> None" using cur(1) that by fastforce
    with m'(2) have "mt_heap m' p = mt_heap ?m p" unfolding grown_def by blast
    then show ?thesis by simp
  qed
  define m2 where "m2 = m'\<lparr>mt_wait_for_dump := mt_wait_for_dump m @ [Some (mt_current m)]\<rparr>"
  have gr: "tables_ok m'" "mt_working m' = mt_working m" "mt_wait_for_dump m' = mt_wait_for_dump m"
    "\<forall>p \<in> set new. fresh_list (mt_heap m') p"
    using m'(2) by (simp_all add: grown_def)
  have "wait_and_push wait_for_dump_capacity (Some (mt_current m)) (mt_wait_for_dump m')
      = Some (mt_wait_for_dump m @ [Some (mt_current m)])"
    using room gr(3) by (simp add: wait_and_push_def)
  then have run: "submit_dump m = Some m2"
    using dumping m'(1) by (simp add: submit_dump_def Let_def m2_def)
  have old: "\<exists>s. mt_heap m' p = Some s \<and> sl_inv s \<and> sk_dumping s" if "p \<in> set (mt_current m)" for p
    using keep [OF that] cur(1) that by (fastforce simp: set_dumping_def sl_inv_def)
  have "p \<notin> set (mt_current m)" if "fresh_list (mt_heap m') p" for p
    using old [of p] that by (auto simp: fresh_list_def)
  moreover have "\<forall>p \<in> set (mt_current m') \<union> set (mt_can_insert m'). fresh_list (mt_heap m') p"
    using gr(1,4) m'(3) by (auto simp: tables_ok_def)
  ultimately have apart: "set (mt_current m) \<inter> (set (mt_current m') \<union> set (mt_can_insert m')) = {}"
    by blast
  have dl: "dump_lists m' = dump_lists m" "dump_lists m2 = dump_lists m @ mt_current m"
    using gr(3) by (simp_all add: dump_lists_def m2_def)
  have "set (mt_current m) \<inter> set (dump_lists m) = {}" using ok by (auto simp: tables_ok_def)
  then have "tables_ok m2"
    using gr(1) apart cur(2) unfolding tables_ok_def dl by (auto simp: m2_def dl dest: old)
  then show ?thesis using run gr working m'(3,4) keep by (auto simp: m2_def)
qed

subsection \<open>Finding a list that is not locked\<close>

definition unlocked :: "heap \<Rightarrow> nat \<Rightarrow> bool" where
  "unlocked heap p \<longleftrightarrow> (case heap p of None \<Rightarrow> False | Some s \<Rightarrow> \<not> sk_locked s)"

definition lock :: "heap \<Rightarrow> nat \<Rightarrow> heap" where
  "lock heap p = heap(p := map_option (\<lambda>s. s\<lparr>sk_locked := True\<rparr>) (heap p))"

lemma try_lock_ready:
  assumes "heap p = Some s" and "\<not> sk_dumping s"
  shows "try_lock s = (unlocked heap p, if unlocked heap p then s\<lparr>sk_locked := True\<rparr> else s)"
  using assms by (simp add: try_lock_def unlocked_def Let_def)

lemma get_memtable_loop_found:
  assumes "\<forall>p \<in> set rest. \<exists>s. heap p = Some s \<and> \<not> sk_dumping s"
    and "find (unlocked heap) rest = Some p"
  shows "get_memtable_loop current rest heap = Some (p, lock heap p)"
  using assms
proof (induction rest)
  case (Cons q rest)
  obtain s where s: "heap q = Some s" "\<not> sk_dumping s" using Cons.prems(1) by auto
  show ?case
  proof (cases "unlocked heap q")
    case True
    then show ?thesis using s Cons.prems(2)
      by (subst get_memtable_loop.simps) (simp add: try_lock_ready [where heap = heap and p = q, OF s] lock_def Let_def)
  next
    case False
    with Cons.prems(2) have found: "find (unlocked heap) rest = Some p" by simp
    then have "rest \<noteq> []" by auto
    then have "get_memtable_loop current (q # rest) heap = get_memtable_loop current rest heap"
      using s False by (subst get_memtable_loop.simps)
        (simp add: try_lock_ready [where heap = heap and p = q, OF s] fun_upd_idem Let_def)
    with Cons.IH Cons.prems(1) found show ?thesis by simp
  qed
qed simp

text \<open>If every current list is locked, the loop never ends: no attempt changes anything.\<close>

lemma get_memtable_loop_stuck:
  assumes "get_memtable_loop current rest heap = Some r"
  shows "(\<forall>p \<in> set (current @ rest). \<exists>s. heap p = Some s \<and> \<not> sk_dumping s)
    \<longrightarrow> (\<exists>p \<in> set (current @ rest). unlocked heap p)"
proof (rule get_memtable_loop.raw_induct [OF _ assms], intro impI)
  fix loop current rest heap r
  assume IH: "\<And>current rest heap r. loop current rest heap = Some r \<Longrightarrow>
      (\<forall>p \<in> set (current @ rest). \<exists>s. heap p = Some s \<and> \<not> sk_dumping s)
      \<longrightarrow> (\<exists>p \<in> set (current @ rest). unlocked heap p)"
    and body: "(case rest of [] \<Rightarrow> None | ptr # rest \<Rightarrow> do {
        list \<leftarrow> heap ptr;
        let (locked, list) = try_lock list;
        let heap = heap(ptr \<mapsto> list);
        if locked then Some (ptr, heap)
        else loop current (if rest = [] then current else rest) heap
      }) = Some (r :: nat \<times> heap)"
    and live: "\<forall>p \<in> set (current @ rest). \<exists>s. heap p = Some s \<and> \<not> sk_dumping s"
  from body obtain q rest' where rest: "rest = q # rest'" by (cases rest) auto
  obtain s where s: "heap q = Some s" "\<not> sk_dumping s" using live by (auto simp: rest)
  show "\<exists>p \<in> set (current @ rest). unlocked heap p"
  proof (cases "unlocked heap q")
    case False
    let ?rest = "if rest' = [] then current else rest'"
    have "loop current ?rest heap = Some r"
      using body s False by (simp add: rest try_lock_ready [where heap = heap and p = q, OF s] fun_upd_idem Let_def)
    from IH [OF this] live show ?thesis by (auto simp: rest split: if_splits)
  qed (simp add: rest)
qed

lemma get_memtable_eq:
  assumes "\<forall>p \<in> set (mt_current m). \<exists>s. mt_heap m p = Some s \<and> \<not> sk_dumping s"
  shows "get_memtable m = (case find (unlocked (mt_heap m)) (mt_current m) of
      None \<Rightarrow> None
    | Some p \<Rightarrow> Some (p, m\<lparr>mt_heap := lock (mt_heap m) p\<rparr>))"
proof (cases "find (unlocked (mt_heap m)) (mt_current m)")
  case None
  then have "\<not> (\<exists>p \<in> set (mt_current m). unlocked (mt_heap m) p)"
    by (auto simp: find_None_iff)
  then have "get_memtable_loop (mt_current m) (mt_current m) (mt_heap m) = None"
    using get_memtable_loop_stuck [of "mt_current m" "mt_current m" "mt_heap m"] assms
    by (cases "get_memtable_loop (mt_current m) (mt_current m) (mt_heap m)") auto
  with None show ?thesis by (simp add: get_memtable_def)
next
  case (Some p)
  with get_memtable_loop_found [OF assms Some, of "mt_current m"] show ?thesis
    by (simp add: get_memtable_def)
qed

text \<open>\<^verbatim>\<open>get_memtable\<close> returns the first current list whose mutex is free,
  with the mutex taken and nothing else changed; if all are locked and nobody unlocks one, it
  spins forever (with the mutex of the list of tables held).\<close>

lemma get_memtable_correct:
  assumes "\<forall>p \<in> set (mt_current m). \<exists>s. mt_heap m p = Some s \<and> \<not> sk_dumping s"
  shows "get_memtable m = (case find (unlocked (mt_heap m)) (mt_current m) of
      None \<Rightarrow> None
    | Some p \<Rightarrow> Some (p, m\<lparr>mt_heap := lock (mt_heap m) p\<rparr>))"
  using assms by (rule get_memtable_eq)

text \<open>\<^verbatim>\<open>submit_dump\<close>, as long as the creator thread works and the dump queue
  has room, never blocks: it hands all current lists, in order and marked as dumping, to the dump
  queue and replaces them by \<^verbatim>\<open>MEMTABLE_CO_WRITE_NUM\<close> new, empty lists that no
  other queue holds.\<close>

lemma submit_dump_correct:
  assumes "tables_ok m" and "mt_working m" and "length (mt_wait_for_dump m) < wait_for_dump_capacity"
  shows "\<exists>m'. submit_dump m = Some m' \<and> tables_ok m'
    \<and> length (mt_current m') = MEMTABLE_CO_WRITE_NUM \<and> get_total_items m' = Some 0
    \<and> mt_wait_for_dump m' = mt_wait_for_dump m @ [Some (mt_current m)]
    \<and> map (mt_heap m') (mt_current m) = map (map_option set_dumping \<circ> mt_heap m) (mt_current m)"
proof -
  obtain m' where m': "submit_dump m = Some m'" "tables_ok m'"
    "length (mt_current m') = MEMTABLE_CO_WRITE_NUM"
    "\<forall>p \<in> set (mt_current m'). fresh_list (mt_heap m') p"
    "mt_wait_for_dump m' = mt_wait_for_dump m @ [Some (mt_current m)]"
    "\<forall>p \<in> set (mt_current m). mt_heap m' p = map_option set_dumping (mt_heap m p)"
    using submit_dump_ok [OF assms] by blast
  have "\<forall>p \<in> set ps. fresh_list h p \<Longrightarrow> total_items h ps = Some 0" for h ps
  proof (induction ps)
    case (Cons p ps)
    then obtain s where "h p = Some s" "sl_inv s" "\<not> sk_locked s" "sl_map s = Map.empty"
      by (auto simp: fresh_list_def)
    with Cons cnt_ns_eq [of s] show ?case by simp
  qed simp
  from this [OF m'(4)] have "get_total_items m' = Some 0" by (simp add: get_total_items_def)
  with m' show ?thesis by auto
qed

lemma get_memtable_correct_example:
  "\<exists>m p. MemTables_new = Some m \<and> p = hd (mt_current m)
    \<and> get_memtable m = Some (p, m\<lparr>mt_heap := lock (mt_heap m) p\<rparr>)"
proof -
  obtain m where m: "MemTables_new = Some m" "length (mt_current m) = MEMTABLE_CO_WRITE_NUM"
    "\<forall>p \<in> set (mt_current m). fresh_list (mt_heap m) p"
    using MemTables_new_ok by blast
  then obtain p ps where ps: "mt_current m = p # ps"
    by (cases "mt_current m") (auto simp: MEMTABLE_CO_WRITE_NUM_def)
  have "unlocked (mt_heap m) p" using m(3) by (auto simp: ps fresh_list_def unlocked_def)
  then have "find (unlocked (mt_heap m)) (mt_current m) = Some p" by (simp add: ps)
  moreover have "\<forall>p \<in> set (mt_current m). \<exists>s. mt_heap m p = Some s \<and> \<not> sk_dumping s"
    using m(3) by (auto simp: fresh_list_def)
  ultimately show ?thesis using get_memtable_correct [of m] m(1) ps by auto
qed

lemma submit_dump_correct_example:
  "\<exists>m m'. MemTables_new = Some m \<and> submit_dump m = Some m' \<and> get_total_items m' = Some 0
    \<and> mt_wait_for_dump m' = [Some (mt_current m)]"
proof -
  obtain m where m: "MemTables_new = Some m" "tables_ok m" "mt_working m" "mt_wait_for_dump m = []"
    using MemTables_new_ok by blast
  then have "length (mt_wait_for_dump m) < wait_for_dump_capacity"
    by (simp add: wait_for_dump_capacity_def)
  from submit_dump_correct [OF m(2,3) this] m(1,4) show ?thesis by auto
qed

end
