(* ===== verification/Disk.thy ===== *)
theory Disk
  imports Utils Record_Buffer
begin

text \<open>
  The class \<^verbatim>\<open>DiskManager\<close> of \<^verbatim>\<open>engine_race/DBSystem/io.cpp\<close> and the
  class \<^verbatim>\<open>Manifester\<close> of \<^verbatim>\<open>DBSystem.cpp\<close>: the log, the table files and the
  manifest, as byte sequences in a map from paths to file contents.

  An open file is known by its path, and the descriptor of the current log also by whether it was
  opened for reading; a file that is renamed or removed is not used through an old descriptor any
  more, but for the logs that recovery reads, whose bytes it has been given at the start. Calls of the operating system do what they are documented to do and do not fail for lack
  of space; their results, which the code ignores, are left out. Padding bytes of the structures,
  which nothing reads, are written as zeros.
\<close>

subsection \<open>Object representations\<close>

fun le_bytes :: "nat \<Rightarrow> nat \<Rightarrow> u8 list" where
  "le_bytes 0 x = []"
| "le_bytes (Suc n) x = of_nat x # le_bytes n (x div 256)"

fun le_val :: "u8 list \<Rightarrow> nat" where
  "le_val [] = 0"
| "le_val (b # bs) = unat b + 256 * le_val bs"

lemma length_le_bytes [simp]: "length (le_bytes n x) = n"
  by (induction n arbitrary: x) auto

lemma le_val_bytes: "le_val (le_bytes n x) = x mod 256 ^ n"
proof (induction n arbitrary: x)
  case (Suc n)
  have "x mod 256 + 256 * (x div 256 mod 256 ^ n) = x mod (256 * 256 ^ n)"
    by (simp only: mod_mult2_eq)
  with Suc show ?case by (simp add: unat_of_nat)
qed simp

lemma le_word_bytes:
  "8 * n = LENGTH('a) \<Longrightarrow> (of_nat (le_val (le_bytes n (unat w))) :: 'a::len word) = w"
proof -
  assume n: "8 * n = LENGTH('a)"
  have "unat w < 2 ^ (8 * n)" unfolding n by (rule unsigned_less)
  then have "unat w mod 256 ^ n = unat w" by (simp add: power_mult)
  then show ?thesis by (simp add: le_val_bytes)
qed

text \<open>\<^verbatim>\<open>sizeof(Record)\<close>: 4 bytes magic, 4 padding, 8 key, 4096 value, 4 check, 4 padding.\<close>

definition sizeof_Record :: nat where "sizeof_Record = RECORD_VALUE_LEN + 24"

definition record_bytes :: "Record \<Rightarrow> u8 list" where
  "record_bytes r = le_bytes 4 (unat (rc_magic r)) @ replicate 4 0 @ le_bytes 8 (unat (rc_key r))
     @ rc_value r @ le_bytes 4 (unat (rc_check r)) @ replicate 4 0"

definition record_of :: "u8 list \<Rightarrow> Record" where
  "record_of bs = \<lparr>rc_magic = of_nat (le_val (take 4 bs)), rc_key = of_nat (le_val (take 8 (drop 8 bs))),
     rc_value = take RECORD_VALUE_LEN (drop 16 bs),
     rc_check = of_nat (le_val (take 4 (drop (RECORD_VALUE_LEN + 16) bs)))\<rparr>"

lemma length_record_bytes:
  "length (rc_value r) = RECORD_VALUE_LEN \<Longrightarrow> length (record_bytes r) = sizeof_Record"
  by (simp add: record_bytes_def sizeof_Record_def)

lemma record_of_bytes:
  "length (rc_value r) = RECORD_VALUE_LEN \<Longrightarrow> record_of (record_bytes r @ rest) = r"
  by (cases r) (simp add: record_of_def record_bytes_def le_word_bytes)

subsection \<open>The disk manager\<close>

type_synonym files = "cxx_string \<Rightarrow> u8 list option"

record DiskManager =
  dm_files :: files
  dm_basepath :: cxx_string
  dm_curr_log_fd :: "cxx_string option"
  dm_log_readable :: bool
  dm_curr_log_len :: nat
  dm_dumping_fd :: "cxx_string option"

definition HOT_LOG :: cxx_string where "HOT_LOG = cstr ''hot_log''"
definition DIED_LOG :: cxx_string where "DIED_LOG = cstr ''died_log''"
definition MANIFIST_FILE :: cxx_string where "MANIFIST_FILE = cstr ''manifist''"
definition SST_FILE_APPENDIX :: cxx_string where "SST_FILE_APPENDIX = cstr ''.sst''"

definition DiskManager_init :: "cxx_string \<Rightarrow> files \<Rightarrow> DiskManager" where
  "DiskManager_init basepath fs = \<lparr>dm_files = fs, dm_basepath = basepath, dm_curr_log_fd = None,
     dm_log_readable = False, dm_curr_log_len = 0, dm_dumping_fd = None\<rparr>"

definition if_file_exists :: "cxx_string \<Rightarrow> DiskManager \<Rightarrow> bool" where
  "if_file_exists path d \<longleftrightarrow> dm_files d path \<noteq> None"

text \<open>The two tests for a directory and for a regular file are not implemented.\<close>

definition if_directory_exists :: "cxx_string \<Rightarrow> DiskManager \<Rightarrow> bool" where
  "if_directory_exists path d \<longleftrightarrow> False"

definition if_regular_exists :: "cxx_string \<Rightarrow> DiskManager \<Rightarrow> bool" where
  "if_regular_exists path d \<longleftrightarrow> False"

text \<open>The size is cut to an \<^verbatim>\<open>int\<close>; a missing file fails the assertion.\<close>

definition get_file_size :: "cxx_string \<Rightarrow> DiskManager \<Rightarrow> int option" where
  "get_file_size path d = map_option (\<lambda>bs. sint (of_nat (length bs) :: 32 word)) (dm_files d path)"

text \<open>Writing at the end of an open file; on a closed one \<^verbatim>\<open>write\<close> fails without effect.\<close>

definition write_fd :: "cxx_string option \<Rightarrow> u8 list \<Rightarrow> files \<Rightarrow> files" where
  "write_fd fd buff fs =
     (case fd of None \<Rightarrow> fs | Some path \<Rightarrow> fs(path := map_option (\<lambda>bs. bs @ buff) (fs path)))"

text \<open>
  \<^verbatim>\<open>write_to_log\<close> returns whether the log is full. \<^verbatim>\<open>curr_log_len\<close> is an
  \<^verbatim>\<open>int\<close>; the model stops where it would overflow.
\<close>

definition write_to_log :: "u8 list \<Rightarrow> DiskManager \<Rightarrow> (bool \<times> DiskManager) option" where
  "write_to_log buff d = do {
     _ \<leftarrow> dm_curr_log_fd d;
     let len = dm_curr_log_len d + length buff;
     if len < 2 ^ 31
     then Some (MAX_LOG_RECORD_NUM \<le> len div sizeof_Record,
       d\<lparr>dm_curr_log_len := len, dm_files := write_fd (dm_curr_log_fd d) buff (dm_files d)\<rparr>)
     else None
   }"

text \<open>
  \<^verbatim>\<open>writev\<close> refuses more than \<^verbatim>\<open>IOV_MAX\<close> buffers (1024 on Linux) and then
  writes nothing; the file has been truncated before.
\<close>

definition IOV_MAX :: nat where [config]: "IOV_MAX = 1024"

definition write_to_manifist :: "u8 list list \<Rightarrow> DiskManager \<Rightarrow> DiskManager option" where
  "write_to_manifist job d = do {
     filename \<leftarrow> path_join [dm_basepath d, MANIFIST_FILE];
     Some (d\<lparr>dm_files := (dm_files d)
       (filename \<mapsto> (if length job \<le> IOV_MAX then concat job else []))\<rparr>)
   }"

definition append_dumping :: "u8 list \<Rightarrow> DiskManager \<Rightarrow> DiskManager" where
  "append_dumping buff d = d\<lparr>dm_files := write_fd (dm_dumping_fd d) buff (dm_files d)\<rparr>"

definition dumpint_keys :: "cxx_string \<Rightarrow> KEY_T list \<Rightarrow> DiskManager \<Rightarrow> DiskManager option" where
  "dumpint_keys filename kvs d = do {
     path \<leftarrow> path_join [dm_basepath d, filename];
     let d = d\<lparr>dm_dumping_fd := Some path, dm_files := (dm_files d)(path \<mapsto> [])\<rparr>;
     let nrecords = (of_nat (length kvs) :: u32);
     let d = append_dumping (le_bytes 4 (unat nrecords)) d;
     Some (fold (\<lambda>key. append_dumping (le_bytes 8 (unat key))) kvs d)
   }"

definition end_dumping :: "DiskManager \<Rightarrow> DiskManager option" where
  "end_dumping d = do {
     let d = d\<lparr>dm_dumping_fd := None\<rparr>;
     idle_full \<leftarrow> path_join [dm_basepath d, DIED_LOG];
     Some (if if_file_exists idle_full d then d\<lparr>dm_files := (dm_files d)(idle_full := None)\<rparr> else d)
   }"

text \<open>
  The two ways in which \<^verbatim>\<open>curr_log_fd\<close> is opened. Opening a log for appending
  creates it if necessary; what is opened \<^verbatim>\<open>O_WRONLY\<close> cannot be read.
\<close>

definition open_read :: "cxx_string \<Rightarrow> DiskManager \<Rightarrow> DiskManager" where
  "open_read path d = d\<lparr>dm_curr_log_fd := Some path, dm_log_readable := True\<rparr>"

definition open_append :: "cxx_string \<Rightarrow> DiskManager \<Rightarrow> DiskManager" where
  "open_append path d = d\<lparr>dm_curr_log_fd := Some path, dm_log_readable := False,
     dm_files := (if if_file_exists path d then dm_files d else (dm_files d)(path \<mapsto> []))\<rparr>"

text \<open>
  \<^verbatim>\<open>switch_log\<close> waits while the old log is still there. \<^verbatim>\<open>rename\<close> of a file
  that does not exist has no effect.
\<close>

definition switch_log :: "DiskManager \<Rightarrow> DiskManager option" where
  "switch_log d = do {
     let d = d\<lparr>dm_curr_log_fd := None\<rparr>;
     old \<leftarrow> path_join [dm_basepath d, HOT_LOG];
     newl \<leftarrow> path_join [dm_basepath d, DIED_LOG];
     if if_file_exists newl d then None
     else do {
       let d = (if if_file_exists old d
         then d\<lparr>dm_files := (dm_files d)(newl := dm_files d old, old := None)\<rparr> else d);
       Some (open_append old d)
     }
   }"

subsection \<open>The manifest\<close>

record MFRecord =
  mf_lvl :: u32
  mf_file_name :: "u8 list"
  mf_kstart :: KEY_T
  mf_kend :: KEY_T
  mf_nrecord :: u32

definition sizeof_MFRecord :: nat where "sizeof_MFRecord = 288"

definition mf_bytes :: "MFRecord \<Rightarrow> u8 list" where
  "mf_bytes r = le_bytes 4 (unat (mf_lvl r)) @ mf_file_name r @ replicate 4 0
     @ le_bytes 8 (unat (mf_kstart r)) @ le_bytes 8 (unat (mf_kend r))
     @ le_bytes 4 (unat (mf_nrecord r)) @ replicate 4 0"

definition mf_of :: "u8 list \<Rightarrow> MFRecord" where
  "mf_of bs = \<lparr>mf_lvl = of_nat (le_val (take 4 bs)), mf_file_name = take 256 (drop 4 bs),
     mf_kstart = of_nat (le_val (take 8 (drop 264 bs))), mf_kend = of_nat (le_val (take 8 (drop 272 bs))),
     mf_nrecord = of_nat (le_val (take 4 (drop 280 bs)))\<rparr>"

text \<open>
  The reading loop of \<^verbatim>\<open>recover_manifist\<close>: a short last read changes only the first
  bytes of \<^verbatim>\<open>tmp\<close>, and the mixture is taken as a record.
\<close>

function recover_loop :: "u8 list \<Rightarrow> u8 list \<Rightarrow> MFRecord list" where
  "recover_loop tmp bs =
     (if bs = [] then []
      else
        let chunk = take sizeof_MFRecord bs; tmp = chunk @ drop (length chunk) tmp
        in mf_of tmp # recover_loop tmp (drop sizeof_MFRecord bs))"
  by pat_completeness auto
termination
  by (relation "measure (length \<circ> snd)") (auto simp: sizeof_MFRecord_def)

declare recover_loop.simps [simp del]

definition recover_manifist :: "DiskManager \<Rightarrow> MFRecord list option" where
  "recover_manifist d = do {
     filename \<leftarrow> path_join [dm_basepath d, MANIFIST_FILE];
     Some (case dm_files d filename of
         None \<Rightarrow> [] | Some bs \<Rightarrow> recover_loop (replicate sizeof_MFRecord 0) bs)
   }"

record Manifester =
  mn_records :: "MFRecord list"
  mn_record_cnt :: "nat list"

text \<open>\<^verbatim>\<open>record_cnt[lvl]++\<close>; a negative level is a large unsigned one.\<close>

definition count_level :: "u32 \<Rightarrow> nat list \<Rightarrow> nat list option" where
  "count_level lvl cnt = do {
     n \<leftarrow> vget cnt (unat lvl);
     vset cnt (unat lvl) (n + 1)
   }"

fun count_levels :: "MFRecord list \<Rightarrow> nat list \<Rightarrow> nat list option" where
  "count_levels [] cnt = Some cnt"
| "count_levels (r # rs) cnt = Option.bind (count_level (mf_lvl r) cnt) (count_levels rs)"

definition Manifester_new :: "DiskManager \<Rightarrow> Manifester option" where
  "Manifester_new d = do {
     all_records \<leftarrow> recover_manifist d;
     cnt \<leftarrow> count_levels all_records (replicate MAX_LOG_RECORD_NUM 0);
     Some \<lparr>mn_records = all_records, mn_record_cnt = cnt\<rparr>
   }"

definition get_records_num :: "Manifester \<Rightarrow> nat" where
  "get_records_num m = length (mn_records m)"

definition sst_name :: "nat \<Rightarrow> cxx_string" where
  "sst_name n = dec_digits n @ SST_FILE_APPENDIX"

text \<open>
  \<open>junk\<close> is what the uninitialised array \<^verbatim>\<open>file_name\<close> of the new record holds; the
  name is copied over its first bytes, without the terminating NUL.
\<close>

definition insert_record ::
  "u8 list \<Rightarrow> u32 \<Rightarrow> KEY_T \<Rightarrow> KEY_T \<Rightarrow> u32 \<Rightarrow> Manifester \<Rightarrow> DiskManager \<Rightarrow> (Manifester \<times> DiskManager) option"
  where
  "insert_record junk lvl kstart kend nrecord m d = do {
     let name = sst_name (length (mn_records m));
     let newmfR = \<lparr>mf_lvl = lvl, mf_file_name = name @ drop (length name) junk, mf_kstart = kstart,
       mf_kend = kend, mf_nrecord = nrecord\<rparr>;
     d \<leftarrow> write_to_manifist (map mf_bytes (mn_records m) @ [mf_bytes newmfR]) d;
     cnt \<leftarrow> count_level lvl (mn_record_cnt m);
     Some (\<lparr>mn_records = mn_records m @ [newmfR], mn_record_cnt = cnt\<rparr>, d)
   }"

subsection \<open>The log\<close>

lemma sizeof_pos [simp]: "0 < sizeof_Record" "0 < sizeof_MFRecord"
  by (simp_all add: sizeof_Record_def sizeof_MFRecord_def)

definition sized :: "Record \<Rightarrow> bool" where
  "sized r \<longleftrightarrow> length (rc_value r) = RECORD_VALUE_LEN"

definition log_bytes :: "Record list \<Rightarrow> u8 list" where
  "log_bytes rs = concat (map record_bytes rs)"

fun write_logs :: "Record list \<Rightarrow> DiskManager \<Rightarrow> DiskManager option" where
  "write_logs [] d = Some d"
| "write_logs (r # rs) d = do {
     (_, d) \<leftarrow> write_to_log (record_bytes r) d;
     write_logs rs d
   }"

text \<open>Nothing but the log and its length changes.\<close>

lemma write_to_log_eq:
  assumes "dm_curr_log_fd d = Some p" and "dm_files d p = Some bs"
  shows "write_to_log buff d =
    (if dm_curr_log_len d + length buff < 2 ^ 31
     then Some (MAX_LOG_RECORD_NUM \<le> (dm_curr_log_len d + length buff) div sizeof_Record,
       d\<lparr>dm_curr_log_len := dm_curr_log_len d + length buff,
         dm_files := (dm_files d)(p \<mapsto> bs @ buff)\<rparr>) else None)"
  using assms by (simp add: write_to_log_def write_fd_def Let_def)

lemma write_logs_eq:
  assumes "dm_curr_log_fd d = Some p" and "dm_files d p = Some bs" and "\<forall>r \<in> set rs. sized r"
  shows "write_logs rs d =
    (if rs = [] \<or> dm_curr_log_len d + sizeof_Record * length rs < 2 ^ 31
     then Some (d\<lparr>dm_curr_log_len := dm_curr_log_len d + sizeof_Record * length rs,
         dm_files := (dm_files d)(p \<mapsto> bs @ log_bytes rs)\<rparr>) else None)"
  using assms
proof (induction rs arbitrary: d bs)
  case Nil
  then show ?case by (simp add: log_bytes_def fun_upd_idem)
next
  case (Cons r rs)
  have r: "length (record_bytes r) = sizeof_Record"
    using Cons.prems(3) length_record_bytes by (simp add: sized_def)
  show ?case
  proof (cases "dm_curr_log_len d + sizeof_Record < 2 ^ 31")
    case True
    let ?d = "d\<lparr>dm_curr_log_len := dm_curr_log_len d + sizeof_Record,
      dm_files := (dm_files d)(p \<mapsto> bs @ record_bytes r)\<rparr>"
    have B: "write_logs rs ?d = (if rs = [] \<or> dm_curr_log_len ?d + sizeof_Record * length rs < 2 ^ 31
      then Some (?d\<lparr>dm_curr_log_len := dm_curr_log_len ?d + sizeof_Record * length rs,
        dm_files := (dm_files ?d)(p \<mapsto> (bs @ record_bytes r) @ log_bytes rs)\<rparr>) else None)"
      using Cons.prems by (intro Cons.IH) simp_all
    have A: "write_logs (r # rs) d = write_logs rs ?d"
      using True r by (simp add: write_to_log_eq [OF Cons.prems(1,2)])
    have C: "(rs = [] \<or> dm_curr_log_len ?d + sizeof_Record * length rs < 2 ^ 31)
      \<longleftrightarrow> dm_curr_log_len d + sizeof_Record * length (r # rs) < 2 ^ 31"
      using True by auto
    have D: "?d\<lparr>dm_curr_log_len := dm_curr_log_len ?d + sizeof_Record * length rs,
        dm_files := (dm_files ?d)(p \<mapsto> (bs @ record_bytes r) @ log_bytes rs)\<rparr>
      = d\<lparr>dm_curr_log_len := dm_curr_log_len d + sizeof_Record * length (r # rs),
        dm_files := (dm_files d)(p \<mapsto> bs @ log_bytes (r # rs))\<rparr>"
      by (simp add: log_bytes_def)
    show ?thesis unfolding A B C D by (simp only: list.distinct(2) simp_thms)
  next
    case False
    then show ?thesis using r by (simp add: write_to_log_eq [OF Cons.prems(1,2)])
  qed
qed

lemma Record_new_sized: "sized Record_new"
  by (simp add: sized_def Record_new_def)

subsection \<open>Switching the log\<close>

lemma path_join_base:
  "base \<noteq> [] \<Longrightarrow> \<exists>p. path_join [base, HOT_LOG] = Some (p @ HOT_LOG)
    \<and> path_join [base, DIED_LOG] = Some (p @ DIED_LOG) \<and> path_join [base, MANIFIST_FILE] = Some (p @ MANIFIST_FILE)"
  by (auto simp: HOT_LOG_def DIED_LOG_def MANIFIST_FILE_def cstr_def)

lemma log_names: "HOT_LOG \<noteq> DIED_LOG" "HOT_LOG \<noteq> []" "DIED_LOG \<noteq> []"
  by (simp_all add: HOT_LOG_def DIED_LOG_def cstr_def)

definition log_path :: "DiskManager \<Rightarrow> cxx_string \<Rightarrow> cxx_string" where
  "log_path d name = the (path_join [dm_basepath d, name])"

text \<open>\<^verbatim>\<open>switch_log\<close> turns the whole current log into the died log and starts
  an empty one. It blocks exactly while a died log exists, which only \<^verbatim>\<open>end_dumping\<close>
  removes: after that the switch succeeds.\<close>

lemma switch_log_correct:
  assumes "dm_basepath d \<noteq> []" and "dm_files d (log_path d HOT_LOG) = Some bs"
  shows "(case switch_log d of
      None \<Rightarrow> dm_files d (log_path d DIED_LOG) \<noteq> None
    | Some d' \<Rightarrow> dm_files d (log_path d DIED_LOG) = None
        \<and> dm_files d' = (dm_files d)(log_path d DIED_LOG \<mapsto> bs, log_path d HOT_LOG \<mapsto> [])
        \<and> dm_curr_log_fd d' = Some (log_path d HOT_LOG))
    \<and> Option.bind (end_dumping d) switch_log \<noteq> None"
proof -
  obtain p where p: "path_join [dm_basepath d, HOT_LOG] = Some (p @ HOT_LOG)"
    "path_join [dm_basepath d, DIED_LOG] = Some (p @ DIED_LOG)"
    using path_join_base [OF assms(1)] by blast
  then have paths: "log_path d HOT_LOG = p @ HOT_LOG" "log_path d DIED_LOG = p @ DIED_LOG"
    by (simp_all add: log_path_def)
  have "(dm_files d)(p @ DIED_LOG := dm_files d (p @ HOT_LOG), p @ HOT_LOG := None, p @ HOT_LOG \<mapsto> [])
      = (dm_files d)(p @ DIED_LOG \<mapsto> bs, p @ HOT_LOG \<mapsto> [])"
    using assms(2) paths log_names(1) by (auto simp: fun_eq_iff)
  then show ?thesis
    using assms(2) log_names(1) unfolding paths switch_log_def end_dumping_def
    by (auto simp: p if_file_exists_def open_append_def Let_def simp del: path_join.simps)
qed

lemma switch_log_correct_example:
  "\<exists>d'. switch_log (open_append ([97, 47] @ HOT_LOG) (DiskManager_init [97] Map.empty)) = Some d'
    \<and> dm_files d' ([97, 47] @ DIED_LOG) = Some []"
proof -
  let ?d = "open_append ([97, 47] @ HOT_LOG) (DiskManager_init [97] Map.empty)"
  have paths: "log_path ?d HOT_LOG = [97, 47] @ HOT_LOG" "log_path ?d DIED_LOG = [97, 47] @ DIED_LOG"
    by (simp_all add: log_path_def open_append_def DiskManager_init_def if_file_exists_def
        HOT_LOG_def DIED_LOG_def cstr_def)
  have d: "dm_basepath ?d \<noteq> []" "dm_files ?d (log_path ?d HOT_LOG) = Some []"
    unfolding paths by (simp_all add: open_append_def DiskManager_init_def if_file_exists_def)
  have "dm_files ?d (log_path ?d DIED_LOG) = None"
    unfolding paths using log_names(1)
    by (simp add: open_append_def DiskManager_init_def if_file_exists_def)
  with switch_log_correct [OF d] paths log_names show ?thesis by (auto split: option.splits)
qed

subsection \<open>The length counter\<close>

text \<open>What happens to the log of one process: records, switches, ends of dumps.\<close>

datatype log_op = Log Record | Switch | End_dump

fun log_do :: "log_op \<Rightarrow> DiskManager \<Rightarrow> DiskManager option" where
  "log_do (Log r) d = map_option snd (write_to_log (record_bytes r) d)"
| "log_do Switch d = switch_log d"
| "log_do End_dump d = end_dumping d"

fun log_ops :: "log_op list \<Rightarrow> DiskManager \<Rightarrow> DiskManager option" where
  "log_ops [] d = Some d"
| "log_ops (op # ops) d = Option.bind (log_do op d) (log_ops ops)"

definition logged :: "log_op list \<Rightarrow> Record list" where
  "logged ops = concat (map (\<lambda>op. case op of Log r \<Rightarrow> [r] | _ \<Rightarrow> []) ops)"

lemma log_ops_append: "log_ops (ops @ ops') d = Option.bind (log_ops ops d) (log_ops ops')"
  by (induction ops arbitrary: d) (auto simp: Option.bind_assoc intro!: Option.bind_cong)

lemma logged_simps [simp]:
  "logged [] = []" "logged (Log r # ops) = r # logged ops" "logged (Switch # ops) = logged ops"
  "logged (End_dump # ops) = logged ops" "logged (ops @ ops') = logged ops @ logged ops'"
  by (simp_all add: logged_def)

lemma logged_replicate [simp]: "logged (replicate n (Log r)) = replicate n r"
  by (induction n) simp_all

lemma write_to_log_len:
  assumes "sized r"
  shows "write_to_log (record_bytes r) d =
    (if dm_curr_log_fd d \<noteq> None \<and> dm_curr_log_len d + sizeof_Record < 2 ^ 31
     then Some (MAX_LOG_RECORD_NUM \<le> (dm_curr_log_len d + sizeof_Record) div sizeof_Record,
       d\<lparr>dm_curr_log_len := dm_curr_log_len d + sizeof_Record,
         dm_files := write_fd (dm_curr_log_fd d) (record_bytes r) (dm_files d)\<rparr>)
     else None)"
  using assms length_record_bytes [of r]
  by (cases "dm_curr_log_fd d") (simp_all add: write_to_log_def sized_def Let_def)

lemma log_do_len:
  assumes "log_do op d = Some d'" and "dm_curr_log_fd d \<noteq> None" and "\<forall>r \<in> set (logged [op]). sized r"
    and "dm_curr_log_len d < 2 ^ 31"
  shows "dm_curr_log_fd d' \<noteq> None \<and> dm_curr_log_len d' < 2 ^ 31
    \<and> dm_curr_log_len d' = dm_curr_log_len d + length (logged [op]) * sizeof_Record"
proof (cases op)
  case (Log r)
  then show ?thesis using assms by (auto simp: write_to_log_len split: if_splits)
next
  case Switch
  then show ?thesis using assms
    by (auto simp: switch_log_def open_append_def Let_def Option.bind_eq_Some_conv simp del: path_join.simps split: if_splits)
next
  case End_dump
  then show ?thesis using assms
    by (auto simp: end_dumping_def Let_def Option.bind_eq_Some_conv simp del: path_join.simps split: if_splits)
qed

lemma log_ops_len:
  assumes "log_ops ops d = Some d'" and "dm_curr_log_fd d \<noteq> None" and "\<forall>r \<in> set (logged ops). sized r"
    and "dm_curr_log_len d < 2 ^ 31"
  shows "dm_curr_log_fd d' \<noteq> None \<and> dm_curr_log_len d' < 2 ^ 31
    \<and> dm_curr_log_len d' = dm_curr_log_len d + length (logged ops) * sizeof_Record"
  using assms
proof (induction ops arbitrary: d)
  case (Cons op ops)
  obtain d1 where d1: "log_do op d = Some d1" "log_ops ops d1 = Some d'"
    using Cons.prems(1) by (auto simp: Option.bind_eq_Some_conv)
  have split: "logged (op # ops) = logged [op] @ logged ops" by (simp add: logged_def)
  from log_do_len [OF d1(1) Cons.prems(2)] Cons.IH [OF d1(2)] Cons.prems(3,4)
  show ?case unfolding split by (auto simp: algebra_simps)
qed simp

text \<open>A generation of any number of records, its switch and the end of its dump.\<close>

definition log_ready :: "DiskManager \<Rightarrow> bool" where
  "log_ready d \<longleftrightarrow> dm_basepath d \<noteq> [] \<and> dm_curr_log_fd d = Some (log_path d HOT_LOG)
     \<and> dm_files d (log_path d HOT_LOG) \<noteq> None \<and> dm_files d (log_path d DIED_LOG) = None"

lemma log_ops_records: "log_ops (map Log rs) d = write_logs rs d"
  by (induction rs arbitrary: d) (auto simp: map_option_case split_def intro!: Option.bind_cong split: option.split)

lemma log_ready_records:
  assumes "log_ready d" and "\<forall>r \<in> set rs. sized r" and "dm_curr_log_len d + sizeof_Record * length rs < 2 ^ 31"
  shows "\<exists>d'. log_ops (map Log rs) d = Some d' \<and> log_ready d'"
proof -
  obtain bs where d: "dm_curr_log_fd d = Some (log_path d HOT_LOG)" "dm_files d (log_path d HOT_LOG) = Some bs"
    using assms(1) by (auto simp: log_ready_def)
  obtain p where "path_join [dm_basepath d, HOT_LOG] = Some (p @ HOT_LOG)"
    "path_join [dm_basepath d, DIED_LOG] = Some (p @ DIED_LOG)"
    using path_join_base assms(1) unfolding log_ready_def by blast
  then have "log_path d HOT_LOG \<noteq> log_path d DIED_LOG" using log_names(1) by (simp add: log_path_def)
  then show ?thesis
    using write_logs_eq [OF d assms(2)] assms(1,3)
    by (simp add: log_ops_records log_ready_def log_path_def del: path_join.simps)
qed

lemma log_ready_switch:
  assumes "log_ready d"
  shows "\<exists>d'. log_ops [Switch, End_dump] d = Some d' \<and> log_ready d' \<and> dm_curr_log_len d' = dm_curr_log_len d"
proof -
  obtain p where p: "path_join [dm_basepath d, HOT_LOG] = Some (p @ HOT_LOG)"
    "path_join [dm_basepath d, DIED_LOG] = Some (p @ DIED_LOG)"
    using path_join_base assms unfolding log_ready_def by blast
  show ?thesis
    using assms log_names(1)
    by (auto simp: p log_ready_def log_path_def switch_log_def end_dumping_def open_append_def if_file_exists_def Let_def
        simp del: path_join.simps)
qed

definition generation_ops :: "nat \<Rightarrow> Record \<Rightarrow> log_op list" where
  "generation_ops n r = concat (replicate n (map Log (replicate RECORD_BUFF_SIZE r) @ [Switch, End_dump]))"

lemma generation_ops_logged: "logged (generation_ops n r) = replicate (n * RECORD_BUFF_SIZE) r"
proof (induction n)
  case (Suc n)
  then show ?case by (simp add: generation_ops_def replicate_add)
qed (simp add: generation_ops_def)

lemma log_ready_generations:
  assumes "log_ready d" and "sized r" and "dm_curr_log_len d + sizeof_Record * (n * RECORD_BUFF_SIZE) < 2 ^ 31"
  shows "\<exists>d'. log_ops (generation_ops n r) d = Some d' \<and> log_ready d'"
  using assms
proof (induction n arbitrary: d)
  case (Suc n)
  let ?rs = "replicate RECORD_BUFF_SIZE r"
  have rs: "\<forall>r \<in> set ?rs. sized r" using Suc.prems(2) by simp
  moreover have "dm_curr_log_len d + sizeof_Record * length ?rs < 2 ^ 31" using Suc.prems(3) by (simp add: algebra_simps)
  ultimately obtain d1 where d1: "log_ops (map Log ?rs) d = Some d1" "log_ready d1"
    using log_ready_records [OF Suc.prems(1)] by blast
  obtain d2 where d2: "log_ops [Switch, End_dump] d1 = Some d2" "log_ready d2" "dm_curr_log_len d2 = dm_curr_log_len d1"
    using log_ready_switch [OF d1(2)] by blast
  have "logged (map Log ?rs) = ?rs" by simp
  then have "dm_curr_log_len d1 = dm_curr_log_len d + RECORD_BUFF_SIZE * sizeof_Record"
    using log_ops_len [OF d1(1)] Suc.prems(1,3) rs by (simp add: log_ready_def)
  with Suc.IH [OF d2(2) Suc.prems(2)] Suc.prems(3) d2(3) obtain d' where
    "log_ops (generation_ops n r) d2 = Some d'" "log_ready d'" by (auto simp: algebra_simps)
  moreover have "generation_ops (Suc n) r = map Log ?rs @ [Switch, End_dump] @ generation_ops n r"
    by (simp add: generation_ops_def)
  then have "log_ops (generation_ops (Suc n) r) d = log_ops (generation_ops n r) d2"
    by (simp only: log_ops_append d1(1) d2(1) bind.simps)
  ultimately show ?case by simp
qed (simp add: generation_ops_def)

text \<open>C37: \<^verbatim>\<open>curr_log_len\<close> is an \<^verbatim>\<open>int\<close> that counts the bytes of all
  records one process has logged; neither \<^verbatim>\<open>switch_log\<close> nor
  \<^verbatim>\<open>end_dumping\<close> resets it. So after any successful sequence of logged records,
  switches and ends of dumps in a process that starts at 0, the counter is 4120 times the number of
  records logged, and the next record overflows it exactly when that number is 521233. A process
  that switches its log after every 1024 records gets there: it logs 509 generations and 17 records,
  and fails at the next, although no log file ever has more than 1024 records.\<close>

theorem log_length_overflow:
  assumes "log_ready d" and "dm_curr_log_len d = 0" and "\<forall>r \<in> set (logged ops). sized r" and "sized r"
  shows "(case log_ops ops d of None \<Rightarrow> True
      | Some d' \<Rightarrow> dm_curr_log_len d' = 4120 * length (logged ops)
          \<and> (write_to_log (record_bytes r) d' = None \<longleftrightarrow> length (logged ops) = 521233))
    \<and> (\<exists>d'. log_ops (generation_ops 509 r @ replicate 17 (Log r)) d = Some d'
          \<and> write_to_log (record_bytes r) d' = None)"
proof
  have size: "sizeof_Record = 4120" by (simp add: sizeof_Record_def RECORD_VALUE_LEN_def)
  have fd: "dm_curr_log_fd d \<noteq> None" using assms(1) by (simp add: log_ready_def)
  have run: "dm_curr_log_len d' = 4120 * length (logged ops')
      \<and> (write_to_log (record_bytes r) d' = None \<longleftrightarrow> length (logged ops') = 521233)"
    if "log_ops ops' d = Some d'" "\<forall>r \<in> set (logged ops'). sized r" for ops' d'
    using log_ops_len [OF that(1) fd that(2)] assms(2) unfolding size by (auto simp: write_to_log_len [OF assms(4)] size)
  then show "case log_ops ops d of None \<Rightarrow> True
      | Some d' \<Rightarrow> dm_curr_log_len d' = 4120 * length (logged ops)
          \<and> (write_to_log (record_bytes r) d' = None \<longleftrightarrow> length (logged ops) = 521233)"
    using assms(3) by (simp split: option.split)
  obtain d1 where d1: "log_ops (generation_ops 509 r) d = Some d1" "log_ready d1"
    using log_ready_generations [OF assms(1,4), of 509] assms(2) by (auto simp: size RECORD_BUFF_SIZE_def)
  have gen: "\<forall>r' \<in> set (logged (generation_ops 509 r)). sized r'" using assms(4) by (simp add: generation_ops_logged)
  have "dm_curr_log_len d1 = 4120 * (509 * 1024)"
    using run [OF d1(1) gen] by (simp add: generation_ops_logged RECORD_BUFF_SIZE_def)
  with log_ready_records [OF d1(2), of "replicate 17 r"] assms(4) obtain d2 where
    d2: "log_ops (replicate 17 (Log r)) d1 = Some d2" by (auto simp: size)
  then have all: "log_ops (generation_ops 509 r @ replicate 17 (Log r)) d = Some d2" by (simp add: log_ops_append d1(1))
  have n: "logged (generation_ops 509 r @ replicate 17 (Log r)) = replicate 521233 r"
    by (simp only: logged_simps generation_ops_logged RECORD_BUFF_SIZE_def flip: replicate_add) (simp flip: replicate_add)
  have "write_to_log (record_bytes r) d2 = None" using run [OF all] assms(4) unfolding n by simp
  with all show "\<exists>d'. log_ops (generation_ops 509 r @ replicate 17 (Log r)) d = Some d'
      \<and> write_to_log (record_bytes r) d' = None" by simp
qed

theorem log_length_overflow_witness:
  "\<exists>d'. log_ops [Log Record_new, Switch, End_dump, Log Record_new] (open_append [97, 47, 104, 111, 116, 95, 108, 111, 103] (DiskManager_init [97] Map.empty)) = Some d'
    \<and> dm_curr_log_len d' = 8240"
proof -
  let ?d = "open_append [97, 47, 104, 111, 116, 95, 108, 111, 103] (DiskManager_init [97] Map.empty)"
  let ?ops = "[Log Record_new, Switch, End_dump, Log Record_new]"
  have d: "log_ready ?d" "dm_curr_log_len ?d = 0"
    by (simp_all add: log_ready_def log_path_def open_append_def DiskManager_init_def if_file_exists_def
        HOT_LOG_def DIED_LOG_def cstr_def)
  have "log_ops ?ops ?d \<noteq> None"
    using Record_new_sized
    by (simp add: write_to_log_len write_fd_def switch_log_def end_dumping_def open_append_def DiskManager_init_def
        if_file_exists_def HOT_LOG_def DIED_LOG_def cstr_def Let_def sizeof_Record_def RECORD_VALUE_LEN_def)
  moreover have "case log_ops ?ops ?d of None \<Rightarrow> True
      | Some d' \<Rightarrow> dm_curr_log_len d' = 4120 * length (logged ?ops)
          \<and> (write_to_log (record_bytes Record_new) d' = None \<longleftrightarrow> length (logged ?ops) = 521233)"
    using log_length_overflow [OF d, of ?ops Record_new] Record_new_sized by simp
  ultimately show ?thesis by auto
qed


subsection \<open>The manifest\<close>

definition mf_sized :: "MFRecord \<Rightarrow> bool" where
  "mf_sized r \<longleftrightarrow> length (mf_file_name r) = 256"

lemma length_mf_bytes: "mf_sized r \<Longrightarrow> length (mf_bytes r) = sizeof_MFRecord"
  by (simp add: mf_bytes_def mf_sized_def sizeof_MFRecord_def)

lemma mf_of_bytes: "mf_sized r \<Longrightarrow> mf_of (mf_bytes r @ rest) = r"
  by (cases r) (simp add: mf_of_def mf_bytes_def mf_sized_def le_word_bytes)

lemma recover_loop_all:
  "\<forall>r \<in> set rs. mf_sized r \<Longrightarrow> length tmp = sizeof_MFRecord \<Longrightarrow>
   recover_loop tmp (concat (map mf_bytes rs)) = rs"
proof (induction rs arbitrary: tmp)
  case Nil
  then show ?case by (simp add: recover_loop.simps)
next
  case (Cons r rs)
  have r: "length (mf_bytes r) = sizeof_MFRecord" "mf_sized r"
    using Cons.prems length_mf_bytes by auto
  then have "mf_bytes r \<noteq> []" using sizeof_pos(2) by force
  then show ?case
    using Cons.IH [of "mf_bytes r"] Cons.prems r mf_of_bytes [OF r(2), of "[]"]
    by (subst recover_loop.simps) (simp add: Let_def)
qed

text \<open>C31: A manifest with fewer than \<^verbatim>\<open>IOV_MAX\<close> records survives
  \<^verbatim>\<open>insert_record\<close>: recovery then finds the old records and the new one. With
  \<^verbatim>\<open>IOV_MAX\<close> or more records the single \<^verbatim>\<open>writev\<close> is refused after the
  file has been truncated, so recovery finds no record at all.\<close>

theorem manifest_roundtrip:
  assumes "\<forall>r \<in> set (mn_records m). mf_sized r" and "length junk = 256"
    and "length (sst_name (get_records_num m)) \<le> 256"
    and "insert_record junk lvl kstart kend nrecord m d = Some (m', d')"
  shows "recover_manifist d' = Some (if get_records_num m < IOV_MAX then mn_records m' else [])
    \<and> get_records_num m' = get_records_num m + 1"
proof -
  let ?name = "sst_name (get_records_num m)"
  let ?new = "\<lparr>mf_lvl = lvl, mf_file_name = ?name @ drop (length ?name) junk, mf_kstart = kstart,
    mf_kend = kend, mf_nrecord = nrecord\<rparr>"
  obtain p cnt where p: "path_join [dm_basepath d, MANIFIST_FILE] = Some p"
    and m': "m' = \<lparr>mn_records = mn_records m @ [?new], mn_record_cnt = cnt\<rparr>"
    and d': "d' = d\<lparr>dm_files := (dm_files d)(p \<mapsto>
      (if length (map mf_bytes (mn_records m @ [?new])) \<le> IOV_MAX
       then concat (map mf_bytes (mn_records m @ [?new])) else []))\<rparr>"
    using assms(4) by (auto simp: insert_record_def write_to_manifist_def get_records_num_def Let_def
        Option.bind_eq_Some_conv simp del: path_join.simps)
  have "mf_sized ?new" using assms(2,3) by (simp add: mf_sized_def)
  then have "recover_loop (replicate sizeof_MFRecord 0) (concat (map mf_bytes (mn_records m @ [?new])))
      = mn_records m @ [?new]"
    using assms(1) by (intro recover_loop_all) auto
  moreover have "recover_loop (replicate sizeof_MFRecord 0) [] = []" by (simp add: recover_loop.simps)
  ultimately have "recover_manifist d' = Some (if get_records_num m < IOV_MAX then mn_records m' else [])"
    using p by (simp add: recover_manifist_def d' m' get_records_num_def Suc_le_eq
        del: path_join.simps map_append)
  then show ?thesis by (simp add: m' get_records_num_def)
qed

theorem manifest_roundtrip_witness:
  "\<exists>m' d'. insert_record (replicate 256 7) 0 1 2 1 \<lparr>mn_records = [], mn_record_cnt = [0]\<rparr>
      (DiskManager_init [97] Map.empty) = Some (m', d')
    \<and> recover_manifist d' = Some (mn_records m') \<and> length (mn_records m') = 1"
proof -
  let ?m = "\<lparr>mn_records = [], mn_record_cnt = [0]\<rparr>"
  have name: "length (sst_name (get_records_num ?m)) \<le> 256"
    by (simp add: sst_name_def get_records_num_def dec_digits.simps SST_FILE_APPENDIX_def cstr_def)
  obtain m' d' where run: "insert_record (replicate 256 7) 0 1 2 1 ?m
      (DiskManager_init [97] Map.empty) = Some (m', d')"
    by (simp add: insert_record_def write_to_manifist_def DiskManager_init_def count_level_def
        MANIFIST_FILE_def cstr_def Let_def)
  have "\<forall>r \<in> set (mn_records ?m). mf_sized r" "length (replicate 256 (7 :: u8)) = 256" by simp_all
  from manifest_roundtrip [OF this name run] run show ?thesis
    by (auto simp: get_records_num_def IOV_MAX_def)
qed

end
