(* ===== verification/DB_System.thy ===== *)
theory DB_System
  imports Index_Map Mem_Tables Disk
begin

text \<open>
  The class \<^verbatim>\<open>DBSystem\<close> of \<^verbatim>\<open>engine_race/DBSystem/DBSystem.cpp\<close>, the
  dumper's \<^verbatim>\<open>dump_all\<close> and the recovery loop of \<^verbatim>\<open>io.cpp\<close>: how a
  write goes through the log, the record slots, the hash index and the memory tables, how a read
  finds its slot, how a generation of tables becomes a file, and how the logs are replayed.

  Every operation is one atomic step here. A step that has to wait for another thread is
  \<^term>\<open>None\<close>; \<^verbatim>\<open>dumper_round\<close> is the step of the dumper thread. The failed assertion
  on the log that recovery reads is an error value.
\<close>

record DBSystem =
  db_buffer :: Buffer
  db_hash :: table
  db_mem :: MemTables
  db_disk :: DiskManager
  db_manifest :: Manifester

subsection \<open>Writing and reading\<close>

text \<open>Taking a memory table, updating it, and unlocking it.\<close>

definition memtables_write :: "(nat \<Rightarrow> nat) \<Rightarrow> KEY_T \<Rightarrow> Index \<Rightarrow> MemTables \<Rightarrow> MemTables option" where
  "memtables_write rnd key index m = do {
     (ptr, m) \<leftarrow> get_memtable m;
     list \<leftarrow> mt_heap m ptr;
     (list, _) \<leftarrow> SkipList_update rnd key index list;
     Some (m\<lparr>mt_heap := (mt_heap m)(ptr \<mapsto> un_lock list)\<rparr>)
   }"

definition make_record :: "KEY_T \<Rightarrow> u8 list \<Rightarrow> Record option" where
  "make_record key value = do {
     gather \<leftarrow> set_value value (Record_new\<lparr>rc_key := key\<rparr>);
     Some (make_check gather)
   }"

text \<open>Copying a record into a slot, between \<^verbatim>\<open>wait_for_access\<close> and \<^verbatim>\<open>end_access\<close>.\<close>

definition store_record :: "nat \<Rightarrow> Record \<Rightarrow> Buffer \<Rightarrow> Buffer option" where
  "store_record idx r b = do {
     b \<leftarrow> wait_for_access idx b;
     b \<leftarrow> set_record idx r b;
     end_access idx b
   }"

definition buffer_index :: "nat \<Rightarrow> Index" where
  "buffer_index idx = set_idx (of_nat idx) (set_fid 0 Index_new)"

text \<open>
  \<^verbatim>\<open>write\<close> as one step. A write that has to wait has no result here, although it has logged
  its record by then; what it leaves behind is in the steps of \<open>Write_Steps\<close>.
\<close>

definition DBSystem_write ::
  "(nat \<Rightarrow> nat) \<Rightarrow> cxx_string \<Rightarrow> u8 list \<Rightarrow> DBSystem \<Rightarrow> DBSystem option" where
  "DBSystem_write rnd key value s = do {
     keyT \<leftarrow> get_key_string key;
     gather \<leftarrow> make_record keyT value;
     (_, disk) \<leftarrow> write_to_log (record_bytes gather) (db_disk s);
     (idx_buffer, buffer) \<leftarrow> request_record_buff (db_buffer s);
     buffer \<leftarrow> store_record idx_buffer gather buffer;
     let indexToBuffer = buffer_index idx_buffer;
     (hashTable, _) \<leftarrow> Indexer_update keyT indexToBuffer (db_hash s);
     memTables \<leftarrow> memtables_write rnd keyT indexToBuffer (db_mem s);
     total \<leftarrow> get_total_items memTables;
     (disk, memTables) \<leftarrow> (if int RECORD_BUFF_SIZE \<le> total then do {
         disk \<leftarrow> switch_log disk;
         memTables \<leftarrow> submit_dump memTables;
         Some (disk, memTables)
       } else Some (disk, memTables));
     Some (s\<lparr>db_buffer := buffer, db_hash := hashTable, db_mem := memTables, db_disk := disk\<rparr>)
   }"

text \<open>
  \<^verbatim>\<open>read\<close>: the value and the state. For a key that is not in the hash index the null
  pointer \<^verbatim>\<open>idx_ptr\<close> is dereferenced.
\<close>

definition DBSystem_read :: "cxx_string \<Rightarrow> DBSystem \<Rightarrow> (u8 list \<times> DBSystem) option" where
  "DBSystem_read key s = do {
     keyT \<leftarrow> get_key_string key;
     slot \<leftarrow> Indexer_get keyT (db_hash s);
     let idx = unat (get_idx (kv_idx (db_hash s slot)));
     buffer \<leftarrow> wait_for_access idx (db_buffer s);
     buff \<leftarrow> record_at idx buffer;
     buffer \<leftarrow> end_access idx buffer;
     Some (get_value buff, s\<lparr>db_buffer := buffer\<rparr>)
   }"

subsection \<open>Dumping\<close>

text \<open>
  The loop of \<^verbatim>\<open>dump_all\<close> over the records: \<open>i\<close> is the position, \<open>fid\<close> the
  number of records in the manifest.
\<close>

fun dump_records ::
  "nat \<Rightarrow> nat \<Rightarrow> KeyIdxPair list \<Rightarrow> Buffer \<times> table \<times> DiskManager \<Rightarrow> (Buffer \<times> table \<times> DiskManager) option"
  where
  "dump_records fid i [] s = Some s"
| "dump_records fid i (kv # kvidxes) (buffer, hashtable, disk) = do {
     let slot = unat (get_idx (kv_idx kv));
     buffer \<leftarrow> wait_for_access slot buffer;
     record \<leftarrow> record_at slot buffer;
     let disk = append_dumping (take RECORD_VALUE_LEN (rc_value record)) disk;
     buffer \<leftarrow> release_buff slot buffer;
     buffer \<leftarrow> end_access slot buffer;
     let index = set_in_file True (set_idx (of_nat i) (set_fid (of_nat fid) Index_new));
     (hashtable, _) \<leftarrow> Indexer_update (kv_key kv) index hashtable;
     dump_records fid (Suc i) kvidxes (buffer, hashtable, disk)
   }"

text \<open>On an empty vector \<^verbatim>\<open>front()\<close> and \<^verbatim>\<open>back()\<close> are undefined.\<close>

definition dump_all :: "u8 list \<Rightarrow> KeyIdxPair list \<Rightarrow> DBSystem \<Rightarrow> DBSystem option" where
  "dump_all junk kvidxes s = do {
     let fid = get_records_num (db_manifest s);
     disk \<leftarrow> dumpint_keys (sst_name fid) (map kv_key kvidxes) (db_disk s);
     (buffer, hashtable, disk) \<leftarrow> dump_records fid 0 kvidxes (db_buffer s, db_hash s, disk);
     if kvidxes = [] then None
     else do {
       (manifest, disk) \<leftarrow> insert_record junk 0 (kv_key (hd kvidxes)) (kv_key (last kvidxes))
         (of_nat (length kvidxes)) (db_manifest s) disk;
       disk \<leftarrow> end_dumping disk;
       Some (s\<lparr>db_buffer := buffer, db_hash := hashtable, db_disk := disk, db_manifest := manifest\<rparr>)
     }
   }"

fun deref_all :: "heap \<Rightarrow> (nat \<times> nat) list \<Rightarrow> KeyIdxPair list option" where
  "deref_all heap [] = Some []"
| "deref_all heap (kv # kvs) = do {
     p \<leftarrow> deref heap kv;
     ps \<leftarrow> deref_all heap kvs;
     Some (p # ps)
   }"

text \<open>One round of \<^verbatim>\<open>buffers_dumper\<close>.\<close>

definition dumper_round :: "u8 list \<Rightarrow> DBSystem \<Rightarrow> DBSystem option" where
  "dumper_round junk s = do {
     (curr_writing, queue) \<leftarrow> wait_and_pop (mt_wait_for_dump (db_mem s));
     let s = s\<lparr>db_mem := (db_mem s)\<lparr>mt_wait_for_dump := queue\<rparr>\<rparr>;
     case curr_writing of
       None \<Rightarrow> Some s
     | Some seq \<Rightarrow> do {
         (heap, _, kvs) \<leftarrow> merge_loop (mt_heap (db_mem s)) seq [];
         kvidxes \<leftarrow> deref_all heap kvs;
         dump_all junk kvidxes (s\<lparr>db_mem := (db_mem s)\<lparr>mt_heap := heap\<rparr>\<rparr>)
       }
   }"

subsection \<open>Recovery\<close>

text \<open>
  \<^verbatim>\<open>write_recover\<close> of the record in a slot. The flag is set to what it is already.
\<close>

definition write_recover :: "(nat \<Rightarrow> nat) \<Rightarrow> nat \<Rightarrow> DBSystem \<Rightarrow> DBSystem option" where
  "write_recover rnd idx_buffer s = do {
     gather \<leftarrow> record_at idx_buffer (db_buffer s);
     if idx_buffer < RECORD_BUFF_SIZE then do {
       let indexToBuffer = set_in_file False (buffer_index idx_buffer);
       memTables \<leftarrow> memtables_write rnd (rc_key gather) indexToBuffer (db_mem s);
       (hashTable, _) \<leftarrow> Indexer_update (rc_key gather) indexToBuffer (db_hash s);
       Some (s\<lparr>db_mem := memTables, db_hash := hashTable\<rparr>)
     } else None
   }"

datatype LogType = HOT_LOG_T | DIED_LOG_T

text \<open>The end of the process by the failed assertion on the result of \<^verbatim>\<open>read\<close>.\<close>

datatype abort = Assertion_failed

text \<open>
  What \<^verbatim>\<open>read\<close> of \<^verbatim>\<open>sizeof(Record)\<close> bytes returns when \<open>bs\<close> is left of the
  file: the died log is read through a descriptor of its own, the hot log through
  \<^verbatim>\<open>curr_log_fd\<close>. A descriptor that is not open for reading gives -1.
\<close>

definition log_read :: "LogType \<Rightarrow> u8 list \<Rightarrow> DiskManager \<Rightarrow> int" where
  "log_read type bs d =
     (if type = DIED_LOG_T \<or> dm_log_readable d then int (min sizeof_Record (length bs)) else - 1)"

lemma log_read_full: "log_read type bs d = int sizeof_Record \<Longrightarrow> length bs - sizeof_Record < length bs"
  by (auto simp: log_read_def min_def sizeof_Record_def split: if_splits)

text \<open>When the slots are used up: for the hot log \<^verbatim>\<open>switch_log\<close>, then
  \<^verbatim>\<open>submit_dump\<close>.\<close>

definition recover_full :: "LogType \<Rightarrow> DBSystem \<Rightarrow> DBSystem option" where
  "recover_full type s = do {
     disk \<leftarrow> (case type of HOT_LOG_T \<Rightarrow> switch_log (db_disk s) | DIED_LOG_T \<Rightarrow> Some (db_disk s));
     memTables \<leftarrow> submit_dump (db_mem s);
     Some (s\<lparr>db_mem := memTables, db_disk := disk\<rparr>)
   }"

text \<open>
  The reading loop of \<^verbatim>\<open>init_log_file_and_fetch_data\<close>; \<open>idx\<close> is the slot that is
  requested and being accessed. While \<^verbatim>\<open>request_record_buff\<close> waits for a free slot, only
  the dumper can go on: \<open>wait\<close> is what it does meanwhile.
\<close>

function recover_records ::
  "(DBSystem \<Rightarrow> DBSystem option) \<Rightarrow> (nat \<Rightarrow> nat \<Rightarrow> nat) \<Rightarrow> LogType \<Rightarrow> u8 list \<Rightarrow> nat \<Rightarrow> DBSystem
    \<Rightarrow> (abort + DBSystem) option" where
  "recover_records wait g type bs idx s =
     (if log_read type bs (db_disk s) = 0 then do {
        buffer \<leftarrow> end_access idx (db_buffer s);
        buffer \<leftarrow> release_buff idx buffer;
        Some (Inr (s\<lparr>db_buffer := buffer\<rparr>))
      }
      else if log_read type bs (db_disk s) \<noteq> int sizeof_Record then Some (Inl Assertion_failed)
      else do {
        buffer \<leftarrow> set_record idx (record_of bs) (db_buffer s);
        buffer \<leftarrow> end_access idx buffer;
        s \<leftarrow> write_recover (g 0) idx (s\<lparr>db_buffer := buffer\<rparr>);
        s \<leftarrow> (if if_full (db_buffer s) then recover_full type s else Some s);
        s \<leftarrow> (if if_full (db_buffer s) then wait s else Some s);
        (idx, buffer) \<leftarrow> request_record_buff (db_buffer s);
        buffer \<leftarrow> wait_for_access idx buffer;
        recover_records wait (\<lambda>n. g (Suc n)) type (drop sizeof_Record bs) idx (s\<lparr>db_buffer := buffer\<rparr>)
      })"
  by pat_completeness auto
termination
  by (relation "measure (\<lambda>(_, _, _, bs, _, _). length bs)") (auto dest: log_read_full)

declare recover_records.simps [simp del]

text \<open>The hot log is opened for reading, and at the end for appending.\<close>

definition init_log ::
  "(DBSystem \<Rightarrow> DBSystem option) \<Rightarrow> (nat \<Rightarrow> nat \<Rightarrow> nat) \<Rightarrow> LogType \<Rightarrow> DBSystem \<Rightarrow> (abort + DBSystem) option" where
  "init_log wait g type s = do {
     logname \<leftarrow> path_join [dm_basepath (db_disk s), case type of HOT_LOG_T \<Rightarrow> HOT_LOG | DIED_LOG_T \<Rightarrow> DIED_LOG];
     r \<leftarrow> (case dm_files (db_disk s) logname of
         None \<Rightarrow> Some (Inr s)
       | Some bs \<Rightarrow> do {
           let disk = (case type of HOT_LOG_T \<Rightarrow> open_read logname (db_disk s) | DIED_LOG_T \<Rightarrow> db_disk s);
           (idx, buffer) \<leftarrow> request_record_buff (db_buffer s);
           buffer \<leftarrow> wait_for_access idx buffer;
           recover_records wait g type bs idx (s\<lparr>db_disk := disk, db_buffer := buffer\<rparr>)
         });
     Some (case r of
         Inl e \<Rightarrow> Inl e
       | Inr s \<Rightarrow> Inr (case type of
             HOT_LOG_T \<Rightarrow> s\<lparr>db_disk := open_append logname (db_disk s)\<rparr>
           | DIED_LOG_T \<Rightarrow> s))
   }"

text \<open>\<^verbatim>\<open>DBSystem::init\<close> in a new process, with the files that are there.\<close>

definition DBSystem_open ::
  "(DBSystem \<Rightarrow> DBSystem option) \<Rightarrow> (nat \<Rightarrow> nat \<Rightarrow> nat) \<Rightarrow> (nat \<Rightarrow> nat \<Rightarrow> nat) \<Rightarrow> cxx_string \<Rightarrow> files
    \<Rightarrow> (abort + DBSystem) option" where
  "DBSystem_open wait g g' base_path fs = do {
     memTables \<leftarrow> MemTables_new;
     let disk = DiskManager_init base_path fs;
     manifest \<leftarrow> Manifester_new disk;
     let s = \<lparr>db_buffer = Buffer_new, db_hash = IndexHashMap_new, db_mem = memTables, db_disk = disk,
       db_manifest = manifest\<rparr>;
     r \<leftarrow> init_log wait g DIED_LOG_T s;
     case r of Inl e \<Rightarrow> Some (Inl e) | Inr s \<Rightarrow> init_log wait g' HOT_LOG_T s
   }"

text \<open>The same as one step, in which nobody else goes on; no result when it aborts or waits.\<close>

definition DBSystem_init :: "(nat \<Rightarrow> nat \<Rightarrow> nat) \<Rightarrow> (nat \<Rightarrow> nat \<Rightarrow> nat) \<Rightarrow> cxx_string \<Rightarrow> files \<Rightarrow> DBSystem option" where
  "DBSystem_init g g' base_path fs =
     Option.bind (DBSystem_open (\<lambda>_. None) g g' base_path fs) (case_sum (\<lambda>_. None) Some)"

end
