(* ===== verification/DB_Correct.thy ===== *)
theory DB_Correct
  imports DB_System
begin

text \<open>
  What one write does to \<^verbatim>\<open>DBSystem\<close>. The first part follows each call of
  \<^verbatim>\<open>write\<close> in its component: the hash index, the record slots, the memory tables. The
  second part reads the state as a map (\<open>db_map\<close>, what \<^verbatim>\<open>read\<close> looks at), states the
  invariant \<open>db_core\<close> that ties the components together, and shows that a write is an update
  of that map (\<open>db_put_ok\<close>, \<open>db_write_ok\<close>) and a read a lookup in it (\<open>db_read_eq\<close>).
\<close>

subsection \<open>Parts of a write\<close>

lemma occ_search: "index_inv data \<Longrightarrow> occ data a = Some k \<Longrightarrow> search data k = Some a"
  by (simp add: index_inv_def probe_wf_def)

lemma occ_dom:
  assumes "index_inv data"
  shows "dom (index_lookup data) = (\<lambda>a. the (occ data a)) ` {a. occ data a \<noteq> None}"
proof (rule set_eqI)
  fix k
  have "k \<in> dom (index_lookup data) \<longleftrightarrow> (\<exists>a. occ data a = Some k)"
    using occ_search [OF assms] by (auto simp: dom_def lookup_iff)
  then show "k \<in> dom (index_lookup data) \<longleftrightarrow> k \<in> (\<lambda>a. the (occ data a)) ` {a. occ data a \<noteq> None}"
    by force
qed

lemma occ_card:
  assumes "index_inv data"
  shows "card {a. occ data a \<noteq> None} = card (dom (index_lookup data))"
proof -
  have "inj_on (\<lambda>a. the (occ data a)) {a. occ data a \<noteq> None}"
    using occ_search [OF assms] by (auto simp: inj_on_def) (metis option.inject)
  then show ?thesis unfolding occ_dom [OF assms] by (simp add: card_image)
qed

lemma finite_index: "index_inv data \<Longrightarrow> finite (dom (index_lookup data))"
  by (simp add: occ_dom)

lemma hash_update_ok:
  assumes "index_inv data" and "card (dom (index_lookup data)) < 11662"
  shows "\<exists>data' c. Indexer_update key i data = Some (data', c) \<and> index_inv data'
    \<and> index_lookup data' = (index_lookup data)(key \<mapsto> set_in_hash True i)"
proof -
  have "card {a. occ data a \<noteq> None} < 11662" using assms by (simp only: occ_card)
  then obtain data' c where "IndexHashMap_update key i data = Some (data', c)"
    using index_update_card by blast
  then show ?thesis
    using index_update_inv [OF assms(1)] index_update_lookup [OF assms(1)] by (auto simp: Indexer_update_def)
qed

lemma unat_buffer_index:
  assumes "idx < RECORD_BUFF_SIZE"
  shows "unat (get_idx (set_in_hash b (buffer_index idx))) = idx"
    and "unat (get_idx (buffer_index idx)) = idx"
    and "set_in_file False (buffer_index idx) = buffer_index idx"
proof -
  have idx: "unat (of_nat idx :: u32) = idx" "(of_nat idx :: u32) < 0x100000"
    using assms by (simp_all add: unat_of_nat word_less_nat_alt RECORD_BUFF_SIZE_def)
  have "get_idx (set_fid 0 Index_new) = 0" by (simp add: field_simps_idx)
  then have "get_idx (buffer_index idx) = of_nat idx"
    unfolding buffer_index_def using idx(2) by (intro get_idx_set_idx_small) simp_all
  then show "unat (get_idx (set_in_hash b (buffer_index idx))) = idx" "unat (get_idx (buffer_index idx)) = idx"
    using idx(1) by (simp_all add: field_simps_idx)
  have "if_in_file (buffer_index idx) = 0" by (simp add: buffer_index_def field_simps_idx)
  then have "\<not> bit (if_in_file (buffer_index idx)) 8" by simp
  then show "set_in_file False (buffer_index idx) = buffer_index idx"
    by (intro status_eqI) (auto simp: index_bits)
qed

text \<open>A pool that nobody is accessing.\<close>

definition quiet :: "Buffer \<Rightarrow> bool" where
  "quiet b \<longleftrightarrow> buffer_inv b \<and> True \<notin> set (bf_accessing b)"

lemma quiet_access:
  assumes "quiet b" and "idx < RECORD_BUFF_SIZE"
  shows "wait_for_access idx b = Some (b\<lparr>bf_accessing := (bf_accessing b)[idx := True]\<rparr>)"
    and "(bf_accessing b)[idx := False] = bf_accessing b"
    and "idx < length (bf_accessing b)" and "idx < length (bf_data b)"
proof -
  have len: "length (bf_accessing b) = RECORD_BUFF_SIZE" "length (bf_data b) = RECORD_BUFF_SIZE"
    using assms(1) by (auto simp: quiet_def buffer_inv_def)
  with assms(2) show *: "idx < length (bf_accessing b)" "idx < length (bf_data b)" by simp_all
  have "bf_accessing b ! idx \<in> set (bf_accessing b)" using * by simp
  then have free: "bf_accessing b ! idx = False" using assms(1) by (auto simp: quiet_def)
  then show "wait_for_access idx b = Some (b\<lparr>bf_accessing := (bf_accessing b)[idx := True]\<rparr>)"
    using * by (simp add: wait_for_access_def)
  show "(bf_accessing b)[idx := False] = bf_accessing b"
    using free by (metis list_update_id)
qed

lemma store_record_ok:
  assumes "quiet b" and "idx < RECORD_BUFF_SIZE"
  shows "store_record idx r b = Some (b\<lparr>bf_data := (bf_data b)[idx := r]\<rparr>)"
  using quiet_access [OF assms]
  by (simp add: store_record_def set_record_def end_access_def)

lemma quiet_data: "quiet b \<Longrightarrow> quiet (b\<lparr>bf_data := (bf_data b)[idx := r]\<rparr>)"
  by (simp add: quiet_def buffer_inv_def)

lemma request_quiet:
  assumes "quiet b" and "bf_empty b \<noteq> []"
  shows "\<exists>idx b'. request_record_buff b = Some (idx, b') \<and> quiet b' \<and> idx < RECORD_BUFF_SIZE
    \<and> idx \<notin> in_use b \<and> in_use b' = insert idx (in_use b) \<and> bf_data b' = bf_data b
    \<and> bf_empty b' = butlast (bf_empty b) \<and> idx = last (bf_empty b)"
proof -
  have inv: "buffer_inv b" using assms(1) by (simp add: quiet_def)
  have "last (bf_empty b) \<in> set (bf_empty b)" using assms(2) by simp
  with inv have "last (bf_empty b) < RECORD_BUFF_SIZE" "last (bf_empty b) \<notin> in_use b"
    by (auto simp: buffer_inv_def in_use_def)
  with request_ok [OF inv assms(2)] assms(1) show ?thesis by (auto simp: quiet_def)
qed

text \<open>Tables that nobody holds a lock on.\<close>

definition calm :: "MemTables \<Rightarrow> bool" where
  "calm m \<longleftrightarrow> tables_ok m \<and> mt_working m \<and> mt_current m \<noteq> []
     \<and> (\<forall>p \<in> set (mt_current m). unlocked (mt_heap m) p)"

definition list_map :: "heap \<Rightarrow> nat \<Rightarrow> KEY_T \<Rightarrow> Index option" where
  "list_map heap p = (case heap p of None \<Rightarrow> Map.empty | Some s \<Rightarrow> sl_map s)"

definition first_map :: "MemTables \<Rightarrow> KEY_T \<Rightarrow> Index option" where
  "first_map m = list_map (mt_heap m) (hd (mt_current m))"

lemma sl_map_locked [simp]:
  "sl_map (s\<lparr>sk_locked := b\<rparr>) = sl_map s" "sl_inv (s\<lparr>sk_locked := b\<rparr>) = sl_inv s"
  by (simp_all add: sl_map_def sl_inv_def)

text \<open>A current list in a new state.\<close>

lemma tables_ok_upd:
  assumes ok: "tables_ok m" and p: "p \<in> set (mt_current m)"
    and t: "sl_inv t" "sk_id t = 0" "\<not> sk_dumping t"
  shows "tables_ok (m\<lparr>mt_heap := (mt_heap m)(p \<mapsto> t)\<rparr>)"
proof -
  let ?h = "(mt_heap m)(p \<mapsto> t)"
  have apart: "p \<notin> set (mt_can_insert m)" "p \<notin> set (dump_lists m)"
    using ok p by (auto simp: tables_ok_def)
  have dl: "dump_lists (m\<lparr>mt_heap := ?h\<rparr>) = dump_lists m" by (simp add: dump_lists_def)
  have "\<forall>q \<in> set (mt_current m). ready ?h q"
    using ok t unfolding tables_ok_def by (auto simp: ready_def)
  moreover have "\<forall>q \<in> set (mt_can_insert m). fresh_list ?h q"
    using ok apart(1) fresh_list_cong [of ?h _ "mt_heap m"] unfolding tables_ok_def
    by (metis fun_upd_other)
  moreover have "\<forall>q \<in> set (dump_lists m). \<exists>s. ?h q = Some s \<and> sl_inv s"
    using ok t(1) unfolding tables_ok_def by auto
  moreover have "\<forall>q. ?h q \<noteq> None \<longrightarrow> q < mt_fresh m"
  proof -
    have "mt_heap m p \<noteq> None" using ok p by (auto simp: tables_ok_def ready_def)
    then show ?thesis using ok unfolding tables_ok_def by auto
  qed
  ultimately show ?thesis using ok unfolding tables_ok_def dl by simp
qed

lemma memtables_write_ok:
  assumes calm: "calm m" and size: "card (dom (first_map m)) + 2 < 2 ^ 31"
  shows "\<exists>s'. memtables_write rnd key index m = Some (m\<lparr>mt_heap := (mt_heap m)(hd (mt_current m) \<mapsto> s')\<rparr>)
    \<and> calm (m\<lparr>mt_heap := (mt_heap m)(hd (mt_current m) \<mapsto> s')\<rparr>)
    \<and> sl_map s' = (first_map m)(key \<mapsto> sl_merge 0 (first_map m key) index)"
proof -
  obtain p ps where ps: "mt_current m = p # ps" using calm by (cases "mt_current m") (auto simp: calm_def)
  have ok: "tables_ok m" using calm by (simp add: calm_def)
  then have ready: "\<forall>q \<in> set (mt_current m). \<exists>s. mt_heap m q = Some s \<and> \<not> sk_dumping s"
    by (auto simp: tables_ok_def ready_def)
  obtain s where s: "mt_heap m p = Some s" "sl_inv s" "sk_id s = 0" "\<not> sk_dumping s"
    using ok by (auto simp: tables_ok_def ready_def ps)
  have first: "first_map m = sl_map s" using s(1) by (simp add: first_map_def list_map_def ps)
  have un: "unlocked (mt_heap m) p" using calm by (simp add: calm_def ps)
  then have "find (unlocked (mt_heap m)) (mt_current m) = Some p" by (simp add: ps)
  then have get: "get_memtable m = Some (p, m\<lparr>mt_heap := lock (mt_heap m) p\<rparr>)"
    using get_memtable_eq [OF ready] by simp
  have "card (dom (sl_map (s\<lparr>sk_locked := True\<rparr>))) + 2 < 2 ^ 31" using size first by simp
  then obtain t where t: "SkipList_update rnd key index (s\<lparr>sk_locked := True\<rparr>) = Some (t, sl_node t key)"
    "sl_inv t" "sl_map t = (sl_map s)(key \<mapsto> sl_merge 0 (sl_map s key) index)"
    "t = (s\<lparr>sk_locked := True\<rparr>)\<lparr>sk_data := sk_data t, sk_capacity := sk_capacity t\<rparr>"
    using SkipList_update_ok [of "s\<lparr>sk_locked := True\<rparr>" rnd key index] s(2,3) by auto
  have "sk_id t = 0" by (subst t(4)) (simp add: s(3))
  moreover have "\<not> sk_dumping t" by (subst t(4)) (simp add: s(4))
  ultimately have u: "sl_inv (un_lock t)" "sk_id (un_lock t) = 0" "\<not> sk_dumping (un_lock t)"
    "\<not> sk_locked (un_lock t)" "sl_map (un_lock t) = sl_map t"
    using t(2) by (simp_all add: un_lock_def)
  let ?h = "(mt_heap m)(p \<mapsto> un_lock t)"
  have run: "memtables_write rnd key index m = Some (m\<lparr>mt_heap := ?h\<rparr>)"
    using get s(1) t(1) by (simp add: memtables_write_def lock_def)
  have "tables_ok (m\<lparr>mt_heap := ?h\<rparr>)" by (rule tables_ok_upd [OF ok _ u(1-3)]) (simp add: ps)
  then have "calm (m\<lparr>mt_heap := ?h\<rparr>)"
    using calm u(4) by (auto simp: calm_def ps unlocked_def)
  with run u(5) t(3) show ?thesis by (auto simp: ps first)
qed

lemma total_items_eq:
  assumes "\<forall>p \<in> set ps. \<exists>s. heap p = Some s \<and> sl_inv s \<and> \<not> sk_locked s"
  shows "total_items heap ps = Some (int (sum_list (map (\<lambda>p. card (dom (list_map heap p))) ps)))"
  using assms
proof (induction ps)
  case (Cons p ps)
  then obtain s where "heap p = Some s" "sl_inv s" "\<not> sk_locked s" by auto
  with Cons cnt_ns_eq [of s] show ?case by (simp add: list_map_def)
qed simp

lemma calm_lists:
  "calm m \<Longrightarrow> p \<in> set (mt_current m) \<Longrightarrow> \<exists>s. mt_heap m p = Some s \<and> sl_inv s \<and> \<not> sk_locked s"
  by (fastforce simp: calm_def tables_ok_def ready_def unlocked_def)

text \<open>Only the first list is used as long as one thread writes.\<close>

definition only_first :: "MemTables \<Rightarrow> bool" where
  "only_first m \<longleftrightarrow> (\<forall>p \<in> set (tl (mt_current m)). list_map (mt_heap m) p = Map.empty)"

lemma get_total_items_eq:
  assumes "calm m" and "only_first m"
  shows "get_total_items m = Some (int (card (dom (first_map m))))"
proof -
  obtain p ps where ps: "mt_current m = p # ps"
    using assms(1) by (cases "mt_current m") (auto simp: calm_def)
  have "map (\<lambda>p. card (dom (list_map (mt_heap m) p))) ps = map (\<lambda>_. 0) ps"
    using assms(2) by (simp add: only_first_def ps)
  then have "sum_list (map (\<lambda>p. card (dom (list_map (mt_heap m) p))) ps) = 0"
    by (metis sum_list_0)
  then show ?thesis
    using total_items_eq [of "mt_current m" "mt_heap m"] calm_lists [OF assms(1)]
    by (simp add: get_total_items_def ps first_map_def)
qed

subsection \<open>The state as a map\<close>

text \<open>
  The slot that the hash index gives for a key, and the value there. This is what
  \<^verbatim>\<open>read\<close> looks at.
\<close>

definition slot_of :: "DBSystem \<Rightarrow> KEY_T \<Rightarrow> nat option" where
  "slot_of s k = map_option (\<lambda>i. unat (get_idx i)) (index_lookup (db_hash s) k)"

definition db_map :: "DBSystem \<Rightarrow> KEY_T \<Rightarrow> u8 list option" where
  "db_map s k = map_option (\<lambda>a. get_value (bf_data (db_buffer s) ! a)) (slot_of s k)"

text \<open>
  The invariant while nothing has been dumped: the keys have slots of their own, all in use, and
  the memory tables know the same slots as the hash index.
\<close>

definition db_core :: "DBSystem \<Rightarrow> bool" where
  "db_core s \<longleftrightarrow> quiet (db_buffer s) \<and> index_inv (db_hash s) \<and> calm (db_mem s) \<and> only_first (db_mem s)
     \<and> (\<forall>k a. slot_of s k = Some a \<longrightarrow> a \<in> in_use (db_buffer s))
     \<and> inj_on (slot_of s) (dom (slot_of s))
     \<and> (\<forall>k. map_option (\<lambda>i. unat (get_idx i)) (first_map (db_mem s) k) = slot_of s k)"

definition db_ok :: "DBSystem \<Rightarrow> bool" where
  "db_ok s \<longleftrightarrow> db_core s
     \<and> (\<exists>p bs. dm_curr_log_fd (db_disk s) = Some p \<and> dm_files (db_disk s) p = Some bs)"

lemma db_ok_core: "db_ok s \<Longrightarrow> db_core s"
  by (simp add: db_ok_def)

lemma dom_db_map: "dom (db_map s) = dom (slot_of s)" "dom (slot_of s) = dom (index_lookup (db_hash s))"
  by (auto simp: db_map_def slot_of_def)

lemma db_core_first_dom: "db_core s \<Longrightarrow> dom (first_map (db_mem s)) = dom (db_map s)"
proof -
  assume "db_core s"
  then have "\<forall>k. map_option (\<lambda>i. unat (get_idx i)) (first_map (db_mem s) k) = slot_of s k"
    by (simp add: db_core_def)
  then have "first_map (db_mem s) k = None \<longleftrightarrow> slot_of s k = None" for k
    by (metis map_option_is_None)
  then show ?thesis unfolding dom_db_map(1) by (auto simp: dom_def)
qed

lemma in_use_bound: "buffer_inv b \<Longrightarrow> a \<in> in_use b \<Longrightarrow> a < RECORD_BUFF_SIZE"
  by (auto simp: buffer_inv_def in_use_def)

lemma in_use_card:
  assumes "buffer_inv b"
  shows "card (in_use b) + length (bf_empty b) = RECORD_BUFF_SIZE"
proof -
  have "distinct (bf_empty b)" "set (bf_empty b) \<inter> in_use b = {}"
    "set (bf_empty b) \<union> in_use b = {..<RECORD_BUFF_SIZE}"
    using assms by (auto simp: buffer_inv_def in_use_def)
  then have "card (in_use b) + card (set (bf_empty b)) = RECORD_BUFF_SIZE"
    by (metis List.finite_set add.commute card_Un_disjoint card_lessThan finite_Un finite_lessThan)
  with \<open>distinct (bf_empty b)\<close> show ?thesis by (simp add: distinct_card)
qed

text \<open>A write in two parts: the record and its index, and the test for a full generation.\<close>

definition db_put :: "(nat \<Rightarrow> nat) \<Rightarrow> KEY_T \<Rightarrow> u8 list \<Rightarrow> DBSystem \<Rightarrow> DBSystem option" where
  "db_put rnd keyT value s = do {
     gather \<leftarrow> make_record keyT value;
     (_, disk) \<leftarrow> write_to_log (record_bytes gather) (db_disk s);
     (idx_buffer, buffer) \<leftarrow> request_record_buff (db_buffer s);
     buffer \<leftarrow> store_record idx_buffer gather buffer;
     (hashTable, _) \<leftarrow> Indexer_update keyT (buffer_index idx_buffer) (db_hash s);
     memTables \<leftarrow> memtables_write rnd keyT (buffer_index idx_buffer) (db_mem s);
     Some (s\<lparr>db_buffer := buffer, db_hash := hashTable, db_mem := memTables, db_disk := disk\<rparr>)
   }"

definition db_check :: "DBSystem \<Rightarrow> DBSystem option" where
  "db_check s = do {
     total \<leftarrow> get_total_items (db_mem s);
     if int RECORD_BUFF_SIZE \<le> total then do {
       disk \<leftarrow> switch_log (db_disk s);
       memTables \<leftarrow> submit_dump (db_mem s);
       Some (s\<lparr>db_mem := memTables, db_disk := disk\<rparr>)
     } else Some s
   }"

lemma write_split:
  "DBSystem_write rnd key value s =
    Option.bind (get_key_string key) (\<lambda>k. Option.bind (db_put rnd k value s) db_check)"
  unfolding DBSystem_write_def db_put_def db_check_def Let_def
  by (intro Option.bind_cong refl)
    (auto simp: split_def intro!: Option.bind_cong split: if_splits)

definition new_record :: "KEY_T \<Rightarrow> u8 list \<Rightarrow> Record" where
  "new_record k value =
     \<lparr>rc_magic = RECORD_MATIC, rc_key = k, rc_value = take RECORD_VALUE_LEN value, rc_check = 0\<rparr>"

lemma make_record_eq: "RECORD_VALUE_LEN \<le> length value \<Longrightarrow> make_record k value = Some (new_record k value)"
  by (simp add: make_record_def set_value_def Record_new_def make_check_def new_record_def)

definition log_append :: "Record \<Rightarrow> DiskManager \<Rightarrow> DiskManager" where
  "log_append r d = d\<lparr>dm_curr_log_len := dm_curr_log_len d + sizeof_Record,
     dm_files := write_fd (dm_curr_log_fd d) (record_bytes r) (dm_files d)\<rparr>"

text \<open>What one write does to the state.\<close>

definition db_step :: "KEY_T \<Rightarrow> u8 list \<Rightarrow> DBSystem \<Rightarrow> DBSystem \<Rightarrow> bool" where
  "db_step k value s s' \<longleftrightarrow> db_ok s' \<and> db_map s' = (db_map s)(k \<mapsto> take RECORD_VALUE_LEN value)
     \<and> slot_of s' = (slot_of s)(k \<mapsto> last (bf_empty (db_buffer s)))
     \<and> bf_empty (db_buffer s') = butlast (bf_empty (db_buffer s))
     \<and> mt_wait_for_dump (db_mem s') = mt_wait_for_dump (db_mem s)
     \<and> db_manifest s' = db_manifest s
     \<and> db_disk s' = log_append (new_record k value) (db_disk s)"

lemma merge_slot:
  assumes "\<forall>i. old = Some i \<longrightarrow> unat (get_idx i) < RECORD_BUFF_SIZE" and "idx < RECORD_BUFF_SIZE"
  shows "unat (get_idx (sl_merge 0 old (buffer_index idx))) = idx"
proof (cases old)
  case None
  then show ?thesis using unat_buffer_index(2) [OF assms(2)] by (simp add: sl_merge_def)
next
  case (Some i)
  have "get_idx i < 0x40000" using assms(1) Some
    by (simp add: word_less_nat_alt RECORD_BUFF_SIZE_def)
  moreover have "get_idx (buffer_index idx) < 0x100000"
    using unat_buffer_index(2) [OF assms(2)] assms(2) by (simp add: word_less_nat_alt RECORD_BUFF_SIZE_def)
  ultimately have "get_idx (set_idx (get_idx (buffer_index idx)) i) = get_idx (buffer_index idx)"
    by (intro get_idx_set_idx_small)
  then show ?thesis using Some unat_buffer_index(2) [OF assms(2)]
    by (simp add: sl_merge_def field_simps_idx)
qed

text \<open>Only so many keys have slots of their own.\<close>

lemma db_core_card:
  assumes ok: "db_core s"
  shows "card (dom (slot_of s)) \<le> RECORD_BUFF_SIZE" and "slot_of s k = Some a \<Longrightarrow> a < RECORD_BUFF_SIZE"
proof -
  have slot: "a < RECORD_BUFF_SIZE" if "slot_of s k = Some a" for k a
    using ok that in_use_bound by (auto simp: db_core_def quiet_def)
  then show "slot_of s k = Some a \<Longrightarrow> a < RECORD_BUFF_SIZE" .
  have "card (dom (slot_of s)) \<le> card (Some ` {..<RECORD_BUFF_SIZE})"
    using ok slot by (intro card_inj_on_le) (force simp: db_core_def)+
  then show "card (dom (slot_of s)) \<le> RECORD_BUFF_SIZE" by (simp add: card_image)
qed

text \<open>The hash index and the memory tables take in a slot that is in use for nothing yet.\<close>

lemma index_put_ok:
  assumes ok: "db_core s" and idx: "idx \<in> in_use (db_buffer s)" "Some idx \<notin> range (slot_of s)"
  shows "\<exists>hash c m. Indexer_update k (buffer_index idx) (db_hash s) = Some (hash, c)
    \<and> memtables_write rnd k (buffer_index idx) (db_mem s) = Some m
    \<and> db_core (s\<lparr>db_hash := hash, db_mem := m\<rparr>)
    \<and> slot_of (s\<lparr>db_hash := hash, db_mem := m\<rparr>) = (slot_of s)(k \<mapsto> idx)
    \<and> mt_wait_for_dump m = mt_wait_for_dump (db_mem s)"
proof -
  have bound: "idx < RECORD_BUFF_SIZE" using ok idx(1) in_use_bound by (auto simp: db_core_def quiet_def)
  note slot = db_core_card(2) [OF ok]
  have card: "card (dom (index_lookup (db_hash s))) \<le> 1024"
    using db_core_card(1) [OF ok] by (simp only: dom_db_map) (simp add: RECORD_BUFF_SIZE_def)
  obtain hash c where hash: "Indexer_update k (buffer_index idx) (db_hash s) = Some (hash, c)"
    "index_inv hash" "index_lookup hash = (index_lookup (db_hash s))(k \<mapsto> set_in_hash True (buffer_index idx))"
    using hash_update_ok [of "db_hash s" k "buffer_index idx"] ok card by (auto simp: db_core_def)
  have fdom: "dom (first_map (db_mem s)) = dom (index_lookup (db_hash s))"
    using db_core_first_dom [OF ok] by (simp only: dom_db_map)
  let ?h = "hd (mt_current (db_mem s))"
  let ?M = "\<lambda>t. (db_mem s)\<lparr>mt_heap := (mt_heap (db_mem s))(?h \<mapsto> t)\<rparr>"
  have "calm (db_mem s)" using ok by (simp add: db_core_def)
  from memtables_write_ok [OF this, of rnd k "buffer_index idx"] fdom card
  obtain t where t: "memtables_write rnd k (buffer_index idx) (db_mem s) = Some (?M t)" "calm (?M t)"
    "sl_map t = (first_map (db_mem s))(k \<mapsto> sl_merge 0 (first_map (db_mem s) k) (buffer_index idx))"
    by auto
  let ?m = "?M t"
  let ?s = "s\<lparr>db_hash := hash, db_mem := ?m\<rparr>"
  have slot': "slot_of ?s = (slot_of s)(k \<mapsto> idx)"
    using unat_buffer_index(1) [OF bound] by (auto simp: slot_of_def hash(3) fun_eq_iff)
  have first': "first_map ?m = sl_map t" by (simp add: first_map_def list_map_def)
  have agree: "map_option (\<lambda>i. unat (get_idx i)) (first_map (db_mem s) k') = slot_of s k'" for k'
    using ok by (simp add: db_core_def)
  have old: "\<forall>i. first_map (db_mem s) k = Some i \<longrightarrow> unat (get_idx i) < RECORD_BUFF_SIZE"
    using agree [of k] slot [of k] by (cases "first_map (db_mem s) k") auto
  have agree': "map_option (\<lambda>i. unat (get_idx i)) (first_map ?m k') = slot_of ?s k'" for k'
    unfolding first' t(3) slot' using agree [of k'] merge_slot [OF old bound] by simp
  have "list_map (mt_heap ?m) q = list_map (mt_heap (db_mem s)) q" if "q \<in> set (tl (mt_current (db_mem s)))" for q
  proof -
    have "distinct (mt_current (db_mem s))" "mt_current (db_mem s) \<noteq> []"
      using ok by (auto simp: db_core_def calm_def tables_ok_def)
    with that have "q \<noteq> ?h" by (cases "mt_current (db_mem s)") auto
    then show ?thesis by (simp add: list_map_def)
  qed
  then have only: "only_first ?m" using ok by (simp add: db_core_def only_first_def)
  have fresh: "slot_of s k' \<noteq> Some idx" for k' using idx(2) by (metis rangeI)
  have inj: "inj_on (slot_of ?s) (dom (slot_of ?s))"
    using ok fresh unfolding db_core_def slot' by (auto simp: inj_on_def)
  have "db_core ?s"
    using ok hash(2) t(2) only inj agree' idx(1) slot' unfolding db_core_def by auto
  with hash(1) t(1) slot' show ?thesis by auto
qed

text \<open>A new record in a slot that no key has.\<close>

lemma slot_record_ok:
  assumes ok: "db_core s" and b: "quiet b" "idx \<in> in_use b" "in_use (db_buffer s) \<subseteq> in_use b"
    and data: "bf_data b = (bf_data (db_buffer s))[idx := r]" and new: "Some idx \<notin> range (slot_of s)"
  shows "\<exists>hash c m. Indexer_update k (buffer_index idx) (db_hash s) = Some (hash, c)
    \<and> memtables_write rnd k (buffer_index idx) (db_mem s) = Some m
    \<and> db_core (s\<lparr>db_buffer := b, db_hash := hash, db_mem := m\<rparr>)
    \<and> slot_of (s\<lparr>db_buffer := b, db_hash := hash, db_mem := m\<rparr>) = (slot_of s)(k \<mapsto> idx)
    \<and> db_map (s\<lparr>db_buffer := b, db_hash := hash, db_mem := m\<rparr>) = (db_map s)(k \<mapsto> get_value r)
    \<and> mt_wait_for_dump m = mt_wait_for_dump (db_mem s)"
proof -
  let ?s = "s\<lparr>db_buffer := b\<rparr>"
  have slot: "slot_of ?s = slot_of s" by (simp add: slot_of_def fun_eq_iff)
  have "db_core ?s" using ok b(1,3) unfolding db_core_def slot by auto
  from index_put_ok [OF this, of idx k rnd] b(2) new slot obtain hash c m where hm:
    "Indexer_update k (buffer_index idx) (db_hash s) = Some (hash, c)"
    "memtables_write rnd k (buffer_index idx) (db_mem s) = Some m"
    "db_core (s\<lparr>db_buffer := b, db_hash := hash, db_mem := m\<rparr>)"
    "slot_of (s\<lparr>db_buffer := b, db_hash := hash, db_mem := m\<rparr>) = (slot_of s)(k \<mapsto> idx)"
    "mt_wait_for_dump m = mt_wait_for_dump (db_mem s)" by auto
  have "idx < length (bf_data (db_buffer s))"
    using ok b(1,2) in_use_bound by (auto simp: db_core_def quiet_def buffer_inv_def)
  moreover have "a \<noteq> idx" if "slot_of s k' = Some a" for a k' using new that by (metis rangeI)
  ultimately have "db_map (s\<lparr>db_buffer := b, db_hash := hash, db_mem := m\<rparr>) k' = ((db_map s)(k \<mapsto> get_value r)) k'" for k'
    using data unfolding db_map_def hm(4) by (cases "slot_of s k'") (auto simp: nth_list_update)
  then have "db_map (s\<lparr>db_buffer := b, db_hash := hash, db_mem := m\<rparr>) = (db_map s)(k \<mapsto> get_value r)" ..
  with hm show ?thesis by auto
qed

lemma db_put_ok:
  assumes ok: "db_ok s" and val: "RECORD_VALUE_LEN \<le> length value"
    and free: "bf_empty (db_buffer s) \<noteq> []"
    and log: "dm_curr_log_len (db_disk s) + sizeof_Record < 2 ^ 31"
  shows "\<exists>s'. db_put rnd k value s = Some s' \<and> db_step k value s s'"
proof -
  let ?r = "new_record k value"
  have core: "db_core s" using ok by (rule db_ok_core)
  have r: "make_record k value = Some ?r" using val by (rule make_record_eq)
  have len: "length (record_bytes ?r) = sizeof_Record"
    using val by (intro length_record_bytes) (simp add: new_record_def)
  obtain p bs where p: "dm_curr_log_fd (db_disk s) = Some p" "dm_files (db_disk s) p = Some bs"
    using ok by (auto simp: db_ok_def)
  obtain full disk where disk: "write_to_log (record_bytes ?r) (db_disk s) = Some (full, disk)"
    and disk': "disk = log_append ?r (db_disk s)"
    using write_to_log_eq [OF p, of "record_bytes ?r"] log len p by (auto simp: log_append_def write_fd_def)
  have q: "quiet (db_buffer s)" using core by (simp add: db_core_def)
  obtain idx b where b: "request_record_buff (db_buffer s) = Some (idx, b)" "quiet b"
    "idx < RECORD_BUFF_SIZE" "idx \<notin> in_use (db_buffer s)" "in_use b = insert idx (in_use (db_buffer s))"
    "bf_data b = bf_data (db_buffer s)" "bf_empty b = butlast (bf_empty (db_buffer s))"
    "idx = last (bf_empty (db_buffer s))"
    using request_quiet [OF q free] by blast
  let ?b = "b\<lparr>bf_data := (bf_data b)[idx := ?r]\<rparr>"
  have st: "store_record idx ?r b = Some ?b" using b(2,3) by (rule store_record_ok)
  have use: "in_use ?b = insert idx (in_use (db_buffer s))" using b(5) by (simp add: in_use_def)
  have new: "Some idx \<notin> range (slot_of s)" using core b(4) unfolding db_core_def by (metis imageE)
  from slot_record_ok [OF core, where b = ?b and idx = idx and r = ?r and k = k and rnd = rnd]
    quiet_data [OF b(2)] use new b(6)
  obtain hash c m where hm: "Indexer_update k (buffer_index idx) (db_hash s) = Some (hash, c)"
    "memtables_write rnd k (buffer_index idx) (db_mem s) = Some m"
    "db_core (s\<lparr>db_buffer := ?b, db_hash := hash, db_mem := m\<rparr>)"
    "db_map (s\<lparr>db_buffer := ?b, db_hash := hash, db_mem := m\<rparr>) = (db_map s)(k \<mapsto> get_value ?r)"
    "slot_of (s\<lparr>db_buffer := ?b, db_hash := hash, db_mem := m\<rparr>) = (slot_of s)(k \<mapsto> idx)"
    "mt_wait_for_dump m = mt_wait_for_dump (db_mem s)" by auto
  let ?t = "s\<lparr>db_buffer := ?b, db_hash := hash, db_mem := m\<rparr>"
  let ?s = "?t\<lparr>db_disk := disk\<rparr>"
  have run: "db_put rnd k value s = Some ?s"
    by (simp add: db_put_def r disk b(1) st hm(1,2))
  have slot: "slot_of ?s = slot_of ?t" by (simp add: slot_of_def fun_eq_iff)
  have "db_core ?s" using hm(3) unfolding db_core_def slot by simp
  then have "db_ok ?s" by (simp add: db_ok_def disk' log_append_def write_fd_def p)
  moreover have "db_map ?s = (db_map s)(k \<mapsto> take RECORD_VALUE_LEN value)"
  proof -
    have "db_map ?s = db_map ?t" unfolding db_map_def [abs_def] slot by simp
    then show ?thesis using hm(4) by (simp add: get_value_def new_record_def)
  qed
  ultimately have "db_step k value s ?s" using b(7,8) hm(5,6) slot by (simp add: db_step_def disk')
  with run show ?thesis by blast
qed

lemma db_total: "db_core s \<Longrightarrow> get_total_items (db_mem s) = Some (int (card (dom (db_map s))))"
  using get_total_items_eq [of "db_mem s"] db_core_first_dom [of s] by (simp add: db_core_def)

lemma db_check_small:
  assumes "db_ok s" and "card (dom (db_map s)) < RECORD_BUFF_SIZE"
  shows "db_check s = Some s"
  using db_total [OF db_ok_core [OF assms(1)]] assms(2) by (simp add: db_check_def)

lemma db_write_ok:
  assumes "db_ok s" and "get_key_string key = Some k" and "RECORD_VALUE_LEN \<le> length value"
    and "bf_empty (db_buffer s) \<noteq> []" and "dm_curr_log_len (db_disk s) + sizeof_Record < 2 ^ 31"
    and "card (insert k (dom (db_map s))) < RECORD_BUFF_SIZE"
  shows "\<exists>s'. DBSystem_write rnd key value s = Some s' \<and> db_step k value s s'"
proof -
  obtain s' where s': "db_put rnd k value s = Some s'" "db_step k value s s'"
    using db_put_ok [OF assms(1,3,4,5)] by blast
  then have "card (dom (db_map s')) < RECORD_BUFF_SIZE" "db_ok s'" using assms(6) by (simp_all add: db_step_def)
  with s' assms(2) db_check_small [of s'] show ?thesis by (simp add: write_split)
qed

lemma db_read_slot:
  assumes "quiet (db_buffer s)" and "get_key_string key = Some k" and "slot_of s k = Some a" and "a < RECORD_BUFF_SIZE"
  shows "DBSystem_read key s = Some (get_value (bf_data (db_buffer s) ! a), s)"
proof -
  obtain c where c: "Indexer_get k (db_hash s) = Some c" "unat (get_idx (kv_idx (db_hash s c))) = a"
    using assms(3) by (auto simp: slot_of_def index_lookup_def Indexer_get_def)
  from quiet_access [OF assms(1,4)] c assms(2) show ?thesis
    by (simp add: DBSystem_read_def record_at_def end_access_def)
qed

text \<open>A read returns what the map holds and changes nothing.\<close>

lemma db_read_eq:
  assumes "db_core s" and "get_key_string key = Some k"
  shows "DBSystem_read key s = map_option (\<lambda>v. (v, s)) (db_map s k)"
proof (cases "slot_of s k")
  case None
  then have "IndexHashMap_get k (db_hash s) = None" by (simp add: slot_of_def index_lookup_def)
  with None assms(2) show ?thesis by (simp add: DBSystem_read_def Indexer_get_def db_map_def)
next
  case (Some a)
  have "quiet (db_buffer s)" "a \<in> in_use (db_buffer s)" using assms(1) Some by (auto simp: db_core_def)
  moreover from this have "a < RECORD_BUFF_SIZE" using in_use_bound by (auto simp: quiet_def)
  ultimately show ?thesis using db_read_slot [OF _ assms(2) Some] Some by (simp add: db_map_def)
qed

subsection \<open>A new process\<close>

definition no_files :: "cxx_string \<Rightarrow> files \<Rightarrow> bool" where
  "no_files base fs \<longleftrightarrow> base \<noteq> []
     \<and> (\<forall>name \<in> {HOT_LOG, DIED_LOG, MANIFIST_FILE}. fs (the (path_join [base, name])) = None)"

lemma fresh_calm:
  assumes "tables_ok m" and "mt_working m" and "mt_current m \<noteq> []" and "\<forall>p \<in> set (mt_current m). fresh_list (mt_heap m) p"
  shows "calm m" and "only_first m" and "first_map m = Map.empty"
proof -
  have "list_map (mt_heap m) p = Map.empty \<and> unlocked (mt_heap m) p" if "p \<in> set (mt_current m)" for p
    using assms(4) that by (auto simp: fresh_list_def list_map_def unlocked_def)
  then show "calm m" "only_first m" "first_map m = Map.empty"
    using assms by (auto simp: calm_def only_first_def first_map_def dest: list.set_sel(2))
qed

lemma MemTables_new_calm:
  "\<exists>m. MemTables_new = Some m \<and> calm m \<and> only_first m \<and> first_map m = Map.empty \<and> mt_wait_for_dump m = []"
proof -
  obtain m where m: "MemTables_new = Some m" "tables_ok m" "mt_working m"
    "length (mt_current m) = MEMTABLE_CO_WRITE_NUM" "mt_wait_for_dump m = []"
    "\<forall>p \<in> set (mt_current m). fresh_list (mt_heap m) p"
    using MemTables_new_ok by blast
  have "mt_current m \<noteq> []" using m(4) by (auto simp: MEMTABLE_CO_WRITE_NUM_def)
  with m(1,5) fresh_calm [OF m(2,3) _ m(6)] show ?thesis by blast
qed

subsection \<open>Sequences of writes\<close>

text \<open>A write: the random numbers of the skip list, the key and the value.\<close>

type_synonym write_op = "(nat \<Rightarrow> nat) \<times> cxx_string \<times> u8 list"

fun db_writes :: "write_op list \<Rightarrow> DBSystem \<Rightarrow> DBSystem option" where
  "db_writes [] s = Some s"
| "db_writes ((rnd, key, value) # ws) s = Option.bind (DBSystem_write rnd key value s) (db_writes ws)"

definition valid_write :: "write_op \<Rightarrow> bool" where
  "valid_write w \<longleftrightarrow> get_key_string (fst (snd w)) \<noteq> None \<and> RECORD_VALUE_LEN \<le> length (snd (snd w))"

definition key_of :: "write_op \<Rightarrow> KEY_T" where
  "key_of w = the (get_key_string (fst (snd w)))"

text \<open>The map and the records that the writes should leave.\<close>

definition contents :: "write_op list \<Rightarrow> KEY_T \<Rightarrow> u8 list option" where
  "contents ws = map_of (rev (map (\<lambda>w. (key_of w, take RECORD_VALUE_LEN (snd (snd w)))) ws))"

definition records :: "write_op list \<Rightarrow> Record list" where
  "records ws = map (\<lambda>w. new_record (key_of w) (snd (snd w))) ws"

lemma contents_simps [simp]:
  "contents [] = Map.empty"
  "contents (ws @ [w]) = (contents ws)(key_of w \<mapsto> take RECORD_VALUE_LEN (snd (snd w)))"
  by (simp_all add: contents_def)

lemma dom_contents: "dom (contents ws) = key_of ` set ws"
  by (simp add: contents_def dom_map_of_conv_image_fst image_image)

lemma records_simps [simp]: "records [] = []" "records (ws @ [w]) = records ws @ [new_record (key_of w) (snd (snd w))]"
  by (simp_all add: records_def)

lemma sized_records: "\<forall>w \<in> set ws. valid_write w \<Longrightarrow> \<forall>r \<in> set (records ws). sized r"
  by (auto simp: records_def sized_def new_record_def valid_write_def)

lemma db_writes_append: "db_writes (ws @ ws') s = Option.bind (db_writes ws s) (db_writes ws')"
proof (induction ws arbitrary: s)
  case (Cons w ws)
  obtain rnd key val where w: "w = (rnd, key, val)" by (cases w)
  show ?case by (cases "DBSystem_write rnd key val s") (simp_all add: w Cons.IH)
qed simp

lemma db_writes_snoc:
  "db_writes (ws @ [(rnd, key, value)]) s = Option.bind (db_writes ws s) (DBSystem_write rnd key value)"
proof -
  have "db_writes [(rnd, key, value)] = DBSystem_write rnd key value"
  proof
    fix t show "db_writes [(rnd, key, value)] t = DBSystem_write rnd key value t"
      by (cases "DBSystem_write rnd key value t") simp_all
  qed
  then show ?thesis by (simp only: db_writes_append)
qed

end
