(* ===== verification/DB_Recovery.thy ===== *)
theory DB_Recovery
  imports DB_Correct
begin

text \<open>
  The life of a \<^verbatim>\<open>DBSystem\<close> before its first dump: reading the logs at the start
  (\<open>reading\<close> is the invariant of the loop, \<open>DBSystem_recover\<close> its result), sequences of
  writes (\<open>since\<close>), and what follows: a store that starts without files is a map, a crash loses
  nothing, and rewriting a key uses up slots that nothing gives back.
\<close>

subsection \<open>Recovery\<close>

text \<open>
  The state while a log is read: the slot \<open>idx\<close> has been requested and is being accessed.
\<close>

definition opened :: "nat \<Rightarrow> Buffer \<Rightarrow> Buffer" where
  "opened idx b = b\<lparr>bf_accessing := (bf_accessing b)[idx := False]\<rparr>"

definition reading :: "nat \<Rightarrow> DBSystem \<Rightarrow> bool" where
  "reading idx s \<longleftrightarrow> db_core (s\<lparr>db_buffer := opened idx (db_buffer s)\<rparr>)
     \<and> idx \<in> in_use (db_buffer s) \<and> Some idx \<notin> range (slot_of s)"

text \<open>What stays the same.\<close>

definition db_frame :: "DBSystem \<Rightarrow> DBSystem \<Rightarrow> bool" where
  "db_frame s s' \<longleftrightarrow> mt_wait_for_dump (db_mem s') = mt_wait_for_dump (db_mem s)
     \<and> db_manifest s' = db_manifest s \<and> db_disk s' = db_disk s"

lemma request_access:
  assumes ok: "db_core s" and free: "bf_empty (db_buffer s) \<noteq> []"
  shows "\<exists>idx b. request_record_buff (db_buffer s) = Some (idx, b)
    \<and> (\<exists>b'. wait_for_access idx b = Some b' \<and> reading idx (s\<lparr>db_buffer := b'\<rparr>)
      \<and> bf_empty b' = butlast (bf_empty (db_buffer s)) \<and> db_map (s\<lparr>db_buffer := b'\<rparr>) = db_map s)"
proof -
  have q: "quiet (db_buffer s)" using ok by (simp add: db_core_def)
  obtain idx b where b: "request_record_buff (db_buffer s) = Some (idx, b)" "quiet b"
    "idx < RECORD_BUFF_SIZE" "idx \<notin> in_use (db_buffer s)" "in_use b = insert idx (in_use (db_buffer s))"
    "bf_data b = bf_data (db_buffer s)" "bf_empty b = butlast (bf_empty (db_buffer s))"
    using request_quiet [OF q free] by blast
  let ?b = "b\<lparr>bf_accessing := (bf_accessing b)[idx := True]\<rparr>"
  have "wait_for_access idx b = Some ?b" using b(2,3) by (rule quiet_access)
  moreover have "opened idx ?b = b" using quiet_access(2) [OF b(2,3)] by (simp add: opened_def)
  moreover have new: "Some idx \<notin> range (slot_of s)" using ok b(4) unfolding db_core_def by (metis imageE)
  moreover have "db_core (s\<lparr>db_buffer := b\<rparr>)"
    using ok b(2,5) unfolding db_core_def by (auto simp: slot_of_def [abs_def])
  moreover have "slot_of (s\<lparr>db_buffer := ?b\<rparr>) = slot_of s" by (simp add: slot_of_def fun_eq_iff)
  ultimately show ?thesis using b(1,5,6,7)
    by (auto simp: reading_def in_use_def db_map_def [abs_def])
qed


text \<open>One record read into the slot and entered.\<close>

definition recover_one :: "(nat \<Rightarrow> nat) \<Rightarrow> Record \<Rightarrow> nat \<Rightarrow> DBSystem \<Rightarrow> DBSystem option" where
  "recover_one rnd r idx s = do {
     buffer \<leftarrow> set_record idx r (db_buffer s);
     buffer \<leftarrow> end_access idx buffer;
     write_recover rnd idx (s\<lparr>db_buffer := buffer\<rparr>)
   }"

lemma reading_bound:
  assumes "reading idx s"
  shows "idx < RECORD_BUFF_SIZE" and "length (bf_data (db_buffer s)) = RECORD_BUFF_SIZE"
    and "length (bf_accessing (db_buffer s)) = RECORD_BUFF_SIZE"
    and "quiet (opened idx (db_buffer s))" and "in_use (opened idx b) = in_use b"
  using assms
  by (auto simp: reading_def db_core_def quiet_def buffer_inv_def in_use_def opened_def)

lemma recover_one_ok:
  assumes rd: "reading idx s" and r: "sized r"
  shows "\<exists>s'. recover_one rnd r idx s = Some s' \<and> db_core s' \<and> db_frame s s'
    \<and> db_map s' = (db_map s)(rc_key r \<mapsto> rc_value r) \<and> bf_empty (db_buffer s') = bf_empty (db_buffer s)"
proof -
  note bound = reading_bound [OF rd]
  let ?t = "s\<lparr>db_buffer := opened idx (db_buffer s)\<rparr>"
  let ?b = "(opened idx (db_buffer s))\<lparr>bf_data := (bf_data (db_buffer s))[idx := r]\<rparr>"
  have core: "db_core ?t" using rd by (simp add: reading_def)
  have slot: "slot_of ?t = slot_of s" by (simp add: slot_of_def fun_eq_iff)
  have q: "quiet ?b" using quiet_data [OF bound(4), of idx r] by (simp add: opened_def)
  have use: "in_use ?b = in_use (db_buffer s)" by (simp add: in_use_def opened_def)
  from slot_record_ok [OF core, where b = ?b and idx = idx and r = r and k = "rc_key r" and rnd = rnd]
    q rd use slot
  obtain hash c m where hm: "Indexer_update (rc_key r) (buffer_index idx) (db_hash s) = Some (hash, c)"
    "memtables_write rnd (rc_key r) (buffer_index idx) (db_mem s) = Some m"
    "db_core (s\<lparr>db_buffer := ?b, db_hash := hash, db_mem := m\<rparr>)"
    "db_map (s\<lparr>db_buffer := ?b, db_hash := hash, db_mem := m\<rparr>) = (db_map ?t)(rc_key r \<mapsto> get_value r)"
    "mt_wait_for_dump m = mt_wait_for_dump (db_mem s)"
    by (auto simp: reading_def in_use_def opened_def)
  have "recover_one rnd r idx s = Some (s\<lparr>db_buffer := ?b, db_hash := hash, db_mem := m\<rparr>)"
    using bound hm(1,2) unat_buffer_index(3) [OF bound(1)]
    by (simp add: recover_one_def set_record_def end_access_def write_recover_def record_at_def opened_def)
  moreover have "db_map ?t = db_map s" unfolding db_map_def [abs_def] slot by (simp add: opened_def)
  moreover have "get_value r = rc_value r" using r by (simp add: get_value_def sized_def)
  ultimately show ?thesis using hm(3,4,5) by (simp add: db_frame_def opened_def)
qed

text \<open>The log that is read can be read.\<close>

definition readable :: "LogType \<Rightarrow> DBSystem \<Rightarrow> bool" where
  "readable type s \<longleftrightarrow> type = DIED_LOG_T \<or> dm_log_readable (db_disk s)"

lemma log_read_eq:
  "log_read type bs (db_disk s) = (if readable type s then int (min sizeof_Record (length bs)) else - 1)"
  by (simp add: log_read_def readable_def)

lemma recover_end:
  assumes rd: "reading idx s" and fd: "readable type s"
  shows "\<exists>s'. recover_records wait g type [] idx s = Some (Inr s') \<and> db_core s' \<and> db_frame s s' \<and> db_map s' = db_map s
    \<and> bf_empty (db_buffer s') = idx # bf_empty (db_buffer s)"
proof -
  note bound = reading_bound [OF rd]
  let ?o = "opened idx (db_buffer s)"
  have e: "end_access idx (db_buffer s) = Some ?o" using bound by (simp add: end_access_def opened_def)
  have inv: "buffer_inv ?o" using bound(4) by (simp add: quiet_def)
  have "idx \<in> in_use ?o" using rd bound(5) by (simp add: reading_def)
  from release_ok [OF inv this] obtain b where b: "release_buff idx ?o = Some b" "buffer_inv b"
    "bf_empty b = idx # bf_empty ?o" "in_use b = in_use ?o - {idx}" "bf_data b = bf_data ?o"
    "bf_accessing b = bf_accessing ?o" by blast
  have core: "db_core (s\<lparr>db_buffer := ?o\<rparr>)" and new: "\<And>k. slot_of s k \<noteq> Some idx"
    using rd by (auto simp: reading_def) (metis rangeI)
  have slot: "slot_of (s\<lparr>db_buffer := x\<rparr>) = slot_of s" for x by (simp add: slot_of_def fun_eq_iff)
  have "quiet b" using bound(4) b(2,6) by (simp add: quiet_def)
  then have "db_core (s\<lparr>db_buffer := b\<rparr>)"
    using core new b(4) unfolding db_core_def slot by auto
  moreover have "db_map (s\<lparr>db_buffer := b\<rparr>) = db_map s"
    unfolding db_map_def [abs_def] slot using b(5) by (simp add: opened_def)
  moreover have "recover_records wait g type [] idx s = Some (Inr (s\<lparr>db_buffer := b\<rparr>))"
    using e b(1) fd by (simp add: recover_records.simps log_read_eq)
  ultimately show ?thesis using b(3) by (simp add: db_frame_def opened_def)
qed

text \<open>After a record: what happens before the next one is read.\<close>

definition recover_next :: "(DBSystem \<Rightarrow> DBSystem option) \<Rightarrow> LogType \<Rightarrow> DBSystem \<Rightarrow> (nat \<times> DBSystem) option" where
  "recover_next wait type s = do {
     s \<leftarrow> (if if_full (db_buffer s) then recover_full type s else Some s);
     s \<leftarrow> (if if_full (db_buffer s) then wait s else Some s);
     (idx, buffer) \<leftarrow> request_record_buff (db_buffer s);
     buffer \<leftarrow> wait_for_access idx buffer;
     Some (idx, s\<lparr>db_buffer := buffer\<rparr>)
   }"

lemma sized_bytes: "sized r \<Longrightarrow> length (record_bytes r) = sizeof_Record"
  by (simp add: sized_def length_record_bytes)

lemma recover_records_Cons:
  assumes "sized r" and "readable type s"
  shows "recover_records wait g type (record_bytes r @ bs) idx s = do {
     s \<leftarrow> recover_one (g 0) r idx s;
     (idx, s) \<leftarrow> recover_next wait type s;
     recover_records wait (\<lambda>n. g (Suc n)) type bs idx s
   }"
proof -
  have "record_of (record_bytes r @ bs) = r" for bs using assms(1) record_of_bytes by (auto simp: sized_def)
  moreover have pos: "(sizeof_Record = 0) = False" by (simp add: sizeof_Record_def)
  ultimately show ?thesis
    using sized_bytes [OF assms(1)] assms(2)
    by (subst recover_records.simps) (simp add: log_read_eq recover_one_def recover_next_def Option.bind_assoc split_def Let_def pos)
qed

text \<open>Too few bytes for a record, or a descriptor that cannot be read.\<close>

lemma recover_records_abort:
  "readable type s \<Longrightarrow> bs \<noteq> [] \<Longrightarrow> length bs < sizeof_Record
    \<Longrightarrow> recover_records wait g type bs idx s = Some (Inl Assertion_failed)"
  "\<not> readable type s \<Longrightarrow> recover_records wait g type bs idx s = Some (Inl Assertion_failed)"
  by (simp_all add: recover_records.simps log_read_eq)

lemma db_frame_trans: "db_frame s t \<Longrightarrow> db_frame t u \<Longrightarrow> db_frame s u"
  by (simp add: db_frame_def)

lemma db_frame_buffer: "db_frame s (t\<lparr>db_buffer := b\<rparr>) = db_frame s t" "db_frame (s\<lparr>db_buffer := b\<rparr>) t = db_frame s t"
  by (simp_all add: db_frame_def)

definition log_map :: "Record list \<Rightarrow> (KEY_T \<Rightarrow> u8 list option) \<Rightarrow> KEY_T \<Rightarrow> u8 list option" where
  "log_map rs m = fold (\<lambda>r m. m(rc_key r \<mapsto> rc_value r)) rs m"

lemma recover_next_ok:
  assumes ok: "db_core s" and free: "bf_empty (db_buffer s) \<noteq> []"
  shows "\<exists>i s'. recover_next wait type s = Some (i, s') \<and> reading i s' \<and> db_frame s s'
    \<and> bf_empty (db_buffer s') = butlast (bf_empty (db_buffer s)) \<and> db_map s' = db_map s"
proof -
  obtain i b b' where b: "request_record_buff (db_buffer s) = Some (i, b)"
    "wait_for_access i b = Some b'" "reading i (s\<lparr>db_buffer := b'\<rparr>)"
    "bf_empty b' = butlast (bf_empty (db_buffer s))" "db_map (s\<lparr>db_buffer := b'\<rparr>) = db_map s"
    using request_access [OF ok free] by blast
  have "recover_next wait type s = Some (i, s\<lparr>db_buffer := b'\<rparr>)"
    using free b(1,2) by (simp add: recover_next_def if_full_def)
  with b(3-5) show ?thesis by (auto simp: db_frame_def)
qed

lemma log_bytes_simps [simp]: "log_bytes [] = []" "log_bytes (r # rs) = record_bytes r @ log_bytes rs"
  "log_bytes (rs @ rs') = log_bytes rs @ log_bytes rs'"
  by (simp_all add: log_bytes_def)

lemma length_log_bytes: "\<forall>r \<in> set rs. sized r \<Longrightarrow> length (log_bytes rs) = length rs * sizeof_Record"
  by (induction rs) (simp_all add: sized_bytes)

lemma readable_frame: "db_frame s s' \<Longrightarrow> readable type s' = readable type s"
  by (simp add: db_frame_def readable_def)

text \<open>Whole records while there are slots.\<close>

lemma recover_records_prefix:
  assumes "reading idx s" and "\<forall>r \<in> set rs. sized r" and "length rs \<le> length (bf_empty (db_buffer s))"
    and "readable type s"
  shows "\<exists>i s'. recover_records wait g type (log_bytes rs @ bs) idx s
      = recover_records wait (\<lambda>n. g (length rs + n)) type bs i s'
    \<and> reading i s' \<and> db_frame s s' \<and> db_map s' = log_map rs (db_map s)
    \<and> length (bf_empty (db_buffer s')) + length rs = length (bf_empty (db_buffer s))"
  using assms
proof (induction rs arbitrary: g idx s)
  case Nil
  then show ?case by (intro exI [of _ idx] exI [of _ s]) (simp add: log_map_def db_frame_def)
next
  case (Cons r rs)
  obtain t where t: "recover_one (g 0) r idx s = Some t" "db_core t" "db_frame s t"
    "db_map t = (db_map s)(rc_key r \<mapsto> rc_value r)" "bf_empty (db_buffer t) = bf_empty (db_buffer s)"
    using recover_one_ok [OF Cons.prems(1)] Cons.prems(2) by (metis list.set_intros(1))
  have free: "bf_empty (db_buffer t) \<noteq> []" using Cons.prems(3) t(5) by auto
  from recover_next_ok [OF t(2) this, of wait type] obtain i u where u: "recover_next wait type t = Some (i, u)"
    "reading i u" "db_frame t u" "bf_empty (db_buffer u) = butlast (bf_empty (db_buffer t))" "db_map u = db_map t" by blast
  have su: "db_frame s u" using t(3) u(3) by (rule db_frame_trans)
  have "length rs \<le> length (bf_empty (db_buffer u))" "readable type u"
    using Cons.prems(3,4) u(4) t(5) readable_frame [OF su] by simp_all
  with Cons.IH [OF u(2), of "\<lambda>n. g (Suc n)"] Cons.prems(2) obtain j s' where s':
    "recover_records wait (\<lambda>n. g (Suc n)) type (log_bytes rs @ bs) i u
      = recover_records wait (\<lambda>n. g (Suc (length rs + n))) type bs j s'" "reading j s'"
    "db_frame u s'" "db_map s' = log_map rs (db_map u)"
    "length (bf_empty (db_buffer s')) + length rs = length (bf_empty (db_buffer u))"
    by auto
  have "recover_records wait g type (log_bytes (r # rs) @ bs) idx s
      = recover_records wait (\<lambda>n. g (length (r # rs) + n)) type bs j s'"
    using Cons.prems(2,4) t(1) u(1) s'(1) by (simp add: recover_records_Cons)
  moreover have "db_map s' = log_map (r # rs) (db_map s)" using s'(4) u(5) t(4) by (simp add: log_map_def)
  ultimately show ?case using s'(2,5) db_frame_trans [OF su s'(3)] t(5) u(4) free by (intro exI [of _ j] exI [of _ s']) auto
qed

lemma recover_records_ok:
  assumes "reading idx s" and "\<forall>r \<in> set rs. sized r" and "length rs \<le> length (bf_empty (db_buffer s))"
    and "readable type s"
  shows "\<exists>s'. recover_records wait g type (log_bytes rs) idx s = Some (Inr s') \<and> db_core s' \<and> db_frame s s'
    \<and> db_map s' = log_map rs (db_map s)
    \<and> length (bf_empty (db_buffer s')) + length rs = length (bf_empty (db_buffer s)) + 1"
proof -
  obtain i t where t: "recover_records wait g type (log_bytes rs @ []) idx s
      = recover_records wait (\<lambda>n. g (length rs + n)) type [] i t"
    "reading i t" "db_frame s t" "db_map t = log_map rs (db_map s)"
    "length (bf_empty (db_buffer t)) + length rs = length (bf_empty (db_buffer s))"
    using recover_records_prefix [OF assms, of wait g "[]"] by blast
  have "readable type t" using assms(4) readable_frame [OF t(3)] by simp
  from recover_end [OF t(2) this, of wait "\<lambda>n. g (length rs + n)"] obtain u where
    "recover_records wait (\<lambda>n. g (length rs + n)) type [] i t = Some (Inr u)"
    "db_core u" "db_frame t u" "db_map u = db_map t" "bf_empty (db_buffer u) = i # bf_empty (db_buffer t)" by blast
  with t db_frame_trans [OF t(3)] show ?thesis by (intro exI [of _ u]) simp
qed

lemma recover_records_torn:
  assumes "reading idx s" and "\<forall>r \<in> set rs. sized r" and "length rs \<le> length (bf_empty (db_buffer s))"
    and "readable type s" and "bs \<noteq> []" and "length bs < sizeof_Record"
  shows "recover_records wait g type (log_bytes rs @ bs) idx s = Some (Inl Assertion_failed)"
  using recover_records_prefix [OF assms(1-4), of wait g bs] readable_frame recover_records_abort(1) assms(4-6) by metis

text \<open>
  When the slots are used up while the hot log is read, the switch takes the descriptor away:
  whatever the dumper does meanwhile, recovery does not return. It ends with the failed assertion
  where the step \<open>recover_next\<close> returns.
\<close>

lemma switch_log_unreadable: "switch_log d = Some d' \<Longrightarrow> \<not> dm_log_readable d'"
  by (auto simp: switch_log_def open_append_def Let_def Option.bind_eq_Some_conv simp del: path_join.simps split: if_splits)

lemma recover_hot_full:
  assumes "reading idx s" and "\<forall>r \<in> set rs. sized r" and "length (bf_empty (db_buffer s)) < length rs"
    and "readable HOT_LOG_T s"
  shows "\<exists>n i t u. n < length rs \<and> n = length (bf_empty (db_buffer s)) \<and> reading i t \<and> db_frame s t
    \<and> db_map t = log_map (take n rs) (db_map s) \<and> bf_empty (db_buffer t) = []
    \<and> recover_one (g n) (rs ! n) i t = Some u \<and> db_core u \<and> db_frame t u
    \<and> db_map u = log_map (take (Suc n) rs) (db_map s) \<and> bf_empty (db_buffer u) = []
    \<and> recover_records wait g HOT_LOG_T (log_bytes rs @ bs) idx s = do {
         (i, v) \<leftarrow> recover_next wait HOT_LOG_T u;
         recover_records wait (\<lambda>m. g (n + Suc m)) HOT_LOG_T (log_bytes (drop (Suc n) rs) @ bs) i v
       }"
proof -
  let ?n = "length (bf_empty (db_buffer s))"
  have split: "rs = take ?n rs @ rs ! ?n # drop (Suc ?n) rs" using assms(3) by (rule id_take_nth_drop)
  then have bytes: "log_bytes rs @ bs
      = log_bytes (take ?n rs) @ record_bytes (rs ! ?n) @ log_bytes (drop (Suc ?n) rs) @ bs"
    by (metis append.assoc log_bytes_simps(2,3))
  have sz: "\<forall>r \<in> set (take ?n rs). sized r" "sized (rs ! ?n)" "length (take ?n rs) \<le> ?n"
    using assms(2,3) by (auto dest: in_set_takeD)
  from recover_records_prefix [OF assms(1) sz(1,3) assms(4), where wait = wait and g = g and
      bs = "record_bytes (rs ! ?n) @ log_bytes (drop (Suc ?n) rs) @ bs"] assms(3)
  obtain i t where t: "recover_records wait g HOT_LOG_T (log_bytes rs @ bs) idx s
      = recover_records wait (\<lambda>m. g (?n + m)) HOT_LOG_T (record_bytes (rs ! ?n) @ log_bytes (drop (Suc ?n) rs) @ bs) i t"
    "reading i t" "db_frame s t" "db_map t = log_map (take ?n rs) (db_map s)" "bf_empty (db_buffer t) = []"
    unfolding bytes by auto
  obtain u where u: "recover_one (g ?n) (rs ! ?n) i t = Some u" "db_core u" "db_frame t u"
    "db_map u = (db_map t)(rc_key (rs ! ?n) \<mapsto> rc_value (rs ! ?n))" "bf_empty (db_buffer u) = []"
    using recover_one_ok [OF t(2) sz(2), of "g ?n"] t(5) by auto
  have "db_map u = log_map (take (Suc ?n) rs) (db_map s)"
    using u(4) t(4) assms(3) by (simp add: log_map_def take_Suc_conv_app_nth)
  moreover have "readable HOT_LOG_T t" using assms(4) readable_frame [OF t(3)] by simp
  ultimately show ?thesis
    using assms(3) t u(1-3,5) recover_records_Cons [OF sz(2)]
    by (intro exI [of _ ?n] exI [of _ i] exI [of _ t] exI [of _ u]) (simp add: split_def)
qed

text \<open>What a log file holds; a missing one holds nothing.\<close>

definition holds :: "files \<Rightarrow> cxx_string \<Rightarrow> Record list \<Rightarrow> bool" where
  "holds fs path rs \<longleftrightarrow> (\<forall>r \<in> set rs. sized r)
     \<and> (case fs path of None \<Rightarrow> rs = [] | Some bs \<Rightarrow> bs = log_bytes rs)"

definition log_name :: "LogType \<Rightarrow> cxx_string" where
  "log_name type = (case type of HOT_LOG_T \<Rightarrow> HOT_LOG | DIED_LOG_T \<Rightarrow> DIED_LOG)"

definition after_log :: "LogType \<Rightarrow> cxx_string \<Rightarrow> DiskManager \<Rightarrow> DiskManager" where
  "after_log type path d = (case type of HOT_LOG_T \<Rightarrow> open_append path d | DIED_LOG_T \<Rightarrow> d)"

definition before_log :: "LogType \<Rightarrow> cxx_string \<Rightarrow> DiskManager \<Rightarrow> DiskManager" where
  "before_log type path d = (case type of HOT_LOG_T \<Rightarrow> open_read path d | DIED_LOG_T \<Rightarrow> d)"

lemma before_log_simps: "dm_basepath (before_log type path d) = dm_basepath d" "dm_files (before_log type path d) = dm_files d"
  "after_log type path (before_log type path d) = after_log type path d"
  "dm_log_readable (before_log HOT_LOG_T path d)"
  by (cases type; simp add: before_log_def after_log_def open_read_def open_append_def if_file_exists_def)+

lemma init_log_unfold:
  assumes "path_join [dm_basepath (db_disk s), log_name type] = Some path"
  shows "init_log wait g type s = map_option (map_sum id (\<lambda>s. s\<lparr>db_disk := after_log type path (db_disk s)\<rparr>))
     (case dm_files (db_disk s) path of
         None \<Rightarrow> Some (Inr s)
       | Some bs \<Rightarrow> do {
           (idx, buffer) \<leftarrow> request_record_buff (db_buffer s);
           buffer \<leftarrow> wait_for_access idx buffer;
           recover_records wait g type bs idx (s\<lparr>db_disk := before_log type path (db_disk s), db_buffer := buffer\<rparr>)
         })"
  using assms unfolding init_log_def log_name_def after_log_def before_log_def
  by (auto simp del: path_join.simps simp: map_option_case Let_def split: LogType.splits option.splits bind_splits sum.splits)

lemma slot_of_disk: "slot_of (s\<lparr>db_disk := d\<rparr>) = slot_of s" "db_map (s\<lparr>db_disk := d\<rparr>) = db_map s"
  "db_core (s\<lparr>db_disk := d\<rparr>) = db_core s"
proof -
  show slot: "slot_of (s\<lparr>db_disk := d\<rparr>) = slot_of s" by (simp add: slot_of_def fun_eq_iff)
  show "db_map (s\<lparr>db_disk := d\<rparr>) = db_map s" "db_core (s\<lparr>db_disk := d\<rparr>) = db_core s"
    unfolding db_map_def [abs_def] db_core_def slot by simp_all
qed

text \<open>The first slot and the open log.\<close>

lemma init_log_reading:
  assumes core: "db_core s" and path: "path_join [dm_basepath (db_disk s), log_name type] = Some path"
    and log: "dm_files (db_disk s) path = Some bs" and free: "bf_empty (db_buffer s) \<noteq> []"
  shows "\<exists>i t. init_log wait g type s = map_option (map_sum id (\<lambda>s. s\<lparr>db_disk := after_log type path (db_disk s)\<rparr>))
      (recover_records wait g type bs i t)
    \<and> reading i t \<and> readable type t \<and> bf_empty (db_buffer t) = butlast (bf_empty (db_buffer s)) \<and> db_map t = db_map s
    \<and> mt_wait_for_dump (db_mem t) = mt_wait_for_dump (db_mem s) \<and> db_manifest t = db_manifest s
    \<and> db_disk t = before_log type path (db_disk s)"
proof -
  let ?s = "s\<lparr>db_disk := before_log type path (db_disk s)\<rparr>"
  have "db_core ?s" "bf_empty (db_buffer ?s) \<noteq> []" using core free by (simp_all add: slot_of_disk)
  from request_access [OF this] obtain i b b' where b: "request_record_buff (db_buffer s) = Some (i, b)"
    "wait_for_access i b = Some b'" "reading i (?s\<lparr>db_buffer := b'\<rparr>)"
    "bf_empty b' = butlast (bf_empty (db_buffer s))" "db_map (?s\<lparr>db_buffer := b'\<rparr>) = db_map ?s" by auto
  have "readable type (?s\<lparr>db_buffer := b'\<rparr>)" by (cases type) (simp_all add: readable_def before_log_simps)
  then show ?thesis
    using log b by (intro exI [of _ i] exI [of _ "?s\<lparr>db_buffer := b'\<rparr>"]) (simp add: init_log_unfold [OF path] slot_of_disk)
qed

lemma init_log_ok:
  assumes core: "db_core s" and path: "path_join [dm_basepath (db_disk s), log_name type] = Some path"
    and log: "holds (dm_files (db_disk s)) path rs" and len: "length rs < length (bf_empty (db_buffer s))"
  shows "\<exists>s'. init_log wait g type s = Some (Inr s') \<and> db_core s' \<and> db_map s' = log_map rs (db_map s)
    \<and> length (bf_empty (db_buffer s')) + length rs = length (bf_empty (db_buffer s))
    \<and> mt_wait_for_dump (db_mem s') = mt_wait_for_dump (db_mem s) \<and> db_manifest s' = db_manifest s
    \<and> db_disk s' = after_log type path (db_disk s)"
proof (cases "dm_files (db_disk s) path")
  case None
  then show ?thesis using log core
    by (auto simp: init_log_unfold [OF path] slot_of_disk holds_def log_map_def)
next
  case (Some bs)
  then have bs: "bs = log_bytes rs" "\<forall>r \<in> set rs. sized r" using log by (simp_all add: holds_def)
  have "bf_empty (db_buffer s) \<noteq> []" using len by auto
  from init_log_reading [OF core path Some this, of wait g] obtain i t where t: "init_log wait g type s
      = map_option (map_sum id (\<lambda>s. s\<lparr>db_disk := after_log type path (db_disk s)\<rparr>)) (recover_records wait g type bs i t)"
    "reading i t" "readable type t" "bf_empty (db_buffer t) = butlast (bf_empty (db_buffer s))" "db_map t = db_map s"
    "mt_wait_for_dump (db_mem t) = mt_wait_for_dump (db_mem s)" "db_manifest t = db_manifest s"
    "db_disk t = before_log type path (db_disk s)" by blast
  have "length rs \<le> length (bf_empty (db_buffer t))" using len t(4) by simp
  with recover_records_ok [OF t(2) bs(2) _ t(3), of wait g] obtain s' where s':
    "recover_records wait g type (log_bytes rs) i t = Some (Inr s')" "db_core s'" "db_frame t s'"
    "db_map s' = log_map rs (db_map t)" "length (bf_empty (db_buffer s')) + length rs = length (bf_empty (db_buffer t)) + 1"
    by blast
  have "init_log wait g type s = Some (Inr (s'\<lparr>db_disk := after_log type path (db_disk s')\<rparr>))"
    using t(1) bs(1) s'(1) by simp
  with s'(2-5) t(4-8) len show ?thesis by (auto simp: slot_of_disk db_frame_def before_log_simps)
qed

text \<open>A log whose last record was cut short.\<close>

lemma init_log_torn:
  assumes core: "db_core s" and path: "path_join [dm_basepath (db_disk s), log_name type] = Some path"
    and log: "dm_files (db_disk s) path = Some (log_bytes rs @ bs)" "\<forall>r \<in> set rs. sized r"
    and torn: "bs \<noteq> []" "length bs < sizeof_Record" and len: "length rs < length (bf_empty (db_buffer s))"
  shows "init_log wait g type s = Some (Inl Assertion_failed)"
proof -
  have "bf_empty (db_buffer s) \<noteq> []" using len by auto
  from init_log_reading [OF core path log(1) this, of wait g] obtain i t where t: "init_log wait g type s
      = map_option (map_sum id (\<lambda>s. s\<lparr>db_disk := after_log type path (db_disk s)\<rparr>))
          (recover_records wait g type (log_bytes rs @ bs) i t)"
    "reading i t" "readable type t" "bf_empty (db_buffer t) = butlast (bf_empty (db_buffer s))" by blast
  have "length rs \<le> length (bf_empty (db_buffer t))" using len t(4) by simp
  then show ?thesis using t(1) recover_records_torn [OF t(2) log(2) _ t(3) torn] by simp
qed

text \<open>A hot log with more records than there are slots.\<close>

lemma init_hot_full:
  assumes core: "db_core s" and path: "path_join [dm_basepath (db_disk s), HOT_LOG] = Some path"
    and log: "dm_files (db_disk s) path = Some (log_bytes rs)" "\<forall>r \<in> set rs. sized r"
    and len: "length (bf_empty (db_buffer s)) \<le> length rs" and free: "bf_empty (db_buffer s) \<noteq> []"
  shows "\<exists>u g' bs. init_log wait g HOT_LOG_T s = map_option (map_sum id (\<lambda>s. s\<lparr>db_disk := open_append path (db_disk s)\<rparr>)) (do {
         (i, v) \<leftarrow> recover_next wait HOT_LOG_T u;
         recover_records wait g' HOT_LOG_T bs i v
       })
    \<and> db_core u \<and> db_map u = log_map (take (length (bf_empty (db_buffer s))) rs) (db_map s) \<and> bf_empty (db_buffer u) = []
    \<and> mt_wait_for_dump (db_mem u) = mt_wait_for_dump (db_mem s) \<and> db_manifest u = db_manifest s
    \<and> db_disk u = open_read path (db_disk s)"
proof -
  have "path_join [dm_basepath (db_disk s), log_name HOT_LOG_T] = Some path" using path by (simp only: log_name_def LogType.case)
  from init_log_reading [OF core this log(1) free, of wait g] obtain i t where t: "init_log wait g HOT_LOG_T s
      = map_option (map_sum id (\<lambda>s. s\<lparr>db_disk := open_append path (db_disk s)\<rparr>))
          (recover_records wait g HOT_LOG_T (log_bytes rs @ []) i t)"
    "reading i t" "readable HOT_LOG_T t" "bf_empty (db_buffer t) = butlast (bf_empty (db_buffer s))" "db_map t = db_map s"
    "mt_wait_for_dump (db_mem t) = mt_wait_for_dump (db_mem s)" "db_manifest t = db_manifest s"
    "db_disk t = open_read path (db_disk s)"
    by (auto simp: after_log_def before_log_def)
  have n: "Suc (length (bf_empty (db_buffer t))) = length (bf_empty (db_buffer s))" using t(4) free by (cases "bf_empty (db_buffer s)") auto
  then have "length (bf_empty (db_buffer t)) < length rs" using len by simp
  from recover_hot_full [OF t(2) log(2) this t(3), of g wait "[]"]
  obtain m j v u where u: "m = length (bf_empty (db_buffer t))" "db_frame t v" "db_core u" "db_frame v u"
    "db_map u = log_map (take (Suc m) rs) (db_map t)" "bf_empty (db_buffer u) = []"
    "recover_records wait g HOT_LOG_T (log_bytes rs @ []) i t = do {
         (i, v) \<leftarrow> recover_next wait HOT_LOG_T u;
         recover_records wait (\<lambda>k. g (m + Suc k)) HOT_LOG_T (log_bytes (drop (Suc m) rs) @ []) i v
       }" by blast
  have "db_frame t u" using u(2,4) by (rule db_frame_trans)
  moreover have "Suc m = length (bf_empty (db_buffer s))" using u(1) n by simp
  ultimately show ?thesis using t(1,5-8) u(3,5-7)
    by (intro exI [of _ u] exI [of _ "\<lambda>k. g (m + Suc k)"] exI [of _ "log_bytes (drop (Suc m) rs) @ []"])
      (simp only: db_frame_def simp_thms)
qed

text \<open>The state before the logs are read.\<close>

definition manifest_new :: Manifester where
  "manifest_new = \<lparr>mn_records = [], mn_record_cnt = replicate MAX_LOG_RECORD_NUM 0\<rparr>"

lemma manifester_none:
  assumes "base \<noteq> []" and "fs (the (path_join [base, MANIFIST_FILE])) = None"
  shows "Manifester_new (DiskManager_init base fs) = Some manifest_new"
proof -
  obtain p where "path_join [base, MANIFIST_FILE] = Some (p @ MANIFIST_FILE)"
    using path_join_base [OF assms(1)] by blast
  then show ?thesis
    using assms(2) by (simp add: Manifester_new_def recover_manifist_def DiskManager_init_def manifest_new_def del: path_join.simps)
qed

lemma DBSystem_init_manifest:
  assumes mn: "Manifester_new (DiskManager_init base fs) = Some mn"
  shows "\<exists>s. db_core s \<and> db_map s = Map.empty \<and> db_buffer s = Buffer_new \<and> mt_wait_for_dump (db_mem s) = []
    \<and> db_manifest s = mn \<and> db_disk s = DiskManager_init base fs
    \<and> (\<forall>wait. DBSystem_open wait g g' base fs
      = Option.bind (init_log wait g DIED_LOG_T s) (case_sum (\<lambda>e. Some (Inl e)) (init_log wait g' HOT_LOG_T)))"
proof -
  obtain m where m: "MemTables_new = Some m" "calm m" "only_first m" "first_map m = Map.empty"
    "mt_wait_for_dump m = []" using MemTables_new_calm by blast
  let ?s = "\<lparr>db_buffer = Buffer_new, db_hash = IndexHashMap_new, db_mem = m, db_disk = DiskManager_init base fs, db_manifest = mn\<rparr>"
  have run: "DBSystem_open wait g g' base fs
      = Option.bind (init_log wait g DIED_LOG_T ?s) (case_sum (\<lambda>e. Some (Inl e)) (init_log wait g' HOT_LOG_T))" for wait
    by (auto simp: DBSystem_open_def m(1) mn Let_def intro!: Option.bind_cong split: sum.split)
  moreover have "quiet Buffer_new" using buffer_new_inv by (simp add: quiet_def Buffer_new_def)
  moreover have slots: "slot_of ?s = Map.empty" by (simp add: slot_of_def [abs_def] index_new_lookup)
  ultimately have "db_core ?s" using m(2,3,4) index_new_inv by (simp add: db_core_def)
  moreover have "db_map ?s = Map.empty" unfolding db_map_def [abs_def] slots by simp
  ultimately show ?thesis using run m(5) by (intro exI [of _ ?s]) simp
qed

lemma DBSystem_open_manifest:
  assumes base: "base \<noteq> []" and mf: "Manifester_new (DiskManager_init base fs) = Some mn"
    and died: "holds fs (the (path_join [base, DIED_LOG])) rs" and hot: "holds fs (the (path_join [base, HOT_LOG])) rs'"
    and len: "length rs + length rs' < RECORD_BUFF_SIZE"
  shows "\<exists>s. DBSystem_open wait g g' base fs = Some (Inr s) \<and> db_ok s \<and> db_map s = log_map (rs @ rs') Map.empty
    \<and> length (bf_empty (db_buffer s)) + (length rs + length rs') = RECORD_BUFF_SIZE
    \<and> mt_wait_for_dump (db_mem s) = [] \<and> db_manifest s = mn
    \<and> db_disk s = open_append (the (path_join [base, HOT_LOG])) (DiskManager_init base fs)"
proof -
  obtain s where s: "db_core s" "db_map s = Map.empty" "db_buffer s = Buffer_new"
    "mt_wait_for_dump (db_mem s) = []" "db_manifest s = mn" "db_disk s = DiskManager_init base fs"
    "DBSystem_open wait g g' base fs
      = Option.bind (init_log wait g DIED_LOG_T s) (case_sum (\<lambda>e. Some (Inl e)) (init_log wait g' HOT_LOG_T))"
    using DBSystem_init_manifest [OF mf, of g g'] by blast
  obtain p where p: "path_join [base, HOT_LOG] = Some (p @ HOT_LOG)" "path_join [base, DIED_LOG] = Some (p @ DIED_LOG)"
    using path_join_base [OF base] by blast
  have d: "dm_basepath (db_disk s) = base" "dm_files (db_disk s) = fs" using s(6) by (simp_all add: DiskManager_init_def)
  have all: "length (bf_empty (db_buffer s)) = RECORD_BUFF_SIZE" using s(3) by (simp add: Buffer_new_def)
  have "path_join [dm_basepath (db_disk s), log_name DIED_LOG_T] = Some (p @ DIED_LOG)" by (simp only: log_name_def d p LogType.case)
  from init_log_ok [OF s(1) this, of rs wait g] died len obtain t where t: "init_log wait g DIED_LOG_T s = Some (Inr t)" "db_core t"
    "db_map t = log_map rs Map.empty" "length (bf_empty (db_buffer t)) + length rs = RECORD_BUFF_SIZE"
    "mt_wait_for_dump (db_mem t) = []" "db_manifest t = mn" "db_disk t = db_disk s"
    unfolding d p all by (auto simp: s(2,4,5) after_log_def)
  have "path_join [dm_basepath (db_disk t), log_name HOT_LOG_T] = Some (p @ HOT_LOG)" by (simp only: log_name_def t(7) d p LogType.case)
  from init_log_ok [OF t(2) this, of rs' wait g'] hot len t(4) obtain u where u: "init_log wait g' HOT_LOG_T t = Some (Inr u)" "db_core u"
    "db_map u = log_map rs' (db_map t)" "length (bf_empty (db_buffer u)) + length rs' = length (bf_empty (db_buffer t))"
    "mt_wait_for_dump (db_mem u) = []" "db_manifest u = mn" "db_disk u = open_append (p @ HOT_LOG) (db_disk s)"
    unfolding t(7) d p by (auto simp: t(5,6) after_log_def)
  have "db_ok u" using u(2) by (auto simp: db_ok_def u(7) open_append_def if_file_exists_def)
  moreover have "db_map u = log_map (rs @ rs') Map.empty" using u(3) t(3) by (simp add: log_map_def)
  ultimately show ?thesis
    using s(6,7) t(1,4) u(1,4-7) unfolding p by (intro exI [of _ u]) simp
qed

lemma DBSystem_recover_manifest:
  assumes "base \<noteq> []" and "Manifester_new (DiskManager_init base fs) = Some mn"
    and "holds fs (the (path_join [base, DIED_LOG])) rs" and "holds fs (the (path_join [base, HOT_LOG])) rs'"
    and "length rs + length rs' < RECORD_BUFF_SIZE"
  shows "\<exists>s. DBSystem_init g g' base fs = Some s \<and> db_ok s \<and> db_map s = log_map (rs @ rs') Map.empty
    \<and> length (bf_empty (db_buffer s)) + (length rs + length rs') = RECORD_BUFF_SIZE
    \<and> mt_wait_for_dump (db_mem s) = [] \<and> db_manifest s = mn
    \<and> db_disk s = open_append (the (path_join [base, HOT_LOG])) (DiskManager_init base fs)"
  using DBSystem_open_manifest [OF assms, of "\<lambda>_. None" g g'] by (auto simp: DBSystem_init_def simp del: path_join.simps)

text \<open>Without a manifest file.\<close>

lemmas DBSystem_init_logs = DBSystem_init_manifest [OF manifester_none]

lemma DBSystem_recover:
  assumes base: "base \<noteq> []" and mf: "fs (the (path_join [base, MANIFIST_FILE])) = None"
    and died: "holds fs (the (path_join [base, DIED_LOG])) rs" and hot: "holds fs (the (path_join [base, HOT_LOG])) rs'"
    and len: "length rs + length rs' < RECORD_BUFF_SIZE"
  shows "\<exists>s. DBSystem_init g g' base fs = Some s \<and> db_ok s \<and> db_map s = log_map (rs @ rs') Map.empty
    \<and> length (bf_empty (db_buffer s)) + (length rs + length rs') = RECORD_BUFF_SIZE
    \<and> mt_wait_for_dump (db_mem s) = [] \<and> db_manifest s = manifest_new
    \<and> db_disk s = open_append (the (path_join [base, HOT_LOG])) (DiskManager_init base fs)"
  by (rule DBSystem_recover_manifest [OF base manifester_none [where base = base and fs = fs, OF base mf] died hot len])

text \<open>No died log: the hot log is read in the first state.\<close>

lemma DBSystem_open_hot:
  assumes base: "base \<noteq> []" and mf: "fs (the (path_join [base, MANIFIST_FILE])) = None"
    and died: "fs (the (path_join [base, DIED_LOG])) = None"
  shows "\<exists>s. db_core s \<and> db_map s = Map.empty \<and> db_buffer s = Buffer_new \<and> mt_wait_for_dump (db_mem s) = []
    \<and> db_manifest s = manifest_new \<and> db_disk s = DiskManager_init base fs
    \<and> (\<forall>wait. DBSystem_open wait g g' base fs = init_log wait g' HOT_LOG_T s)"
proof -
  obtain s where s: "db_core s" "db_map s = Map.empty" "db_buffer s = Buffer_new" "mt_wait_for_dump (db_mem s) = []"
    "db_manifest s = manifest_new" "db_disk s = DiskManager_init base fs"
    "\<forall>wait. DBSystem_open wait g g' base fs
      = Option.bind (init_log wait g DIED_LOG_T s) (case_sum (\<lambda>e. Some (Inl e)) (init_log wait g' HOT_LOG_T))"
    using DBSystem_init_logs [where base = base and fs = fs and g = g and g' = g', OF base mf] by blast
  obtain p where p: "path_join [base, DIED_LOG] = Some (p @ DIED_LOG)" using path_join_base [OF base] by blast
  have d: "dm_basepath (db_disk s) = base" "dm_files (db_disk s) = fs" using s(6) by (simp_all add: DiskManager_init_def)
  have path: "path_join [dm_basepath (db_disk s), log_name DIED_LOG_T] = Some (p @ DIED_LOG)" by (simp only: log_name_def d p LogType.case)
  have "init_log wait g DIED_LOG_T s = Some (Inr s)" for wait
    using died unfolding init_log_unfold [OF path] d p by (simp add: after_log_def)
  with s show ?thesis by (intro exI [of _ s]) simp
qed

lemma log_map_records:
  assumes "\<forall>w \<in> set ws. valid_write w"
  shows "log_map (records ws) Map.empty = contents ws"
  using assms by (induction ws rule: rev_induct) (auto simp: log_map_def new_record_def)

subsection \<open>From one state to the next\<close>

text \<open>\<open>since s0 ws s\<close>: the writes lead from \<open>s0\<close> to \<open>s\<close>, without a dump.\<close>

definition log_extend :: "Record list \<Rightarrow> DiskManager \<Rightarrow> DiskManager" where
  "log_extend rs d = d\<lparr>dm_curr_log_len := dm_curr_log_len d + length rs * sizeof_Record,
     dm_files := write_fd (dm_curr_log_fd d) (log_bytes rs) (dm_files d)\<rparr>"

definition since :: "DBSystem \<Rightarrow> write_op list \<Rightarrow> DBSystem \<Rightarrow> bool" where
  "since s0 ws s \<longleftrightarrow> db_ok s \<and> db_map s = db_map s0 ++ contents ws
     \<and> bf_empty (db_buffer s) = take (length (bf_empty (db_buffer s0)) - length ws) (bf_empty (db_buffer s0))
     \<and> mt_wait_for_dump (db_mem s) = mt_wait_for_dump (db_mem s0) \<and> db_manifest s = db_manifest s0
     \<and> db_disk s = log_extend (records ws) (db_disk s0)"

lemma length_records [simp]: "length (records ws) = length ws"
  by (simp add: records_def)

lemma write_fd_append: "write_fd fd b (write_fd fd a fs) = write_fd fd (a @ b) fs"
  by (cases fd) (auto simp: write_fd_def fun_eq_iff option.map_comp comp_def)

lemma log_extend_simps:
  "log_extend [] d = d" "log_append r (log_extend rs d) = log_extend (rs @ [r]) d"
  "dm_curr_log_fd (log_extend rs d) = dm_curr_log_fd d" "dm_basepath (log_extend rs d) = dm_basepath d"
  "dm_curr_log_len (log_extend rs d) = dm_curr_log_len d + length rs * sizeof_Record"
proof -
  have "write_fd fd [] fs = fs" for fd fs
    by (cases fd) (auto simp: write_fd_def fun_eq_iff option.map_ident)
  then show "log_extend [] d = d" by (simp add: log_extend_def log_bytes_def)
  show "log_append r (log_extend rs d) = log_extend (rs @ [r]) d"
    by (simp add: log_extend_def log_append_def write_fd_append log_bytes_def)
qed (simp_all add: log_extend_def)

lemma db_core_finite:
  assumes "db_core s"
  shows "finite (dom (db_map s))"
proof -
  have "slot_of s ` dom (slot_of s) \<subseteq> Some ` {..<RECORD_BUFF_SIZE}"
    using db_core_card(2) [OF assms] by force
  then have "finite (slot_of s ` dom (slot_of s))" by (rule finite_subset) simp
  moreover have "inj_on (slot_of s) (dom (slot_of s))" using assms by (simp add: db_core_def)
  ultimately show ?thesis unfolding dom_db_map(1) by (rule finite_imageD)
qed

lemma since_refl: "db_ok s \<Longrightarrow> since s [] s"
  by (simp add: since_def log_extend_simps)

lemma since_put:
  assumes at: "since s0 ws s" and valid: "valid_write w"
    and len: "length ws < length (bf_empty (db_buffer s0))"
    and log: "dm_curr_log_len (db_disk s0) + Suc (length ws) * sizeof_Record < 2 ^ 31"
  shows "\<exists>s'. db_put rnd (key_of w) (snd (snd w)) s = Some s' \<and> since s0 (ws @ [w]) s'
    \<and> db_step (key_of w) (snd (snd w)) s s'"
proof -
  have "dm_curr_log_len (db_disk s) + sizeof_Record < 2 ^ 31"
    using at log by (simp add: since_def log_extend_simps)
  moreover have "bf_empty (db_buffer s) \<noteq> []" using at len by (auto simp: since_def)
  moreover have "db_ok s" "RECORD_VALUE_LEN \<le> length (snd (snd w))"
    using at valid by (auto simp: since_def valid_write_def)
  ultimately obtain s' where s': "db_put rnd (key_of w) (snd (snd w)) s = Some s'"
    "db_step (key_of w) (snd (snd w)) s s'"
    using db_put_ok by blast
  have "since s0 (ws @ [w]) s'"
    using s'(2) at len unfolding since_def db_step_def by (simp add: log_extend_simps butlast_take)
  with s' show ?thesis by blast
qed

lemma since_write:
  assumes at: "since s0 ws s" and valid: "valid_write (rnd, key, val)"
    and len: "length ws < length (bf_empty (db_buffer s0))"
    and log: "dm_curr_log_len (db_disk s0) + Suc (length ws) * sizeof_Record < 2 ^ 31"
    and keys: "card (dom (db_map s0) \<union> key_of ` set (ws @ [(rnd, key, val)])) < RECORD_BUFF_SIZE"
  shows "\<exists>s'. DBSystem_write rnd key val s = Some s' \<and> since s0 (ws @ [(rnd, key, val)]) s'
    \<and> db_step (key_of (rnd, key, val)) val s s'"
proof -
  let ?w = "(rnd, key, val)"
  obtain s' where s': "db_put rnd (key_of ?w) val s = Some s'" "since s0 (ws @ [?w]) s'" "db_step (key_of ?w) val s s'"
    using since_put [OF at valid len log, of rnd] by auto
  have "get_key_string key = Some (key_of ?w)" using valid by (auto simp: valid_write_def key_of_def)
  moreover have "db_ok s'" "card (dom (db_map s')) < RECORD_BUFF_SIZE"
    using s'(2) keys unfolding since_def by (simp_all only: dom_map_add dom_contents Un_commute)
  ultimately show ?thesis using s' db_check_small by (simp add: write_split)
qed

lemma since_writes:
  assumes ok: "db_ok s0" and "\<forall>w \<in> set ws. valid_write w" and "length ws \<le> length (bf_empty (db_buffer s0))"
    and log: "dm_curr_log_len (db_disk s0) + length ws * sizeof_Record < 2 ^ 31"
    and "card (dom (db_map s0) \<union> key_of ` set ws) < RECORD_BUFF_SIZE"
  shows "\<exists>s. db_writes ws s0 = Some s \<and> since s0 ws s"
  using assms(2-5)
proof (induction ws rule: rev_induct)
  case Nil
  then show ?case using since_refl [OF ok] by simp
next
  case (snoc w ws)
  obtain rnd key val where w: "w = (rnd, key, val)" by (cases w)
  have "finite (dom (db_map s0))" using db_core_finite [OF db_ok_core [OF ok]] .
  then have "card (dom (db_map s0) \<union> key_of ` set ws) \<le> card (dom (db_map s0) \<union> key_of ` set (ws @ [w]))"
    by (intro card_mono) auto
  with snoc obtain s where s: "db_writes ws s0 = Some s" "since s0 ws s" by auto
  from since_write [OF s(2), of rnd key val] snoc.prems obtain s' where
    "DBSystem_write rnd key val s = Some s'" "since s0 (ws @ [w]) s'" by (auto simp: w)
  with s(1) show ?case by (auto simp: w db_writes_snoc)
qed

subsection \<open>A process that starts without files\<close>

lemma no_files_holds:
  assumes "no_files base fs"
  shows "base \<noteq> []" and "fs (the (path_join [base, MANIFIST_FILE])) = None"
    and "holds fs (the (path_join [base, DIED_LOG])) []" and "holds fs (the (path_join [base, HOT_LOG])) []"
  using assms by (simp_all add: no_files_def holds_def del: path_join.simps)

lemma log_map_contents:
  assumes "\<forall>w \<in> set ws. valid_write w"
  shows "log_map (records ws) Map.empty = contents ws"
  using assms by (induction ws rule: rev_induct) (auto simp: log_map_def new_record_def)

lemma fresh_db:
  assumes nf: "no_files base fs"
  shows "\<exists>s. DBSystem_init g g' base fs = Some s \<and> db_ok s \<and> db_map s = Map.empty
    \<and> length (bf_empty (db_buffer s)) = RECORD_BUFF_SIZE \<and> mt_wait_for_dump (db_mem s) = []
    \<and> dm_curr_log_len (db_disk s) = 0 \<and> dm_curr_log_fd (db_disk s) = Some (the (path_join [base, HOT_LOG]))
    \<and> dm_files (db_disk s) = fs(the (path_join [base, HOT_LOG]) \<mapsto> [])"
proof -
  have "fs (the (path_join [base, HOT_LOG])) = None" using nf by (simp add: no_files_def del: path_join.simps)
  then show ?thesis
    using DBSystem_recover [where base = base and fs = fs and g = g and g' = g', OF no_files_holds [OF nf]]
    by (auto simp: RECORD_BUFF_SIZE_def log_map_def open_append_def DiskManager_init_def if_file_exists_def simp del: path_join.simps)
qed

lemma fresh_writes:
  assumes nf: "no_files base fs" and valid: "\<forall>w \<in> set ws. valid_write w"
    and len: "length ws \<le> RECORD_BUFF_SIZE" and keys: "card (key_of ` set ws) < RECORD_BUFF_SIZE"
  shows "\<exists>s. Option.bind (DBSystem_init g g' base fs) (db_writes ws) = Some s \<and> db_ok s \<and> db_map s = contents ws
    \<and> length (bf_empty (db_buffer s)) + length ws = RECORD_BUFF_SIZE \<and> mt_wait_for_dump (db_mem s) = []
    \<and> dm_files (db_disk s) = fs(the (path_join [base, HOT_LOG]) \<mapsto> log_bytes (records ws))"
proof -
  obtain s0 where s0: "DBSystem_init g g' base fs = Some s0" "db_ok s0" "db_map s0 = Map.empty"
    "length (bf_empty (db_buffer s0)) = RECORD_BUFF_SIZE" "mt_wait_for_dump (db_mem s0) = []"
    and d: "dm_curr_log_len (db_disk s0) = 0" "dm_curr_log_fd (db_disk s0) = Some (the (path_join [base, HOT_LOG]))"
    "dm_files (db_disk s0) = fs(the (path_join [base, HOT_LOG]) \<mapsto> [])"
    using fresh_db [OF nf, of g g'] by blast
  have "length ws * sizeof_Record < 2 ^ 31"
    using len by (simp add: RECORD_BUFF_SIZE_def sizeof_Record_def RECORD_VALUE_LEN_def)
  with since_writes [OF s0(2) valid] len keys obtain s where s: "db_writes ws s0 = Some s" "since s0 ws s"
    by (auto simp: d s0(3,4))
  have "dm_files (db_disk s) = fs(the (path_join [base, HOT_LOG]) \<mapsto> log_bytes (records ws))"
    using s(2) by (simp add: since_def log_extend_def d write_fd_def del: path_join.simps)
  with s(2) len show ?thesis by (simp add: s0 s(1) since_def del: path_join.simps)
qed

text \<open>The files after the writes.\<close>

lemma log_files:
  assumes nf: "no_files base fs" and fs': "fs' = fs(the (path_join [base, HOT_LOG]) \<mapsto> bs)"
  shows "fs' (the (path_join [base, MANIFIST_FILE])) = None" and "fs' (the (path_join [base, DIED_LOG])) = None"
proof -
  obtain p where p: "path_join [base, HOT_LOG] = Some (p @ HOT_LOG)" "path_join [base, DIED_LOG] = Some (p @ DIED_LOG)"
    "path_join [base, MANIFIST_FILE] = Some (p @ MANIFIST_FILE)"
    using path_join_base nf by (auto simp: no_files_def simp del: path_join.simps)
  have "HOT_LOG \<noteq> MANIFIST_FILE" by (simp add: HOT_LOG_def MANIFIST_FILE_def cstr_def)
  with nf log_names(1) show "fs' (the (path_join [base, MANIFIST_FILE])) = None"
    "fs' (the (path_join [base, DIED_LOG])) = None"
    unfolding fs' by (simp_all add: p no_files_def del: path_join.simps)
qed

text \<open>A new process that finds these files reads what is in the log.\<close>

lemma recover_hot:
  assumes nf: "no_files base fs" and fs': "fs' = fs(the (path_join [base, HOT_LOG]) \<mapsto> log_bytes rs)"
    and rs: "\<forall>r \<in> set rs. sized r" "length rs < RECORD_BUFF_SIZE"
  shows "\<exists>s. DBSystem_init h h' base fs' = Some s
    \<and> (\<forall>key k. get_key_string key = Some k \<longrightarrow> DBSystem_read key s = map_option (\<lambda>v. (v, s)) (log_map rs Map.empty k))"
proof -
  note files = log_files [OF nf fs']
  have "holds fs' (the (path_join [base, DIED_LOG])) []" using files(2) by (simp add: holds_def del: path_join.simps)
  moreover have "holds fs' (the (path_join [base, HOT_LOG])) rs" using rs(1) by (simp add: holds_def fs' del: path_join.simps)
  moreover have "length ([] :: Record list) + length rs < RECORD_BUFF_SIZE" using rs(2) by simp
  ultimately obtain s where "DBSystem_init h h' base fs' = Some s" "db_ok s" "db_map s = log_map ([] @ rs) Map.empty"
    using DBSystem_recover [where base = base and fs = fs' and g = h and g' = h', OF no_files_holds(1) [OF nf] files(1)] by blast
  then show ?thesis using db_read_eq db_ok_core by (metis append_Nil)
qed

lemma open_torn:
  assumes nf: "no_files base fs" and rs: "\<forall>r \<in> set rs. sized r" and torn: "bs \<noteq> []" "length bs < sizeof_Record"
    and len: "length rs < RECORD_BUFF_SIZE"
  shows "DBSystem_open wait h h' base (fs(the (path_join [base, HOT_LOG]) \<mapsto> log_bytes rs @ bs)) = Some (Inl Assertion_failed)"
proof -
  let ?fs = "fs(the (path_join [base, HOT_LOG]) \<mapsto> log_bytes rs @ bs)"
  note files = log_files [OF nf refl, of "log_bytes rs @ bs"]
  obtain s where s: "db_core s" "db_buffer s = Buffer_new" "db_disk s = DiskManager_init base ?fs"
    "\<forall>wait. DBSystem_open wait h h' base ?fs = init_log wait h' HOT_LOG_T s"
    using DBSystem_open_hot [OF no_files_holds(1) [OF nf] files, of h h'] by blast
  obtain p where p: "path_join [base, HOT_LOG] = Some (p @ HOT_LOG)"
    using path_join_base [OF no_files_holds(1) [OF nf]] by blast
  have d: "dm_basepath (db_disk s) = base" "dm_files (db_disk s) = ?fs" using s(3) by (simp_all add: DiskManager_init_def)
  have "path_join [dm_basepath (db_disk s), log_name HOT_LOG_T] = Some (p @ HOT_LOG)" by (simp only: log_name_def d p LogType.case)
  from init_log_torn [OF s(1) this _ rs torn, of wait h'] len have "init_log wait h' HOT_LOG_T s = Some (Inl Assertion_failed)"
    by (simp add: s(2) d p Buffer_new_def del: path_join.simps)
  then show ?thesis using s(4) by (simp del: path_join.simps)
qed

text \<open>C2: A store that starts in an empty directory is a map, as long as fewer than
  \<^verbatim>\<open>RECORD_BUFF_SIZE\<close> writes are made: none of the writes fails or blocks, and then a
  read returns the value last written under its key, without changing anything. A read of a key
  that was never written dereferences a null pointer.\<close>

theorem db_history:
  assumes "no_files base fs" and "\<forall>w \<in> set ws. valid_write w" and "length ws < RECORD_BUFF_SIZE"
  shows "\<exists>s. Option.bind (DBSystem_init g g' base fs) (db_writes ws) = Some s
    \<and> (\<forall>key k. get_key_string key = Some k \<longrightarrow> DBSystem_read key s = map_option (\<lambda>v. (v, s)) (contents ws k))"
proof -
  have "card (key_of ` set ws) \<le> length ws" by (metis card_length list.set_map length_map)
  with fresh_writes [OF assms(1,2), of g g'] assms(3) obtain s where
    "Option.bind (DBSystem_init g g' base fs) (db_writes ws) = Some s" "db_ok s" "db_map s = contents ws" by auto
  with db_read_eq db_ok_core show ?thesis by metis
qed

text \<open>C3: No write is lost by a crash: a new process that finds the files which these writes
  left reads the same value under every key.\<close>

theorem db_crash_recovery:
  assumes "no_files base fs" and "\<forall>w \<in> set ws. valid_write w" and "length ws < RECORD_BUFF_SIZE"
  shows "\<exists>s s'. Option.bind (DBSystem_init g g' base fs) (db_writes ws) = Some s
    \<and> DBSystem_init h h' base (dm_files (db_disk s)) = Some s'
    \<and> (\<forall>key k. get_key_string key = Some k \<longrightarrow> DBSystem_read key s' = map_option (\<lambda>v. (v, s')) (contents ws k))"
proof -
  have "card (key_of ` set ws) \<le> length ws" by (metis card_length list.set_map length_map)
  with fresh_writes [OF assms(1,2), of g g'] assms(3) obtain s where s:
    "Option.bind (DBSystem_init g g' base fs) (db_writes ws) = Some s"
    "dm_files (db_disk s) = fs(the (path_join [base, HOT_LOG]) \<mapsto> log_bytes (records ws))" by auto
  have "length (records ws) < RECORD_BUFF_SIZE" using assms(3) by simp
  with recover_hot [OF assms(1) s(2) sized_records [OF assms(2)]] s(1) show ?thesis
    unfolding log_map_contents [OF assms(2)] by blast
qed

text \<open>A log that is cut anywhere: whole records and a rest.\<close>

lemma log_bytes_take:
  assumes "\<forall>r \<in> set rs. sized r"
  shows "take n (log_bytes rs) = log_bytes (take (n div sizeof_Record) rs)
      @ take (n mod sizeof_Record) (log_bytes (drop (n div sizeof_Record) rs))"
proof -
  let ?k = "n div sizeof_Record"
  have rs: "log_bytes rs = log_bytes (take ?k rs) @ log_bytes (drop ?k rs)"
    by (simp flip: log_bytes_simps(3))
  show ?thesis
  proof (cases "?k \<le> length rs")
    case True
    have "length (log_bytes (take ?k rs)) = ?k * sizeof_Record"
      using True assms by (subst length_log_bytes) (auto dest: in_set_takeD)
    moreover have "n = ?k * sizeof_Record + n mod sizeof_Record" by simp
    ultimately show ?thesis by (subst rs) (metis add_diff_cancel_left' le_add1 take_all take_append)
  next
    case False
    then have "length rs * sizeof_Record \<le> ?k * sizeof_Record" by simp
    also have "\<dots> \<le> n" by simp
    finally show ?thesis using False by (simp add: length_log_bytes [OF assms])
  qed
qed

text \<open>C30: A crash in the middle of a write cuts the log anywhere. After any fewer than
  \<^verbatim>\<open>RECORD_BUFF_SIZE\<close> valid writes in a process that started in an empty directory, the
  log has \<^verbatim>\<open>sizeof(Record)\<close> bytes per write. If it is cut between two records, a new
  process recovers exactly the writes before the cut, in their order. If it is cut inside a record,
  the assertion on the result of \<^verbatim>\<open>read\<close> fails, whatever other threads do, and the
  store cannot be opened any more.\<close>

theorem torn_log:
  assumes "no_files base fs" and "\<forall>w \<in> set ws. valid_write w" and "length ws < RECORD_BUFF_SIZE"
    and "n \<le> length ws * sizeof_Record"
  shows "\<exists>s bs. Option.bind (DBSystem_init g g' base fs) (db_writes ws) = Some s
    \<and> dm_files (db_disk s) = fs(the (path_join [base, HOT_LOG]) \<mapsto> bs) \<and> length bs = length ws * sizeof_Record
    \<and> (if n mod sizeof_Record = 0
       then \<exists>s'. DBSystem_init h h' base (fs(the (path_join [base, HOT_LOG]) \<mapsto> take n bs)) = Some s'
         \<and> (\<forall>key k. get_key_string key = Some k \<longrightarrow>
             DBSystem_read key s' = map_option (\<lambda>v. (v, s')) (contents (take (n div sizeof_Record) ws) k))
       else DBSystem_open wait h h' base (fs(the (path_join [base, HOT_LOG]) \<mapsto> take n bs)) = Some (Inl Assertion_failed))"
proof -
  let ?hot = "the (path_join [base, HOT_LOG])" and ?k = "n div sizeof_Record" and ?bs = "log_bytes (records ws)"
  have "card (key_of ` set ws) \<le> length ws" by (metis card_length list.set_map length_map)
  with fresh_writes [OF assms(1,2), of g g'] assms(3) obtain s where s:
    "Option.bind (DBSystem_init g g' base fs) (db_writes ws) = Some s"
    "dm_files (db_disk s) = fs(?hot \<mapsto> ?bs)" by auto
  note sz = sized_records [OF assms(2)]
  let ?rs = "take ?k (records ws)" and ?rest = "take (n mod sizeof_Record) (log_bytes (drop ?k (records ws)))"
  have cut: "take n ?bs = log_bytes ?rs @ ?rest" by (rule log_bytes_take [OF sz])
  have rs: "\<forall>r \<in> set ?rs. sized r" "length ?rs < RECORD_BUFF_SIZE" using sz assms(3) by (auto dest: in_set_takeD)
  have len: "length ?bs = length ws * sizeof_Record" by (simp add: length_log_bytes [OF sz])
  have "\<exists>s'. DBSystem_init h h' base (fs(?hot \<mapsto> take n ?bs)) = Some s'
      \<and> (\<forall>key k. get_key_string key = Some k \<longrightarrow> DBSystem_read key s' = map_option (\<lambda>v. (v, s')) (contents (take ?k ws) k))"
    if "n mod sizeof_Record = 0"
  proof -
    have "take n ?bs = log_bytes ?rs" unfolding cut using that by simp
    moreover have "\<forall>w \<in> set (take ?k ws). valid_write w" using assms(2) by (auto dest: in_set_takeD)
    from log_map_contents [OF this] have "log_map ?rs Map.empty = contents (take ?k ws)" by (simp add: records_def take_map)
    ultimately show ?thesis using recover_hot [OF assms(1) _ rs, of _ h h'] by metis
  qed
  moreover have "DBSystem_open wait h h' base (fs(?hot \<mapsto> take n ?bs)) = Some (Inl Assertion_failed)"
    if "n mod sizeof_Record \<noteq> 0"
  proof -
    have "length ?rs * sizeof_Record \<le> ?k * sizeof_Record" by simp
    also have "\<dots> < n" using that div_mult_mod_eq [of n sizeof_Record] by linarith
    finally have "length ?rs * sizeof_Record < length (take n ?bs)" using assms(4) len by simp
    then have "?rest \<noteq> []" unfolding cut by (auto simp: length_log_bytes [OF rs(1)])
    moreover have "length ?rest < sizeof_Record" by (simp add: min.strict_coboundedI2)
    ultimately show ?thesis unfolding cut by (rule open_torn [OF assms(1) rs(1) _ _ rs(2)])
  qed
  ultimately show ?thesis using s len by (intro exI [of _ s] exI [of _ ?bs]) simp
qed

subsection \<open>Examples\<close>

definition one_write :: write_op where
  "one_write = (\<lambda>_. 1, cstr ''abcdefgh'', replicate RECORD_VALUE_LEN 7)"

lemma one_write_valid: "valid_write one_write" "get_key_string (cstr ''abcdefgh'') = Some (key_of one_write)"
proof -
  have "get_key_string (cstr ''abcdefgh'') \<noteq> None"
    by (simp add: get_key_string_def get_key_def cstr_def eval_nat_numeral)
  then show "valid_write one_write" "get_key_string (cstr ''abcdefgh'') = Some (key_of one_write)"
    by (auto simp: valid_write_def one_write_def key_of_def)
qed

lemma no_files_empty: "no_files [100] Map.empty"
  by (simp add: no_files_def)

lemma contents_one: "contents [one_write] (key_of one_write) = Some (replicate RECORD_VALUE_LEN 7)"
  using contents_simps(2) [of "[]" one_write] by (simp add: one_write_def)

theorem db_history_witness:
  "\<exists>s. Option.bind (DBSystem_init (\<lambda>_ _. 1) (\<lambda>_ _. 1) [100] Map.empty) (db_writes [one_write]) = Some s
    \<and> DBSystem_read (cstr ''abcdefgh'') s = Some (replicate RECORD_VALUE_LEN 7, s)"
proof -
  have "\<exists>s. Option.bind (DBSystem_init (\<lambda>_ _. 1) (\<lambda>_ _. 1) [100] Map.empty) (db_writes [one_write]) = Some s
    \<and> (\<forall>key k. get_key_string key = Some k \<longrightarrow> DBSystem_read key s = map_option (\<lambda>v. (v, s)) (contents [one_write] k))"
    by (rule db_history [OF no_files_empty]) (simp_all add: one_write_valid RECORD_BUFF_SIZE_def)
  with one_write_valid(2) contents_one show ?thesis by fastforce
qed

theorem db_crash_recovery_witness:
  "\<exists>s s'. Option.bind (DBSystem_init (\<lambda>_ _. 1) (\<lambda>_ _. 1) [100] Map.empty) (db_writes [one_write]) = Some s
    \<and> DBSystem_init (\<lambda>_ _. 0) (\<lambda>_ _. 0) [100] (dm_files (db_disk s)) = Some s'
    \<and> DBSystem_read (cstr ''abcdefgh'') s' = Some (replicate RECORD_VALUE_LEN 7, s')"
proof -
  have "\<exists>s s'. Option.bind (DBSystem_init (\<lambda>_ _. 1) (\<lambda>_ _. 1) [100] Map.empty) (db_writes [one_write]) = Some s
    \<and> DBSystem_init (\<lambda>_ _. 0) (\<lambda>_ _. 0) [100] (dm_files (db_disk s)) = Some s'
    \<and> (\<forall>key k. get_key_string key = Some k \<longrightarrow> DBSystem_read key s' = map_option (\<lambda>v. (v, s')) (contents [one_write] k))"
    by (rule db_crash_recovery [OF no_files_empty]) (simp_all add: one_write_valid RECORD_BUFF_SIZE_def)
  with one_write_valid(2) contents_one show ?thesis by fastforce
qed

text \<open>Half of the second record is missing.\<close>

theorem torn_log_witness:
  "\<exists>s bs. Option.bind (DBSystem_init (\<lambda>_ _. 1) (\<lambda>_ _. 1) [100] Map.empty) (db_writes [one_write, one_write]) = Some s
    \<and> dm_files (db_disk s) = [the (path_join [[100], HOT_LOG]) \<mapsto> bs]
    \<and> DBSystem_open (\<lambda>_. None) (\<lambda>_ _. 1) (\<lambda>_ _. 1) [100] [the (path_join [[100], HOT_LOG]) \<mapsto> take 6000 bs]
      = Some (Inl Assertion_failed)"
proof -
  have n: "6000 mod sizeof_Record \<noteq> 0" "6000 \<le> length [one_write, one_write] * sizeof_Record"
    by (simp_all add: sizeof_Record_def RECORD_VALUE_LEN_def)
  have ws: "\<forall>w \<in> set [one_write, one_write]. valid_write w" "length [one_write, one_write] < RECORD_BUFF_SIZE"
    by (simp_all add: one_write_valid(1) RECORD_BUFF_SIZE_def)
  from torn_log [OF no_files_empty ws n(2), of "\<lambda>_ _. 1" "\<lambda>_ _. 1" "\<lambda>_ _. 1" "\<lambda>_ _. 1" "\<lambda>_. None"]
  show ?thesis unfolding if_not_P [OF n(1)] by blast
qed

subsection \<open>The store as a keyed store\<close>

text \<open>Whenever the parts of a write return, its preconditions hold.\<close>

lemma db_put_pre:
  assumes ok: "db_ok s" and run: "db_put rnd k val s = Some s'"
  shows "db_step k val s s'"
proof -
  obtain r where r: "make_record k val = Some r" using run by (auto simp: db_put_def Option.bind_eq_Some_conv)
  then have val: "RECORD_VALUE_LEN \<le> length val"
    by (auto simp: make_record_def set_value_def split: if_splits)
  then have "length (record_bytes r) = sizeof_Record"
    using r make_record_eq [OF val, of k] by (intro length_record_bytes) (auto simp: new_record_def)
  moreover obtain p bs where "dm_curr_log_fd (db_disk s) = Some p" "dm_files (db_disk s) p = Some bs"
    using ok by (auto simp: db_ok_def)
  ultimately have "dm_curr_log_len (db_disk s) + sizeof_Record < 2 ^ 31"
    using run r by (auto simp: db_put_def write_to_log_eq Option.bind_eq_Some_conv split: if_splits)
  moreover have "bf_empty (db_buffer s) \<noteq> []"
    using run by (auto simp: db_put_def Option.bind_eq_Some_conv request_record_buff_def take_free_def)
  ultimately show ?thesis using db_put_ok [OF ok val, of rnd k] run by auto
qed

interpretation db_store: keyed_store db_ok db_map "db_put rnd" "\<lambda>_ val. take RECORD_VALUE_LEN val" for rnd
  by unfold_locales (simp_all add: db_step_def db_put_pre [unfolded db_step_def])

text \<open>C1: The store refines a map from keys to values of \<^verbatim>\<open>RECORD_VALUE_LEN\<close>
  bytes, as long as a write does not start a dump. In a state of the invariant whose map has, with the
  key of the write, fewer than \<^verbatim>\<open>RECORD_BUFF_SIZE\<close> keys: a read of this key is the lookup, a
  write of it that returns is the update and keeps the invariant, and it fails only if the value is too
  short, no slot is free, or the length counter of the log has no room.\<close>

theorem db_refines_map:
  assumes "db_ok s" and "get_key_string key = Some k" and "card (insert k (dom (db_map s))) < RECORD_BUFF_SIZE"
  shows "DBSystem_read key s = map_option (\<lambda>v. (v, s)) (db_map s k)
    \<and> (case DBSystem_write rnd key val s of
         Some s' \<Rightarrow> db_ok s' \<and> db_map s' = (db_map s)(k \<mapsto> take RECORD_VALUE_LEN val)
       | None \<Rightarrow> length val < RECORD_VALUE_LEN \<or> if_full (db_buffer s)
           \<or> 2 ^ 31 \<le> dm_curr_log_len (db_disk s) + sizeof_Record)"
proof (intro conjI)
  show "DBSystem_read key s = map_option (\<lambda>v. (v, s)) (db_map s k)"
    using db_read_eq [OF db_ok_core [OF assms(1)] assms(2)] .
  show "case DBSystem_write rnd key val s of
         Some s' \<Rightarrow> db_ok s' \<and> db_map s' = (db_map s)(k \<mapsto> take RECORD_VALUE_LEN val)
       | None \<Rightarrow> length val < RECORD_VALUE_LEN \<or> if_full (db_buffer s)
           \<or> 2 ^ 31 \<le> dm_curr_log_len (db_disk s) + sizeof_Record"
  proof (cases "db_put rnd k val s")
    case None
    then have "DBSystem_write rnd key val s = None" using assms(2) by (simp add: write_split)
    moreover have "length val < RECORD_VALUE_LEN \<or> if_full (db_buffer s)
      \<or> 2 ^ 31 \<le> dm_curr_log_len (db_disk s) + sizeof_Record"
      using db_put_ok [OF assms(1), of val rnd k] None by (force simp: if_full_def not_less)
    ultimately show ?thesis by simp
  next
    case (Some s')
    then have s': "db_ok s'" "db_map s' = (db_map s)(k \<mapsto> take RECORD_VALUE_LEN val)"
      using db_store.update_invar [OF assms(1)] db_store.update_lookup [OF assms(1)] by blast+
    have "card (dom (db_map s')) < RECORD_BUFF_SIZE" using assms(3) by (simp add: s'(2))
    with Some s' assms(2) db_check_small [OF s'(1)] show ?thesis by (simp add: write_split)
  qed
qed

theorem db_refines_map_witness:
  "\<exists>s s'. DBSystem_init (\<lambda>_ _. 1) (\<lambda>_ _. 1) [100] Map.empty = Some s
    \<and> DBSystem_write (\<lambda>_. 1) (cstr ''abcdefgh'') (replicate RECORD_VALUE_LEN 7) s = Some s'
    \<and> db_map s' = [key_of one_write \<mapsto> replicate RECORD_VALUE_LEN 7]"
proof -
  obtain s where s: "DBSystem_init (\<lambda>_ _. 1) (\<lambda>_ _. 1) [100] Map.empty = Some s" "db_ok s" "db_map s = Map.empty"
    "length (bf_empty (db_buffer s)) = RECORD_BUFF_SIZE" "dm_curr_log_len (db_disk s) = 0"
    using DBSystem_recover [where fs = Map.empty and g = "\<lambda>_ _. 1" and g' = "\<lambda>_ _. 1", OF no_files_holds [OF no_files_empty]]
    by (auto simp: RECORD_BUFF_SIZE_def log_map_def open_append_def DiskManager_init_def simp del: path_join.simps)
  have "card (insert (key_of one_write) (dom (db_map s))) < RECORD_BUFF_SIZE"
    by (simp add: s(3) RECORD_BUFF_SIZE_def)
  note * = db_refines_map [OF s(2) one_write_valid(2) this, where rnd = "\<lambda>_. 1" and val = "replicate RECORD_VALUE_LEN 7"]
  have "\<not> if_full (db_buffer s)" using s(4) by (auto simp: if_full_def RECORD_BUFF_SIZE_def)
  moreover have "sizeof_Record < 2 ^ 31" by (simp add: sizeof_Record_def RECORD_VALUE_LEN_def)
  ultimately show ?thesis using * s by (auto split: option.splits)
qed

end
