(* ===== verification/DB_Dump.thy ===== *)
theory DB_Dump
  imports DB_Recovery
begin

text \<open>
  A full generation of records: the merge of lists of which one has records (\<open>merge_single\<close>),
  the loop of \<^verbatim>\<open>dump_all\<close> (\<open>dump_records_ok\<close>), the whole dump (\<open>dump_all_ok\<close>) and
  the step from the last write to the end of the dumper's round (\<open>generation_dump\<close>). The
  theorems describe the table file, the reads after a dump, and a died log that is left over.
\<close>

subsection \<open>The dump of a full generation\<close>

text \<open>When only one list has records, the merge never deletes it.\<close>

lemma merge_loop_single:
  assumes "live heap ptrs" and "\<forall>p' \<in> set ptrs. p' \<noteq> p \<longrightarrow> pairs heap p' = []" and "heap p \<noteq> None"
    and "\<forall>kv \<in> set kvs. fst kv = p"
  shows "\<exists>heap' ptrs' kvs'. merge_loop heap ptrs kvs = Some (heap', ptrs', kvs') \<and> heap' p \<noteq> None
    \<and> (\<forall>kv \<in> set kvs'. fst kv = p)"
  using assms
proof (induction "size (remaining heap ptrs)" arbitrary: heap ptrs kvs rule: less_induct)
  case less
  note live = less(2)
  show ?case
  proof (cases "merge_loop heap ptrs kvs = Some (heap, ptrs, kvs)")
    case True
    with less(4,5) show ?thesis by blast
  next
    case False
    then obtain r a h1 ptrs1 where step: "merge_step heap ptrs r a h1 ptrs1"
      and run: "merge_loop heap ptrs kvs = merge_loop h1 ptrs1 (kvs @ [(r, a)])"
      using merge_round [OF live, of kvs] by blast
    have r: "r \<in> set ptrs" "pairs heap r \<noteq> []" "h1 r \<noteq> None" "live h1 ptrs1" "set ptrs1 \<subseteq> set ptrs"
      "\<And>p'. p' \<noteq> r \<Longrightarrow> pairs h1 p' = pairs heap p'"
      using step by (auto simp: merge_step_def)
    with less(3) have "r = p" by blast
    moreover obtain q where "remaining heap ptrs = add_mset q (remaining h1 ptrs1)"
      using remaining_step [OF step live] by blast
    ultimately show ?thesis
      unfolding run using less(3,5) r by (intro less(1)) auto
  qed
qed

lemma deref_all_map: "map (deref heap) kvs = map Some ps \<Longrightarrow> deref_all heap kvs = Some ps"
  by (induction kvs arbitrary: ps) auto

lemma merge_single:
  assumes live: "live heap ptrs" and p: "p \<in> set ptrs" and only: "\<forall>p' \<in> set ptrs. p' \<noteq> p \<longrightarrow> pairs heap p' = []"
    and small: "\<forall>q \<in> set (pairs heap p). kv_key q < INT64_MAX"
  shows "\<exists>heap' ptrs' kvs. merge_loop heap ptrs [] = Some (heap', ptrs', kvs)
    \<and> deref_all heap' kvs = Some (pairs heap p)"
proof -
  have "heap p \<noteq> None" using live p by (auto simp: live_def)
  then obtain heap' ptrs' kvs where 1: "merge_loop heap ptrs [] = Some (heap', ptrs', kvs)" "heap' p \<noteq> None"
    "\<forall>kv \<in> set kvs. fst kv = p"
    using merge_loop_single [OF live only, of "[]"] by auto
  then obtain ps where 2: "map (deref heap) kvs = map Some ps" "heap_keeps heap heap'" "sorted (map kv_key ps)"
    "mset ps = remaining heap ptrs"
    using merge_loop_result [OF live, of "[]"] by auto
  have el: "eligible heap p = pairs heap p" using small by (simp add: eligible_def filter_id_conv)
  have "eligible heap p' = []" if "p' \<in> set ptrs - {p}" for p' using only that by (simp add: eligible_def)
  then have "remaining heap ptrs = mset (pairs heap p)"
    using p el by (simp add: remaining_def sum.remove [where x = p])
  then have perm: "mset ps = mset (pairs heap p)" using 2(4) by simp
  have "sorted_wrt (<) (map kv_key (pairs heap p))" using live p by (rule live_sorted)
  then have "distinct (map kv_key (pairs heap p))" "sorted (map kv_key (pairs heap p))"
    by (simp_all add: strict_sorted_iff)
  then have "inj_on kv_key (set (pairs heap p))" "sorted (map kv_key (pairs heap p))"
    by (simp_all add: distinct_map)
  then have "sort_key kv_key (pairs heap p) = ps" "sort_key kv_key (pairs heap p) = pairs heap p"
    using perm 2(3) by (intro sort_key_inj_key_eq; simp)+
  then have "ps = pairs heap p" by simp
  moreover have "deref heap' kv = deref heap kv" if "kv \<in> set kvs" for kv
    using 1(2,3) 2(2) that unfolding heap_keeps_def by metis
  then have "map (deref heap') kvs = map (deref heap) kvs" by simp
  ultimately show ?thesis using 1(1) 2(1) deref_all_map by metis
qed

text \<open>The loop over the records.\<close>

definition pair_slot :: "KeyIdxPair \<Rightarrow> nat" where
  "pair_slot q = unat (get_idx (kv_idx q))"

definition hash_slots :: "table \<Rightarrow> KEY_T \<Rightarrow> nat option" where
  "hash_slots t k = map_option (\<lambda>i. unat (get_idx i)) (index_lookup t k)"

lemma file_index:
  assumes "i < 2 ^ 20" and "fid < 256"
  shows "unat (get_idx (set_in_hash True (set_in_file True (set_idx (of_nat i) (set_fid (of_nat fid) Index_new))))) = i"
proof -
  have "(of_nat fid :: u32) < 0x100" "(of_nat i :: u32) < 0x100000" "unat (of_nat i :: u32) = i"
    using assms by (simp_all add: word_less_nat_alt unat_of_nat)
  moreover from this(1) have "get_idx (set_fid (of_nat fid) Index_new) = 0" by (simp add: field_simps_idx)
  ultimately have "get_idx (set_idx (of_nat i) (set_fid (of_nat fid) Index_new)) = of_nat i"
    by (intro get_idx_set_idx_small) simp_all
  then show ?thesis using \<open>unat (of_nat i :: u32) = i\<close> by (simp add: field_simps_idx)
qed

lemma dump_one_ok:
  assumes q: "quiet b" and used: "pair_slot kv \<in> in_use b"
  shows "\<exists>b1 b2. wait_for_access (pair_slot kv) b = Some b1 \<and> bf_data b1 = bf_data b
    \<and> pair_slot kv < length (bf_data b) \<and> release_buff (pair_slot kv) b1 = Some b2
    \<and> end_access (pair_slot kv) b2 = Some (b2\<lparr>bf_accessing := bf_accessing b\<rparr>)
    \<and> quiet (b2\<lparr>bf_accessing := bf_accessing b\<rparr>) \<and> bf_data b2 = bf_data b
    \<and> in_use (b2\<lparr>bf_accessing := bf_accessing b\<rparr>) = in_use b - {pair_slot kv}
    \<and> bf_empty b2 = pair_slot kv # bf_empty b"
proof -
  let ?a = "pair_slot kv"
  have inv: "buffer_inv b" using q by (simp add: quiet_def)
  have a: "?a < RECORD_BUFF_SIZE" using used in_use_bound inv by blast
  note acc = quiet_access [OF q a]
  let ?b1 = "b\<lparr>bf_accessing := (bf_accessing b)[?a := True]\<rparr>"
  have "buffer_inv ?b1" "?a \<in> in_use ?b1" using inv used by (auto simp: buffer_inv_def in_use_def)
  from release_ok [OF this] obtain b2 where b2: "release_buff ?a ?b1 = Some b2" "buffer_inv b2"
    "in_use b2 = in_use ?b1 - {?a}" "bf_data b2 = bf_data b" "bf_accessing b2 = (bf_accessing b)[?a := True]"
    "bf_empty b2 = ?a # bf_empty b" by auto
  have "end_access ?a b2 = Some (b2\<lparr>bf_accessing := bf_accessing b\<rparr>)"
    using acc(2,3) b2(5) by (simp add: end_access_def)
  moreover have "quiet (b2\<lparr>bf_accessing := bf_accessing b\<rparr>)"
    using b2(2) q inv by (simp add: quiet_def buffer_inv_def)
  ultimately show ?thesis using acc(1,4) b2 by (auto simp: in_use_def)
qed

lemma dump_records_ok:
  assumes "quiet b" and "distinct (map pair_slot qs)" and "pair_slot ` set qs \<subseteq> in_use b"
    and "index_inv hash" and "card (dom (index_lookup hash) \<union> kv_key ` set qs) < 11662"
    and "dm_dumping_fd d = Some path" and "dm_files d path = Some bs"
    and "i + length qs \<le> 2 ^ 20" and "fid < 256" and "distinct (map kv_key qs)"
    and "finite (dom (index_lookup hash))"
  shows "\<exists>b' hash'. dump_records fid i qs (b, hash, d) = Some (b', hash', d\<lparr>dm_files :=
      (dm_files d)(path \<mapsto> bs @ concat (map (\<lambda>q. get_value (bf_data b ! pair_slot q)) qs))\<rparr>)
    \<and> quiet b' \<and> bf_data b' = bf_data b \<and> in_use b' = in_use b - pair_slot ` set qs
    \<and> bf_empty b' = rev (map pair_slot qs) @ bf_empty b
    \<and> hash_slots hash' = hash_slots hash ++ map_of (zip (map kv_key qs) [i..<i + length qs])"
  using assms(1-8,10,11)
proof (induction qs arbitrary: b hash d bs i)
  case Nil
  then show ?case by (simp add: fun_upd_idem)
next
  case (Cons q qs)
  have "pair_slot q \<in> in_use b" using Cons.prems(3) by simp
  from dump_one_ok [OF Cons.prems(1) this] obtain b1 b2 where b: "wait_for_access (pair_slot q) b = Some b1"
    "bf_data b1 = bf_data b" "pair_slot q < length (bf_data b)" "release_buff (pair_slot q) b1 = Some b2"
    "end_access (pair_slot q) b2 = Some (b2\<lparr>bf_accessing := bf_accessing b\<rparr>)"
    "quiet (b2\<lparr>bf_accessing := bf_accessing b\<rparr>)" "bf_data b2 = bf_data b"
    "in_use (b2\<lparr>bf_accessing := bf_accessing b\<rparr>) = in_use b - {pair_slot q}"
    "bf_empty b2 = pair_slot q # bf_empty b" by blast
  let ?b = "b2\<lparr>bf_accessing := bf_accessing b\<rparr>"
  let ?i = "set_in_file True (set_idx (of_nat i) (set_fid (of_nat fid) Index_new))"
  have fin: "finite (dom (index_lookup hash) \<union> kv_key ` set (q # qs))" by (use Cons.prems(10) in simp)
  have "card (dom (index_lookup hash)) < 11662"
    using card_mono [OF fin Un_upper1] Cons.prems(5) by (rule le_less_trans)
  then obtain hash1 c where h: "Indexer_update (kv_key q) ?i hash = Some (hash1, c)" "index_inv hash1"
    "index_lookup hash1 = (index_lookup hash)(kv_key q \<mapsto> set_in_hash True ?i)"
    using hash_update_ok [OF Cons.prems(4)] by blast
  have slots: "hash_slots hash1 = (hash_slots hash)(kv_key q \<mapsto> i)"
    using file_index [of i fid] Cons.prems(8) assms(9) by (auto simp: hash_slots_def [abs_def] h(3))
  let ?v = "get_value (bf_data b ! pair_slot q)"
  let ?d = "d\<lparr>dm_files := (dm_files d)(path \<mapsto> bs @ ?v)\<rparr>"
  have ap: "append_dumping (take RECORD_VALUE_LEN (rc_value (bf_data b ! pair_slot q))) d = ?d"
    using Cons.prems(6,7) by (simp add: append_dumping_def write_fd_def get_value_def)
  have run: "dump_records fid i (q # qs) (b, hash, d) = dump_records fid (Suc i) qs (?b, hash1, ?d)"
    using b(1-5) h(1) ap by (simp add: pair_slot_def record_at_def Let_def)
  have "\<exists>b' hash'. dump_records fid (Suc i) qs (?b, hash1, ?d) = Some (b', hash', ?d\<lparr>dm_files :=
      (dm_files ?d)(path \<mapsto> (bs @ ?v) @ concat (map (\<lambda>q. get_value (bf_data ?b ! pair_slot q)) qs))\<rparr>)
    \<and> quiet b' \<and> bf_data b' = bf_data ?b \<and> in_use b' = in_use ?b - pair_slot ` set qs
    \<and> bf_empty b' = rev (map pair_slot qs) @ bf_empty ?b
    \<and> hash_slots hash' = hash_slots hash1 ++ map_of (zip (map kv_key qs) [Suc i..<Suc i + length qs])"
  proof (rule Cons.IH)
    have "pair_slot q \<notin> pair_slot ` set qs" using Cons.prems(2) by simp
    moreover have "pair_slot ` set qs \<subseteq> in_use b" using Cons.prems(3) by simp
    ultimately show "pair_slot ` set qs \<subseteq> in_use ?b" unfolding b(8) by (simp add: subset_Diff_insert)
    have "dom (index_lookup hash1) \<union> kv_key ` set qs \<subseteq> dom (index_lookup hash) \<union> kv_key ` set (q # qs)"
      using h(3) by auto
    from card_mono [OF fin this] show "card (dom (index_lookup hash1) \<union> kv_key ` set qs) < 11662"
      using Cons.prems(5) by simp
  qed (use Cons.prems b(6) h(2,3) in simp_all)
  then obtain b' hash' where r: "dump_records fid (Suc i) qs (?b, hash1, ?d) = Some (b', hash', d\<lparr>dm_files :=
      (dm_files d)(path \<mapsto> bs @ concat (map (\<lambda>q. get_value (bf_data b ! pair_slot q)) (q # qs)))\<rparr>)"
    "quiet b'" "bf_data b' = bf_data b" "in_use b' = in_use b - {pair_slot q} - pair_slot ` set qs"
    "hash_slots hash' = hash_slots hash1 ++ map_of (zip (map kv_key qs) [Suc i..<Suc i + length qs])"
    "bf_empty b' = rev (map pair_slot (q # qs)) @ bf_empty b"
    using b(7-9) by auto
  have "kv_key q \<notin> dom (map_of (zip (map kv_key qs) [Suc i..<Suc i + length qs]))"
    using Cons.prems(9) by (auto dest!: map_of_SomeD set_zip_leftD)
  then have "hash_slots hash' = hash_slots hash ++ map_of (zip (map kv_key (q # qs)) [i..<i + length (q # qs)])"
    unfolding r(5) slots by (simp add: map_add_upd_left upt_conv_Cons del: upt_Suc)
  moreover have "in_use b' = in_use b - pair_slot ` set (q # qs)" unfolding r(4) by auto
  ultimately show ?case unfolding run using r(1-3,6) by blast
qed

text \<open>The whole of \<^verbatim>\<open>dump_all\<close>: the table file, the manifest, the died log.\<close>

definition sst_keys :: "KEY_T list \<Rightarrow> u8 list" where
  "sst_keys ks = le_bytes 4 (unat (of_nat (length ks) :: u32)) @ concat (map (\<lambda>k. le_bytes 8 (unat k)) ks)"

lemma append_dumping_fold:
  assumes "dm_dumping_fd d = Some p" and "dm_files d p = Some bs"
  shows "fold (\<lambda>k. append_dumping (f k)) ks d = d\<lparr>dm_files := (dm_files d)(p \<mapsto> bs @ concat (map f ks))\<rparr>"
  using assms
proof (induction ks arbitrary: d bs)
  case Nil
  then show ?case by (simp add: fun_upd_idem)
next
  case (Cons k ks)
  let ?d = "d\<lparr>dm_files := (dm_files d)(p \<mapsto> bs @ f k)\<rparr>"
  have "append_dumping (f k) d = ?d" using Cons.prems by (simp add: append_dumping_def write_fd_def)
  moreover have "fold (\<lambda>k. append_dumping (f k)) ks ?d
      = ?d\<lparr>dm_files := (dm_files ?d)(p \<mapsto> (bs @ f k) @ concat (map f ks))\<rparr>"
    by (rule Cons.IH) (use Cons.prems in simp_all)
  ultimately show ?case by (simp del: fun_upd_apply)
qed

lemma dumpint_keys_eq:
  assumes "path_join [dm_basepath d, name] = Some p"
  shows "dumpint_keys name ks d = Some (d\<lparr>dm_dumping_fd := Some p, dm_files := (dm_files d)(p \<mapsto> sst_keys ks)\<rparr>)"
proof -
  let ?n = "le_bytes 4 (unat (of_nat (length ks) :: u32))"
  let ?d = "d\<lparr>dm_dumping_fd := Some p, dm_files := (dm_files d)(p \<mapsto> ?n)\<rparr>"
  have "append_dumping ?n (d\<lparr>dm_dumping_fd := Some p, dm_files := (dm_files d)(p \<mapsto> [])\<rparr>) = ?d"
    by (simp add: append_dumping_def write_fd_def)
  moreover have "fold (\<lambda>k. append_dumping (le_bytes 8 (unat k))) ks ?d
      = ?d\<lparr>dm_files := (dm_files ?d)(p \<mapsto> ?n @ concat (map (\<lambda>k. le_bytes 8 (unat k)) ks))\<rparr>"
    by (rule append_dumping_fold) simp_all
  ultimately show ?thesis using assms by (simp add: dumpint_keys_def Let_def sst_keys_def del: path_join.simps)
qed

lemma path_join_names:
  assumes "base \<noteq> []"
  obtains p where "\<And>name. name \<noteq> [] \<Longrightarrow> path_join [base, name] = Some (p @ name)"
proof
  fix name :: cxx_string assume "name \<noteq> []"
  with assms show "path_join [base, name] = Some ((base @ (if last base = 47 then [] else [47])) @ name)"
    by (simp add: path_join_two)
qed

lemma sst_name_names:
  "sst_name n \<noteq> []" "sst_name n \<noteq> HOT_LOG" "sst_name n \<noteq> DIED_LOG" "sst_name n \<noteq> MANIFIST_FILE"
  by (auto simp: sst_name_def SST_FILE_APPENDIX_def HOT_LOG_def DIED_LOG_def MANIFIST_FILE_def cstr_def
      dest: arg_cong [where f = last])

lemma MANIFIST_names: "MANIFIST_FILE \<noteq> []" "MANIFIST_FILE \<noteq> HOT_LOG" "MANIFIST_FILE \<noteq> DIED_LOG"
  by (simp_all add: HOT_LOG_def DIED_LOG_def MANIFIST_FILE_def cstr_def)

lemma dump_tail_ok:
  assumes base: "\<And>name. name \<noteq> [] \<Longrightarrow> path_join [dm_basepath d, name] = Some (p @ name)"
    and fid: "get_records_num mf = fid" and cnt: "mn_record_cnt mf \<noteq> []"
  shows "\<exists>mn d' x. insert_record junk 0 k1 k2 n mf d = Some (mn, d') \<and> length (mn_records mn) = Suc fid
    \<and> d' = d\<lparr>dm_files := (dm_files d)(p @ MANIFIST_FILE \<mapsto> x)\<rparr>
    \<and> end_dumping d' = Some (d'\<lparr>dm_dumping_fd := None, dm_files := (dm_files d')(p @ DIED_LOG := None)\<rparr>)"
proof -
  obtain c cs where cs: "mn_record_cnt mf = c # cs" using cnt by (cases "mn_record_cnt mf") auto
  obtain mn d' x where mn: "insert_record junk 0 k1 k2 n mf d = Some (mn, d')" "length (mn_records mn) = Suc fid"
    and d': "d' = d\<lparr>dm_files := (dm_files d)(p @ MANIFIST_FILE \<mapsto> x)\<rparr>"
    using fid unfolding insert_record_def write_to_manifist_def base [OF MANIFIST_names(1)]
    by (auto simp: count_level_def cs vget_def vset_def get_records_num_def Let_def)
  have bp: "dm_basepath d' = dm_basepath d" by (simp add: d')
  have "end_dumping d' = Some (d'\<lparr>dm_dumping_fd := None, dm_files := (dm_files d')(p @ DIED_LOG := None)\<rparr>)"
    unfolding end_dumping_def Let_def using base [OF log_names(3)]
    by (auto simp: bp if_file_exists_def fun_upd_idem simp del: path_join.simps)
  with mn d' show ?thesis by blast
qed

lemma dump_all_ok:
  assumes base: "\<And>name. name \<noteq> [] \<Longrightarrow> path_join [dm_basepath (db_disk s), name] = Some (p @ name)"
    and fid: "get_records_num (db_manifest s) = fid" "fid < 256" and cnt: "mn_record_cnt (db_manifest s) \<noteq> []"
    and qs: "qs \<noteq> []" "length qs \<le> 2 ^ 20" "distinct (map pair_slot qs)" "distinct (map kv_key qs)"
      "pair_slot ` set qs \<subseteq> in_use (db_buffer s)"
    and b: "quiet (db_buffer s)" and hash: "index_inv (db_hash s)" "finite (dom (index_lookup (db_hash s)))"
      "card (dom (index_lookup (db_hash s)) \<union> kv_key ` set qs) < 11662"
  shows "\<exists>s' mf. dump_all junk qs s = Some s' \<and> quiet (db_buffer s') \<and> bf_data (db_buffer s') = bf_data (db_buffer s)
    \<and> in_use (db_buffer s') = in_use (db_buffer s) - pair_slot ` set qs
    \<and> hash_slots (db_hash s') = hash_slots (db_hash s) ++ map_of (zip (map kv_key qs) [0..<length qs])
    \<and> db_mem s' = db_mem s \<and> length (mn_records (db_manifest s')) = Suc fid
    \<and> dm_basepath (db_disk s') = dm_basepath (db_disk s)
    \<and> dm_files (db_disk s') = (dm_files (db_disk s))
        (p @ sst_name fid \<mapsto> sst_keys (map kv_key qs) @ concat (map (\<lambda>q. get_value (bf_data (db_buffer s) ! pair_slot q)) qs),
         p @ MANIFIST_FILE \<mapsto> mf, p @ DIED_LOG := None)"
proof -
  let ?ks = "map kv_key qs" and ?vs = "concat (map (\<lambda>q. get_value (bf_data (db_buffer s) ! pair_slot q)) qs)"
  let ?sst = "p @ sst_name fid"
  let ?d1 = "(db_disk s)\<lparr>dm_dumping_fd := Some ?sst, dm_files := (dm_files (db_disk s))(?sst \<mapsto> sst_keys ?ks)\<rparr>"
  have keys: "dumpint_keys (sst_name fid) ?ks (db_disk s) = Some ?d1"
    by (rule dumpint_keys_eq) (rule base, rule sst_name_names)
  let ?d2 = "?d1\<lparr>dm_files := (dm_files ?d1)(?sst \<mapsto> sst_keys ?ks @ ?vs)\<rparr>"
  obtain b' hash' where dr: "dump_records fid 0 qs (db_buffer s, db_hash s, ?d1) = Some (b', hash', ?d2)"
    "quiet b'" "bf_data b' = bf_data (db_buffer s)" "in_use b' = in_use (db_buffer s) - pair_slot ` set qs"
    "hash_slots hash' = hash_slots (db_hash s) ++ map_of (zip ?ks [0..<length qs])"
    using dump_records_ok [of "db_buffer s" qs "db_hash s" ?d1 ?sst "sst_keys ?ks" 0 fid] b qs hash fid by auto
  have bp: "dm_basepath ?d2 = dm_basepath (db_disk s)" by simp
  obtain mn d3 mf where mn: "insert_record junk 0 (kv_key (hd qs)) (kv_key (last qs)) (of_nat (length qs)) (db_manifest s) ?d2
      = Some (mn, d3)" "length (mn_records mn) = Suc fid" "d3 = ?d2\<lparr>dm_files := (dm_files ?d2)(p @ MANIFIST_FILE \<mapsto> mf)\<rparr>"
    and fin: "end_dumping d3 = Some (d3\<lparr>dm_dumping_fd := None, dm_files := (dm_files d3)(p @ DIED_LOG := None)\<rparr>)"
    using dump_tail_ok [OF base [folded bp] fid(1) cnt] by blast
  note d3 = mn(3)
  let ?d4 = "d3\<lparr>dm_dumping_fd := None, dm_files := (dm_files d3)(p @ DIED_LOG := None)\<rparr>"
  note fin
  then have "dump_all junk qs s = Some (s\<lparr>db_buffer := b', db_hash := hash', db_disk := ?d4, db_manifest := mn\<rparr>)"
    using keys dr(1) mn(1) qs(1) fid(1) by (simp add: dump_all_def Let_def)
  then show ?thesis using dr mn(2) by (intro exI conjI) (assumption, simp_all add: d3)
qed

text \<open>The records of the one list that a single writer fills.\<close>

lemma first_pairs:
  assumes ok: "db_core s"
  defines "m \<equiv> db_mem s" and "qs \<equiv> pairs (mt_heap (db_mem s)) (hd (mt_current (db_mem s)))"
  shows "live (mt_heap m) (mt_current m)"
    and "\<forall>p \<in> set (mt_current m). p \<noteq> hd (mt_current m) \<longrightarrow> pairs (mt_heap m) p = []"
    and "map kv_key qs = sorted_list_of_set (dom (db_map s))"
    and "\<forall>q \<in> set qs. slot_of s (kv_key q) = Some (pair_slot q)"
proof -
  have cm: "calm m" "only_first m" using ok by (simp_all add: db_core_def m_def)
  then have l0: "\<exists>t. mt_heap m p = Some t \<and> level_0_ok t" if "p \<in> set (mt_current m)" for p
    using that calm_lists [of m p] sl_inv_level_0 by blast
  then show live: "live (mt_heap m) (mt_current m)"
    using cm(1) by (auto simp: live_def calm_def tables_ok_def)
  obtain p ps where ps: "mt_current m = p # ps" using cm(1) by (cases "mt_current m") (auto simp: calm_def)
  have pmap: "list_map (mt_heap m) r k = Some i \<longleftrightarrow> (\<exists>q \<in> set (pairs (mt_heap m) r). kv_key q = k \<and> kv_idx q = i)"
    if "r \<in> set (mt_current m)" for r k i
    using l0 [OF that] level_0_pairs_map by (auto simp: list_map_def pairs_def)
  have "pairs (mt_heap m) r = []" if "r \<in> set (mt_current m)" "r \<noteq> p" for r
  proof -
    have "list_map (mt_heap m) r = Map.empty" using cm(2) that by (auto simp: only_first_def ps)
    then have "\<not> (\<exists>q \<in> set (pairs (mt_heap m) r). kv_key q = k \<and> kv_idx q = i)" for k i
      using pmap [OF that(1), of k i] by simp
    then show ?thesis by (cases "pairs (mt_heap m) r") auto
  qed
  then show "\<forall>p \<in> set (mt_current m). p \<noteq> hd (mt_current m) \<longrightarrow> pairs (mt_heap m) p = []"
    by (simp add: ps)
  have qs: "first_map m k = Some i \<longleftrightarrow> (\<exists>q \<in> set qs. kv_key q = k \<and> kv_idx q = i)" for k i
    using pmap [of p k i] by (simp add: first_map_def qs_def ps flip: m_def)
  then have "kv_key ` set qs = dom (first_map m)" by (auto simp: dom_def image_iff)
  then have "set (map kv_key qs) = dom (db_map s)" using db_core_first_dom [OF ok] by (simp add: m_def)
  moreover have "sorted_wrt (<) (map kv_key qs)"
    using live_sorted [OF live, of p] by (simp add: qs_def ps flip: m_def)
  ultimately show "map kv_key qs = sorted_list_of_set (dom (db_map s))"
    using db_core_finite [OF ok] by (metis sorted_list_of_set.idem_if_sorted_distinct strict_sorted_iff)
  have "map_option (\<lambda>i. unat (get_idx i)) (first_map m k) = slot_of s k" for k
    using ok by (simp add: db_core_def m_def)
  then show "\<forall>q \<in> set qs. slot_of s (kv_key q) = Some (pair_slot q)"
    using qs by (metis option.map(2) pair_slot_def)
qed

lemma pairs_dumping:
  assumes "\<forall>p \<in> set ps. heap' p = map_option set_dumping (heap p)" and "live heap ps"
  shows "live heap' ps" and "p \<in> set ps \<Longrightarrow> pairs heap' p = pairs heap p"
proof -
  have "level_0_ok (set_dumping s) = level_0_ok s" "level_0_pairs (set_dumping s) = level_0_pairs s" for s
    by (simp_all add: set_dumping_def level_0_ok_def level_0_pairs_def)
  then show "live heap' ps" "p \<in> set ps \<Longrightarrow> pairs heap' p = pairs heap p"
    using assms by (fastforce simp: live_def pairs_def split: option.splits)+
qed

text \<open>The last write of a generation switches the log and hands the lists to the dumper.\<close>

lemma db_check_full:
  assumes ok: "db_ok s" and full: "card (dom (db_map s)) = RECORD_BUFF_SIZE"
    and base: "\<And>name. name \<noteq> [] \<Longrightarrow> path_join [dm_basepath (db_disk s), name] = Some (p @ name)"
    and wait: "mt_wait_for_dump (db_mem s) = []"
  shows "db_check s = (if dm_files (db_disk s) (p @ DIED_LOG) \<noteq> None then None
      else Option.bind (switch_log (db_disk s)) (\<lambda>d. Option.bind (submit_dump (db_mem s)) (\<lambda>m. Some (s\<lparr>db_mem := m, db_disk := d\<rparr>))))"
proof -
  have total: "get_total_items (db_mem s) = Some (int RECORD_BUFF_SIZE)"
    using db_total [OF db_ok_core [OF ok]] by (simp add: full)
  have "switch_log (db_disk s) = None" if "dm_files (db_disk s) (p @ DIED_LOG) \<noteq> None"
    using that base [OF log_names(2)] base [OF log_names(3)]
    by (simp add: switch_log_def if_file_exists_def Let_def del: path_join.simps)
  then show ?thesis by (simp add: db_check_def total)
qed

lemma switch_log_ok:
  assumes base: "\<And>name. name \<noteq> [] \<Longrightarrow> path_join [dm_basepath d, name] = Some (p @ name)"
    and log: "dm_files d (p @ HOT_LOG) = Some bs" and died: "dm_files d (p @ DIED_LOG) = None"
  shows "\<exists>d'. switch_log d = Some d' \<and> dm_basepath d' = dm_basepath d
    \<and> dm_files d' = (dm_files d)(p @ DIED_LOG \<mapsto> bs, p @ HOT_LOG \<mapsto> [])"
proof -
  have "(dm_files d)(p @ DIED_LOG := dm_files d (p @ HOT_LOG), p @ HOT_LOG := None, p @ HOT_LOG \<mapsto> [])
      = (dm_files d)(p @ DIED_LOG \<mapsto> bs, p @ HOT_LOG \<mapsto> [])"
    using log log_names(1) by (auto simp: fun_eq_iff)
  then show ?thesis
    using base [OF log_names(2)] base [OF log_names(3)] log died log_names(1)
    by (simp add: switch_log_def if_file_exists_def Let_def open_append_def del: path_join.simps)
qed

text \<open>The tables after the dump: the new lists, which have no records yet.\<close>

definition restarted :: "MemTables \<Rightarrow> bool" where
  "restarted m \<longleftrightarrow> tables_ok m \<and> mt_working m \<and> mt_wait_for_dump m = [] \<and> mt_current m \<noteq> []
     \<and> (\<forall>p \<in> set (mt_current m). fresh_list (mt_heap m) p)"

lemma restarted_merge:
  assumes frame: "merge_frame (mt_heap m) ptrs heap ptrs'" and wait: "mt_wait_for_dump m = [Some ptrs]"
    and ok: "tables_ok m" "mt_working m" "mt_current m \<noteq> []" "\<forall>p \<in> set (mt_current m). fresh_list (mt_heap m) p"
  shows "restarted (m\<lparr>mt_wait_for_dump := [], mt_heap := heap\<rparr>)"
proof -
  have dl: "dump_lists m = ptrs" by (simp add: dump_lists_def wait)
  have same: "heap p = mt_heap m p" if "p \<in> set (mt_current m) \<union> set (mt_can_insert m)" for p
    using ok(1) that frame unfolding tables_ok_def dl merge_frame_def by auto
  have fresh: "fresh_list heap p" if "p \<in> set (mt_current m) \<union> set (mt_can_insert m)" for p
    using fresh_list_cong [of heap p "mt_heap m", OF same [OF that]] ok that by (auto simp: tables_ok_def)
  have "\<forall>p. heap p \<noteq> None \<longrightarrow> p < mt_fresh m"
    using ok(1) frame unfolding tables_ok_def merge_frame_def by metis
  then show ?thesis
    using ok fresh fresh_ready by (auto simp: restarted_def tables_ok_def dump_lists_def)
qed

text \<open>The part of the dumper's round before \<^verbatim>\<open>dump_all\<close>.\<close>

definition merges_to :: "DBSystem \<Rightarrow> KeyIdxPair list \<Rightarrow> DBSystem \<Rightarrow> bool" where
  "merges_to s qs t \<longleftrightarrow> (\<exists>seq queue heap ptrs kvs. mt_wait_for_dump (db_mem s) = Some seq # queue
     \<and> merge_loop (mt_heap (db_mem s)) seq [] = Some (heap, ptrs, kvs) \<and> deref_all heap kvs = Some qs
     \<and> t = s\<lparr>db_mem := (db_mem s)\<lparr>mt_wait_for_dump := queue, mt_heap := heap\<rparr>\<rparr>)"

lemma merges_round: "merges_to s qs t \<Longrightarrow> dumper_round junk s = dump_all junk qs t"
  by (auto simp: merges_to_def dumper_round_def)

text \<open>What the dumper then has: the keys in order, and the slots, which are all there are.\<close>

definition generation :: "DBSystem \<Rightarrow> KeyIdxPair list \<Rightarrow> bool" where
  "generation s qs \<longleftrightarrow> length qs = RECORD_BUFF_SIZE \<and> map kv_key qs = sorted_list_of_set (dom (db_map s))
     \<and> distinct (map kv_key qs) \<and> kv_key ` set qs = dom (db_map s)
     \<and> (\<forall>q \<in> set qs. slot_of s (kv_key q) = Some (pair_slot q))
     \<and> distinct (map pair_slot qs) \<and> in_use (db_buffer s) = pair_slot ` set qs"

lemma pair_slots:
  assumes core: "db_core s" and ks: "map kv_key qs = sorted_list_of_set (dom (db_map s))"
    and slots: "\<forall>q \<in> set qs. slot_of s (kv_key q) = Some (pair_slot q)"
  shows "distinct (map kv_key qs)" and "kv_key ` set qs = dom (db_map s)" and "length qs = card (dom (db_map s))"
    and "distinct (map pair_slot qs)" and "pair_slot ` set qs \<subseteq> in_use (db_buffer s)"
proof -
  have fin: "finite (dom (db_map s))" using db_core_finite [OF core] .
  then have set_ks: "set (map kv_key qs) = dom (db_map s)" and lks: "length (map kv_key qs) = card (dom (db_map s))"
    unfolding ks by simp_all
  show dks: "distinct (map kv_key qs)" unfolding ks by simp
  show "kv_key ` set qs = dom (db_map s)" "length qs = card (dom (db_map s))" using set_ks lks by simp_all
  have "inj_on pair_slot (set qs)"
  proof (rule inj_onI)
    fix q r assume qr: "q \<in> set qs" "r \<in> set qs" "pair_slot q = pair_slot r"
    have "inj_on (slot_of s) (dom (slot_of s))" using core by (simp add: db_core_def)
    with qr slots have "kv_key q = kv_key r" by (metis domI inj_onD)
    with qr dks show "q = r" by (metis distinct_map inj_onD)
  qed
  then show "distinct (map pair_slot qs)" using dks by (metis distinct_map)
  show "pair_slot ` set qs \<subseteq> in_use (db_buffer s)" using core slots unfolding db_core_def by blast
qed

lemma generation_slots:
  assumes core: "db_core s" and ks: "map kv_key qs = sorted_list_of_set (dom (db_map s))"
    and slots: "\<forall>q \<in> set qs. slot_of s (kv_key q) = Some (pair_slot q)" and full: "card (dom (db_map s)) = RECORD_BUFF_SIZE"
  shows "generation s qs"
proof -
  note pairs = pair_slots [OF core ks slots]
  have q: "buffer_inv (db_buffer s)" using core by (simp add: db_core_def quiet_def)
  have "card (pair_slot ` set qs) = RECORD_BUFF_SIZE" using pairs(3,4) full by (metis distinct_card list.set_map length_map)
  moreover have "finite (in_use (db_buffer s))" by (simp add: in_use_def)
  moreover have "card (in_use (db_buffer s)) \<le> RECORD_BUFF_SIZE" using in_use_card [OF q] by simp
  ultimately have "in_use (db_buffer s) = pair_slot ` set qs" using pairs(5) card_seteq by metis
  with pairs full ks slots show ?thesis by (simp add: generation_def)
qed

text \<open>The lists of one writer are submitted and merged.\<close>

lemma submit_merges:
  assumes core: "db_core s" and wait: "mt_wait_for_dump (db_mem s) = []" and small: "\<forall>k \<in> dom (db_map s). k < INT64_MAX"
  shows "\<exists>m m' qs. submit_dump (db_mem s) = Some m \<and> (\<forall>d. merges_to (s\<lparr>db_mem := m, db_disk := d\<rparr>) qs (s\<lparr>db_mem := m', db_disk := d\<rparr>))
    \<and> restarted m' \<and> map kv_key qs = sorted_list_of_set (dom (db_map s))
    \<and> (\<forall>q \<in> set qs. slot_of s (kv_key q) = Some (pair_slot q))"
proof -
  have calm: "tables_ok (db_mem s)" "mt_working (db_mem s)" "mt_current (db_mem s) \<noteq> []"
    using core by (simp_all add: db_core_def calm_def)
  let ?cur = "mt_current (db_mem s)"
  let ?p = "hd ?cur"
  have "length (mt_wait_for_dump (db_mem s)) < wait_for_dump_capacity" by (simp add: wait wait_for_dump_capacity_def)
  from submit_dump_ok [OF calm(1,2) this] obtain m where m0: "submit_dump (db_mem s) = Some m" "tables_ok m" "mt_working m"
    "length (mt_current m) = MEMTABLE_CO_WRITE_NUM" "\<forall>q \<in> set (mt_current m). fresh_list (mt_heap m) q"
    "mt_wait_for_dump m = mt_wait_for_dump (db_mem s) @ [Some ?cur]"
    "\<forall>q \<in> set ?cur. mt_heap m q = map_option set_dumping (mt_heap (db_mem s) q)" by blast
  have "mt_current m \<noteq> []" using m0(4) by (auto simp: MEMTABLE_CO_WRITE_NUM_def)
  with m0 wait have m: "submit_dump (db_mem s) = Some m"
    "mt_wait_for_dump m = [Some ?cur]" "\<forall>q \<in> set ?cur. mt_heap m q = map_option set_dumping (mt_heap (db_mem s) q)"
    "tables_ok m" "mt_working m" "mt_current m \<noteq> []" "\<forall>q \<in> set (mt_current m). fresh_list (mt_heap m) q"
    by simp_all
  define qs where "qs = pairs (mt_heap (db_mem s)) ?p"
  note fp = first_pairs [OF core, folded qs_def]
  have p: "?p \<in> set ?cur" using calm(3) by simp
  have live: "live (mt_heap m) ?cur" and same: "\<And>q. q \<in> set ?cur \<Longrightarrow> pairs (mt_heap m) q = pairs (mt_heap (db_mem s)) q"
    using pairs_dumping [OF m(3) fp(1)] by blast+
  have "kv_key ` set qs = dom (db_map s)" by (rule pair_slots(2) [OF core fp(3,4)])
  then have "\<exists>heap' ptrs' kvs. merge_loop (mt_heap m) ?cur [] = Some (heap', ptrs', kvs) \<and> deref_all heap' kvs = Some qs"
    using merge_single [OF live p] same fp(2) small p by (simp add: qs_def) blast
  then obtain heap' ptrs' kvs where merge: "merge_loop (mt_heap m) ?cur [] = Some (heap', ptrs', kvs)"
    "deref_all heap' kvs = Some qs" by blast
  let ?m = "m\<lparr>mt_wait_for_dump := [], mt_heap := heap'\<rparr>"
  have "restarted ?m" using merge_loop_frame [OF live merge(1)] m(2,4-7) by (rule restarted_merge)
  moreover have "merges_to (s\<lparr>db_mem := m, db_disk := d\<rparr>) qs (s\<lparr>db_mem := ?m, db_disk := d\<rparr>)" for d
    unfolding merges_to_def using merge m(2) by (intro exI conjI) (assumption | simp)+
  ultimately show ?thesis using m(1) fp(3,4) by blast
qed

lemma generation_begin:
  assumes ok: "db_ok s" and full: "card (dom (db_map s)) = RECORD_BUFF_SIZE"
    and base: "\<And>name. name \<noteq> [] \<Longrightarrow> path_join [dm_basepath (db_disk s), name] = Some (p @ name)"
    and wait: "mt_wait_for_dump (db_mem s) = []" and small: "\<forall>k \<in> dom (db_map s). k < INT64_MAX"
    and log: "dm_files (db_disk s) (p @ HOT_LOG) = Some bs" and died: "dm_files (db_disk s) (p @ DIED_LOG) = None"
  shows "\<exists>s1 qs d m. db_check s = Some s1 \<and> merges_to s1 qs (s\<lparr>db_mem := m, db_disk := d\<rparr>) \<and> generation s qs
    \<and> restarted m \<and> switch_log (db_disk s) = Some d \<and> dm_basepath d = dm_basepath (db_disk s)
    \<and> dm_files d = (dm_files (db_disk s))(p @ DIED_LOG \<mapsto> bs, p @ HOT_LOG \<mapsto> [])"
proof -
  have core: "db_core s" using ok by (rule db_ok_core)
  obtain d where d: "switch_log (db_disk s) = Some d" "dm_basepath d = dm_basepath (db_disk s)"
    "dm_files d = (dm_files (db_disk s))(p @ DIED_LOG \<mapsto> bs, p @ HOT_LOG \<mapsto> [])"
    using switch_log_ok [OF base log died] by blast
  obtain m m' qs where m: "submit_dump (db_mem s) = Some m"
    "\<forall>d. merges_to (s\<lparr>db_mem := m, db_disk := d\<rparr>) qs (s\<lparr>db_mem := m', db_disk := d\<rparr>)" "restarted m'"
    "map kv_key qs = sorted_list_of_set (dom (db_map s))" "\<forall>q \<in> set qs. slot_of s (kv_key q) = Some (pair_slot q)"
    using submit_merges [OF core wait small] by blast
  have "db_check s = Some (s\<lparr>db_mem := m, db_disk := d\<rparr>)"
    using db_check_full [OF ok full base wait] died d(1) m(1) by simp
  moreover have "generation s qs" using core m(4,5) full by (rule generation_slots)
  ultimately show ?thesis using m(2,3) d by blast
qed

text \<open>The loop over a generation, in a state whose slots and index are those of \<open>s\<close>.\<close>

lemma generation_ready:
  assumes ok: "db_core s" and gen: "generation s qs"
  shows "quiet (db_buffer s)" and "distinct (map pair_slot qs)" and "distinct (map kv_key qs)"
    and "pair_slot ` set qs \<subseteq> in_use (db_buffer s)" and "index_inv (db_hash s)"
    and "finite (dom (index_lookup (db_hash s)))" and "qs \<noteq> []" and "length qs \<le> 2 ^ 20"
    and "card (dom (index_lookup (db_hash s)) \<union> kv_key ` set qs) < 11662" and "bf_empty (db_buffer s) = []"
proof -
  have gen': "length qs = RECORD_BUFF_SIZE" "in_use (db_buffer s) = pair_slot ` set qs" "distinct (map pair_slot qs)"
    "distinct (map kv_key qs)" "kv_key ` set qs = dom (db_map s)"
    using gen by (simp_all add: generation_def)
  then show "distinct (map pair_slot qs)" "distinct (map kv_key qs)" "pair_slot ` set qs \<subseteq> in_use (db_buffer s)"
    "qs \<noteq> []" "length qs \<le> 2 ^ 20" by (auto simp: RECORD_BUFF_SIZE_def)
  have dom: "dom (index_lookup (db_hash s)) = dom (db_map s)" by (simp add: dom_db_map)
  show "finite (dom (index_lookup (db_hash s)))" unfolding dom by (rule db_core_finite [OF ok])
  have "card (kv_key ` set qs) \<le> RECORD_BUFF_SIZE" using gen'(1) by (metis card_length length_map list.set_map)
  then show "card (dom (index_lookup (db_hash s)) \<union> kv_key ` set qs) < 11662"
    unfolding dom gen'(5) by (simp add: RECORD_BUFF_SIZE_def)
  show q: "quiet (db_buffer s)" "index_inv (db_hash s)" using ok by (simp_all add: db_core_def)
  have "card (in_use (db_buffer s)) = RECORD_BUFF_SIZE"
    unfolding gen'(2) using gen'(1,3) by (metis distinct_card list.set_map length_map)
  then show "bf_empty (db_buffer s) = []" using in_use_card [of "db_buffer s"] q(1) by (simp add: quiet_def)
qed

lemma generation_dump:
  assumes ok: "db_ok s" and full: "card (dom (db_map s)) = RECORD_BUFF_SIZE"
    and base: "\<And>name. name \<noteq> [] \<Longrightarrow> path_join [dm_basepath (db_disk s), name] = Some (p @ name)"
    and wait: "mt_wait_for_dump (db_mem s) = []" and small: "\<forall>k \<in> dom (db_map s). k < INT64_MAX"
    and log: "dm_files (db_disk s) (p @ HOT_LOG) = Some bs" and died: "dm_files (db_disk s) (p @ DIED_LOG) = None"
    and fid: "get_records_num (db_manifest s) = fid" "fid < 256" and cnt: "mn_record_cnt (db_manifest s) \<noteq> []"
  defines "ks \<equiv> sorted_list_of_set (dom (db_map s))"
  shows "\<exists>s1 s2 mf. db_check s = Some s1 \<and> dumper_round junk s1 = Some s2 \<and> quiet (db_buffer s2)
    \<and> bf_data (db_buffer s2) = bf_data (db_buffer s) \<and> in_use (db_buffer s2) = {}
    \<and> slot_of s2 = map_of (zip ks [0..<RECORD_BUFF_SIZE]) \<and> length (mn_records (db_manifest s2)) = Suc fid
    \<and> restarted (db_mem s2) \<and> dm_basepath (db_disk s2) = dm_basepath (db_disk s)
    \<and> dm_files (db_disk s2) = (dm_files (db_disk s))
        (p @ DIED_LOG \<mapsto> bs, p @ HOT_LOG \<mapsto> [],
         p @ sst_name fid \<mapsto> sst_keys ks @ concat (map (\<lambda>k. the (db_map s k)) ks),
         p @ MANIFIST_FILE \<mapsto> mf, p @ DIED_LOG := None)"
proof -
  obtain s1 qs d m where bg: "db_check s = Some s1" "merges_to s1 qs (s\<lparr>db_mem := m, db_disk := d\<rparr>)" "generation s qs"
    "restarted m" "dm_basepath d = dm_basepath (db_disk s)"
    "dm_files d = (dm_files (db_disk s))(p @ DIED_LOG \<mapsto> bs, p @ HOT_LOG \<mapsto> [])"
    using generation_begin [OF ok full base wait small log died] by blast
  let ?t = "s\<lparr>db_mem := m, db_disk := d\<rparr>"
  note ready = generation_ready [OF db_ok_core [OF ok] bg(3)]
  have gen: "map kv_key qs = ks" "length qs = RECORD_BUFF_SIZE" "in_use (db_buffer s) = pair_slot ` set qs"
    "kv_key ` set qs = dom (db_map s)" "\<forall>q \<in> set qs. slot_of s (kv_key q) = Some (pair_slot q)"
    using bg(3) by (simp_all add: generation_def ks_def)
  have base': "\<And>name. name \<noteq> [] \<Longrightarrow> path_join [dm_basepath (db_disk ?t), name] = Some (p @ name)"
    using base bg(5) by (simp del: path_join.simps)
  have "\<exists>s' mf. dump_all junk qs ?t = Some s' \<and> quiet (db_buffer s') \<and> bf_data (db_buffer s') = bf_data (db_buffer ?t)
    \<and> in_use (db_buffer s') = in_use (db_buffer ?t) - pair_slot ` set qs
    \<and> hash_slots (db_hash s') = hash_slots (db_hash ?t) ++ map_of (zip (map kv_key qs) [0..<length qs])
    \<and> db_mem s' = db_mem ?t \<and> length (mn_records (db_manifest s')) = Suc fid
    \<and> dm_basepath (db_disk s') = dm_basepath (db_disk ?t)
    \<and> dm_files (db_disk s') = (dm_files (db_disk ?t))
        (p @ sst_name fid \<mapsto> sst_keys (map kv_key qs) @ concat (map (\<lambda>q. get_value (bf_data (db_buffer ?t) ! pair_slot q)) qs),
         p @ MANIFIST_FILE \<mapsto> mf, p @ DIED_LOG := None)"
    using base' fid cnt ready by (intro dump_all_ok) (simp_all del: path_join.simps)
  then obtain s2 mf where s2: "dump_all junk qs ?t = Some s2" "quiet (db_buffer s2)" "bf_data (db_buffer s2) = bf_data (db_buffer s)"
    "in_use (db_buffer s2) = in_use (db_buffer s) - pair_slot ` set qs"
    "hash_slots (db_hash s2) = hash_slots (db_hash s) ++ map_of (zip ks [0..<RECORD_BUFF_SIZE])"
    "length (mn_records (db_manifest s2)) = Suc fid" "dm_basepath (db_disk s2) = dm_basepath d" "db_mem s2 = m"
    "dm_files (db_disk s2) = (dm_files d)
        (p @ sst_name fid \<mapsto> sst_keys ks @ concat (map (\<lambda>q. get_value (bf_data (db_buffer s) ! pair_slot q)) qs),
         p @ MANIFIST_FILE \<mapsto> mf, p @ DIED_LOG := None)"
    by (auto simp: gen(1,2) simp del: fun_upd_apply)
  have "map (\<lambda>q. get_value (bf_data (db_buffer s) ! pair_slot q)) qs = map (\<lambda>k. the (db_map s k)) ks"
    using gen(5) unfolding gen(1) [symmetric] by (simp add: db_map_def)
  then have files: "dm_files (db_disk s2) = (dm_files (db_disk s))
        (p @ DIED_LOG \<mapsto> bs, p @ HOT_LOG \<mapsto> [],
         p @ sst_name fid \<mapsto> sst_keys ks @ concat (map (\<lambda>k. the (db_map s k)) ks),
         p @ MANIFIST_FILE \<mapsto> mf, p @ DIED_LOG := None)"
    unfolding s2(9) bg(6) by simp
  have "slot_of s2 = map_of (zip ks [0..<RECORD_BUFF_SIZE])"
  proof
    fix k
    have "set ks = dom (hash_slots (db_hash s))"
      using gen(1,4) by (simp add: hash_slots_def [abs_def] dom_def db_map_def slot_of_def flip: gen(1))
    then have "dom (map_of (zip ks [0..<RECORD_BUFF_SIZE])) = dom (hash_slots (db_hash s))"
      using gen(2) by (simp flip: gen(1))
    then have "hash_slots (db_hash s2) k = map_of (zip ks [0..<RECORD_BUFF_SIZE]) k"
      unfolding s2(5) map_add_def by (auto split: option.splits)
    then show "slot_of s2 k = map_of (zip ks [0..<RECORD_BUFF_SIZE]) k"
      by (simp add: slot_of_def hash_slots_def)
  qed
  moreover have "in_use (db_buffer s2) = {}" using s2(4) gen(3) by simp
  moreover have "restarted (db_mem s2)" "dm_basepath (db_disk s2) = dm_basepath (db_disk s)" using s2(7,8) bg(4,5) by simp_all
  moreover have "dumper_round junk s1 = Some s2" using merges_round [OF bg(2)] s2(1) by simp
  ultimately show ?thesis using bg(1) s2(2,3,6) files by (intro exI conjI) (assumption | simp)+
qed

subsection \<open>A full generation in a new process\<close>

text \<open>The slots that the writes of different keys get.\<close>

definition slots_in_order :: "write_op list \<Rightarrow> DBSystem \<Rightarrow> bool" where
  "slots_in_order ws s \<longleftrightarrow> (\<forall>i < length ws. slot_of s (key_of (ws ! i)) = Some (RECORD_BUFF_SIZE - 1 - i))"

lemma slots_in_order_step:
  assumes empty: "bf_empty (db_buffer s0) = [0..<RECORD_BUFF_SIZE]" and since: "since s0 ws s"
    and slots: "slots_in_order ws s" and step: "db_step (key_of w) val s s'"
    and len: "length ws < RECORD_BUFF_SIZE" and dist: "distinct (map key_of (ws @ [w]))"
  shows "slots_in_order (ws @ [w]) s'"
proof -
  have "bf_empty (db_buffer s) = [0..<RECORD_BUFF_SIZE - length ws]"
    using since empty len by (simp add: since_def take_upt)
  then have "last (bf_empty (db_buffer s)) = RECORD_BUFF_SIZE - 1 - length ws"
    using len by simp
  then have "slot_of s' = (slot_of s)(key_of w \<mapsto> RECORD_BUFF_SIZE - 1 - length ws)"
    using step by (simp add: db_step_def)
  moreover have "key_of (ws ! i) \<noteq> key_of w" if "i < length ws" for i
  proof -
    have "key_of (ws ! i) \<in> key_of ` set ws" using that by simp
    with dist show ?thesis by auto
  qed
  ultimately show ?thesis using slots by (auto simp: slots_in_order_def nth_append less_Suc_eq)
qed

lemma since_writes_slots:
  assumes ok: "db_ok s0" and empty: "bf_empty (db_buffer s0) = [0..<RECORD_BUFF_SIZE]" and map: "db_map s0 = Map.empty"
    and log: "dm_curr_log_len (db_disk s0) = 0"
  shows "\<forall>w \<in> set ws. valid_write w \<Longrightarrow> distinct (map key_of ws) \<Longrightarrow> length ws < RECORD_BUFF_SIZE \<Longrightarrow>
    \<exists>s. db_writes ws s0 = Some s \<and> since s0 ws s \<and> slots_in_order ws s"
proof (induction ws rule: rev_induct)
  case Nil
  then show ?case using since_refl [OF ok] by (simp add: slots_in_order_def)
next
  case (snoc w ws)
  obtain rnd key val where w: "w = (rnd, key, val)" by (cases w)
  obtain s where s: "db_writes ws s0 = Some s" "since s0 ws s" "slots_in_order ws s" using snoc by auto
  have "card (key_of ` set (ws @ [w])) \<le> length (ws @ [w])" by (metis card_length list.set_map length_map)
  then have "card (dom (db_map s0) \<union> key_of ` set (ws @ [w])) < RECORD_BUFF_SIZE" using snoc.prems(3) map by simp
  moreover have "dm_curr_log_len (db_disk s0) + Suc (length ws) * sizeof_Record < 2 ^ 31"
    using snoc.prems(3) log by (simp add: sizeof_Record_def RECORD_VALUE_LEN_def RECORD_BUFF_SIZE_def)
  ultimately obtain s' where s': "DBSystem_write rnd key val s = Some s'" "since s0 (ws @ [w]) s'" "db_step (key_of w) val s s'"
    using since_write [OF s(2), of rnd key val] snoc.prems(1,3) empty by (auto simp: w)
  then show ?case
    using s slots_in_order_step [OF empty s(2,3) s'(3) _ snoc.prems(2)] snoc.prems(3) by (auto simp: w db_writes_snoc)
qed

lemma DBSystem_init_fresh:
  assumes nf: "no_files base fs"
  shows "\<exists>s. DBSystem_init g g' base fs = Some s \<and> db_ok s \<and> db_map s = Map.empty \<and> db_buffer s = Buffer_new
    \<and> mt_wait_for_dump (db_mem s) = [] \<and> db_manifest s = manifest_new
    \<and> db_disk s = open_append (the (path_join [base, HOT_LOG])) (DiskManager_init base fs)"
proof -
  obtain s where s: "db_core s" "db_map s = Map.empty" "db_buffer s = Buffer_new"
    "mt_wait_for_dump (db_mem s) = []" "db_manifest s = manifest_new" "db_disk s = DiskManager_init base fs"
    "\<forall>wait. DBSystem_open wait g g' base fs = init_log wait g' HOT_LOG_T s"
    using DBSystem_open_hot [where base = base and fs = fs and g = g and g' = g', OF no_files_holds(1,2) [OF nf]] nf
    by (auto simp: no_files_def simp del: path_join.simps)
  obtain p where p: "\<And>name. name \<noteq> [] \<Longrightarrow> path_join [base, name] = Some (p @ name)"
    using path_join_names no_files_holds(1) [OF nf] by blast
  note paths = p [OF log_names(2)]
  have none: "fs (p @ HOT_LOG) = None"
    using nf by (simp add: no_files_def paths del: path_join.simps)
  have d: "dm_basepath (db_disk s) = base" "dm_files (db_disk s) = fs" using s(6) by (simp_all add: DiskManager_init_def)
  have "path_join [dm_basepath (db_disk s), log_name HOT_LOG_T] = Some (p @ HOT_LOG)"
    by (simp only: log_name_def d paths LogType.case)
  from init_log_unfold [OF this, of _ g'] have "init_log wait g' HOT_LOG_T s = Some (Inr (s\<lparr>db_disk := open_append (p @ HOT_LOG) (db_disk s)\<rparr>))" for wait
    by (simp add: d none after_log_def)
  then have "DBSystem_init g g' base fs = Some (s\<lparr>db_disk := open_append (p @ HOT_LOG) (db_disk s)\<rparr>)"
    using s(7) by (simp add: DBSystem_init_def)
  moreover let ?s = "s\<lparr>db_disk := open_append (p @ HOT_LOG) (db_disk s)\<rparr>"
  have "db_ok ?s" using s(1) none by (simp add: db_ok_def slot_of_disk open_append_def if_file_exists_def d)
  ultimately show ?thesis using s(2-6) paths by (intro exI [of _ ?s]) (simp add: slot_of_disk del: path_join.simps)
qed

lemma fresh_generation:
  assumes nf: "no_files base fs" and valid: "\<forall>w \<in> set (ws @ [w]). valid_write w"
    and len: "length ws = RECORD_BUFF_SIZE - 1" and dist: "distinct (map key_of (ws @ [w]))"
  shows "\<exists>s. Option.bind (DBSystem_init g g' base fs) (db_writes (ws @ [w])) = db_check s
    \<and> db_ok s \<and> db_map s = contents (ws @ [w]) \<and> slots_in_order (ws @ [w]) s
    \<and> mt_wait_for_dump (db_mem s) = [] \<and> db_manifest s = manifest_new \<and> dm_basepath (db_disk s) = base
    \<and> dm_files (db_disk s) = fs(the (path_join [base, HOT_LOG]) \<mapsto> log_bytes (records (ws @ [w])))
    \<and> dm_curr_log_len (db_disk s) = RECORD_BUFF_SIZE * sizeof_Record"
proof -
  have nfs: "fs (the (path_join [base, HOT_LOG])) = None" using nf by (simp add: no_files_def del: path_join.simps)
  obtain s0 where s0: "DBSystem_init g g' base fs = Some s0" "db_ok s0" "db_map s0 = Map.empty"
    "length (bf_empty (db_buffer s0)) = RECORD_BUFF_SIZE" "mt_wait_for_dump (db_mem s0) = []"
    "db_manifest s0 = manifest_new" "bf_empty (db_buffer s0) = [0..<RECORD_BUFF_SIZE]"
    "db_disk s0 = open_append (the (path_join [base, HOT_LOG])) (DiskManager_init base fs)"
    using DBSystem_init_fresh [OF nf, of g g'] by (auto simp: Buffer_new_def)
  from s0(8) nfs have d: "dm_curr_log_len (db_disk s0) = 0" "dm_curr_log_fd (db_disk s0) = Some (the (path_join [base, HOT_LOG]))"
    "dm_files (db_disk s0) = fs(the (path_join [base, HOT_LOG]) \<mapsto> [])" "dm_basepath (db_disk s0) = base"
    by (simp_all add: open_append_def DiskManager_init_def if_file_exists_def del: path_join.simps)
  have lt: "length ws < RECORD_BUFF_SIZE" using len by (simp add: RECORD_BUFF_SIZE_def)
  obtain s where s: "db_writes ws s0 = Some s" "since s0 ws s" "slots_in_order ws s"
    using since_writes_slots [OF s0(2,7,3) d(1), of ws] valid dist lt by auto
  obtain rnd key val where w: "w = (rnd, key, val)" by (cases w)
  have "dm_curr_log_len (db_disk s0) + Suc (length ws) * sizeof_Record < 2 ^ 31"
    using len d(1) by (simp add: sizeof_Record_def RECORD_VALUE_LEN_def RECORD_BUFF_SIZE_def)
  then obtain s' where s': "db_put rnd (key_of w) val s = Some s'" "since s0 (ws @ [w]) s'" "db_step (key_of w) val s s'"
    using since_put [OF s(2), of w rnd] valid lt s0(4) by (auto simp: w)
  have "get_key_string key = Some (key_of w)" using valid by (auto simp: w valid_write_def key_of_def)
  then have "Option.bind (DBSystem_init g g' base fs) (db_writes (ws @ [w])) = db_check s'"
    using s0(1) s(1) s'(1) by (simp add: w db_writes_snoc write_split)
  moreover have "slots_in_order (ws @ [w]) s'" by (rule slots_in_order_step [OF s0(7) s(2,3) s'(3) lt dist])
  moreover have "dm_files (db_disk s') = fs(the (path_join [base, HOT_LOG]) \<mapsto> log_bytes (records (ws @ [w])))"
    using s'(2) by (simp add: since_def log_extend_def d write_fd_def del: path_join.simps)
  moreover have "dm_curr_log_len (db_disk s') = RECORD_BUFF_SIZE * sizeof_Record"
  proof -
    have "length (ws @ [w]) = RECORD_BUFF_SIZE" using len by (simp add: RECORD_BUFF_SIZE_def)
    moreover have "dm_curr_log_len (db_disk s') = length (ws @ [w]) * sizeof_Record"
      using s'(2) d(1) by (simp only: since_def log_extend_simps length_records add_0)
    ultimately show ?thesis by (simp only:)
  qed
  ultimately show ?thesis using s'(2) s0 d by (intro exI [of _ s']) (simp add: since_def log_extend_simps del: contents_simps)
qed

lemma contents_nth:
  assumes "distinct (map key_of ws)" and "i < length ws"
  shows "contents ws (key_of (ws ! i)) = Some (take RECORD_VALUE_LEN (snd (snd (ws ! i))))"
proof -
  let ?kvs = "map (\<lambda>w. (key_of w, take RECORD_VALUE_LEN (snd (snd w)))) ws"
  have "distinct (map fst (rev ?kvs))" using assms(1) by (simp add: rev_map [symmetric] comp_def)
  moreover have "(key_of (ws ! i), take RECORD_VALUE_LEN (snd (snd (ws ! i)))) \<in> set (rev ?kvs)" using assms(2) by auto
  ultimately show ?thesis unfolding contents_def by (rule map_of_is_SomeI)
qed

text \<open>After the writes of a full generation, before the test of the last one.\<close>

lemma fresh_full:
  assumes nf: "no_files base fs" and valid: "\<forall>w \<in> set ws. valid_write w" and len: "length ws = RECORD_BUFF_SIZE"
    and dist: "distinct (map key_of ws)" and small: "\<forall>w \<in> set ws. key_of w < INT64_MAX"
    and base: "\<And>name. name \<noteq> [] \<Longrightarrow> path_join [base, name] = Some (p @ name)"
  shows "\<exists>t. Option.bind (DBSystem_init g g' base fs) (db_writes ws) = db_check t \<and> db_ok t
    \<and> db_map t = contents ws \<and> slots_in_order ws t \<and> mt_wait_for_dump (db_mem t) = []
    \<and> db_manifest t = manifest_new \<and> dm_basepath (db_disk t) = base
    \<and> dm_files (db_disk t) = fs(p @ HOT_LOG \<mapsto> log_bytes (records ws))
    \<and> card (dom (db_map t)) = RECORD_BUFF_SIZE \<and> (\<forall>k \<in> dom (db_map t). k < INT64_MAX)
    \<and> sorted_list_of_set (dom (db_map t)) = sort (map key_of ws)
    \<and> dm_files (db_disk t) (p @ HOT_LOG) = Some (log_bytes (records ws)) \<and> dm_files (db_disk t) (p @ DIED_LOG) = None
    \<and> get_records_num (db_manifest t) = 0 \<and> mn_record_cnt (db_manifest t) \<noteq> []
    \<and> dm_curr_log_len (db_disk t) = RECORD_BUFF_SIZE * sizeof_Record"
proof -
  have "ws \<noteq> []" using len by (auto simp: RECORD_BUFF_SIZE_def)
  then have split: "ws = butlast ws @ [last ws]" by simp
  note paths = base [OF log_names(2)] base [OF log_names(3)]
  have "fs (p @ DIED_LOG) = None" using nf by (simp add: no_files_def paths del: path_join.simps)
  moreover have "\<exists>s. Option.bind (DBSystem_init g g' base fs) (db_writes (butlast ws @ [last ws])) = db_check s
    \<and> db_ok s \<and> db_map s = contents (butlast ws @ [last ws]) \<and> slots_in_order (butlast ws @ [last ws]) s
    \<and> mt_wait_for_dump (db_mem s) = [] \<and> db_manifest s = manifest_new \<and> dm_basepath (db_disk s) = base
    \<and> dm_files (db_disk s) = fs(the (path_join [base, HOT_LOG]) \<mapsto> log_bytes (records (butlast ws @ [last ws])))
    \<and> dm_curr_log_len (db_disk s) = RECORD_BUFF_SIZE * sizeof_Record"
    by (rule fresh_generation [OF nf]) (use valid dist len split in simp_all)
  then obtain t where t: "Option.bind (DBSystem_init g g' base fs) (db_writes ws) = db_check t" "db_ok t"
    "db_map t = contents ws" "slots_in_order ws t" "mt_wait_for_dump (db_mem t) = []" "db_manifest t = manifest_new"
    "dm_basepath (db_disk t) = base" "dm_files (db_disk t) = fs(p @ HOT_LOG \<mapsto> log_bytes (records ws))"
    "dm_curr_log_len (db_disk t) = RECORD_BUFF_SIZE * sizeof_Record"
    by (auto simp flip: split simp: paths simp del: path_join.simps)
  moreover have "card (dom (db_map t)) = RECORD_BUFF_SIZE"
    using dist len unfolding t(3) dom_contents by (metis distinct_card list.set_map length_map)
  moreover have "sorted_list_of_set (dom (db_map t)) = sort (map key_of ws)"
    using dist unfolding t(3) dom_contents by (metis distinct_remdups_id list.set_map sorted_list_of_set_sort_remdups)
  moreover have "\<forall>k \<in> dom (db_map t). k < INT64_MAX" using small unfolding t(3) dom_contents by auto
  moreover have "get_records_num manifest_new = 0" "mn_record_cnt manifest_new \<noteq> []"
    by (simp_all add: manifest_new_def get_records_num_def MAX_LOG_RECORD_NUM_def)
  ultimately show ?thesis using log_names(1) by (intro exI [of _ t]) simp
qed

text \<open>The writes of a full generation and the round of the dumper after them.\<close>

lemma generation_round:
  assumes nf: "no_files base fs" and valid: "\<forall>w \<in> set ws. valid_write w" and len: "length ws = RECORD_BUFF_SIZE"
    and dist: "distinct (map key_of ws)" and small: "\<forall>w \<in> set ws. key_of w < INT64_MAX"
    and base: "\<And>name. name \<noteq> [] \<Longrightarrow> path_join [base, name] = Some (p @ name)"
  defines "ks \<equiv> sort (map key_of ws)"
  shows "\<exists>s s' mf. Option.bind (DBSystem_init g g' base fs) (db_writes ws) = Some s \<and> dumper_round junk s = Some s'
    \<and> quiet (db_buffer s') \<and> in_use (db_buffer s') = {}
    \<and> (\<forall>i < RECORD_BUFF_SIZE. get_value (bf_data (db_buffer s') ! (RECORD_BUFF_SIZE - 1 - i))
          = take RECORD_VALUE_LEN (snd (snd (ws ! i))))
    \<and> slot_of s' = map_of (zip ks [0..<RECORD_BUFF_SIZE]) \<and> length (mn_records (db_manifest s')) = 1
    \<and> dm_files (db_disk s') = fs
        (p @ HOT_LOG \<mapsto> [], p @ sst_name 0 \<mapsto> sst_keys ks @ concat (map (\<lambda>k. the (contents ws k)) ks),
         p @ MANIFIST_FILE \<mapsto> mf, p @ DIED_LOG := None)"
proof -
  have died: "fs (p @ DIED_LOG) = None"
    using nf base [OF log_names(3)] by (simp add: no_files_def del: path_join.simps)
  obtain t where t: "Option.bind (DBSystem_init g g' base fs) (db_writes ws) = db_check t" "db_ok t"
    "db_map t = contents ws" "slots_in_order ws t" "mt_wait_for_dump (db_mem t) = []"
    "dm_basepath (db_disk t) = base" "dm_files (db_disk t) = fs(p @ HOT_LOG \<mapsto> log_bytes (records ws))"
    and full: "card (dom (db_map t)) = RECORD_BUFF_SIZE" and small': "\<forall>k \<in> dom (db_map t). k < INT64_MAX"
    and ks: "sorted_list_of_set (dom (db_map t)) = ks"
    and log: "dm_files (db_disk t) (p @ HOT_LOG) = Some (log_bytes (records ws))" "dm_files (db_disk t) (p @ DIED_LOG) = None"
    and mn: "get_records_num (db_manifest t) = 0" "mn_record_cnt (db_manifest t) \<noteq> []"
    using fresh_full [OF nf valid len dist small base, of g g'] unfolding ks_def by blast
  have base': "\<And>name. name \<noteq> [] \<Longrightarrow> path_join [dm_basepath (db_disk t), name] = Some (p @ name)"
    unfolding t(6) by (rule base)
  obtain s s' mf where s: "db_check t = Some s" "dumper_round junk s = Some s'" "quiet (db_buffer s')"
    "bf_data (db_buffer s') = bf_data (db_buffer t)" "in_use (db_buffer s') = {}"
    "slot_of s' = map_of (zip ks [0..<RECORD_BUFF_SIZE])" "length (mn_records (db_manifest s')) = Suc 0"
    "dm_files (db_disk s') = (dm_files (db_disk t))
        (p @ DIED_LOG \<mapsto> log_bytes (records ws), p @ HOT_LOG \<mapsto> [],
         p @ sst_name 0 \<mapsto> sst_keys ks @ concat (map (\<lambda>k. the (db_map t k)) ks),
         p @ MANIFIST_FILE \<mapsto> mf, p @ DIED_LOG := None)"
    using generation_dump [OF t(2) full base' t(5) small' log mn(1) _ mn(2), of junk] unfolding ks by auto
  have "get_value (bf_data (db_buffer s') ! (RECORD_BUFF_SIZE - 1 - i)) = take RECORD_VALUE_LEN (snd (snd (ws ! i)))"
    if "i < RECORD_BUFF_SIZE" for i
  proof -
    have "slot_of t (key_of (ws ! i)) = Some (RECORD_BUFF_SIZE - 1 - i)" using t(4) that len by (simp add: slots_in_order_def)
    then have "db_map t (key_of (ws ! i)) = Some (get_value (bf_data (db_buffer s') ! (RECORD_BUFF_SIZE - 1 - i)))"
      by (simp add: db_map_def s(4))
    then show ?thesis using contents_nth [OF dist] that len by (simp add: t(3))
  qed
  moreover have "dm_files (db_disk s') = fs
        (p @ HOT_LOG \<mapsto> [], p @ sst_name 0 \<mapsto> sst_keys ks @ concat (map (\<lambda>k. the (contents ws k)) ks),
         p @ MANIFIST_FILE \<mapsto> mf, p @ DIED_LOG := None)"
    unfolding s(8) t(3,7) using log_names(1) by (auto simp: fun_eq_iff)
  ultimately show ?thesis using t(1) s by (intro exI conjI) (assumption | simp)+
qed

text \<open>When \<^verbatim>\<open>RECORD_BUFF_SIZE\<close> different keys have been written, the
  last of these writes still succeeds, and one round of the dumper turns them into a table file:
  the number of records, the keys in ascending order, and the values in the same order. The died
  log is removed, the current log is empty, the manifest has one record, and all slots are free.\<close>

lemma generation_to_table:
  assumes "no_files base fs" and "\<forall>w \<in> set ws. valid_write w" and "length ws = RECORD_BUFF_SIZE"
    and "distinct (map key_of ws)" and "\<forall>w \<in> set ws. key_of w < INT64_MAX"
  shows "\<exists>s s'. Option.bind (DBSystem_init g g' base fs) (db_writes ws) = Some s \<and> dumper_round junk s = Some s'
    \<and> dm_files (db_disk s') (the (path_join [base, sst_name 0])) = Some (le_bytes 4 RECORD_BUFF_SIZE
        @ concat (map (\<lambda>k. le_bytes 8 (unat k)) (sort (map key_of ws)))
        @ concat (map (\<lambda>k. the (contents ws k)) (sort (map key_of ws))))
    \<and> dm_files (db_disk s') (the (path_join [base, DIED_LOG])) = None
    \<and> dm_files (db_disk s') (the (path_join [base, HOT_LOG])) = Some []
    \<and> in_use (db_buffer s') = {} \<and> get_records_num (db_manifest s') = 1"
proof -
  obtain p where p: "\<And>name. name \<noteq> [] \<Longrightarrow> path_join [base, name] = Some (p @ name)"
    using path_join_names no_files_holds(1) [OF assms(1)] by blast
  note paths = p [OF log_names(2)] p [OF log_names(3)] p [OF sst_name_names(1)]
  let ?ks = "sort (map key_of ws)"
  obtain s s' mf where s: "Option.bind (DBSystem_init g g' base fs) (db_writes ws) = Some s" "dumper_round junk s = Some s'"
    "in_use (db_buffer s') = {}" "length (mn_records (db_manifest s')) = 1"
    "dm_files (db_disk s') = fs
        (p @ HOT_LOG \<mapsto> [], p @ sst_name 0 \<mapsto> sst_keys ?ks @ concat (map (\<lambda>k. the (contents ws k)) ?ks),
         p @ MANIFIST_FILE \<mapsto> mf, p @ DIED_LOG := None)"
    using generation_round [OF assms p, of g g' junk] by blast
  have "sst_keys ?ks = le_bytes 4 RECORD_BUFF_SIZE @ concat (map (\<lambda>k. le_bytes 8 (unat k)) ?ks)"
    using assms(3) by (simp add: sst_keys_def unat_of_nat RECORD_BUFF_SIZE_def)
  with s show ?thesis
    using sst_name_names [of 0] MANIFIST_names log_names unfolding paths
    by (intro exI [of _ s] exI [of _ s']) (simp add: get_records_num_def)
qed

text \<open>C12: But \<^verbatim>\<open>read\<close> does not look into table files: it takes the position of a
  record in the file for a slot of the pool. So after the first generation of a process that started in
  an empty directory (\<^verbatim>\<open>RECORD_BUFF_SIZE\<close> valid writes of different keys below
  \<^verbatim>\<open>INT64_MAX\<close>) has been dumped, the read of the \<open>j\<close>-th key in ascending order returns what
  the \<open>j\<close>-th last write wrote, under whatever key that was.\<close>

theorem read_after_dump:
  assumes "no_files base fs" and "\<forall>w \<in> set ws. valid_write w" and "length ws = RECORD_BUFF_SIZE"
    and "distinct (map key_of ws)" and "\<forall>w \<in> set ws. key_of w < INT64_MAX"
    and "j < RECORD_BUFF_SIZE" and "get_key_string key = Some (sort (map key_of ws) ! j)"
  shows "\<exists>s s'. Option.bind (DBSystem_init g g' base fs) (db_writes ws) = Some s \<and> dumper_round junk s = Some s'
    \<and> DBSystem_read key s' = Some (take RECORD_VALUE_LEN (snd (snd (ws ! (RECORD_BUFF_SIZE - 1 - j)))), s')"
proof -
  obtain p where p: "\<And>name. name \<noteq> [] \<Longrightarrow> path_join [base, name] = Some (p @ name)"
    using path_join_names no_files_holds(1) [OF assms(1)] by blast
  let ?ks = "sort (map key_of ws)"
  obtain s s' where s: "Option.bind (DBSystem_init g g' base fs) (db_writes ws) = Some s" "dumper_round junk s = Some s'"
    "quiet (db_buffer s')" "slot_of s' = map_of (zip ?ks [0..<RECORD_BUFF_SIZE])"
    "\<forall>i < RECORD_BUFF_SIZE. get_value (bf_data (db_buffer s') ! (RECORD_BUFF_SIZE - 1 - i))
          = take RECORD_VALUE_LEN (snd (snd (ws ! i)))"
    using generation_round [OF assms(1-5) p, of g g' junk] by blast
  have "slot_of s' (?ks ! j) = Some ([0..<RECORD_BUFF_SIZE] ! j)"
    unfolding s(4) using assms(3,4,6) by (intro map_of_zip_nth) simp_all
  then have "DBSystem_read key s' = Some (get_value (bf_data (db_buffer s') ! j), s')"
    using db_read_slot [OF s(3) assms(7)] assms(6) by simp
  moreover have "get_value (bf_data (db_buffer s') ! j) = take RECORD_VALUE_LEN (snd (snd (ws ! (RECORD_BUFF_SIZE - 1 - j))))"
    using s(5) [rule_format, of "RECORD_BUFF_SIZE - 1 - j"] assms(6) by simp
  ultimately show ?thesis using s(1,2) by auto
qed

text \<open>The numbered keys of the test programs.\<close>

definition num_write :: "nat \<Rightarrow> write_op" where
  "num_write n = (\<lambda>_. 1, fixed_dec 8 n, replicate RECORD_VALUE_LEN (of_nat n))"

lemma num_write_key:
  assumes "n < 10 ^ 8"
  shows "get_key_string (fixed_dec 8 n) = Some (key_of (num_write n))" and "valid_write (num_write n)"
proof -
  have "get_key_string (fixed_dec 8 n) \<noteq> None"
    by (simp add: get_key_string_def get_key_def)
  then show "get_key_string (fixed_dec 8 n) = Some (key_of (num_write n))" "valid_write (num_write n)"
    by (auto simp: num_write_def key_of_def valid_write_def)
qed

lemma num_write_less:
  assumes "m < n" and "n < 10 ^ 8"
  shows "key_of (num_write m) < key_of (num_write n)"
  using fixed_dec_key [OF assms] by (auto simp: num_write_def key_of_def)

lemma num_write_small:
  assumes "n < 1024"
  shows "key_of (num_write n) < INT64_MAX"
proof -
  have "key_of (num_write n) < key_of (num_write 99999999)" using assms by (intro num_write_less) simp_all
  also have "key_of (num_write 99999999) = 0x3939393939393939"
  proof -
    have "fixed_dec (Suc (Suc (Suc (Suc (Suc (Suc (Suc (Suc 0)))))))) 99999999 = cstr ''99999999''"
      by (simp add: cstr_def)
    moreover have "Suc (Suc (Suc (Suc (Suc (Suc (Suc (Suc 0))))))) = 8" by simp
    ultimately have "fixed_dec 8 99999999 = cstr ''99999999''" by metis
    then show ?thesis
      by (simp add: key_of_def num_write_def get_key_string_def get_key_def get_key_step_def cstr_def upt_rec)
  qed
  also have "\<dots> < INT64_MAX" by (simp add: INT64_MAX_def)
  finally show ?thesis .
qed

lemma num_writes_sorted: "sorted_wrt (<) (map (\<lambda>n. key_of (num_write n)) [0..<1024])"
  by (simp add: sorted_wrt_map sorted_wrt_iff_nth_less num_write_less)

definition num_writes :: "write_op list" where
  "num_writes = map num_write [0..<RECORD_BUFF_SIZE]"

lemma num_writes_ok:
  "\<forall>w \<in> set num_writes. valid_write w" "length num_writes = RECORD_BUFF_SIZE"
  "distinct (map key_of num_writes)" "\<forall>w \<in> set num_writes. key_of w < INT64_MAX"
  "sort (map key_of num_writes) = map key_of num_writes"
proof -
  have "sorted_wrt (<) (map key_of num_writes)"
    using num_writes_sorted by (simp add: num_writes_def RECORD_BUFF_SIZE_def comp_def)
  then show "distinct (map key_of num_writes)" "sort (map key_of num_writes) = map key_of num_writes"
    by (simp_all add: strict_sorted_iff sorted_sort_id)
  show "\<forall>w \<in> set num_writes. valid_write w" "\<forall>w \<in> set num_writes. key_of w < INT64_MAX"
    by (auto simp: num_writes_def RECORD_BUFF_SIZE_def intro!: num_write_key num_write_small)
qed (simp add: num_writes_def)

lemma generation_to_table_example:
  "\<exists>s s'. Option.bind (DBSystem_init (\<lambda>_ _. 1) (\<lambda>_ _. 1) [100] Map.empty) (db_writes num_writes) = Some s
    \<and> dumper_round [] s = Some s' \<and> in_use (db_buffer s') = {} \<and> get_records_num (db_manifest s') = 1"
  using generation_to_table [OF no_files_empty num_writes_ok(1-4), of "\<lambda>_ _. 1" "\<lambda>_ _. 1" "[]"] by blast

text \<open>The first key was written with zeros, and reads back 255s.\<close>

theorem read_after_dump_witness:
  "\<exists>s s'. Option.bind (DBSystem_init (\<lambda>_ _. 1) (\<lambda>_ _. 1) [100] Map.empty) (db_writes num_writes) = Some s
    \<and> dumper_round [] s = Some s'
    \<and> DBSystem_read (fixed_dec 8 0) s' = Some (replicate RECORD_VALUE_LEN 255, s')
    \<and> contents num_writes (key_of (num_write 0)) = Some (replicate RECORD_VALUE_LEN 0)"
proof -
  have "num_writes ! 0 = num_write 0" by (simp add: num_writes_def RECORD_BUFF_SIZE_def)
  then have key: "sort (map key_of num_writes) ! 0 = key_of (num_write 0)"
    using num_writes_ok(2) by (simp add: num_writes_ok(5) RECORD_BUFF_SIZE_def)
  have "num_writes ! (RECORD_BUFF_SIZE - 1 - 0) = num_write 1023" by (simp add: num_writes_def RECORD_BUFF_SIZE_def)
  then have last: "take RECORD_VALUE_LEN (snd (snd (num_writes ! (RECORD_BUFF_SIZE - 1 - 0)))) = replicate RECORD_VALUE_LEN 255"
    by (simp add: num_write_def)
  have "contents num_writes (key_of (num_write 0)) = Some (replicate RECORD_VALUE_LEN 0)"
    using contents_nth [OF num_writes_ok(3), of 0] num_writes_ok(2) \<open>num_writes ! 0 = num_write 0\<close>
    by (simp add: num_write_def RECORD_BUFF_SIZE_def)
  moreover have "\<exists>s s'. Option.bind (DBSystem_init (\<lambda>_ _. 1) (\<lambda>_ _. 1) [100] Map.empty) (db_writes num_writes) = Some s
    \<and> dumper_round [] s = Some s'
    \<and> DBSystem_read (fixed_dec 8 0) s'
      = Some (take RECORD_VALUE_LEN (snd (snd (num_writes ! (RECORD_BUFF_SIZE - 1 - 0)))), s')"
  proof (rule read_after_dump [OF no_files_empty num_writes_ok(1-4)])
    show "get_key_string (fixed_dec 8 0) = Some (sort (map key_of num_writes) ! 0)"
      unfolding key by (rule num_write_key) simp
  qed (simp add: RECORD_BUFF_SIZE_def)
  ultimately show ?thesis unfolding last by blast
qed

subsection \<open>A died log that is left over\<close>

lemma dom_log_map: "dom (log_map rs Map.empty) = rc_key ` set rs"
proof (induction rs rule: rev_induct)
  case (snoc r rs)
  have "log_map (rs @ [r]) Map.empty = (log_map rs Map.empty)(rc_key r \<mapsto> rc_value r)" by (simp add: log_map_def)
  with snoc show ?case by (simp del: fun_upd_apply)
qed (simp add: log_map_def)

text \<open>C19: A crash between \<^verbatim>\<open>switch_log\<close> and the end of the dump leaves a died
  log. The next process reads it, but does not dump it, so it stays: the write that fills the next
  generation then waits in \<^verbatim>\<open>switch_log\<close> for the dumper to remove the died log, while
  the dumper waits for that write to submit the generation. Nothing ever goes on.\<close>

theorem died_log_deadlock:
  assumes "base \<noteq> []" and "fs (the (path_join [base, MANIFIST_FILE])) = None"
    and "fs (the (path_join [base, DIED_LOG])) = Some (log_bytes rs)" and "holds fs (the (path_join [base, HOT_LOG])) rs'"
    and "\<forall>r \<in> set rs. sized r" and "\<forall>w \<in> set (ws @ [(rnd, key, val)]). valid_write w"
    and "Suc (length rs + length rs' + length ws) = RECORD_BUFF_SIZE"
    and "card (rc_key ` set (rs @ rs') \<union> key_of ` set (ws @ [(rnd, key, val)])) = RECORD_BUFF_SIZE"
  shows "\<exists>s. Option.bind (DBSystem_init g g' base fs) (db_writes ws) = Some s
    \<and> DBSystem_write rnd key val s = None \<and> dumper_round junk s = None"
proof -
  let ?w = "(rnd, key, val)"
  have "holds fs (the (path_join [base, DIED_LOG])) rs" using assms(3,5) by (simp add: holds_def del: path_join.simps)
  moreover have "length rs + length rs' < RECORD_BUFF_SIZE" using assms(7) by simp
  ultimately obtain s0 where s0: "DBSystem_init g g' base fs = Some s0" "db_ok s0" "db_map s0 = log_map (rs @ rs') Map.empty"
    "length (bf_empty (db_buffer s0)) + (length rs + length rs') = RECORD_BUFF_SIZE" "mt_wait_for_dump (db_mem s0) = []"
    "db_disk s0 = open_append (the (path_join [base, HOT_LOG])) (DiskManager_init base fs)"
    using DBSystem_recover [where base = base and fs = fs and g = g and g' = g' and rs = rs and rs' = rs', OF assms(1,2) _ assms(4)]
    by blast
  note dom = dom_log_map
  have "card (rc_key ` set (rs @ rs') \<union> key_of ` set ws) \<le> card (rc_key ` set (rs @ rs')) + card (key_of ` set ws)"
    by (rule card_Un_le)
  also have "\<dots> \<le> length (rs @ rs') + length ws"
    by (intro add_mono) (metis card_length list.set_map length_map)+
  finally have few: "card (dom (db_map s0) \<union> key_of ` set ws) < RECORD_BUFF_SIZE"
    using assms(7) by (simp add: s0(3) dom)
  have log: "dm_curr_log_len (db_disk s0) = 0" by (simp add: s0(6) open_append_def DiskManager_init_def)
  have lens: "Suc (length ws) * sizeof_Record < 2 ^ 31" "length ws < length (bf_empty (db_buffer s0))"
    using assms(7) s0(4) by (simp_all add: RECORD_BUFF_SIZE_def sizeof_Record_def RECORD_VALUE_LEN_def)
  have "\<exists>s. db_writes ws s0 = Some s \<and> since s0 ws s"
    using assms(6) few lens log by (intro since_writes [OF s0(2)]) simp_all
  then obtain s where s: "db_writes ws s0 = Some s" "since s0 ws s" by blast
  have "\<exists>s'. db_put rnd (key_of ?w) (snd (snd ?w)) s = Some s' \<and> since s0 (ws @ [?w]) s' \<and> db_step (key_of ?w) (snd (snd ?w)) s s'"
    using assms(6) lens log by (intro since_put [OF s(2)]) simp_all
  then obtain s' where s': "db_put rnd (key_of ?w) val s = Some s'" "since s0 (ws @ [?w]) s'" by auto
  obtain p where p: "\<And>name. name \<noteq> [] \<Longrightarrow> path_join [base, name] = Some (p @ name)"
    using path_join_names [OF assms(1)] by blast
  note paths = p [OF log_names(2)] p [OF log_names(3)]
  have disk: "db_disk s' = log_extend (records (ws @ [?w])) (db_disk s0)" using s'(2) by (simp only: since_def)
  have base': "path_join [dm_basepath (db_disk s'), name] = Some (p @ name)" if "name \<noteq> []" for name
    using p [OF that] by (simp add: disk log_extend_simps s0(6) open_append_def DiskManager_init_def del: path_join.simps)
  have "dm_files (db_disk s') (p @ DIED_LOG) = fs (p @ DIED_LOG)"
    using log_names(1) by (simp add: disk log_extend_def s0(6) open_append_def DiskManager_init_def write_fd_def
        paths if_file_exists_def del: path_join.simps)
  then have died: "dm_files (db_disk s') (p @ DIED_LOG) \<noteq> None" using assms(3) by (simp add: paths del: path_join.simps)
  have "dom (db_map s') = rc_key ` set (rs @ rs') \<union> key_of ` set (ws @ [?w])"
    using s'(2) dom_contents [of "ws @ [?w]"] dom [of "rs @ rs'"] by (simp only: since_def s0(3) dom_map_add Un_commute)
  then have full: "card (dom (db_map s')) = RECORD_BUFF_SIZE" using assms(8) by simp
  have "db_ok s'" "mt_wait_for_dump (db_mem s') = []" using s'(2) s0(5) by (simp_all add: since_def)
  then have "db_check s' = None" using db_check_full [OF _ full base'] died by simp
  moreover have "get_key_string key = Some (key_of ?w)" using assms(6) by (auto simp: valid_write_def key_of_def)
  ultimately have "DBSystem_write rnd key val s = None" using s'(1) by (simp add: write_split)
  moreover have "dumper_round junk s = None" using s(2) s0(5) by (simp add: dumper_round_def since_def)
  ultimately show ?thesis using s0(1) s(1) by auto
qed

text \<open>A died log with the first of the numbered records.\<close>

definition later_writes :: "write_op list" where
  "later_writes = map num_write [1..<RECORD_BUFF_SIZE - 1]"

lemma num_writes_split: "num_writes = num_write 0 # later_writes @ [num_write 1023]"
proof -
  have "[0..<RECORD_BUFF_SIZE] = [0..<1] @ [1..<RECORD_BUFF_SIZE - 1] @ [RECORD_BUFF_SIZE - 1..<RECORD_BUFF_SIZE]"
    by (intro nth_equalityI) (auto simp: RECORD_BUFF_SIZE_def nth_append less_Suc_eq simp del: upt_Suc)
  then show ?thesis by (simp add: num_writes_def later_writes_def RECORD_BUFF_SIZE_def)
qed

theorem died_log_deadlock_witness:
  "\<exists>s. Option.bind (DBSystem_init (\<lambda>_ _. 1) (\<lambda>_ _. 1) [100]
        [the (path_join [[100], DIED_LOG]) \<mapsto> log_bytes [new_record (key_of (num_write 0)) (replicate RECORD_VALUE_LEN 0)]])
      (db_writes later_writes) = Some s
    \<and> DBSystem_write (\<lambda>_. 1) (fixed_dec 8 1023) (replicate RECORD_VALUE_LEN 255) s = None \<and> dumper_round [] s = None"
proof -
  let ?r = "new_record (key_of (num_write 0)) (replicate RECORD_VALUE_LEN 0)"
  let ?fs = "[the (path_join [[100], DIED_LOG]) \<mapsto> log_bytes [?r]]"
  let ?w = "((\<lambda>_. 1) :: nat \<Rightarrow> nat, fixed_dec 8 1023, replicate RECORD_VALUE_LEN 255)"
  obtain p where p: "\<And>name. name \<noteq> [] \<Longrightarrow> path_join [[100], name] = Some (p @ name)"
    using path_join_names by blast
  note paths = p [OF log_names(2)] p [OF log_names(3)] p [OF MANIFIST_names(1)]
  have fs: "?fs (the (path_join [[100], MANIFIST_FILE])) = None"
    "?fs (the (path_join [[100], DIED_LOG])) = Some (log_bytes [?r])"
    "holds ?fs (the (path_join [[100], HOT_LOG])) []"
    using log_names(1) MANIFIST_names by (simp_all add: holds_def paths del: path_join.simps)
  have w: "?w = num_write 1023" by (simp add: num_write_def)
  have keys: "map key_of num_writes = key_of (num_write 0) # map key_of (later_writes @ [?w])"
    unfolding w by (simp add: num_writes_split)
  show ?thesis
  proof (rule died_log_deadlock [OF _ fs])
    show "\<forall>w \<in> set (later_writes @ [?w]). valid_write w"
      unfolding w using num_writes_ok(1) by (simp add: num_writes_split)
    show "\<forall>r \<in> set [?r]. sized r" by (simp add: sized_def new_record_def)
    show "Suc (length [?r] + length ([] :: Record list) + length later_writes) = RECORD_BUFF_SIZE"
      using num_writes_ok(2) by (simp add: num_writes_split)
    have "rc_key ` set ([?r] @ []) \<union> key_of ` set (later_writes @ [?w]) = set (map key_of num_writes)"
      unfolding keys by (auto simp: new_record_def)
    then show "card (rc_key ` set ([?r] @ []) \<union> key_of ` set (later_writes @ [?w])) = RECORD_BUFF_SIZE"
      using num_writes_ok(2,3) by (metis distinct_card length_map)
  qed simp
qed

end
