(* ===== verification/Polar_String.thy ===== *)
theory Polar_String
  imports Prelude "HOL-Library.Sublist"
begin

text \<open>
  \<^verbatim>\<open>include/polar_string.h\<close> and the result codes of \<^verbatim>\<open>include/engine.h\<close>. A
  \<^verbatim>\<open>PolarString\<close> is a view of \<^verbatim>\<open>size_\<close> bytes at \<^verbatim>\<open>data_\<close>; the model holds
  the bytes in view. Its three-way comparison makes it an instance of \<^verbatim>\<open>linorder\<close>.
\<close>

subsection \<open>Result codes\<close>

datatype RetCode =
    kSucc | kNotFound | kCorruption | kNotSupported | kInvalidArgument
  | kIOError | kIncomplete | kTimedOut | kFull | kOutOfMemory

subsection \<open>Views of bytes\<close>

datatype PolarString = PolarString (ps_data: "u8 list")

definition PolarString_new :: PolarString where
  "PolarString_new = PolarString []"

text \<open>A view of \<open>n\<close> bytes of a buffer that has as many, and of a NUL-terminated string.\<close>

definition PolarString_buffer :: "u8 list \<Rightarrow> nat \<Rightarrow> PolarString option" where
  "PolarString_buffer d n = (if n \<le> length d then Some (PolarString (take n d)) else None)"

definition PolarString_string :: "cxx_string \<Rightarrow> PolarString" where
  "PolarString_string s = PolarString s"

definition PolarString_cstr :: "u8 list \<Rightarrow> PolarString option" where
  "PolarString_cstr s = (if 0 \<in> set s then Some (PolarString (takeWhile (\<lambda>c. c \<noteq> 0) s)) else None)"

definition ps_size :: "PolarString \<Rightarrow> nat" where
  "ps_size x = length (ps_data x)"

definition ps_empty :: "PolarString \<Rightarrow> bool" where
  "ps_empty x \<longleftrightarrow> ps_size x = 0"

definition ps_at :: "PolarString \<Rightarrow> nat \<Rightarrow> u8 option" where
  "ps_at x n = vget (ps_data x) n"

definition ToString :: "PolarString \<Rightarrow> cxx_string" where
  "ToString x = ps_data x"

text \<open>
  \<^verbatim>\<open>memcmp\<close> of the first \<open>n\<close> bytes, as unsigned characters. Only the sign of its result
  is specified, so the model gives the sign; bytes outside an array are \<^term>\<open>None\<close>.
\<close>

fun memcmp :: "u8 list \<Rightarrow> u8 list \<Rightarrow> nat \<Rightarrow> int option" where
  "memcmp xs ys 0 = Some 0"
| "memcmp (x # xs) (y # ys) (Suc n) =
     (if x < y then Some (- 1) else if y < x then Some 1 else memcmp xs ys n)"
| "memcmp xs ys (Suc n) = None"

definition ps_compare :: "PolarString \<Rightarrow> PolarString \<Rightarrow> int option" where
  "ps_compare x b = do {
     let min_len = (if ps_size x < ps_size b then ps_size x else ps_size b);
     r \<leftarrow> memcmp (ps_data x) (ps_data b) min_len;
     Some (if r = 0 then (if ps_size x < ps_size b then - 1 else if ps_size b < ps_size x then 1 else r) else r)
   }"

definition starts_with :: "PolarString \<Rightarrow> PolarString \<Rightarrow> bool option" where
  "starts_with s x =
     (if ps_size x \<le> ps_size s
      then map_option (\<lambda>r. r = 0) (memcmp (ps_data s) (ps_data x) (ps_size x)) else Some False)"

definition ends_with :: "PolarString \<Rightarrow> PolarString \<Rightarrow> bool option" where
  "ends_with s x =
     (if ps_size x \<le> ps_size s
      then map_option (\<lambda>r. r = 0) (memcmp (drop (ps_size s - ps_size x) (ps_data s)) (ps_data x) (ps_size x))
      else Some False)"

definition ps_equal :: "PolarString \<Rightarrow> PolarString \<Rightarrow> bool option" where
  "ps_equal x y =
     (if ps_size x = ps_size y
      then map_option (\<lambda>r. r = 0) (memcmp (ps_data x) (ps_data y) (ps_size x)) else Some False)"

subsection \<open>The comparison\<close>

lemma memcmp_ok:
  "n \<le> length xs \<Longrightarrow> n \<le> length ys \<Longrightarrow> \<exists>r. memcmp xs ys n = Some r
    \<and> (r = 0 \<longleftrightarrow> take n xs = take n ys) \<and> (r < 0 \<longleftrightarrow> take n xs < take n ys)"
proof (induction xs ys n rule: memcmp.induct)
  case (2 x xs y ys n)
  then show ?case by (cases "x < y"; cases "y < x") auto
qed auto

lemma lex_take:
  assumes "min (length xs) (length ys) = n"
  shows "(xs :: u8 list) < ys \<longleftrightarrow> take n xs < take n ys \<or> take n xs = take n ys \<and> length xs < length ys"
  using assms
proof (induction xs arbitrary: ys n)
  case Nil
  then show ?case by (cases ys) auto
next
  case (Cons x xs)
  show ?case
  proof (cases ys)
    case (Cons y ys')
    with Cons.prems obtain m where n: "n = Suc m" "min (length xs) (length ys') = m"
      by (cases n) auto
    show ?thesis using Cons.IH [OF n(2)] Cons n(1) by auto
  qed (use Cons.prems in auto)
qed

lemma ps_compare_ok:
  "\<exists>r. ps_compare x y = Some r \<and> (r < 0 \<longleftrightarrow> ps_data x < ps_data y) \<and> (r = 0 \<longleftrightarrow> x = y)"
proof -
  let ?n = "if ps_size x < ps_size y then ps_size x else ps_size y"
  have n: "min (length (ps_data x)) (length (ps_data y)) = ?n" by (auto simp: ps_size_def)
  have "?n \<le> length (ps_data x)" "?n \<le> length (ps_data y)" by (auto simp: ps_size_def)
  from memcmp_ok [OF this] obtain r where r: "memcmp (ps_data x) (ps_data y) ?n = Some r"
    "r = 0 \<longleftrightarrow> take ?n (ps_data x) = take ?n (ps_data y)" "r < 0 \<longleftrightarrow> take ?n (ps_data x) < take ?n (ps_data y)"
    by blast
  have "x = y \<longleftrightarrow> take ?n (ps_data x) = take ?n (ps_data y) \<and> ps_size x = ps_size y"
    by (cases x; cases y) (auto simp: ps_size_def)
  then show ?thesis
    using r lex_take [OF n] by (auto simp: ps_compare_def Let_def ps_size_def)
qed

text \<open>The order of the comparison.\<close>

instantiation PolarString :: linorder
begin

definition less_PolarString :: "PolarString \<Rightarrow> PolarString \<Rightarrow> bool" where
  "x < y \<longleftrightarrow> the (ps_compare x y) < 0"

definition less_eq_PolarString :: "PolarString \<Rightarrow> PolarString \<Rightarrow> bool" where
  "x \<le> y \<longleftrightarrow> the (ps_compare x y) \<le> 0"

instance
proof
  have less: "x < y \<longleftrightarrow> ps_data x < ps_data y" for x y :: PolarString
    using ps_compare_ok [of x y] by (auto simp: less_PolarString_def)
  have le: "x \<le> y \<longleftrightarrow> ps_data x \<le> ps_data y" for x y :: PolarString
    using ps_compare_ok [of x y] by (auto simp: less_eq_PolarString_def le_less PolarString.expand)
  fix x y z :: PolarString
  show "x < y \<longleftrightarrow> x \<le> y \<and> \<not> y \<le> x" unfolding less le by auto
  show "x \<le> x" unfolding le by simp
  show "x \<le> y \<Longrightarrow> y \<le> z \<Longrightarrow> x \<le> z" unfolding le by simp
  show "x \<le> y \<Longrightarrow> y \<le> x \<Longrightarrow> x = y" unfolding le by (simp add: PolarString.expand)
  show "x \<le> y \<or> y \<le> x" unfolding le by auto
qed

end

text \<open>C40: The comparisons of \<^verbatim>\<open>PolarString\<close> never read outside the strings, and they
  are one linear order, the lexicographic order of unsigned bytes: \<^verbatim>\<open>compare\<close> is negative
  exactly below, zero exactly where \<^verbatim>\<open>operator==\<close> holds, and antisymmetric;
  \<^verbatim>\<open>starts_with\<close> and \<^verbatim>\<open>ends_with\<close> are the prefix and the suffix relation.\<close>

theorem polar_string_order:
  "\<exists>r r'. ps_compare x y = Some r \<and> ps_compare y x = Some r' \<and> (r < 0 \<longleftrightarrow> x < y) \<and> (r < 0 \<longleftrightarrow> ps_data x < ps_data y)
    \<and> (r = 0 \<longleftrightarrow> x = y) \<and> (0 < r \<longleftrightarrow> r' < 0) \<and> ps_equal x y = Some (x = y)
    \<and> starts_with x y = Some (prefix (ps_data y) (ps_data x)) \<and> ends_with x y = Some (suffix (ps_data y) (ps_data x))"
proof -
  obtain r r' where r: "ps_compare x y = Some r" "r < 0 \<longleftrightarrow> ps_data x < ps_data y" "r = 0 \<longleftrightarrow> x = y"
    "ps_compare y x = Some r'" "r' < 0 \<longleftrightarrow> ps_data y < ps_data x" "r' = 0 \<longleftrightarrow> y = x"
    using ps_compare_ok [of x y] ps_compare_ok [of y x] by auto
  have "x < y \<longleftrightarrow> r < 0" by (simp add: less_PolarString_def r(1))
  moreover have "0 < r \<longleftrightarrow> r' < 0" using r by (metis PolarString.expand linorder_less_linear less_asym)
  moreover have "ps_equal x y = Some (x = y)"
    using memcmp_ok [of "ps_size x" "ps_data x" "ps_data y"]
    by (cases x; cases y) (auto simp: ps_equal_def ps_size_def)
  moreover have "prefix b a \<longleftrightarrow> take (length b) a = b" for a b :: "u8 list"
    by (metis append_eq_conv_conj prefix_def)
  then have "starts_with x y = Some (prefix (ps_data y) (ps_data x))"
    using memcmp_ok [of "ps_size y" "ps_data x" "ps_data y"]
    by (auto simp: starts_with_def ps_size_def dest: prefix_length_le)
  moreover have "length b \<le> length a \<Longrightarrow> suffix b a \<longleftrightarrow> drop (length a - length b) a = b" for a b :: "u8 list"
    by (metis append_take_drop_id diff_diff_cancel length_drop suffix_def suffix_drop append_eq_append_conv)
  then have "ends_with x y = Some (suffix (ps_data y) (ps_data x))"
    using memcmp_ok [of "ps_size y" "drop (ps_size x - ps_size y) (ps_data x)" "ps_data y"]
    by (auto simp: ends_with_def ps_size_def dest: suffix_length_le)
  ultimately show ?thesis using r(1-4) by auto
qed

end
