(* ===== verification/Example_Util.thy ===== *)
theory Example_Util
  imports Disk
begin

text \<open>
  \<^verbatim>\<open>engine_example/util.cc\<close>: the hash of a key, and the helpers over system calls. The
  results of the single \<^verbatim>\<open>read\<close> and \<^verbatim>\<open>write\<close> calls are a list that is used up
  call by call, so interrupted, short and failing calls are all covered; \<^term>\<open>None\<close> means that
  the loop has not returned within these calls. What
  \<^verbatim>\<open>readdir\<close> lists is a parameter.
\<close>

subsection \<open>The hash of a key\<close>

definition kA :: u32 where "kA = 54059"
definition kB :: u32 where "kB = 76963"
definition kFinish :: u32 where "kFinish = 37"

text \<open>\<^verbatim>\<open>char\<close> is signed, so a byte from 0x80 on is multiplied as a negative number.\<close>

definition StrHash :: "cxx_string \<Rightarrow> u32" where
  "StrHash s = fold (\<lambda>c h. (h * kA) XOR (scast c * kB)) s kFinish"

subsection \<open>System calls\<close>

datatype io_result = Interrupted | Failed | Transferred nat

text \<open>The loop of \<^verbatim>\<open>FileAppend\<close>: the result, what has been written, the calls left.\<close>

fun append_loop :: "io_result list \<Rightarrow> u8 list \<Rightarrow> (int \<times> u8 list \<times> io_result list) option" where
  "append_loop rs [] = Some (0, [], rs)"
| "append_loop [] (b # bs) = None"
| "append_loop (Interrupted # rs) (b # bs) = append_loop rs (b # bs)"
| "append_loop (Failed # rs) (b # bs) = Some (- 1, [], rs)"
| "append_loop (Transferred r # rs) (b # bs) =
     map_option (\<lambda>(res, out, rs). (res, take r (b # bs) @ out, rs)) (append_loop rs (drop r (b # bs)))"

text \<open>A file descriptor: negative, of a file that has been closed, or of an open file.\<close>

datatype file_desc = Negative | Closed | Opened cxx_string

text \<open>\<^verbatim>\<open>write\<close> on a closed descriptor fails; an empty value needs no call.\<close>

definition FileAppend ::
  "io_result list \<Rightarrow> file_desc \<Rightarrow> cxx_string \<Rightarrow> files \<Rightarrow> (int \<times> files \<times> io_result list) option" where
  "FileAppend rs fd val fs =
     (case fd of
        Negative \<Rightarrow> Some (- 1, fs, rs)
      | Closed \<Rightarrow> Some (if val = [] then 0 else - 1, fs, rs)
      | Opened path \<Rightarrow> map_option (\<lambda>(res, out, rs). (res, write_fd (Some path) out fs, rs)) (append_loop rs val))"

text \<open>
  The reading loop of \<^verbatim>\<open>DataStore::Read\<close>, on what is left of the file from the current
  offset on. At the end of the file \<^verbatim>\<open>read\<close> returns 0, and the loop goes on.
\<close>

fun read_loop :: "io_result list \<Rightarrow> u8 list \<Rightarrow> nat \<Rightarrow> (u8 list option \<times> io_result list) option" where
  "read_loop rs content 0 = Some (Some [], rs)"
| "read_loop [] content (Suc n) = None"
| "read_loop (Interrupted # rs) content (Suc n) = read_loop rs content (Suc n)"
| "read_loop (Failed # rs) content (Suc n) = Some (None, rs)"
| "read_loop (Transferred r # rs) content (Suc n) =
     (let r = min r (min (Suc n) (length content)) in
      map_option (\<lambda>(buf, rs). (map_option (\<lambda>b. take r content @ b) buf, rs)) (read_loop rs (drop r content) (Suc n - r)))"

text \<open>\<^verbatim>\<open>st_size\<close> is converted to \<^verbatim>\<open>int\<close>.\<close>

definition GetFileLength :: "cxx_string \<Rightarrow> files \<Rightarrow> int" where
  "GetFileLength path fs = (case fs path of None \<Rightarrow> - 1 | Some bs \<Rightarrow> sint (of_nat (length bs) :: 32 word))"

definition FileExists :: "cxx_string \<Rightarrow> files \<Rightarrow> bool" where
  "FileExists path fs \<longleftrightarrow> fs path \<noteq> None"

definition GetDirFiles :: "cxx_string list \<Rightarrow> cxx_string list" where
  "GetDirFiles entries = filter (\<lambda>d_name. \<not> (d_name = cstr ''..'' \<or> d_name = cstr ''.'')) entries"

record FileLock =
  fl_fd :: cxx_string
  fl_name :: cxx_string

text \<open>
  The locks of \<^verbatim>\<open>fcntl\<close>: which process holds the lock of a file. A process gets a lock
  that it holds already, and loses it when it unlocks or closes any descriptor of the file.
\<close>

type_synonym locks = "cxx_string \<Rightarrow> nat option"

definition LockOrUnlock :: "nat \<Rightarrow> cxx_string \<Rightarrow> bool \<Rightarrow> locks \<Rightarrow> bool \<times> locks" where
  "LockOrUnlock pid fd lock locks =
     (if \<not> lock then (True, if locks fd = Some pid then locks(fd := None) else locks)
      else if locks fd = None \<or> locks fd = Some pid then (True, locks(fd \<mapsto> pid))
      else (False, locks))"

text \<open>The lock, if it is granted; opening the file creates it if necessary.\<close>

definition LockFile :: "bool \<Rightarrow> nat \<Rightarrow> cxx_string \<Rightarrow> files \<Rightarrow> locks \<Rightarrow> FileLock option \<times> files \<times> locks" where
  "LockFile can_open pid fname fs locks =
     (if \<not> can_open then (None, fs, locks)
      else
        let fs = (if FileExists fname fs then fs else fs(fname \<mapsto> []));
            (granted, locks) = LockOrUnlock pid fname True locks
        in (if granted then Some \<lparr>fl_fd = fname, fl_name = fname\<rparr> else None, fs, locks))"

definition UnlockFile :: "nat \<Rightarrow> FileLock \<Rightarrow> locks \<Rightarrow> locks" where
  "UnlockFile pid lock locks = snd (LockOrUnlock pid (fl_fd lock) False locks)"

subsection \<open>The loops\<close>

lemma append_loop_ok:
  "append_loop rs val = Some (res, out, rs') \<Longrightarrow>
   (res = 0 \<and> out = val) \<or> (res = - 1 \<and> (\<exists>rest. val = out @ rest \<and> rest \<noteq> []))"
proof (induction rs val arbitrary: out rule: append_loop.induct)
  case (5 r rs b bs)
  then obtain out' where "append_loop rs (drop r (b # bs)) = Some (res, out', rs')"
    "out = take r (b # bs) @ out'" by auto
  from 5(1) [OF this(1)] this(2) show ?case by (metis append.assoc append_take_drop_id)
qed auto

text \<open>Without a failing call, and with a call for every byte, the whole value is written.\<close>

lemma append_loop_enough:
  assumes "Failed \<notin> set rs" and "length val \<le> length (filter (\<lambda>r. \<exists>n > 0. r = Transferred n) rs)"
  shows "\<exists>rs'. append_loop rs val = Some (0, val, rs')"
  using assms
proof (induction rs val rule: append_loop.induct)
  case (5 r rs b bs)
  have "length (drop r (b # bs)) \<le> length (filter (\<lambda>r. \<exists>n > 0. r = Transferred n) rs)"
    using 5(3) by (cases r) (simp_all split: if_splits)
  moreover have "Failed \<notin> set rs" using 5(2) by simp
  ultimately obtain rs' where "append_loop rs (drop r (b # bs)) = Some (0, drop r (b # bs), rs')"
    using 5(1) by blast
  then show ?case by (simp only: append_loop.simps option.map split_conv append_take_drop_id) blast
qed simp_all

lemma take_in_parts: "r \<le> n \<Longrightarrow> take r xs @ take (n - r) (drop r xs) = take n xs"
  using take_add [of r "n - r" xs] by simp

lemma read_loop_ok:
  "read_loop rs content n = Some (Some buf, rs') \<Longrightarrow> n \<le> length content \<and> buf = take n content"
proof (induction rs content n arbitrary: buf rule: read_loop.induct)
  case (5 r rs content n)
  define q where "q = min r (min (Suc n) (length content))"
  have q: "q \<le> Suc n" "q \<le> length content" by (simp_all add: q_def)
  obtain buf' where buf: "read_loop rs (drop q content) (Suc n - q) = Some (Some buf', rs')" "buf = take q content @ buf'"
    using 5(2) by (auto simp: Let_def simp flip: q_def)
  from 5(1) [OF q_def buf(1)] have "Suc n - q \<le> length content - q" "buf' = take (Suc n - q) (drop q content)"
    by simp_all
  moreover from this(1) have "Suc n \<le> length content" using q by linarith
  ultimately show ?case using buf(2) take_in_parts [OF q(1), of content] by simp
qed auto

lemma read_loop_enough:
  assumes "Failed \<notin> set rs" and "n \<le> length (filter (\<lambda>r. \<exists>n > 0. r = Transferred n) rs)" and "n \<le> length content"
  shows "\<exists>rs'. read_loop rs content n = Some (Some (take n content), rs')"
  using assms
proof (induction rs content n rule: read_loop.induct)
  case (5 r rs content n)
  define q where "q = min r (min (Suc n) (length content))"
  have q: "q \<le> Suc n" "q \<le> length content" "0 < r \<Longrightarrow> 0 < q" using 5(4) by (simp_all add: q_def)
  have "Suc n - q \<le> length (filter (\<lambda>r. \<exists>n > 0. r = Transferred n) rs)"
    using 5(3) q(3) by (cases "0 < r") simp_all
  moreover have "Suc n - q \<le> length (drop q content)" using 5(4) q(2) by simp
  moreover have "Failed \<notin> set rs" using 5(2) by simp
  ultimately obtain rs' where "read_loop rs (drop q content) (Suc n - q) = Some (Some (take (Suc n - q) (drop q content)), rs')"
    using 5(1) [OF q_def] by blast
  then have "read_loop (Transferred r # rs) content (Suc n) = Some (Some (take q content @ take (Suc n - q) (drop q content)), rs')"
    by (simp add: Let_def flip: q_def)
  then show ?case by (simp only: take_in_parts [OF q(1)]) blast
qed auto

end
