(* ===== verification/Data_Store.thy ===== *)
theory Data_Store
  imports Example_Util Polar_String
begin

text \<open>
  \<^verbatim>\<open>engine_example/data_store.cc\<close>: the values of the sample engine, appended to files of at
  most 100 MB. Whether a call of \<^verbatim>\<open>mkdir\<close> or \<^verbatim>\<open>open\<close> succeeds and what a directory
  lists are parameters; the results of \<^verbatim>\<open>read\<close> and \<^verbatim>\<open>write\<close> are the lists of
  \<open>Example_Util\<close>. In \<open>DataStore_Init\<close>, \<^term>\<open>None\<close> is an exception of
  \<^verbatim>\<open>std::stoul\<close> or \<^verbatim>\<open>std::stoi\<close>, which nothing catches.
\<close>

subsection \<open>State\<close>

record Location =
  file_no :: u32
  loc_offset :: u32
  loc_len :: u32

definition Location_new :: Location where
  "Location_new = \<lparr>file_no = 0, loc_offset = 0, loc_len = 0\<rparr>"

record DataStore =
  ds_fd :: file_desc
  ds_dir :: cxx_string
  ds_next :: Location

definition DataStore_new :: "cxx_string \<Rightarrow> DataStore" where
  "DataStore_new dir = \<lparr>ds_fd = Negative, ds_dir = dir, ds_next = Location_new\<rparr>"

definition kDataFilePrefix :: cxx_string where "kDataFilePrefix = cstr ''DATA_''"
definition kDataFilePrefixLen :: nat where "kDataFilePrefixLen = 5"
definition kSingleFileSize :: nat where "kSingleFileSize = 1024 * 1024 * 100"

definition FileName :: "cxx_string \<Rightarrow> u32 \<Rightarrow> cxx_string" where
  "FileName dir fileno = dir @ cstr ''/'' @ kDataFilePrefix @ dec_digits (unat fileno)"

subsection \<open>Numbers in names\<close>

definition isspace :: "u8 \<Rightarrow> bool" where
  "isspace c \<longleftrightarrow> c = 32 \<or> (9 \<le> c \<and> c \<le> 13)"

definition isdigit :: "u8 \<Rightarrow> bool" where
  "isdigit c \<longleftrightarrow> 48 \<le> c \<and> c \<le> 57"

text \<open>
  Blanks, a sign and digits, as \<^verbatim>\<open>strtol\<close> reads them; the rest is ignored. Without a
  digit the conversion throws.
\<close>

definition read_number :: "cxx_string \<Rightarrow> int option" where
  "read_number s =
     (let s = dropWhile isspace s;
          neg = (s \<noteq> [] \<and> hd s = 45);
          s = (if s \<noteq> [] \<and> (hd s = 45 \<or> hd s = 43) then tl s else s);
          ds = takeWhile isdigit s;
          v = fold (\<lambda>c v. 10 * v + (uint c - 48)) ds 0
      in if ds = [] then None else Some (if neg then - v else v))"

text \<open>A negative number is converted modulo \<open>2 ^ 64\<close>; a number out of range throws.\<close>

definition stoul :: "cxx_string \<Rightarrow> nat option" where
  "stoul s = do {
     v \<leftarrow> read_number s;
     if \<bar>v\<bar> < 2 ^ 64 then Some (nat (v mod 2 ^ 64)) else None
   }"

definition stoi :: "cxx_string \<Rightarrow> int option" where
  "stoi s = do {
     v \<leftarrow> read_number s;
     if - (2 ^ 31) \<le> v \<and> v < 2 ^ 31 then Some v else None
   }"

subsection \<open>Operations\<close>

definition OpenCurFile :: "bool \<Rightarrow> files \<Rightarrow> DataStore \<Rightarrow> RetCode \<times> files \<times> DataStore" where
  "OpenCurFile can_open fs d =
     (let file_name = FileName (ds_dir d) (file_no (ds_next d)) in
      if \<not> can_open then (kIOError, fs, d)
      else (kSucc, if fs file_name = None then fs(file_name \<mapsto> []) else fs, d\<lparr>ds_fd := Opened file_name\<rparr>))"

text \<open>The loop of \<^verbatim>\<open>Init\<close> over the names in the directory.\<close>

fun scan_files :: "cxx_string list \<Rightarrow> u32 \<Rightarrow> u32 option" where
  "scan_files [] last_no = Some last_no"
| "scan_files (it # files) last_no =
     (if take kDataFilePrefixLen it \<noteq> kDataFilePrefix then scan_files files last_no
      else do {
        let sindex = drop kDataFilePrefixLen it;
        n \<leftarrow> stoul sindex;
        if unat last_no < n
        then do { i \<leftarrow> stoi sindex; scan_files files (word_of_int i) }
        else scan_files files last_no
      })"

definition DataStore_Init ::
  "bool \<Rightarrow> cxx_string list option \<Rightarrow> bool \<Rightarrow> bool \<Rightarrow> files \<Rightarrow> DataStore
   \<Rightarrow> (RetCode \<times> bool \<times> files \<times> DataStore) option" where
  "DataStore_Init mkdir entries can_open dir fs d =
     (if \<not> dir \<and> \<not> mkdir then Some (kIOError, dir, fs, d)
      else case entries of
        None \<Rightarrow> Some (kIOError, True, fs, d)
      | Some entries \<Rightarrow> do {
          last_no \<leftarrow> scan_files (GetDirFiles entries) 0;
          let len = GetFileLength (FileName (ds_dir d) last_no) fs;
          let cur_offset = (if 0 < len then word_of_int len else 0);
          let d = d\<lparr>ds_next := (ds_next d)\<lparr>file_no := last_no, loc_offset := cur_offset\<rparr>\<rparr>;
          let (ret, fs, d) = OpenCurFile can_open fs d;
          Some (ret, True, fs, d)
        })"

text \<open>The next file, when the value does not fit; the result of opening it is ignored.\<close>

definition switch_file :: "bool \<Rightarrow> cxx_string \<Rightarrow> files \<Rightarrow> DataStore \<Rightarrow> files \<times> DataStore" where
  "switch_file can_open val fs d =
     (if kSingleFileSize < unat (loc_offset (ds_next d)) + length val
      then
        let d = d\<lparr>ds_fd := Closed, ds_next := (ds_next d)\<lparr>file_no := file_no (ds_next d) + 1, loc_offset := 0\<rparr>\<rparr>;
            (_, fs, d) = OpenCurFile can_open fs d
        in (fs, d)
      else (fs, d))"

text \<open>The location is an output parameter, which is set on success only.\<close>

definition Append ::
  "bool \<Rightarrow> io_result list \<Rightarrow> cxx_string \<Rightarrow> files \<Rightarrow> DataStore
   \<Rightarrow> (RetCode \<times> Location option \<times> files \<times> DataStore \<times> io_result list) option" where
  "Append can_open rs val fs d =
     (if kSingleFileSize < length val then Some (kInvalidArgument, None, fs, d, rs)
      else do {
        let (fs, d) = switch_file can_open val fs d;
        (res, fs, rs) \<leftarrow> FileAppend rs (ds_fd d) val fs;
        if res \<noteq> 0 then Some (kIOError, None, fs, d, rs)
        else do {
          let location = \<lparr>file_no = file_no (ds_next d), loc_offset = loc_offset (ds_next d), loc_len = of_nat (length val)\<rparr>;
          let d = d\<lparr>ds_next := (ds_next d)\<lparr>loc_offset := loc_offset (ds_next d) + loc_len location\<rparr>\<rparr>;
          Some (kSucc, Some location, fs, d, rs)
        }
      })"

text \<open>The value is an output parameter, which is set on success only.\<close>

definition DataStore_Read ::
  "bool \<Rightarrow> io_result list \<Rightarrow> Location \<Rightarrow> files \<Rightarrow> DataStore
   \<Rightarrow> (RetCode \<times> cxx_string option \<times> io_result list) option" where
  "DataStore_Read can_open rs l fs d =
     (case fs (FileName (ds_dir d) (file_no l)) of
        None \<Rightarrow> Some (kIOError, None, rs)
      | Some content \<Rightarrow>
          if \<not> can_open then Some (kIOError, None, rs)
          else map_option (\<lambda>(buf, rs). (if buf = None then kIOError else kSucc, buf, rs))
            (read_loop rs (drop (unat (loc_offset l)) content) (unat (loc_len l))))"

subsection \<open>File names\<close>

lemma digit_bytes: "d < 10 \<Longrightarrow> isdigit (48 + of_nat d :: u8)" "d < 10 \<Longrightarrow> uint (48 + of_nat d :: u8) - 48 = int d"
proof -
  assume "d < 10"
  then have "unat (48 + of_nat d :: u8) = 48 + d" by (rule digit_byte)
  with \<open>d < 10\<close> show "isdigit (48 + of_nat d :: u8)" "uint (48 + of_nat d :: u8) - 48 = int d"
    by (simp_all add: isdigit_def word_le_nat_alt flip: uint_nat) (simp add: uint_nat)
qed

lemma dec_digits_isdigit: "c \<in> set (dec_digits n) \<Longrightarrow> isdigit c"
proof (induction n rule: dec_digits.induct)
  case (1 n)
  show ?case
  proof (cases "n < 10")
    case True
    with 1(2) show ?thesis by (simp add: dec_digits.simps [of n] digit_bytes)
  next
    case False
    with 1(2) have "c \<in> set (dec_digits (n div 10)) \<or> c = 48 + of_nat (n mod 10)"
      by (auto simp: dec_digits.simps [of n])
    with 1(1) [OF False] show ?thesis by (auto simp: digit_bytes)
  qed
qed

lemma dec_digits_val: "fold (\<lambda>c v. 10 * v + (uint c - 48)) (dec_digits n) 0 = int n"
proof (induction n rule: dec_digits.induct)
  case (1 n)
  show ?case
  proof (cases "n < 10")
    case True
    then show ?thesis by (simp add: dec_digits.simps [of n] digit_bytes)
  next
    case False
    with 1 have "fold (\<lambda>c v. 10 * v + (uint c - 48)) (dec_digits n) 0 = 10 * int (n div 10) + int (n mod 10)"
      by (subst dec_digits.simps) (simp add: digit_bytes)
    also have "\<dots> = int n" by (metis mult_div_mod_eq of_nat_add of_nat_mult of_nat_numeral)
    finally show ?thesis .
  qed
qed

lemma dec_digits_nonempty: "dec_digits n \<noteq> []"
  by (subst dec_digits.simps) simp

lemma read_number_digits: "read_number (dec_digits n) = Some (int n)"
proof -
  have hd: "isdigit (hd (dec_digits n))"
    using dec_digits_isdigit dec_digits_nonempty hd_in_set by blast
  then have sp: "\<not> isspace (hd (dec_digits n))" "hd (dec_digits n) \<noteq> 45" "hd (dec_digits n) \<noteq> 43"
    by (auto simp: isspace_def isdigit_def word_le_nat_alt dest: arg_cong [where f = unat])
  have drop: "dropWhile isspace (dec_digits n) = dec_digits n"
    using sp(1) dec_digits_nonempty [of n] by (cases "dec_digits n") auto
  have take: "takeWhile isdigit (dec_digits n) = dec_digits n"
    using dec_digits_isdigit by (simp add: takeWhile_eq_all_conv)
  show ?thesis
    using sp dec_digits_nonempty [of n] dec_digits_val [of n] by (simp add: read_number_def Let_def drop take)
qed

lemma stoul_digits: "n < 2 ^ 64 \<Longrightarrow> stoul (dec_digits n) = Some n"
  by (simp add: stoul_def read_number_digits nat_mod_distrib)

lemma stoi_digits: "n < 2 ^ 31 \<Longrightarrow> stoi (dec_digits n) = Some (int n)"
  by (simp add: stoi_def read_number_digits)

lemma FileName_inj: "FileName dir a = FileName dir b \<longleftrightarrow> a = b"
  by (simp add: FileName_def dec_digits_inj word_unat_eq_iff)

text \<open>The loop of \<^verbatim>\<open>Init\<close> finds the largest number among the names.\<close>

lemma scan_files_max:
  assumes "\<And>it. it \<in> set files \<Longrightarrow> take kDataFilePrefixLen it = kDataFilePrefix \<Longrightarrow>
      \<exists>n < 2 ^ 31. it = kDataFilePrefix @ dec_digits n"
  shows "\<exists>r. scan_files files last_no = Some r \<and> last_no \<le> r
    \<and> (r = last_no \<or> kDataFilePrefix @ dec_digits (unat r) \<in> set files)
    \<and> (\<forall>n < 2 ^ 31. kDataFilePrefix @ dec_digits n \<in> set files \<longrightarrow> n \<le> unat r)"
  using assms
proof (induction files arbitrary: last_no)
  case (Cons it files)
  have len: "length kDataFilePrefix = kDataFilePrefixLen"
    by (simp add: kDataFilePrefix_def kDataFilePrefixLen_def cstr_def)
  have IH: "\<exists>r. scan_files files last_no = Some r \<and> last_no \<le> r
    \<and> (r = last_no \<or> kDataFilePrefix @ dec_digits (unat r) \<in> set files)
    \<and> (\<forall>n < 2 ^ 31. kDataFilePrefix @ dec_digits n \<in> set files \<longrightarrow> n \<le> unat r)" for last_no
    using Cons by simp
  show ?case
  proof (cases "take kDataFilePrefixLen it = kDataFilePrefix")
    case False
    then have "it \<noteq> kDataFilePrefix @ dec_digits n" for n using len by auto
    with IH [of last_no] False show ?thesis by auto
  next
    case True
    with Cons.prems obtain n where n: "n < 2 ^ 31" "it = kDataFilePrefix @ dec_digits n" by auto
    then have "drop kDataFilePrefixLen it = dec_digits n" using len by simp
    moreover have "n < 2 ^ 64" using n(1) by simp
    ultimately have step: "scan_files (it # files) last_no
      = scan_files files (if unat last_no < n then of_nat n else last_no)"
      using True n(1) by (simp add: stoul_digits stoi_digits)
    have same: "kDataFilePrefix @ dec_digits m = it \<longleftrightarrow> m = n" for m
      using n(2) by (simp add: dec_digits_inj)
    define next_no :: u32 where "next_no = (if unat last_no < n then of_nat n else last_no)"
    have unat: "unat (of_nat n :: u32) = n" using n(1) by (simp add: unat_of_nat)
    obtain r where r: "scan_files files next_no = Some r" "next_no \<le> r"
      "r = next_no \<or> kDataFilePrefix @ dec_digits (unat r) \<in> set files"
      "\<forall>n < 2 ^ 31. kDataFilePrefix @ dec_digits n \<in> set files \<longrightarrow> n \<le> unat r"
      using IH [of next_no] by blast
    have "last_no \<le> next_no" "n \<le> unat next_no"
      using unat by (auto simp: next_no_def word_le_nat_alt)
    moreover have "unat next_no \<le> unat r" using r(2) by (simp add: word_le_nat_alt)
    moreover have "r = last_no \<or> kDataFilePrefix @ dec_digits (unat r) \<in> set (it # files)"
    proof (cases "r = next_no \<and> unat last_no < n")
      case True
      then have "unat r = n" using unat by (simp add: next_no_def)
      then have "kDataFilePrefix @ dec_digits (unat r) = it" by (simp only: same)
      then show ?thesis by simp
    next
      case False
      with r(3) show ?thesis unfolding next_no_def by (metis list.set_intros(2))
    qed
    moreover have "last_no \<le> r" using calculation(1) r(2) by (rule order_trans)
    moreover have "m \<le> unat r" if "m < 2 ^ 31" "kDataFilePrefix @ dec_digits m \<in> set (it # files)" for m
    proof (cases "m = n")
      case True
      with calculation(2,3) show ?thesis by linarith
    next
      case False
      with that same [of m] r(4) show ?thesis by simp
    qed
    ultimately show ?thesis
      using r(1) step unfolding next_no_def [symmetric] by (intro exI [of _ r]) simp
  qed
qed simp


subsection \<open>Appending and reading\<close>

text \<open>
  The files of a store: the file with number \<open>no\<close> exists, and none with a larger number. In a
  working store it is open, and as long as the next location says.
\<close>

definition store_files :: "files \<Rightarrow> cxx_string \<Rightarrow> u32 \<Rightarrow> bool" where
  "store_files fs dir no \<longleftrightarrow> fs (FileName dir no) \<noteq> None \<and> (\<forall>n. fs (FileName dir n) \<noteq> None \<longrightarrow> n \<le> no)"

definition store_inv :: "files \<Rightarrow> DataStore \<Rightarrow> bool" where
  "store_inv fs d \<longleftrightarrow> store_files fs (ds_dir d) (file_no (ds_next d))
     \<and> ds_fd d = Opened (FileName (ds_dir d) (file_no (ds_next d)))
     \<and> map_option length (fs (FileName (ds_dir d) (file_no (ds_next d)))) = Some (unat (loc_offset (ds_next d)))"

text \<open>The value at a location, and files that have only grown.\<close>

definition located :: "files \<Rightarrow> cxx_string \<Rightarrow> Location \<Rightarrow> cxx_string \<Rightarrow> bool" where
  "located fs dir l v \<longleftrightarrow> (\<exists>content. fs (FileName dir (file_no l)) = Some content
     \<and> unat (loc_offset l) + unat (loc_len l) \<le> length content
     \<and> v = take (unat (loc_len l)) (drop (unat (loc_offset l)) content))"

definition grown :: "files \<Rightarrow> files \<Rightarrow> bool" where
  "grown fs fs' \<longleftrightarrow> (\<forall>p content. fs p = Some content \<longrightarrow> (\<exists>more. fs' p = Some (content @ more)))"

lemma grown_refl [simp]: "grown fs fs"
  by (auto simp: grown_def)

lemma grown_trans: "grown fs fs' \<Longrightarrow> grown fs' fs'' \<Longrightarrow> grown fs fs''"
  unfolding grown_def by (metis append.assoc)

lemma grown_create: "fs p = None \<Longrightarrow> grown fs (fs(p \<mapsto> bs))"
  by (auto simp: grown_def)

lemma grown_write: "grown fs (write_fd fd out fs)"
  by (auto simp: grown_def write_fd_def split: option.split)

lemma located_grown:
  assumes "located fs dir l v" and "grown fs fs'"
  shows "located fs' dir l v"
proof -
  obtain content where c: "fs (FileName dir (file_no l)) = Some content"
    "unat (loc_offset l) + unat (loc_len l) \<le> length content"
    "v = take (unat (loc_len l)) (drop (unat (loc_offset l)) content)"
    using assms(1) unfolding located_def by blast
  obtain more where "fs' (FileName dir (file_no l)) = Some (content @ more)"
    using assms(2) c(1) unfolding grown_def by blast
  with c(2,3) show ?thesis unfolding located_def by (intro exI [of _ "content @ more"]) simp
qed

lemma located_unique: "located fs dir l v \<Longrightarrow> located fs dir l w \<Longrightarrow> v = w"
  by (auto simp: located_def)

lemma read_located:
  assumes "located fs (ds_dir d) l v" and "DataStore_Read can_open rs l fs d = Some (rc, buf, rs')"
  shows "(rc = kSucc \<and> buf = Some v) \<or> (rc = kIOError \<and> buf = None)"
proof -
  obtain content where c: "fs (FileName (ds_dir d) (file_no l)) = Some content"
    "v = take (unat (loc_len l)) (drop (unat (loc_offset l)) content)"
    using assms(1) unfolding located_def by blast
  show ?thesis
    using assms(2) c by (auto simp: DataStore_Read_def split: if_splits dest: read_loop_ok)
qed

lemma read_located_enough:
  assumes "located fs (ds_dir d) l v" and "Failed \<notin> set rs"
    and "unat (loc_len l) \<le> length (filter (\<lambda>r. \<exists>n > 0. r = Transferred n) rs)"
  shows "\<exists>rs'. DataStore_Read True rs l fs d = Some (kSucc, Some v, rs')"
proof -
  obtain content where c: "fs (FileName (ds_dir d) (file_no l)) = Some content"
    "unat (loc_offset l) + unat (loc_len l) \<le> length content"
    "v = take (unat (loc_len l)) (drop (unat (loc_offset l)) content)"
    using assms(1) unfolding located_def by blast
  have "unat (loc_len l) \<le> length (drop (unat (loc_offset l)) content)" using c(2) by simp
  from read_loop_enough [OF assms(2,3) this] c show ?thesis by (auto simp: DataStore_Read_def)
qed

lemma switch_file_ok:
  assumes inv: "store_inv fs d" and len: "length val \<le> kSingleFileSize"
    and room: "unat (file_no (ds_next d)) < 2 ^ 32 - 1" and sw: "switch_file True val fs d = (fs', d')"
  shows "store_inv fs' d'" and "grown fs fs'" and "ds_dir d' = ds_dir d"
    and "unat (loc_offset (ds_next d')) + length val \<le> kSingleFileSize"
    and "kSingleFileSize \<ge> unat (loc_offset (ds_next d)) + length val \<Longrightarrow> fs' = fs \<and> d' = d"
proof -
  define no where "no = file_no (ds_next d)"
  have "unat (no + 1) = unat no + 1"
    using room by (subst unat_plus_simple [THEN iffD1]) (auto simp: no_def word_le_nat_alt unat_word_ariths)
  then have gt: "no < no + 1" by (simp add: word_less_nat_alt)
  have old: "\<forall>n. fs (FileName (ds_dir d) n) \<noteq> None \<longrightarrow> n \<le> no"
    using inv by (simp add: store_inv_def store_files_def no_def)
  have new: "fs (FileName (ds_dir d) (no + 1)) = None"
    using old gt by (meson not_le)
  have no_more: "n \<le> no + 1" if "fs (FileName (ds_dir d) n) \<noteq> None" for n
    using old that gt by (meson less_imp_le order_trans)
  have all: "store_inv fs' d' \<and> grown fs fs' \<and> ds_dir d' = ds_dir d
    \<and> unat (loc_offset (ds_next d')) + length val \<le> kSingleFileSize
    \<and> (unat (loc_offset (ds_next d)) + length val \<le> kSingleFileSize \<longrightarrow> fs' = fs \<and> d' = d)"
  proof (cases "kSingleFileSize < unat (loc_offset (ds_next d)) + length val")
    case False
    then have "fs' = fs" "d' = d" using sw by (auto simp: switch_file_def)
    with False inv show ?thesis by simp
  next
    case True
    then have "fs' = fs(FileName (ds_dir d) (no + 1) \<mapsto> [])"
      "d' = d\<lparr>ds_next := (ds_next d)\<lparr>file_no := no + 1, loc_offset := 0\<rparr>, ds_fd := Opened (FileName (ds_dir d) (no + 1))\<rparr>"
      using sw new by (auto simp: switch_file_def OpenCurFile_def Let_def simp flip: no_def)
    then show ?thesis
      using True len new no_more by (auto simp: store_inv_def store_files_def grown_create FileName_inj)
  qed
  then show "store_inv fs' d'" "grown fs fs'" "ds_dir d' = ds_dir d"
    "unat (loc_offset (ds_next d')) + length val \<le> kSingleFileSize"
    "kSingleFileSize \<ge> unat (loc_offset (ds_next d)) + length val \<Longrightarrow> fs' = fs \<and> d' = d"
    by simp_all
qed

text \<open>Writing to the current file.\<close>

lemma file_append_ok:
  assumes inv: "store_inv fs d" and app: "FileAppend rs (ds_fd d) val fs = Some (res, fs', rs')"
  obtains (whole) content where "res = 0" and "fs (FileName (ds_dir d) (file_no (ds_next d))) = Some content"
      and "length content = unat (loc_offset (ds_next d))"
      and "fs' = fs(FileName (ds_dir d) (file_no (ds_next d)) \<mapsto> content @ val)"
    | (failed) content out rest where "res = - 1" and "val = out @ rest" and "rest \<noteq> []"
      and "fs (FileName (ds_dir d) (file_no (ds_next d))) = Some content"
      and "length content = unat (loc_offset (ds_next d))"
      and "fs' = fs(FileName (ds_dir d) (file_no (ds_next d)) \<mapsto> content @ out)"
proof -
  from inv obtain content where c: "fs (FileName (ds_dir d) (file_no (ds_next d))) = Some content"
    "length content = unat (loc_offset (ds_next d))"
    "ds_fd d = Opened (FileName (ds_dir d) (file_no (ds_next d)))"
    by (auto simp: store_inv_def)
  from app c(3) obtain out where out: "append_loop rs val = Some (res, out, rs')"
    "fs' = write_fd (Some (FileName (ds_dir d) (file_no (ds_next d)))) out fs"
    by (auto simp: FileAppend_def)
  from append_loop_ok [OF out(1)] show ?thesis
    using c(1,2) out(2) that by (auto simp: write_fd_def)
qed

lemma store_files_upd:
  "store_files fs dir no \<Longrightarrow> store_files (fs(FileName dir no \<mapsto> bs)) dir no"
  by (auto simp: store_files_def)

lemma append_cases:
  assumes inv: "store_inv fs d" and room: "unat (file_no (ds_next d)) < 2 ^ 32 - 1"
    and app: "Append True rs val fs d = Some (rc, l, fs', d', rs')"
  shows "grown fs fs' \<and> ds_dir d' = ds_dir d \<and> store_files fs' (ds_dir d') (file_no (ds_next d'))
    \<and> (rc = kInvalidArgument \<and> kSingleFileSize < length val \<and> fs' = fs \<and> d' = d
      \<or> rc = kSucc \<and> store_inv fs' d' \<and> (\<exists>loc. l = Some loc \<and> located fs' (ds_dir d) loc val)
      \<or> rc = kIOError)"
proof (cases "kSingleFileSize < length val")
  case True
  with app inv show ?thesis by (auto simp: Append_def store_inv_def)
next
  case False
  then have len: "length val \<le> kSingleFileSize" by simp
  obtain fs1 d1 where sw: "switch_file True val fs d = (fs1, d1)" by force
  note sw_ok = switch_file_ok [OF inv len room sw]
  define p where "p = FileName (ds_dir d1) (file_no (ds_next d1))"
  have files: "store_files (fs1(p \<mapsto> bs)) (ds_dir d1) (file_no (ds_next d1))" for bs
    using sw_ok(1) store_files_upd by (auto simp: store_inv_def p_def)
  from app False sw obtain res fs2 where fa: "FileAppend rs (ds_fd d1) val fs1 = Some (res, fs2, rs')"
    by (auto simp: Append_def Let_def bind_eq_Some_conv split: if_splits)
  from sw_ok(1) fa show ?thesis
  proof (cases rule: file_append_ok)
    case (whole content)
    let ?l = "\<lparr>file_no = file_no (ds_next d1), loc_offset = loc_offset (ds_next d1), loc_len = of_nat (length val)\<rparr>"
    have small: "unat (loc_offset (ds_next d1)) + length val < 2 ^ 32"
      using sw_ok(4) by (simp add: kSingleFileSize_def)
    then have ulen: "unat (of_nat (length val) :: u32) = length val" by (simp add: unat_of_nat)
    have uoff: "unat (loc_offset (ds_next d1) + of_nat (length val)) = unat (loc_offset (ds_next d1)) + length val"
      using small ulen by (simp add: unat_word_ariths)
    have res: "rc = kSucc" "l = Some ?l" "fs' = fs2"
      "d' = d1\<lparr>ds_next := (ds_next d1)\<lparr>loc_offset := loc_offset (ds_next d1) + of_nat (length val)\<rparr>\<rparr>"
      using app False sw fa whole(1) by (auto simp: Append_def Let_def)
    have "located fs' (ds_dir d) ?l val"
      using whole sw_ok(3) ulen res(3) by (simp add: located_def)
    moreover have "store_inv fs' d'"
      using whole files [of "content @ val"] res(3,4) uoff sw_ok(1) by (simp add: store_inv_def p_def)
    moreover have "grown fs1 fs'" using whole(2,4) res(3) by (auto simp: grown_def)
    then have "grown fs fs'" by (rule grown_trans [OF sw_ok(2)])
    ultimately show ?thesis
      using res(1,2) sw_ok(3) res(4) by (auto simp: store_inv_def)
  next
    case (failed content out rest)
    have "rc = kIOError" "fs' = fs2" "d' = d1"
      using app False sw fa failed(1) by (auto simp: Append_def Let_def)
    moreover have "grown fs1 fs2" using failed(4,6) by (auto simp: grown_def)
    then have "grown fs fs2" by (rule grown_trans [OF sw_ok(2)])
    ultimately show ?thesis
      using sw_ok(3) files [of "content @ out"] failed(6) by (simp add: p_def)
  qed
qed

subsection \<open>What the store promises\<close>

text \<open>Calls that transfer enough: none fails, and at least \<open>n\<close> transfer something.\<close>

definition enough_calls :: "nat \<Rightarrow> io_result list \<Rightarrow> bool" where
  "enough_calls n rs \<longleftrightarrow> Failed \<notin> set rs \<and> n \<le> length (filter (\<lambda>r. \<exists>n > 0. r = Transferred n) rs)"

lemma located_length: "located fs dir l v \<Longrightarrow> length v = unat (loc_len l)"
  by (auto simp: located_def)

lemma read_enough_calls:
  assumes "located fs (ds_dir d) l v" and "enough_calls (length v) rs"
  shows "\<exists>rs'. DataStore_Read True rs l fs d = Some (kSucc, Some v, rs')"
  using read_located_enough [OF assms(1)] assms(2) located_length [OF assms(1)] by (simp add: enough_calls_def)

text \<open>C38: \<^verbatim>\<open>DataStore::Append\<close> in a working store (\<open>store_inv\<close>: the current file is
  open, and the next location is its end, which is so until an append fails with \<^verbatim>\<open>kIOError\<close>),
  when the number of the current file is below \<open>2 ^ 32 - 1\<close> and the opening of a new file succeeds,
  whatever its \<^verbatim>\<open>write\<close> calls do: a value of more than 100 MB is refused; when it succeeds,
  \<^verbatim>\<open>Read\<close> of the location it returns, if it can open the file, gives the value back once the
  \<^verbatim>\<open>read\<close> calls have transferred enough, and the store works on; in every case all values stored
  before are still at their locations.\<close>

theorem data_store_roundtrip:
  assumes "store_inv fs d" and "unat (file_no (ds_next d)) < 2 ^ 32 - 1"
    and "Append True rs val fs d = Some (rc, l, fs', d', rs')"
  shows "rc \<in> {kSucc, kInvalidArgument, kIOError} \<and> (rc = kInvalidArgument \<longleftrightarrow> kSingleFileSize < length val)
    \<and> (\<forall>l v. located fs (ds_dir d) l v \<longrightarrow> located fs' (ds_dir d') l v)
    \<and> (rc = kSucc \<longrightarrow> store_inv fs' d' \<and> (\<exists>loc. l = Some loc
        \<and> (\<forall>reads. enough_calls (length val) reads \<longrightarrow>
            (\<exists>rest. DataStore_Read True reads loc fs' d' = Some (kSucc, Some val, rest)))))"
proof -
  have inval: "rc = kInvalidArgument \<longleftrightarrow> kSingleFileSize < length val"
    using assms(3) by (auto simp: Append_def Let_def bind_eq_Some_conv split: if_splits prod.splits)
  show ?thesis
    using append_cases [OF assms] inval located_grown read_enough_calls by auto
qed

text \<open>A store with an empty file 0 in the directory \<open>/\<close>.\<close>

definition small_fs :: files where "small_fs = [FileName [47] 0 \<mapsto> []]"
definition small_store :: DataStore where
  "small_store = \<lparr>ds_fd = Opened (FileName [47] 0), ds_dir = [47], ds_next = Location_new\<rparr>"

lemma small_store_inv: "store_inv small_fs small_store" "unat (file_no (ds_next small_store)) < 2 ^ 32 - 1"
  by (auto simp: store_inv_def store_files_def small_fs_def small_store_def Location_new_def FileName_inj split: if_splits)

theorem data_store_roundtrip_witness:
  "\<exists>fs' d' loc rest. Append True [Interrupted, Transferred 1, Transferred 1] [65, 66] small_fs small_store
      = Some (kSucc, Some loc, fs', d', [])
    \<and> DataStore_Read True [Transferred 1, Interrupted, Transferred 5] loc fs' d' = Some (kSucc, Some [65, 66], rest)"
proof -
  obtain fs' d' loc where app: "Append True [Interrupted, Transferred 1, Transferred 1] [65, 66] small_fs small_store
      = Some (kSucc, Some loc, fs', d', [])"
    by (simp add: Append_def switch_file_def small_store_def kSingleFileSize_def Location_new_def FileAppend_def Let_def)
  have "enough_calls (length [65, 66 :: u8]) [Transferred 1, Interrupted, Transferred 5]"
    by (simp add: enough_calls_def)
  with data_store_roundtrip [OF small_store_inv app] app show ?thesis by blast
qed

lemma append_failed:
  assumes inv: "store_inv fs d" and room: "unat (file_no (ds_next d)) < 2 ^ 32 - 1"
    and app: "Append True rs val fs d = Some (kIOError, l, fs', d', rs')"
  obtains content out rest where "val = out @ rest" and "rest \<noteq> []"
    and "ds_fd d' = Opened (FileName (ds_dir d') (file_no (ds_next d')))"
    and "fs' (FileName (ds_dir d') (file_no (ds_next d'))) = Some (content @ out)"
    and "length content = unat (loc_offset (ds_next d'))"
proof -
  have len: "length val \<le> kSingleFileSize" using app by (auto simp: Append_def split: if_splits)
  obtain fs1 d1 where sw: "switch_file True val fs d = (fs1, d1)" by force
  have inv1: "store_inv fs1 d1" by (rule switch_file_ok [OF inv len room sw])
  from app len sw obtain res fs2 where fa: "FileAppend rs (ds_fd d1) val fs1 = Some (res, fs2, rs')"
    and res: "res \<noteq> 0" "fs' = fs2" "d' = d1"
    by (auto simp: Append_def Let_def bind_eq_Some_conv split: if_splits)
  from inv1 fa show ?thesis
  proof (cases rule: file_append_ok)
    case whole
    with res(1) show ?thesis by simp
  next
    case (failed content out rest)
    with res inv1 show ?thesis by (intro that [of out rest content]) (simp_all add: store_inv_def)
  qed
qed

lemma append_same_file:
  assumes "ds_fd d = Opened (FileName (ds_dir d) (file_no (ds_next d)))"
    and "fs (FileName (ds_dir d) (file_no (ds_next d))) = Some bs"
    and "unat (loc_offset (ds_next d)) + length val \<le> kSingleFileSize"
    and "Append True rs val fs d = Some (kSucc, Some loc, fs', d', rs')"
  shows "fs' (FileName (ds_dir d') (file_no loc)) = Some (bs @ val) \<and> ds_dir d' = ds_dir d
    \<and> loc_offset loc = loc_offset (ds_next d) \<and> unat (loc_len loc) = length val"
proof -
  have sw: "switch_file True val fs d = (fs, d)" using assms(3) by (simp add: switch_file_def)
  have "length val < 2 ^ 32" using assms(3) by (simp add: kSingleFileSize_def)
  then have ulen: "unat (of_nat (length val) :: u32) = length val" by (simp add: unat_of_nat)
  obtain out where out: "append_loop rs val = Some (0, out, rs')"
    "fs' = write_fd (Some (FileName (ds_dir d) (file_no (ds_next d)))) out fs"
    "loc = \<lparr>file_no = file_no (ds_next d), loc_offset = loc_offset (ds_next d), loc_len = of_nat (length val)\<rparr>"
    "ds_dir d' = ds_dir d"
    using assms(1,3,4) sw by (auto simp: Append_def Let_def FileAppend_def bind_eq_Some_conv split: if_splits)
  have "out = val" using append_loop_ok [OF out(1)] by auto
  with out(2-4) ulen assms(2) show ?thesis by (simp add: write_fd_def)
qed

text \<open>An append that fails after a part of the value has been written leaves the offset of
  the next location where it was, while the file has grown. The next append that fits into the file
  succeeds, and reading its location gives the written part of the failed value, continued by the
  new value, cut to the length of the new value.\<close>

lemma data_store_stale_offset:
  assumes "store_inv fs d" and "unat (file_no (ds_next d)) < 2 ^ 32 - 1"
    and "Append True rs val fs d = Some (kIOError, l, fs1, d1, rs1)"
    and "unat (loc_offset (ds_next d1)) + length val2 \<le> kSingleFileSize"
    and "Append True rs1 val2 fs1 d1 = Some (kSucc, Some loc, fs2, d2, rs2)"
    and "enough_calls (length val2) reads"
  shows "\<exists>content out rest. val = out @ rest \<and> rest \<noteq> []
    \<and> fs1 (FileName (ds_dir d1) (file_no (ds_next d1))) = Some (content @ out)
    \<and> length content = unat (loc_offset (ds_next d1))
    \<and> (\<exists>reads'. DataStore_Read True reads loc fs2 d2 = Some (kSucc, Some (take (length val2) (out @ val2)), reads'))"
proof -
  obtain content out rest where f: "val = out @ rest" "rest \<noteq> []"
    "ds_fd d1 = Opened (FileName (ds_dir d1) (file_no (ds_next d1)))"
    "fs1 (FileName (ds_dir d1) (file_no (ds_next d1))) = Some (content @ out)"
    "length content = unat (loc_offset (ds_next d1))"
    using append_failed [OF assms(1-3)] by blast
  have loc: "located fs2 (ds_dir d2) loc (take (length val2) (out @ val2))"
    using append_same_file [OF f(3,4) assms(4,5)] f(5) by (auto simp: located_def)
  have "length (take (length val2) (out @ val2)) = length val2" by simp
  with assms(6) have "enough_calls (length (take (length val2) (out @ val2))) reads" by (simp only:)
  from read_enough_calls [OF loc this] f(1,2,4,5) show ?thesis by blast
qed

lemma data_store_stale_offset_example:
  "\<exists>fs1 d1 loc fs2 d2 rest. Append True [Transferred 1, Failed, Transferred 2] [65, 66] small_fs small_store
      = Some (kIOError, None, fs1, d1, [Transferred 2])
    \<and> Append True [Transferred 2] [88, 89] fs1 d1 = Some (kSucc, Some loc, fs2, d2, [])
    \<and> DataStore_Read True [Transferred 1, Transferred 1] loc fs2 d2 = Some (kSucc, Some [65, 88], rest)"
proof -
  define fs1 where "fs1 = small_fs(FileName [47] 0 \<mapsto> [65])"
  have one: "Append True [Transferred 1, Failed, Transferred 2] [65, 66] small_fs small_store
      = Some (kIOError, None, fs1, small_store, [Transferred 2])"
    by (simp add: Append_def switch_file_def small_store_def kSingleFileSize_def Location_new_def FileAppend_def
        Let_def write_fd_def fs1_def small_fs_def)
  obtain loc fs2 d2 where two: "Append True [Transferred 2] [88, 89] fs1 small_store = Some (kSucc, Some loc, fs2, d2, [])"
    by (simp add: Append_def switch_file_def small_store_def kSingleFileSize_def Location_new_def FileAppend_def Let_def)
  have room: "unat (loc_offset (ds_next small_store)) + length [88, 89 :: u8] \<le> kSingleFileSize"
    by (simp add: small_store_def Location_new_def kSingleFileSize_def)
  have calls: "enough_calls (length [88, 89 :: u8]) [Transferred 1, Transferred 1]" by (simp add: enough_calls_def)
  obtain content out rest reads' where r: "[65, 66] = out @ rest"
    "fs1 (FileName (ds_dir small_store) (file_no (ds_next small_store))) = Some (content @ out)"
    "length content = unat (loc_offset (ds_next small_store))"
    "DataStore_Read True [Transferred 1, Transferred 1] loc fs2 d2
      = Some (kSucc, Some (take (length [88, 89 :: u8]) (out @ [88, 89])), reads')"
    using data_store_stale_offset [OF small_store_inv one room two calls] by blast
  from r(2,3) have "out = [65]" by (simp add: fs1_def small_store_def Location_new_def)
  with r(4) have "DataStore_Read True [Transferred 1, Transferred 1] loc fs2 d2 = Some (kSucc, Some [65, 88], reads')"
    by simp
  with one two show ?thesis by blast
qed

lemma read_loop_past_end:
  "Failed \<notin> set rs \<Longrightarrow> length content < n \<Longrightarrow> read_loop rs content n = None"
proof (induction rs content n rule: read_loop.induct)
  case (5 r rs content n)
  define q where "q = min r (min (Suc n) (length content))"
  have "length (drop q content) < Suc n - q" using 5(3) by (auto simp: q_def)
  then have "read_loop rs (drop q content) (Suc n - q) = None" using 5(1) [OF q_def] 5(2) by simp
  then show ?case by (simp add: Let_def flip: q_def)
qed auto

text \<open>\<^verbatim>\<open>DataStore::Read\<close> of a location that reaches beyond the end of its file (after
  a power loss, when the index has reached the disk and the value has not) never returns: at the end
  of the file \<^verbatim>\<open>read\<close> returns 0, and the loop goes on with the same call.\<close>

lemma data_store_read_hangs:
  assumes "fs (FileName (ds_dir d) (file_no l)) = Some content"
    and "length content < unat (loc_offset l) + unat (loc_len l)" and "0 < loc_len l" and "Failed \<notin> set rs"
  shows "DataStore_Read True rs l fs d = None"
proof -
  have "0 < unat (loc_len l)" using assms(3) by (simp add: word_less_nat_alt)
  then have "length (drop (unat (loc_offset l)) content) < unat (loc_len l)"
    using assms(2) by simp
  from read_loop_past_end [OF assms(4) this] assms(1) show ?thesis by (simp add: DataStore_Read_def)
qed

lemma data_store_read_hangs_example:
  "DataStore_Read True [Transferred 1, Interrupted, Transferred 4, Transferred 4] \<lparr>file_no = 0, loc_offset = 1, loc_len = 2\<rparr>
     [FileName [47] 0 \<mapsto> [65, 66]] small_store = None"
  by (rule data_store_read_hangs [where content = "[65, 66]"]) (simp_all add: small_store_def)


subsection \<open>Opening\<close>

text \<open>What the directory lists of the data files: exactly those that exist.\<close>

definition lists_files :: "files \<Rightarrow> cxx_string \<Rightarrow> cxx_string list \<Rightarrow> bool" where
  "lists_files fs dir entries \<longleftrightarrow> (\<forall>n. fs (FileName dir n) \<noteq> None \<longleftrightarrow> kDataFilePrefix @ dec_digits (unat n) \<in> set entries)
     \<and> (\<forall>it \<in> set entries. take kDataFilePrefixLen it = kDataFilePrefix \<longrightarrow>
         (\<exists>n :: u32. it = kDataFilePrefix @ dec_digits (unat n)))"

lemma prefix_not_dot: "kDataFilePrefix @ ds \<noteq> cstr ''..''" "kDataFilePrefix @ ds \<noteq> cstr ''.''"
  by (simp_all add: kDataFilePrefix_def cstr_def)

text \<open>\<^verbatim>\<open>DataStore::Init\<close>, when its calls succeed, on a directory with any data files
  of less than 2 GB with numbers below 2 to the 31: it continues with the file of the largest
  number at its end, or creates file 0, keeps the content of all files, and the store works
  afterwards, also when the offset had been wrong before.\<close>

lemma init_ok:
  assumes "lists_files fs path entries"
    and "\<And>n bs. fs (FileName path n) = Some bs \<Longrightarrow> unat n < 2 ^ 31 \<and> length bs < 2 ^ 31"
  shows "\<exists>fs' d. DataStore_Init True (Some entries) True dir fs (DataStore_new path) = Some (kSucc, True, fs', d)
    \<and> ds_dir d = path \<and> store_inv fs' d \<and> unat (file_no (ds_next d)) < 2 ^ 31
    \<and> (if \<exists>n. fs (FileName path n) \<noteq> None then fs' = fs else fs' = fs(FileName path 0 \<mapsto> []))"
proof -
  have named: "\<exists>n < 2 ^ 31. it = kDataFilePrefix @ dec_digits n"
    if it: "it \<in> set (GetDirFiles entries)" "take kDataFilePrefixLen it = kDataFilePrefix" for it
  proof -
    obtain n :: u32 where n: "it = kDataFilePrefix @ dec_digits (unat n)"
      using assms(1) it by (auto simp: lists_files_def GetDirFiles_def)
    with assms(1) it(1) have "fs (FileName path n) \<noteq> None" by (auto simp: lists_files_def GetDirFiles_def)
    with assms(2) n show ?thesis by blast
  qed
  have listed: "kDataFilePrefix @ dec_digits (unat n) \<in> set (GetDirFiles entries) \<longleftrightarrow> fs (FileName path n) \<noteq> None" for n
    using assms(1) prefix_not_dot by (auto simp: lists_files_def GetDirFiles_def)
  obtain r where r: "scan_files (GetDirFiles entries) 0 = Some r"
    "r = 0 \<or> kDataFilePrefix @ dec_digits (unat r) \<in> set (GetDirFiles entries)"
    "\<forall>n < 2 ^ 31. kDataFilePrefix @ dec_digits n \<in> set (GetDirFiles entries) \<longrightarrow> n \<le> unat r"
    using scan_files_max [of "GetDirFiles entries" 0] named by blast
  have max: "n \<le> r" if "fs (FileName path n) \<noteq> None" for n
    using that r(3) listed [of n] assms(2) by (auto simp: word_le_nat_alt)
  have small: "unat r < 2 ^ 31" using r(2) listed assms(2) by auto
  show ?thesis
  proof (cases "fs (FileName path r)")
    case (Some bs)
    have len: "length bs < 2 ^ 31" using assms(2) Some by blast
    then have "sint (of_nat (length bs) :: 32 word) = int (length bs)"
      by (simp add: signed_of_nat signed_take_bit_int_eq_self)
    then have "GetFileLength (FileName path r) fs = int (length bs)"
      by (simp add: GetFileLength_def Some)
    moreover have "unat (of_nat (length bs) :: u32) = length bs" using len by (simp add: unat_of_nat)
    ultimately show ?thesis
      using r(1) Some max small
      by (auto simp: DataStore_Init_def DataStore_new_def OpenCurFile_def Let_def store_inv_def store_files_def)
  next
    case None
    then have "r = 0" using r(2) listed [of r] by auto
    moreover have none: "fs (FileName path n) = None" for n
      using max [of n] None \<open>r = 0\<close> by (metis word_le_0_iff)
    ultimately show ?thesis
      using r(1) small
      by (auto simp: DataStore_Init_def DataStore_new_def OpenCurFile_def Let_def store_inv_def store_files_def
          GetFileLength_def FileName_inj Location_new_def)
  qed
qed

lemma init_ok_example:
  "\<exists>fs' d. DataStore_Init True (Some [cstr ''..'', cstr ''META'', kDataFilePrefix @ dec_digits (unat (0 :: u32))]) True True
      small_fs (DataStore_new [47]) = Some (kSucc, True, fs', d) \<and> fs' = small_fs \<and> store_inv fs' d"
proof -
  have exists: "small_fs (FileName [47] n) \<noteq> None \<longleftrightarrow> n = 0" for n
    by (simp add: small_fs_def FileName_inj)
  have "lists_files small_fs [47] [cstr ''..'', cstr ''META'', kDataFilePrefix @ dec_digits (unat (0 :: u32))]"
    unfolding lists_files_def exists
    using prefix_not_dot by (auto simp: dec_digits_inj word_unat_eq_iff kDataFilePrefix_def kDataFilePrefixLen_def cstr_def
        intro!: exI [of _ "0 :: u32"])
  moreover have "unat n < 2 ^ 31 \<and> length bs < 2 ^ 31" if "small_fs (FileName [47] n) = Some bs" for n bs
    using that by (auto simp: small_fs_def FileName_inj split: if_splits)
  ultimately obtain fs' d where i: "DataStore_Init True (Some [cstr ''..'', cstr ''META'', kDataFilePrefix @ dec_digits (unat (0 :: u32))])
      True True small_fs (DataStore_new [47]) = Some (kSucc, True, fs', d)" "store_inv fs' d"
    "if \<exists>n. small_fs (FileName [47] n) \<noteq> None then fs' = small_fs else fs' = small_fs(FileName [47] 0 \<mapsto> [])"
    using init_ok [of small_fs "[47]" _ True] by blast
  moreover from this(3) exists have "fs' = small_fs" by auto
  ultimately show ?thesis by blast
qed

text \<open>A name in the directory that starts with \<^verbatim>\<open>DATA_\<close> and has no number after it
  makes \<^verbatim>\<open>DataStore::Init\<close> throw; nothing catches the exception.\<close>

lemma data_store_init_throws:
  assumes "it \<in> set entries" and "take kDataFilePrefixLen it = kDataFilePrefix"
    and "read_number (drop kDataFilePrefixLen it) = None"
  shows "DataStore_Init True (Some entries) can_open dir fs (DataStore_new path) = None"
proof -
  have "scan_files files last_no = None" if "it \<in> set files" for files last_no
    using that assms(2,3) by (induction files arbitrary: last_no) (auto simp: stoul_def Let_def split: Option.bind_split)
  moreover have "it \<noteq> cstr ''..''" "it \<noteq> cstr ''.''"
    using assms(2) by (auto simp: kDataFilePrefix_def kDataFilePrefixLen_def cstr_def)
  then have "it \<in> set (GetDirFiles entries)" using assms(1) by (simp add: GetDirFiles_def)
  ultimately show ?thesis by (simp add: DataStore_Init_def)
qed

lemma data_store_init_throws_example:
  "DataStore_Init True (Some [cstr ''..'', cstr ''DATA_old'']) True True Map.empty (DataStore_new [47]) = None"
  by (rule data_store_init_throws [where it = "cstr ''DATA_old''"])
    (simp_all add: cstr_def kDataFilePrefix_def kDataFilePrefixLen_def read_number_def isspace_def isdigit_def)

end
