(* ===== verification/Door_Plate.thy ===== *)
theory Door_Plate
  imports Data_Store Store_Spec
begin

text \<open>
  \<^verbatim>\<open>engine_example/door_plate.cc\<close>: the index of the sample engine, a hash table with linear
  probing in a memory-mapped file.
\<close>

subsection \<open>Items\<close>

definition kMaxKeyLen :: nat where "kMaxKeyLen = 32"
definition kMaxDoorCnt :: nat where "kMaxDoorCnt = 1024 * 1024 * 32"
definition kMaxRangeBufCount :: nat where "kMaxRangeBufCount = kMaxDoorCnt"

text \<open>
  \<open>it_key\<close> gives the bytes from the address of the array \<^verbatim>\<open>key\<close> on; only the first
  \<^verbatim>\<open>kMaxKeyLen\<close> belong to it.
\<close>

record Item =
  it_location :: Location
  it_key :: "nat \<Rightarrow> u8"
  it_key_size :: nat
  it_in_use :: u8

text \<open>An item of the file after \<^verbatim>\<open>memset\<close>.\<close>

definition Item_zero :: Item where
  "Item_zero = \<lparr>it_location = Location_new, it_key = (\<lambda>_. 0), it_key_size = 0, it_in_use = 0\<rparr>"

type_synonym items = "nat \<Rightarrow> Item"

definition ItemKeyMatch :: "Item \<Rightarrow> cxx_string \<Rightarrow> bool" where
  "ItemKeyMatch item target \<longleftrightarrow>
     \<not> (length target \<noteq> it_key_size item \<or> map (it_key item) [0..<it_key_size item] \<noteq> target)"

definition ItemTryPlace :: "Item \<Rightarrow> cxx_string \<Rightarrow> bool" where
  "ItemTryPlace item target \<longleftrightarrow> (if it_in_use item = 0 then True else ItemKeyMatch item target)"

subsection \<open>Operations\<close>

text \<open>The loop of \<^verbatim>\<open>CalcIndex\<close>: the last index and the number of conflicts.\<close>

function calc_index :: "items \<Rightarrow> cxx_string \<Rightarrow> nat \<Rightarrow> nat \<Rightarrow> nat \<times> nat" where
  "calc_index items key index jcnt =
     (if ItemTryPlace (items index) key then (index, jcnt)
      else
        let jcnt = jcnt + 1 in
        if jcnt < kMaxDoorCnt then calc_index items key ((index + 1) mod kMaxDoorCnt) jcnt
        else (index, jcnt))"
  by pat_completeness auto
termination
  by (relation "measure (\<lambda>(_, _, _, jcnt). kMaxDoorCnt - jcnt)") auto

declare calc_index.simps [simp del]

text \<open>The result -1 for a full table is \<^term>\<open>None\<close>.\<close>

definition CalcIndex :: "cxx_string \<Rightarrow> items \<Rightarrow> nat option" where
  "CalcIndex key items =
     (let (index, jcnt) = calc_index items key (unat (StrHash key) mod kMaxDoorCnt) 0 in
      if jcnt = kMaxDoorCnt then None else Some index)"

definition AddOrUpdate :: "cxx_string \<Rightarrow> Location \<Rightarrow> items \<Rightarrow> RetCode \<times> items" where
  "AddOrUpdate key l items =
     (if kMaxKeyLen < length key then (kInvalidArgument, items)
      else case CalcIndex key items of
        None \<Rightarrow> (kFull, items)
      | Some index \<Rightarrow>
          let iptr = items index;
              iptr = (if it_in_use iptr = 0
                then iptr\<lparr>it_key := (\<lambda>j. if j < length key then key ! j else it_key iptr j),
                  it_key_size := length key, it_in_use := 1\<rparr>
                else iptr)
          in (kSucc, items(index := iptr\<lparr>it_location := l\<rparr>)))"

definition Find :: "cxx_string \<Rightarrow> items \<Rightarrow> RetCode \<times> Location option" where
  "Find key items =
     (case CalcIndex key items of
        None \<Rightarrow> (kNotFound, None)
      | Some index \<Rightarrow>
          if \<not> ItemKeyMatch (items index) key then (kNotFound, None)
          else (kSucc, Some (it_location (items index))))"

text \<open>\<^verbatim>\<open>std::map::insert\<close> on the sorted list of the pairs: an existing entry is kept.\<close>

fun map_insert :: "cxx_string \<Rightarrow> 'a \<Rightarrow> (cxx_string \<times> 'a) list \<Rightarrow> (cxx_string \<times> 'a) list" where
  "map_insert k v [] = [(k, v)]"
| "map_insert k v ((k', v') # kvs) =
     (if k < k' then (k, v) # (k', v') # kvs
      else if k = k' then (k', v') # kvs
      else (k', v') # map_insert k v kvs)"

text \<open>The loop of \<^verbatim>\<open>GetRangeLocation\<close> over the first \<open>n\<close> items, from the last to the first.\<close>

fun range_loop ::
  "items \<Rightarrow> cxx_string \<Rightarrow> cxx_string \<Rightarrow> nat \<Rightarrow> nat \<Rightarrow> (cxx_string \<times> Location) list
   \<Rightarrow> RetCode \<times> (cxx_string \<times> Location) list" where
  "range_loop items lower upper 0 count locations = (kSucc, locations)"
| "range_loop items lower upper (Suc it) count locations =
     (if it_in_use (items it) = 0 then range_loop items lower upper it count locations
      else
        let key = map (it_key (items it)) [0..<it_key_size (items it)] in
        if (lower \<le> key \<or> lower = []) \<and> (key < upper \<or> upper = []) then
          let locations = map_insert key (it_location (items it)) locations; count = count + 1 in
          if kMaxRangeBufCount < count then (kOutOfMemory, locations)
          else range_loop items lower upper it count locations
        else range_loop items lower upper it count locations)"

definition GetRangeLocation ::
  "cxx_string \<Rightarrow> cxx_string \<Rightarrow> items \<Rightarrow> RetCode \<times> (cxx_string \<times> Location) list" where
  "GetRangeLocation lower upper items = range_loop items lower upper kMaxDoorCnt 0 []"

subsection \<open>Linear probing\<close>

definition item_key :: "Item \<Rightarrow> cxx_string" where
  "item_key item = map (it_key item) [0..<it_key_size item]"

definition plate_occ :: "items \<Rightarrow> nat \<Rightarrow> cxx_string option" where
  "plate_occ items a = (if it_in_use (items a) = 0 then None else Some (item_key (items a)))"

definition plate_slot :: "cxx_string \<Rightarrow> nat \<Rightarrow> nat" where
  "plate_slot key n = (unat (StrHash key) mod kMaxDoorCnt + n) mod kMaxDoorCnt"

lemma kMaxDoorCnt_pos [simp]: "0 < kMaxDoorCnt"
  by (simp add: kMaxDoorCnt_def)

lemma match_item_key: "ItemKeyMatch item target \<longleftrightarrow> item_key item = target"
  by (auto simp: ItemKeyMatch_def item_key_def)

lemma try_place_stops: "ItemTryPlace (items a) key \<longleftrightarrow> probe_stops plate_occ items key a"
  by (simp add: ItemTryPlace_def probe_stops_def plate_occ_def match_item_key)

lemma calc_index_found:
  assumes "n \<le> m" and "m < kMaxDoorCnt" and "probe_stops plate_occ items key (plate_slot key m)"
    and "\<And>j. n \<le> j \<Longrightarrow> j < m \<Longrightarrow> \<not> probe_stops plate_occ items key (plate_slot key j)"
  shows "calc_index items key (plate_slot key n) n = (plate_slot key m, m)"
  using assms
proof (induction "m - n" arbitrary: n)
  case 0
  then show ?case by (subst calc_index.simps) (simp add: try_place_stops)
next
  case (Suc d)
  then have "n < m" "\<not> probe_stops plate_occ items key (plate_slot key n)" by auto
  moreover have "calc_index items key (plate_slot key (Suc n)) (Suc n) = (plate_slot key m, m)"
    using Suc by (intro Suc.hyps(1)) auto
  moreover have "(plate_slot key n + 1) mod kMaxDoorCnt = plate_slot key (Suc n)"
    by (simp add: plate_slot_def mod_Suc_eq)
  ultimately show ?case
    using Suc.prems(2) by (subst calc_index.simps) (simp add: try_place_stops Let_def)
qed

lemma calc_index_full:
  assumes "n < kMaxDoorCnt" and "\<And>j. n \<le> j \<Longrightarrow> j < kMaxDoorCnt \<Longrightarrow> \<not> probe_stops plate_occ items key (plate_slot key j)"
  shows "snd (calc_index items key (plate_slot key n) n) = kMaxDoorCnt"
  using assms
proof (induction "kMaxDoorCnt - Suc n" arbitrary: n)
  case 0
  then have "Suc n = kMaxDoorCnt" by simp
  then show ?case using 0 by (subst calc_index.simps) (simp add: try_place_stops Let_def)
next
  case (Suc d)
  have "snd (calc_index items key (plate_slot key (Suc n)) (Suc n)) = kMaxDoorCnt"
    using Suc by (intro Suc.hyps(1)) auto
  moreover have "(plate_slot key n + 1) mod kMaxDoorCnt = plate_slot key (Suc n)"
    by (simp add: plate_slot_def mod_Suc_eq)
  ultimately show ?case
    using Suc by (subst calc_index.simps) (simp add: try_place_stops Let_def)
qed

definition plate_search :: "items \<Rightarrow> cxx_string \<Rightarrow> nat option" where
  "plate_search items key = CalcIndex key items"

lemma plate_slot_0: "plate_slot key 0 = unat (StrHash key) mod kMaxDoorCnt"
  by (simp add: plate_slot_def)

lemma plate_search_iff:
  "plate_search items key = Some a \<longleftrightarrow> probe_first plate_occ plate_slot kMaxDoorCnt items key a"
proof (cases "\<exists>n < kMaxDoorCnt. probe_stops plate_occ items key (plate_slot key n)")
  case True
  define P where "P n \<longleftrightarrow> n < kMaxDoorCnt \<and> probe_stops plate_occ items key (plate_slot key n)" for n
  define m where "m = (LEAST n. P n)"
  have "P m" unfolding m_def by (rule LeastI_ex) (use True in \<open>simp add: P_def\<close>)
  then have m: "m < kMaxDoorCnt" "probe_stops plate_occ items key (plate_slot key m)"
    by (simp_all add: P_def)
  have before: "\<not> probe_stops plate_occ items key (plate_slot key j)" if "j < m" for j
    using not_less_Least [of j P] that m(1) by (simp add: m_def P_def)
  have "plate_search items key = Some (plate_slot key m)"
    using calc_index_found [of 0 m items key] m before
    by (simp add: plate_search_def CalcIndex_def plate_slot_0)
  moreover have "probe_first plate_occ plate_slot kMaxDoorCnt items key a \<longleftrightarrow> a = plate_slot key m"
    unfolding probe_first_def using m before by (metis linorder_neqE_nat)
  ultimately show ?thesis by auto
next
  case False
  then have "snd (calc_index items key (plate_slot key 0) 0) = kMaxDoorCnt"
    by (intro calc_index_full) auto
  then have "plate_search items key = None"
    by (simp add: plate_search_def CalcIndex_def plate_slot_0 case_prod_beta)
  with False show ?thesis by (auto simp: probe_first_def)
qed

interpretation plate_table: open_addressing plate_occ plate_slot kMaxDoorCnt plate_search
  by unfold_locales (rule plate_search_iff)

text \<open>Linear probing tries every slot.\<close>

lemma plate_slot_surj:
  assumes "a < kMaxDoorCnt"
  shows "\<exists>n < kMaxDoorCnt. plate_slot key n = a"
proof -
  define h where "h = unat (StrHash key) mod kMaxDoorCnt"
  have h: "h < kMaxDoorCnt" by (simp add: h_def)
  define n where "n = (a + kMaxDoorCnt - h) mod kMaxDoorCnt"
  have "n < kMaxDoorCnt" by (simp add: n_def)
  moreover have "(h + n) mod kMaxDoorCnt = (h + (a + kMaxDoorCnt - h)) mod kMaxDoorCnt"
    unfolding n_def by (rule mod_add_right_eq)
  then have "plate_slot key n = a" using assms h by (simp add: plate_slot_def flip: h_def)
  ultimately show ?thesis by blast
qed

lemma plate_search_bound: "plate_search items key = Some a \<Longrightarrow> a < kMaxDoorCnt"
  by (auto simp: plate_search_iff probe_first_def plate_slot_def)

subsection \<open>The index as a map\<close>

definition plate_lookup :: "items \<Rightarrow> cxx_string \<Rightarrow> Location option" where
  "plate_lookup items key =
     (case CalcIndex key items of
        None \<Rightarrow> None
      | Some a \<Rightarrow> if it_in_use (items a) = 0 then None else Some (it_location (items a)))"

text \<open>
  The invariant of the file: every key sits where its search finds it and fits into its array,
  and an item that is not in use is zero.
\<close>

definition plate_inv :: "items \<Rightarrow> bool" where
  "plate_inv items \<longleftrightarrow> probe_wf plate_occ plate_search items
     \<and> (\<forall>a. it_key_size (items a) \<le> kMaxKeyLen) \<and> (\<forall>a. it_in_use (items a) = 0 \<longrightarrow> items a = Item_zero)"

definition plate_store :: "cxx_string \<Rightarrow> Location \<Rightarrow> items \<Rightarrow> items option" where
  "plate_store key l items =
     (case AddOrUpdate key l items of (rc, items') \<Rightarrow> if rc = kSucc then Some items' else None)"

lemma plate_empty: "plate_inv (\<lambda>_. Item_zero)" "plate_lookup (\<lambda>_. Item_zero) = (\<lambda>_. None)"
  by (auto simp: plate_inv_def probe_wf_def plate_occ_def Item_zero_def kMaxKeyLen_def plate_lookup_def
      split: option.split)

lemma plate_lookup_iff:
  assumes "plate_inv items"
  shows "plate_lookup items key = Some l
    \<longleftrightarrow> (\<exists>a. plate_occ items a = Some key \<and> it_location (items a) = l)"
proof
  assume "plate_lookup items key = Some l"
  then obtain a where a: "plate_search items key = Some a" "it_in_use (items a) \<noteq> 0" "it_location (items a) = l"
    by (auto simp: plate_lookup_def plate_search_def split: option.splits if_splits)
  from plate_table.search_stops [OF a(1)] a(2) have "plate_occ items a = Some key"
    by (auto simp: probe_stops_def plate_occ_def)
  with a(3) show "\<exists>a. plate_occ items a = Some key \<and> it_location (items a) = l" by blast
next
  assume "\<exists>a. plate_occ items a = Some key \<and> it_location (items a) = l"
  then obtain a where a: "plate_occ items a = Some key" "it_location (items a) = l" by blast
  with assms have "plate_search items key = Some a" by (simp add: plate_inv_def probe_wf_def)
  with a show "plate_lookup items key = Some l"
    by (auto simp: plate_lookup_def plate_search_def plate_occ_def split: if_splits)
qed

text \<open>What a write that finds its slot does to the table.\<close>

lemma add_step:
  assumes inv: "plate_inv items" and len: "length key \<le> kMaxKeyLen"
    and a: "CalcIndex key items = Some a"
  obtains items' where "AddOrUpdate key l items = (kSucc, items')"
    and "plate_occ items' = (plate_occ items)(a \<mapsto> key)"
    and "it_location (items' a) = l" and "\<forall>b. b \<noteq> a \<longrightarrow> items' b = items b"
    and "it_key_size (items' a) \<le> kMaxKeyLen" and "it_in_use (items' a) \<noteq> 0"
proof -
  define new where "new = (if it_in_use (items a) = 0
    then (items a)\<lparr>it_key := (\<lambda>j. if j < length key then key ! j else it_key (items a) j),
      it_key_size := length key, it_in_use := 1\<rparr> else items a)\<lparr>it_location := l\<rparr>"
  have stops: "probe_stops plate_occ items key a"
    using plate_table.search_stops a by (simp add: plate_search_def)
  have key: "item_key new = key"
    using stops by (auto simp: new_def item_key_def probe_stops_def plate_occ_def intro!: nth_equalityI)
  have used: "it_in_use new \<noteq> 0" by (simp add: new_def)
  have "AddOrUpdate key l items = (kSucc, items(a := new))"
    using len a by (simp add: AddOrUpdate_def new_def Let_def)
  moreover have "plate_occ (items(a := new)) = (plate_occ items)(a \<mapsto> key)"
    using key used by (auto simp: plate_occ_def)
  moreover have "it_location new = l" by (simp add: new_def)
  moreover have "it_key_size new \<le> kMaxKeyLen"
    using inv len by (simp add: new_def plate_inv_def)
  ultimately show ?thesis using used by (intro that [of "items(a := new)"]) simp_all
qed

lemma add_correct:
  assumes inv: "plate_inv items" and len: "length key \<le> kMaxKeyLen"
    and a: "CalcIndex key items = Some a"
  shows "\<exists>items'. AddOrUpdate key l items = (kSucc, items') \<and> plate_inv items'
    \<and> plate_lookup items' = (plate_lookup items)(key \<mapsto> l)"
proof -
  from add_step [OF assms, of l] obtain items' where items': "AddOrUpdate key l items = (kSucc, items')"
    "plate_occ items' = (plate_occ items)(a \<mapsto> key)" "it_location (items' a) = l"
    "\<forall>b. b \<noteq> a \<longrightarrow> items' b = items b" "it_key_size (items' a) \<le> kMaxKeyLen" "it_in_use (items' a) \<noteq> 0"
    by blast
  have wf: "probe_wf plate_occ plate_search items" using inv by (simp add: plate_inv_def)
  have s: "plate_search items key = Some a" using a by (simp add: plate_search_def)
  have wf': "probe_wf plate_occ plate_search items'"
    by (rule plate_table.take_slot_wf [OF wf s items'(2)])
  have inv': "plate_inv items'"
    using inv wf' items'(4-6) unfolding plate_inv_def by metis
  have "plate_lookup items' k = Some l' \<longleftrightarrow> ((plate_lookup items)(key \<mapsto> l)) k = Some l'" for k l'
  proof (cases "k = key")
    case True
    have at: "plate_occ items' a = Some key" by (simp add: items'(2))
    have "plate_occ items' b = Some key \<longleftrightarrow> b = a" for b
      using plate_table.keys_distinct [OF wf' _ at] at by blast
    with True items'(3) show ?thesis by (simp add: plate_lookup_iff [OF inv'])
  next
    case False
    have "plate_occ items a \<noteq> Some k"
      using plate_table.search_stops [OF s] False by (auto simp: probe_stops_def)
    then have "plate_occ items' b = Some k \<and> it_location (items' b) = l'
      \<longleftrightarrow> plate_occ items b = Some k \<and> it_location (items b) = l'" for b
      using False items'(2,4) by (cases "b = a") simp_all
    with False show ?thesis by (simp add: plate_lookup_iff [OF inv'] plate_lookup_iff [OF inv])
  qed
  then have "plate_lookup items' = (plate_lookup items)(key \<mapsto> l)"
    by (intro ext option_eqI) blast
  with items'(1) inv' show ?thesis by blast
qed

interpretation plate_map: keyed_store plate_inv plate_lookup plate_store "\<lambda>_ l. l"
proof unfold_locales
  fix t k v t'
  assume inv: "plate_inv t" and st: "plate_store k v t = Some t'"
  from st obtain a where "length k \<le> kMaxKeyLen" "CalcIndex k t = Some a" "AddOrUpdate k v t = (kSucc, t')"
    by (auto simp: plate_store_def AddOrUpdate_def Let_def split: if_splits option.splits)
  with add_correct [OF inv, of k a v] show "plate_inv t'" "plate_lookup t' = (plate_lookup t)(k \<mapsto> v)" by auto
qed

subsection \<open>What the operations do\<close>

text \<open>The table is full exactly when it holds 32M keys.\<close>

lemma plate_dom_bij:
  assumes inv: "plate_inv items"
  shows "bij_betw (\<lambda>a. the (plate_occ items a)) {a. plate_occ items a \<noteq> None} (dom (plate_lookup items))"
  unfolding bij_betw_def
proof
  have wf: "probe_wf plate_occ plate_search items" using inv by (simp add: plate_inv_def)
  show "inj_on (\<lambda>a. the (plate_occ items a)) {a. plate_occ items a \<noteq> None}"
    by (rule inj_onI) (use plate_table.keys_distinct [OF wf] in force)
  show "(\<lambda>a. the (plate_occ items a)) ` {a. plate_occ items a \<noteq> None} = dom (plate_lookup items)"
    by (force simp: plate_lookup_iff [OF inv] dom_def image_iff)
qed

lemma plate_full_iff:
  assumes inv: "plate_inv items"
  shows "CalcIndex key items = None \<longleftrightarrow>
    plate_lookup items key = None \<and> card (dom (plate_lookup items)) = kMaxDoorCnt"
proof -
  let ?U = "{a. plate_occ items a \<noteq> None}"
  have wf: "probe_wf plate_occ plate_search items" using inv by (simp add: plate_inv_def)
  have sub: "?U \<subseteq> {..<kMaxDoorCnt}"
    using wf plate_search_bound unfolding probe_wf_def by blast
  have card: "card (dom (plate_lookup items)) = card ?U"
    using bij_betw_same_card [OF plate_dom_bij [OF inv]] by simp
  have all: "card ?U = kMaxDoorCnt \<longleftrightarrow> ?U = {..<kMaxDoorCnt}"
    using card_subset_eq [OF finite_lessThan sub] by (metis card_lessThan)
  show ?thesis
  proof
    assume full: "CalcIndex key items = None"
    then have "plate_search items key = None" by (simp add: plate_search_def)
    then have "plate_occ items a \<noteq> None" if "a < kMaxDoorCnt" for a
      using plate_slot_surj [OF that, of key]
      unfolding plate_table.search_None_iff probe_stops_def by auto
    with sub have "?U = {..<kMaxDoorCnt}" by blast
    with full card all show "plate_lookup items key = None \<and> card (dom (plate_lookup items)) = kMaxDoorCnt"
      by (simp add: plate_lookup_def)
  next
    assume new: "plate_lookup items key = None \<and> card (dom (plate_lookup items)) = kMaxDoorCnt"
    show "CalcIndex key items = None"
    proof (rule ccontr)
      assume "CalcIndex key items \<noteq> None"
      then obtain a where a: "plate_search items key = Some a" by (auto simp: plate_search_def)
      with new have "plate_occ items a = None"
        by (auto simp: plate_lookup_def plate_search_def plate_occ_def split: if_splits)
      moreover have "a \<in> ?U" using new card all plate_search_bound [OF a] by auto
      ultimately show False by simp
    qed
  qed
qed

lemma plate_find_iff:
  assumes "plate_inv items"
  shows "Find key items = (case plate_lookup items key of
      Some l \<Rightarrow> (kSucc, Some l)
    | None \<Rightarrow> if key = [] \<and> CalcIndex [] items \<noteq> None then (kSucc, Some Location_new) else (kNotFound, None))"
proof (cases "CalcIndex key items")
  case None
  then show ?thesis by (auto simp: Find_def plate_lookup_def)
next
  case (Some a)
  have stops: "probe_stops plate_occ items key a"
    using plate_table.search_stops Some by (simp add: plate_search_def)
  show ?thesis
  proof (cases "it_in_use (items a) = 0")
    case True
    with assms have "items a = Item_zero" by (simp add: plate_inv_def)
    with True Some show ?thesis
      by (auto simp: Find_def plate_lookup_def match_item_key item_key_def Item_zero_def)
  next
    case False
    with stops have "item_key (items a) = key" by (auto simp: probe_stops_def plate_occ_def)
    with False Some show ?thesis by (simp add: Find_def plate_lookup_def match_item_key)
  qed
qed

lemma add_cases:
  assumes "plate_inv items" and "AddOrUpdate key l items = (rc, items')"
  shows "plate_inv items'
    \<and> (rc = kInvalidArgument \<longleftrightarrow> kMaxKeyLen < length key)
    \<and> (rc = kFull \<longleftrightarrow> length key \<le> kMaxKeyLen \<and> plate_lookup items key = None \<and> card (dom (plate_lookup items)) = kMaxDoorCnt)
    \<and> rc \<in> {kSucc, kInvalidArgument, kFull}
    \<and> (if rc = kSucc then plate_lookup items' = (plate_lookup items)(key \<mapsto> l) else items' = items)"
proof -
  consider (long) "kMaxKeyLen < length key" | (full) "length key \<le> kMaxKeyLen" "CalcIndex key items = None"
    | (slot) a where "length key \<le> kMaxKeyLen" "CalcIndex key items = Some a" by fastforce
  then show ?thesis
  proof cases
    case long
    with assms show ?thesis by (auto simp: AddOrUpdate_def)
  next
    case full
    with assms plate_full_iff [OF assms(1), of key] show ?thesis by (auto simp: AddOrUpdate_def)
  next
    case slot
    from add_correct [OF assms(1) slot, of l] assms(2)
    have ok: "rc = kSucc" "plate_inv items'" "plate_lookup items' = (plate_lookup items)(key \<mapsto> l)" by auto
    with slot plate_full_iff [OF assms(1), of key] show ?thesis by auto
  qed
qed


text \<open>C39: \<^verbatim>\<open>DoorPlate::AddOrUpdate\<close> on every table that the engine can build, for any
  collisions: a key of more than 32 bytes is refused; a new key is refused with
  \<^verbatim>\<open>kFull\<close> exactly when all 32M slots hold other keys (linear probing reaches every
  slot); otherwise the key maps to the new location and every other key to what it mapped to.\<close>

theorem door_plate_add:
  assumes "plate_inv items" and "AddOrUpdate key l items = (rc, items')"
  shows "plate_inv items'
    \<and> (rc = kInvalidArgument \<longleftrightarrow> kMaxKeyLen < length key)
    \<and> (rc = kFull \<longleftrightarrow> length key \<le> kMaxKeyLen \<and> plate_lookup items key = None \<and> card (dom (plate_lookup items)) = kMaxDoorCnt)
    \<and> rc \<in> {kSucc, kInvalidArgument, kFull}
    \<and> (if rc = kSucc then plate_lookup items' = (plate_lookup items)(key \<mapsto> l) else items' = items)"
  using assms by (rule add_cases)

theorem door_plate_add_witness:
  "\<exists>items'. AddOrUpdate [107] \<lparr>file_no = 0, loc_offset = 8, loc_len = 3\<rparr> (\<lambda>_. Item_zero) = (kSucc, items')
    \<and> plate_lookup items' = [[107] \<mapsto> \<lparr>file_no = 0, loc_offset = 8, loc_len = 3\<rparr>]"
proof -
  obtain rc items' where add: "AddOrUpdate [107] \<lparr>file_no = 0, loc_offset = 8, loc_len = 3\<rparr> (\<lambda>_. Item_zero) = (rc, items')"
    by force
  from door_plate_add [OF plate_empty(1) add] have "rc = kSucc"
    by (auto simp: plate_empty(2) kMaxKeyLen_def kMaxDoorCnt_def)
  with door_plate_add [OF plate_empty(1) add] add show ?thesis by (auto simp: plate_empty(2))
qed

text \<open>After any sequence of successful \<^verbatim>\<open>AddOrUpdate\<close> calls on a new file,
  \<^verbatim>\<open>Find\<close> returns the location added last under the key, and \<^verbatim>\<open>kNotFound\<close> for every
  other key, except for the empty key: on a table that is not full, \<^verbatim>\<open>Find\<close> of an empty key
  that was never added succeeds, with the location 0, 0, 0 of a free item.\<close>

lemma door_plate_history:
  assumes "plate_map.update_all kls (\<lambda>_. Item_zero) = Some items"
  shows "Find key items = (case map_of (rev kls) key of
      Some l \<Rightarrow> (kSucc, Some l)
    | None \<Rightarrow> if key = [] \<and> card (fst ` set kls) \<noteq> kMaxDoorCnt then (kSucc, Some Location_new) else (kNotFound, None))"
proof -
  have inv: "plate_inv items" by (rule plate_map.update_all_invar [OF plate_empty(1) assms])
  have "fold (\<lambda>kl old. Some (snd kl)) (filter (\<lambda>kl. fst kl = k) kls) None = map_of (rev kls) k" for k
    by (induction kls rule: rev_induct) (auto simp: map_of_append)
  then have lookup: "plate_lookup items = map_of (rev kls)"
    using plate_map.update_all_lookup [OF plate_empty(1) assms] by (intro ext) (simp add: plate_empty(2))
  then have "dom (plate_lookup items) = fst ` set kls" by (simp add: dom_map_of_conv_image_fst)
  then show ?thesis
    using plate_full_iff [OF inv, of "[]"] lookup
    by (auto simp: plate_find_iff [OF inv] split: option.split)
qed

lemma door_plate_history_example:
  "\<exists>items. plate_map.update_all [([107], \<lparr>file_no = 0, loc_offset = 8, loc_len = 3\<rparr>)] (\<lambda>_. Item_zero) = Some items
    \<and> Find [107] items = (kSucc, Some \<lparr>file_no = 0, loc_offset = 8, loc_len = 3\<rparr>)
    \<and> Find [108] items = (kNotFound, None) \<and> Find [] items = (kSucc, Some Location_new)"
proof -
  have "CalcIndex [107] (\<lambda>_. Item_zero) \<noteq> None"
    using plate_full_iff [OF plate_empty(1), of "[107]"] by (simp add: plate_empty(2) kMaxDoorCnt_def)
  then obtain items where all: "plate_map.update_all [([107], \<lparr>file_no = 0, loc_offset = 8, loc_len = 3\<rparr>)] (\<lambda>_. Item_zero) = Some items"
    by (auto simp: plate_store_def AddOrUpdate_def kMaxKeyLen_def Let_def)
  have "(1::nat) \<noteq> kMaxDoorCnt" by (simp add: kMaxDoorCnt_def)
  with all door_plate_history [OF all, of "[107]"] door_plate_history [OF all, of "[108]"] door_plate_history [OF all, of "[]"]
  show ?thesis by simp
qed

subsection \<open>Ranges\<close>

definition in_range :: "cxx_string \<Rightarrow> cxx_string \<Rightarrow> cxx_string \<Rightarrow> bool" where
  "in_range lower upper key \<longleftrightarrow> (lower \<le> key \<or> lower = []) \<and> (key < upper \<or> upper = [])"

lemma map_insert_set: "k \<notin> fst ` set kvs \<Longrightarrow> set (map_insert k v kvs) = insert (k, v) (set kvs)"
  by (induction kvs rule: map_insert.induct) auto

lemma map_insert_sorted: "sorted_wrt (<) (map fst kvs) \<Longrightarrow> sorted_wrt (<) (map fst (map_insert k v kvs))"
proof (induction k v kvs rule: map_insert.induct)
  case (2 k v k' v' kvs)
  have keys: "fst ` set (map_insert k v kvs) \<subseteq> insert k (fst ` set kvs)" for kvs :: "(cxx_string \<times> 'a) list"
    by (induction kvs rule: map_insert.induct) auto
  show ?case
  proof (cases "k' < k")
    case True
    have "k' < fst x" if "x \<in> set (map_insert k v kvs)" for x
    proof -
      have "fst x \<in> insert k (fst ` set kvs)" using that keys [of kvs] by blast
      with 2(2) True show ?thesis by auto
    qed
    with True 2 show ?thesis by auto
  next
    case False
    with 2 show ?thesis by auto
  qed
qed simp

lemma range_loop_ok:
  assumes inv: "plate_inv items" and "count + n \<le> kMaxDoorCnt" and "sorted_wrt (<) (map fst locs)"
    and "\<forall>a < n. plate_occ items a \<noteq> None \<longrightarrow> item_key (items a) \<notin> fst ` set locs"
  shows "fst (range_loop items lower upper n count locs) = kSucc
    \<and> sorted_wrt (<) (map fst (snd (range_loop items lower upper n count locs)))
    \<and> set (snd (range_loop items lower upper n count locs)) = set locs
      \<union> {(k, it_location (items a)) | k a. a < n \<and> plate_occ items a = Some k \<and> in_range lower upper k}"
  using assms(2-)
proof (induction n arbitrary: count locs)
  case (Suc n)
  let ?new = "{(k, it_location (items a)) | k a. a < n \<and> plate_occ items a = Some k \<and> in_range lower upper k}"
  let ?all = "{(k, it_location (items a)) | k a. a < Suc n \<and> plate_occ items a = Some k \<and> in_range lower upper k}"
  have rest: "\<forall>a < n. plate_occ items a \<noteq> None \<longrightarrow> item_key (items a) \<notin> fst ` set locs"
    using Suc.prems(3) by simp
  show ?case
  proof (cases "plate_occ items n")
    case None
    then have "it_in_use (items n) = 0" by (simp add: plate_occ_def split: if_splits)
    moreover have "?all = ?new" using None less_Suc_eq by auto
    ultimately show ?thesis using Suc.IH [of count locs] Suc.prems rest by simp
  next
    case (Some k)
    then have used: "it_in_use (items n) \<noteq> 0" "item_key (items n) = k"
      by (simp_all add: plate_occ_def split: if_splits)
    have key: "map (it_key (items n)) [0..<it_key_size (items n)] = k" using used(2) by (simp add: item_key_def)
    show ?thesis
    proof (cases "in_range lower upper k")
      case True
      let ?locs = "map_insert k (it_location (items n)) locs"
      have "k \<notin> fst ` set locs" using Suc.prems(3) Some used(2) by auto
      then have set: "set ?locs = insert (k, it_location (items n)) (set locs)" by (rule map_insert_set)
      have "item_key (items a) \<noteq> k" if "a < n" "plate_occ items a \<noteq> None" for a
      proof
        assume "item_key (items a) = k"
        with that(2) have "plate_occ items a = Some k" by (simp add: plate_occ_def split: if_splits)
        with Some inv that(1) show False using plate_table.keys_distinct by (auto simp: plate_inv_def)
      qed
      with rest set have fresh: "\<forall>a < n. plate_occ items a \<noteq> None \<longrightarrow> item_key (items a) \<notin> fst ` set ?locs"
        by simp
      have step: "range_loop items lower upper (Suc n) count locs = range_loop items lower upper n (count + 1) ?locs"
        using True used(1) key Suc.prems(1) by (simp add: Let_def kMaxRangeBufCount_def flip: in_range_def)
      have "?all = insert (k, it_location (items n)) ?new" using Some True less_Suc_eq by auto
      with Suc.IH [of "count + 1" ?locs] Suc.prems(1) map_insert_sorted [OF Suc.prems(2)] fresh set step
      show ?thesis by simp
    next
      case False
      then have "?all = ?new" using Some less_Suc_eq by auto
      with Suc.IH [of count locs] Suc.prems rest False used(1) key show ?thesis
        by (simp add: Let_def flip: in_range_def)
    qed
  qed
qed simp

lemma distinct_singleton: "set xs = {x} \<Longrightarrow> distinct xs \<Longrightarrow> xs = [x]"
  by (cases xs) (auto simp: subset_singleton_iff)

text \<open>\<^verbatim>\<open>DoorPlate::GetRangeLocation\<close> succeeds on every table, also a full one, and
  the map it fills holds, in strictly ascending order of the keys as unsigned bytes, exactly the
  stored keys from \<open>lower\<close> on and below \<open>upper\<close>, each with its location; an empty bound
  is no bound.\<close>

lemma range_locations:
  assumes "plate_inv items"
  shows "\<exists>locs. GetRangeLocation lower upper items = (kSucc, locs) \<and> sorted_wrt (<) (map fst locs)
    \<and> (\<forall>k l. (k, l) \<in> set locs \<longleftrightarrow> plate_lookup items k = Some l \<and> in_range lower upper k)"
proof -
  have bound: "a < kMaxDoorCnt" if "plate_occ items a = Some k" for a k
    using assms that plate_search_bound unfolding plate_inv_def probe_wf_def by blast
  obtain rc locs where locs: "GetRangeLocation lower upper items = (rc, locs)" by force
  have "rc = kSucc \<and> sorted_wrt (<) (map fst locs) \<and> set locs
    = {(k, it_location (items a)) | k a. a < kMaxDoorCnt \<and> plate_occ items a = Some k \<and> in_range lower upper k}"
    using range_loop_ok [OF assms, of 0 kMaxDoorCnt "[]" lower upper] locs by (simp add: GetRangeLocation_def)
  moreover from this have "(k, l) \<in> set locs \<longleftrightarrow> plate_lookup items k = Some l \<and> in_range lower upper k" for k l
    using bound by (auto simp: plate_lookup_iff [OF assms])
  ultimately show ?thesis using locs by blast
qed

lemma range_locations_example:
  "\<exists>items l. plate_lookup items [107] = Some l \<and> GetRangeLocation [] [] items = (kSucc, [([107], l)])"
proof -
  obtain rc items where add: "AddOrUpdate [107] Location_new (\<lambda>_. Item_zero) = (rc, items)" by force
  have "CalcIndex [107] (\<lambda>_. Item_zero) \<noteq> None"
    using plate_full_iff [OF plate_empty(1), of "[107]"] by (simp add: plate_empty(2) kMaxDoorCnt_def)
  with add have "plate_store [107] Location_new (\<lambda>_. Item_zero) = Some items"
    by (auto simp: plate_store_def AddOrUpdate_def kMaxKeyLen_def Let_def)
  from plate_map.update_invar [OF plate_empty(1) this] plate_map.update_lookup [OF plate_empty(1) this]
  have items: "plate_inv items" "plate_lookup items = [[107] \<mapsto> Location_new]" by (simp_all add: plate_empty(2))
  from range_locations [OF items(1), of "[]" "[]"] obtain locs where
    locs: "GetRangeLocation [] [] items = (kSucc, locs)" "sorted_wrt (<) (map fst locs)"
      and all: "\<And>k l. (k, l) \<in> set locs \<longleftrightarrow> plate_lookup items k = Some l \<and> in_range [] [] k" by blast
  have "set locs = {([107], Location_new)}"
    using all by (auto simp: items(2) in_range_def split: if_splits)
  moreover have "distinct locs" using locs(2) by (metis distinct_map strict_sorted_iff)
  ultimately have "locs = [([107], Location_new)]" by (rule distinct_singleton)
  with locs(1) items(2) show ?thesis by (intro exI [of _ items] exI [of _ Location_new]) simp
qed

subsection \<open>The file of the index\<close>

text \<open>
  The file \<^verbatim>\<open>META\<close>: its size in bytes and, as far as it reaches, its items. The mapping is
  shared, so the items are the state of both the file and the object. An access to a mapped item
  beyond the end of the file raises SIGBUS; \<open>mapping_backed\<close> excludes that.
\<close>

definition sizeof_Item :: nat where "sizeof_Item = 52"
definition map_size :: nat where "map_size = kMaxDoorCnt * sizeof_Item"

record Meta =
  mt_size :: nat
  mt_items :: items

definition mapping_backed :: "Meta \<Rightarrow> bool" where
  "mapping_backed m \<longleftrightarrow> map_size \<le> mt_size m"

text \<open>
  Whether the calls of \<^verbatim>\<open>Init\<close> succeed. A failed \<^verbatim>\<open>posix_fallocate\<close> gives the size
  that the file has got until then.
\<close>

record plate_calls =
  pc_mkdir :: bool
  pc_open :: bool
  pc_fallocate :: "nat option"
  pc_mmap :: bool

text \<open>
  The result, whether the directory exists, and the file. After \<^term>\<open>kSucc\<close> the object maps
  the file.
\<close>

definition DoorPlate_Init :: "plate_calls \<Rightarrow> bool \<Rightarrow> Meta option \<Rightarrow> RetCode \<times> bool \<times> Meta option" where
  "DoorPlate_Init c dir meta =
     (if \<not> dir \<and> \<not> pc_mkdir c then (kIOError, dir, meta)
      else if \<not> pc_open c then (kIOError, True, meta)
      else case meta of
        Some m \<Rightarrow> (if pc_mmap c then kSucc else kIOError, True, Some m)
      | None \<Rightarrow>
          (case pc_fallocate c of
             Some n \<Rightarrow> (kIOError, True, Some \<lparr>mt_size = n, mt_items = (\<lambda>_. Item_zero)\<rparr>)
           | None \<Rightarrow> (if pc_mmap c then kSucc else kIOError, True,
               Some \<lparr>mt_size = map_size, mt_items = (\<lambda>_. Item_zero)\<rparr>)))"

definition all_calls_succeed :: plate_calls where
  "all_calls_succeed = \<lparr>pc_mkdir = True, pc_open = True, pc_fallocate = None, pc_mmap = True\<rparr>"

text \<open>\<^verbatim>\<open>map_size\<close> is an \<^verbatim>\<open>int\<close>; the product does not overflow.\<close>

lemma map_size_int: "map_size < 2 ^ 31"
  by (simp add: map_size_def sizeof_Item_def kMaxDoorCnt_def)

text \<open>\<^verbatim>\<open>DoorPlate::Init\<close> on no file creates an empty index, and on an existing file
  takes it as it is. When \<^verbatim>\<open>posix_fallocate\<close> fails (the disk is full), it reports the error
  but leaves the short file, and the next \<^verbatim>\<open>Init\<close>, whose calls all succeed, accepts that file
  although it does not back the mapping.\<close>

lemma door_plate_init:
  "DoorPlate_Init all_calls_succeed dir (Some m) = (kSucc, True, Some m)
   \<and> (\<exists>m. DoorPlate_Init all_calls_succeed dir None = (kSucc, True, Some m) \<and> mapping_backed m
      \<and> plate_inv (mt_items m) \<and> plate_lookup (mt_items m) = Map.empty)
   \<and> (n < map_size \<longrightarrow> (\<exists>dir' m. DoorPlate_Init (all_calls_succeed\<lparr>pc_fallocate := Some n\<rparr>) dir None = (kIOError, dir', Some m)
      \<and> DoorPlate_Init all_calls_succeed dir' (Some m) = (kSucc, True, Some m) \<and> \<not> mapping_backed m))"
  by (auto simp: DoorPlate_Init_def all_calls_succeed_def mapping_backed_def plate_empty)

lemma door_plate_init_example:
  "\<exists>dir' m. DoorPlate_Init (all_calls_succeed\<lparr>pc_fallocate := Some 0\<rparr>) False None = (kIOError, dir', Some m)
    \<and> DoorPlate_Init all_calls_succeed dir' (Some m) = (kSucc, True, Some m) \<and> \<not> mapping_backed m"
proof -
  have "0 < map_size" by (simp add: map_size_def sizeof_Item_def)
  with door_plate_init [of False undefined 0] show ?thesis by blast
qed

end
