(* ===== verification/Engine_Example.thy ===== *)
theory Engine_Example
  imports Door_Plate
begin

text \<open>
  \<^verbatim>\<open>engine_example/engine_example.cc\<close>: the sample engine, which appends the value to the
  data store and then enters its location into the index. The operations hold one mutex from the
  first to the last statement, so they run one after the other.

  \<^term>\<open>None\<close> is an operation that does not return: an exception in \<^verbatim>\<open>Open\<close>, a loop of
  system calls that goes on, or an index whose file does not back its mapping (SIGBUS).
\<close>

subsection \<open>State\<close>

text \<open>What outlives the engine: the directory, the file of the index, the other files, the locks.\<close>

record engine_disk =
  ed_dir :: bool
  ed_meta :: "Meta option"
  ed_files :: files
  ed_locks :: locks

record EngineExample =
  ee_db_lock :: "FileLock option"
  ee_store :: DataStore

definition kLockFile :: cxx_string where "kLockFile = cstr ''LOCK''"

definition lock_path :: "cxx_string \<Rightarrow> cxx_string" where
  "lock_path name = name @ cstr ''/'' @ kLockFile"

definition EngineExample_new :: "cxx_string \<Rightarrow> EngineExample" where
  "EngineExample_new dir = \<lparr>ee_db_lock = None, ee_store = DataStore_new dir\<rparr>"

subsection \<open>Operations\<close>

text \<open>The outcomes of the system calls of \<^verbatim>\<open>Open\<close>.\<close>

record open_calls =
  oc_plate :: plate_calls
  oc_entries :: "cxx_string list option"
  oc_data :: bool
  oc_lock :: bool

definition EngineExample_Open ::
  "open_calls \<Rightarrow> nat \<Rightarrow> cxx_string \<Rightarrow> engine_disk \<Rightarrow> (RetCode \<times> EngineExample option \<times> engine_disk) option" where
  "EngineExample_Open c pid name w = do {
     let e = EngineExample_new name;
     let (ret, dir, meta) = DoorPlate_Init (oc_plate c) (ed_dir w) (ed_meta w);
     let w = w\<lparr>ed_dir := dir, ed_meta := meta\<rparr>;
     if ret \<noteq> kSucc then Some (ret, None, w)
     else do {
       (ret, dir, fs, d) \<leftarrow> DataStore_Init (pc_mkdir (oc_plate c)) (oc_entries c) (oc_data c) (ed_dir w) (ed_files w) (ee_store e);
       let w = w\<lparr>ed_dir := dir, ed_files := fs\<rparr>;
       if ret \<noteq> kSucc then Some (ret, None, w)
       else do {
         let (lock, fs, locks) = LockFile (oc_lock c) pid (lock_path name) (ed_files w) (ed_locks w);
         let w = w\<lparr>ed_files := fs, ed_locks := locks\<rparr>;
         if lock = None then Some (kIOError, None, w)
         else Some (kSucc, Some (e\<lparr>ee_db_lock := lock, ee_store := d\<rparr>), w)
       }
     }
   }"

text \<open>The destructor.\<close>

definition EngineExample_close :: "nat \<Rightarrow> EngineExample \<Rightarrow> engine_disk \<Rightarrow> engine_disk" where
  "EngineExample_close pid e w =
     (case ee_db_lock e of None \<Rightarrow> w | Some lock \<Rightarrow> w\<lparr>ed_locks := UnlockFile pid lock (ed_locks w)\<rparr>)"

text \<open>The items of the index, if its file backs the mapping.\<close>

definition mapped_items :: "engine_disk \<Rightarrow> items option" where
  "mapped_items w = do {
     m \<leftarrow> ed_meta w;
     if mapping_backed m then Some (mt_items m) else None
   }"

definition Engine_Write ::
  "bool \<Rightarrow> io_result list \<Rightarrow> PolarString \<Rightarrow> PolarString \<Rightarrow> EngineExample \<Rightarrow> engine_disk
   \<Rightarrow> (RetCode \<times> EngineExample \<times> engine_disk \<times> io_result list) option" where
  "Engine_Write can_open rs key val e w = do {
     (ret, location, fs, d, rs) \<leftarrow> Append can_open rs (ToString val) (ed_files w) (ee_store e);
     let e = e\<lparr>ee_store := d\<rparr>;
     let w = w\<lparr>ed_files := fs\<rparr>;
     case location of
       None \<Rightarrow> Some (ret, e, w, rs)
     | Some location \<Rightarrow> do {
         items \<leftarrow> mapped_items w;
         let (ret, items) = AddOrUpdate (ToString key) location items;
         Some (ret, e, w\<lparr>ed_meta := map_option (\<lambda>m. m\<lparr>mt_items := items\<rparr>) (ed_meta w)\<rparr>, rs)
       }
   }"

text \<open>\<open>val\<close> is the string of the caller, which the engine clears before it reads.\<close>

definition Engine_Read ::
  "bool \<Rightarrow> io_result list \<Rightarrow> PolarString \<Rightarrow> cxx_string \<Rightarrow> EngineExample \<Rightarrow> engine_disk
   \<Rightarrow> (RetCode \<times> cxx_string \<times> io_result list) option" where
  "Engine_Read can_open rs key val e w = do {
     items \<leftarrow> mapped_items w;
     let (ret, location) = Find (ToString key) items;
     case location of
       None \<Rightarrow> Some (ret, val, rs)
     | Some location \<Rightarrow> do {
         (ret, buf, rs) \<leftarrow> DataStore_Read can_open rs location (ed_files w) (ee_store e);
         Some (ret, case buf of None \<Rightarrow> [] | Some buf \<Rightarrow> buf, rs)
       }
   }"

text \<open>The loop of \<^verbatim>\<open>Range\<close>, with the calls of \<^verbatim>\<open>Visit\<close> it makes.\<close>

fun visit_loop ::
  "bool \<Rightarrow> io_result list \<Rightarrow> (cxx_string \<times> Location) list \<Rightarrow> files \<Rightarrow> DataStore
   \<Rightarrow> (RetCode \<times> (cxx_string \<times> cxx_string) list \<times> io_result list) option" where
  "visit_loop can_open rs [] fs d = Some (kSucc, [], rs)"
| "visit_loop can_open rs ((k, l) # locations) fs d = do {
     (ret, buf, rs) \<leftarrow> DataStore_Read can_open rs l fs d;
     case buf of
       None \<Rightarrow> Some (ret, [], rs)
     | Some v \<Rightarrow> do {
         (ret, visits, rs) \<leftarrow> visit_loop can_open rs locations fs d;
         Some (ret, (k, v) # visits, rs)
       }
   }"

definition Engine_Range ::
  "bool \<Rightarrow> io_result list \<Rightarrow> PolarString \<Rightarrow> PolarString \<Rightarrow> EngineExample \<Rightarrow> engine_disk
   \<Rightarrow> (RetCode \<times> (cxx_string \<times> cxx_string) list \<times> io_result list) option" where
  "Engine_Range can_open rs lower upper e w = do {
     items \<leftarrow> mapped_items w;
     let (ret, locations) = GetRangeLocation (ToString lower) (ToString upper) items;
     if ret \<noteq> kSucc then Some (ret, [], rs)
     else visit_loop can_open rs locations (ed_files w) (ee_store e)
   }"

subsection \<open>The engine as a map\<close>

definition location_value :: "files \<Rightarrow> cxx_string \<Rightarrow> Location \<Rightarrow> cxx_string" where
  "location_value fs dir l =
     (case fs (FileName dir (file_no l)) of
        None \<Rightarrow> [] | Some content \<Rightarrow> take (unat (loc_len l)) (drop (unat (loc_offset l)) content))"

definition engine_map :: "cxx_string \<Rightarrow> engine_disk \<Rightarrow> cxx_string \<Rightarrow> cxx_string option" where
  "engine_map dir w key =
     Option.bind (mapped_items w) (\<lambda>items. map_option (location_value (ed_files w) dir) (plate_lookup items key))"

text \<open>
  What must hold on disk between two runs: the index is well-formed, and every location in it
  lies within its file. While an engine is open, its store works as well.
\<close>

definition data_ok :: "cxx_string \<Rightarrow> engine_disk \<Rightarrow> bool" where
  "data_ok dir w \<longleftrightarrow> (\<exists>items. mapped_items w = Some items \<and> plate_inv items
     \<and> (\<forall>key l. plate_lookup items key = Some l \<longrightarrow> (\<exists>v. located (ed_files w) dir l v)))"

definition engine_ok :: "EngineExample \<Rightarrow> engine_disk \<Rightarrow> bool" where
  "engine_ok e w \<longleftrightarrow> data_ok (ds_dir (ee_store e)) w \<and> store_inv (ed_files w) (ee_store e)"

lemma located_value: "located fs dir l v \<Longrightarrow> location_value fs dir l = v"
  by (auto simp: located_def location_value_def)

lemma value_located: "located fs dir l v \<Longrightarrow> located fs dir l (location_value fs dir l)"
  by (simp add: located_value)

lemma engine_map_iff:
  assumes "data_ok dir w" and "mapped_items w = Some items"
  shows "engine_map dir w key = Some v \<longleftrightarrow>
    (\<exists>l. plate_lookup items key = Some l \<and> located (ed_files w) dir l v)"
proof -
  have "plate_lookup items key = Some l \<Longrightarrow> \<exists>v. located (ed_files w) dir l v" for l
    using assms by (auto simp: data_ok_def)
  then show ?thesis using assms(2) located_value by (fastforce simp: engine_map_def)
qed

lemma engine_map_grown:
  assumes "data_ok dir w" and "grown (ed_files w) fs"
  shows "data_ok dir (w\<lparr>ed_files := fs\<rparr>)" and "engine_map dir (w\<lparr>ed_files := fs\<rparr>) = engine_map dir w"
proof -
  obtain items where items: "mapped_items w = Some items" "plate_inv items"
    "\<And>key l. plate_lookup items key = Some l \<Longrightarrow> \<exists>v. located (ed_files w) dir l v"
    using assms(1) by (auto simp: data_ok_def)
  have m: "mapped_items (w\<lparr>ed_files := fs\<rparr>) = Some items" using items(1) by (simp add: mapped_items_def)
  show ok: "data_ok dir (w\<lparr>ed_files := fs\<rparr>)"
    using items located_grown [OF _ assms(2)] m unfolding data_ok_def by (metis engine_disk.select_convs(3) engine_disk.surjective engine_disk.update_convs(3))
  have "engine_map dir (w\<lparr>ed_files := fs\<rparr>) key = engine_map dir w key" for key
  proof (cases "plate_lookup items key")
    case None
    then show ?thesis using items(1) m by (simp add: engine_map_def)
  next
    case (Some l)
    with items(3) obtain v where v: "located (ed_files w) dir l v" by blast
    from located_value [OF v] located_value [OF located_grown [OF v assms(2)]] Some items(1) m
    show ?thesis by (simp add: engine_map_def)
  qed
  then show "engine_map dir (w\<lparr>ed_files := fs\<rparr>) = engine_map dir w" by (rule ext)
qed

text \<open>Entering a location into the index.\<close>

lemma engine_map_add:
  assumes ok: "data_ok dir w" and items: "mapped_items w = Some items"
    and add: "AddOrUpdate key l items = (rc, items')" and v: "located (ed_files w) dir l v"
    and w': "w' = w\<lparr>ed_meta := map_option (\<lambda>m. m\<lparr>mt_items := items'\<rparr>) (ed_meta w)\<rparr>"
  shows "data_ok dir w'"
    and "engine_map dir w' = (if rc = kSucc then (engine_map dir w)(key \<mapsto> v) else engine_map dir w)"
proof -
  have inv: "plate_inv items" using ok items by (simp add: data_ok_def)
  have m: "mapped_items w' = Some items'"
    using items by (auto simp: w' mapped_items_def mapping_backed_def bind_eq_Some_conv split: if_splits)
  have inv': "plate_inv items'"
    and lookup: "plate_lookup items' = (if rc = kSucc then (plate_lookup items)(key \<mapsto> l) else plate_lookup items)"
    using add_cases [OF inv add] by auto
  have fs: "ed_files w' = ed_files w" by (simp add: w')
  have stored: "plate_lookup items k = Some l' \<Longrightarrow> \<exists>v. located (ed_files w) dir l' v" for k l'
    using ok items by (auto simp: data_ok_def)
  have "\<exists>v. located (ed_files w') dir l' v" if "plate_lookup items' k = Some l'" for k l'
    using that stored v unfolding lookup fs by (auto split: if_splits)
  with m inv' show "data_ok dir w'" by (simp add: data_ok_def)
  show "engine_map dir w' = (if rc = kSucc then (engine_map dir w)(key \<mapsto> v) else engine_map dir w)"
    using items m located_value [OF v] by (auto simp: engine_map_def lookup fs)
qed

lemma write_cases:
  assumes ok: "engine_ok e w" and room: "unat (file_no (ds_next (ee_store e))) < 2 ^ 32 - 1"
    and wr: "Engine_Write True rs key val e w = Some (rc, e', w', rs')"
  shows "ds_dir (ee_store e') = ds_dir (ee_store e) \<and> data_ok (ds_dir (ee_store e)) w'
    \<and> store_files (ed_files w') (ds_dir (ee_store e)) (file_no (ds_next (ee_store e')))
    \<and> rc \<in> {kSucc, kInvalidArgument, kFull, kIOError} \<and> (rc \<noteq> kIOError \<longrightarrow> engine_ok e' w')
    \<and> (kSingleFileSize < length (ps_data val) \<longrightarrow> rc = kInvalidArgument)
    \<and> (kMaxKeyLen < length (ps_data key) \<longrightarrow> rc = kInvalidArgument \<or> rc = kIOError)
    \<and> (rc = kInvalidArgument \<longrightarrow> kSingleFileSize < length (ps_data val) \<or> kMaxKeyLen < length (ps_data key))
    \<and> engine_map (ds_dir (ee_store e)) w'
      = (if rc = kSucc then (engine_map (ds_dir (ee_store e)) w)(ps_data key \<mapsto> ps_data val)
         else engine_map (ds_dir (ee_store e)) w)"
proof -
  let ?dir = "ds_dir (ee_store e)"
  have inv: "store_inv (ed_files w) (ee_store e)" and data: "data_ok ?dir w"
    using ok by (simp_all add: engine_ok_def)
  from wr obtain ret l fs d rs1 where app: "Append True rs (ps_data val) (ed_files w) (ee_store e) = Some (ret, l, fs, d, rs1)"
    by (auto simp: Engine_Write_def ToString_def bind_eq_Some_conv)
  note a = append_cases [OF inv room app]
  let ?w = "w\<lparr>ed_files := fs\<rparr>"
  have grown: "data_ok ?dir ?w" "engine_map ?dir ?w = engine_map ?dir w"
    using a engine_map_grown [OF data] by blast+
  show ?thesis
  proof (cases "ret = kSucc")
    case False
    then have none: "l = None"
      using app by (auto simp: Append_def Let_def bind_eq_Some_conv split: if_splits prod.splits)
    have eq: "rc = ret" "e' = e\<lparr>ee_store := d\<rparr>" "w' = ?w"
      using wr app none by (simp_all add: Engine_Write_def ToString_def)
    have inval: "ret = kInvalidArgument \<longleftrightarrow> kSingleFileSize < length (ps_data val)"
      using app by (auto simp: Append_def Let_def bind_eq_Some_conv split: if_splits prod.splits)
    have io: "ret = kIOError" if "ret \<noteq> kInvalidArgument" using a False that by auto
    have same: "fs = ed_files w" "d = ee_store e" if "ret = kInvalidArgument" using a that by auto
    show ?thesis
    proof (cases "ret = kInvalidArgument")
      case True
      with a grown inv inval same show ?thesis by (simp add: eq engine_ok_def)
    next
      case False
      with a grown inval io show ?thesis by (auto simp: eq)
    qed
  next
    case True
    then obtain loc where loc: "l = Some loc" "located fs ?dir loc (ps_data val)" "store_inv fs d"
      "length (ps_data val) \<le> kSingleFileSize" "ds_dir d = ?dir"
      using a app by (auto simp: Append_def split: if_splits)
    obtain items where items: "mapped_items ?w = Some items" "plate_inv items"
      using grown(1) by (auto simp: data_ok_def)
    obtain rc2 items' where add: "AddOrUpdate (ps_data key) loc items = (rc2, items')" by force
    define w2 where "w2 = ?w\<lparr>ed_meta := map_option (\<lambda>m. m\<lparr>mt_items := items'\<rparr>) (ed_meta ?w)\<rparr>"
    have eq: "rc = rc2" "e' = e\<lparr>ee_store := d\<rparr>" "w' = w2"
      using wr app loc(1) items(1) add by (simp_all add: Engine_Write_def ToString_def w2_def)
    have v: "located (ed_files ?w) ?dir loc (ps_data val)" using loc(2) by simp
    note m = engine_map_add [OF grown(1) items(1) add v w2_def]
    have fs: "ed_files w2 = fs" by (simp add: w2_def)
    show ?thesis
      using add_cases [OF items(2) add] m grown(2) loc a by (auto simp: eq fs engine_ok_def)
  qed
qed


text \<open>C15: \<^verbatim>\<open>EngineExample::Write\<close> implements the update of a map from keys to values,
  whatever its \<^verbatim>\<open>write\<close> calls do: on success the key maps to the value and nothing else
  changes; with any other result no key changes its value. A value of more than 100 MB or a key of
  more than 32 bytes gives \<^verbatim>\<open>kInvalidArgument\<close> (unless writing the value failed before).
  The data on disk stay well-formed in every case; only after \<^verbatim>\<open>kIOError\<close> the engine is
  not fit for the next write.\<close>

theorem engine_write:
  assumes "engine_ok e w" and "unat (file_no (ds_next (ee_store e))) < 2 ^ 32 - 1"
    and "Engine_Write True rs key val e w = Some (rc, e', w', rs')"
  shows "rc \<in> {kSucc, kInvalidArgument, kFull, kIOError} \<and> data_ok (ds_dir (ee_store e)) w'
    \<and> (rc \<noteq> kIOError \<longrightarrow> engine_ok e' w')
    \<and> (kSingleFileSize < length (ps_data val) \<longrightarrow> rc = kInvalidArgument)
    \<and> (kMaxKeyLen < length (ps_data key) \<longrightarrow> rc = kInvalidArgument \<or> rc = kIOError)
    \<and> (rc = kInvalidArgument \<longrightarrow> kSingleFileSize < length (ps_data val) \<or> kMaxKeyLen < length (ps_data key))
    \<and> engine_map (ds_dir (ee_store e)) w'
      = (if rc = kSucc then (engine_map (ds_dir (ee_store e)) w)(ps_data key \<mapsto> ps_data val)
         else engine_map (ds_dir (ee_store e)) w)"
  using write_cases [OF assms] by blast

text \<open>The engine in the directory \<open>/\<close>, with an empty index and an empty data file.\<close>

definition new_disk :: engine_disk where
  "new_disk = \<lparr>ed_dir = True, ed_meta = Some \<lparr>mt_size = map_size, mt_items = (\<lambda>_. Item_zero)\<rparr>,
     ed_files = small_fs, ed_locks = Map.empty\<rparr>"

definition new_engine :: EngineExample where
  "new_engine = \<lparr>ee_db_lock = None, ee_store = small_store\<rparr>"

lemma new_engine_ok: "engine_ok new_engine new_disk" "engine_map [47] new_disk = Map.empty"
  "unat (file_no (ds_next (ee_store new_engine))) < 2 ^ 32 - 1" "ds_dir (ee_store new_engine) = [47]"
  using small_store_inv
  by (auto simp: engine_ok_def data_ok_def new_disk_def new_engine_def mapped_items_def mapping_backed_def plate_empty
      engine_map_def small_store_def)

lemma new_engine_write:
  obtains e' w' where "Engine_Write True [Transferred 1, Transferred 4] (PolarString [107]) (PolarString [65, 66]) new_engine new_disk
    = Some (kSucc, e', w', [])"
proof -
  have "CalcIndex [107] (\<lambda>_. Item_zero) \<noteq> None"
    using plate_full_iff [OF plate_empty(1), of "[107]"] by (simp add: plate_empty(2) kMaxDoorCnt_def)
  then show ?thesis
    using that
    by (auto simp: Engine_Write_def Append_def switch_file_def ToString_def new_engine_def new_disk_def small_store_def
        kSingleFileSize_def Location_new_def FileAppend_def mapped_items_def mapping_backed_def AddOrUpdate_def kMaxKeyLen_def Let_def)
qed

theorem engine_write_witness:
  "\<exists>e' w'. Engine_Write True [Transferred 1, Transferred 4] (PolarString [107]) (PolarString [65, 66]) new_engine new_disk
      = Some (kSucc, e', w', []) \<and> engine_map [47] w' = [[107] \<mapsto> [65, 66]]"
proof -
  obtain e' w' where wr: "Engine_Write True [Transferred 1, Transferred 4] (PolarString [107]) (PolarString [65, 66]) new_engine new_disk
    = Some (kSucc, e', w', [])" by (rule new_engine_write)
  from engine_write [OF new_engine_ok(1,3) wr] wr show ?thesis by (simp add: new_engine_ok)
qed

subsection \<open>Reading\<close>

lemma dom_engine_map: "mapped_items w = Some items \<Longrightarrow> dom (engine_map dir w) = dom (plate_lookup items)"
  by (auto simp: engine_map_def dom_def)

lemma read_result:
  assumes "data_ok (ds_dir (ee_store e)) w" and "ed_files w (FileName (ds_dir (ee_store e)) 0) \<noteq> None"
  shows "case engine_map (ds_dir (ee_store e)) w (ps_data key) of
      Some v \<Rightarrow> enough_calls (length v) rs \<longrightarrow> (\<exists>rest. Engine_Read True rs key val e w = Some (kSucc, v, rest))
    | None \<Rightarrow> Engine_Read True rs key val e w =
        (if ps_empty key \<and> card (dom (engine_map (ds_dir (ee_store e)) w)) \<noteq> kMaxDoorCnt
         then Some (kSucc, [], rs) else Some (kNotFound, val, rs))"
proof -
  let ?dir = "ds_dir (ee_store e)"
  obtain items where items: "mapped_items w = Some items" "plate_inv items"
    using assms(1) by (auto simp: data_ok_def)
  show ?thesis
  proof (cases "engine_map ?dir w (ps_data key)")
    case None
    then have none: "plate_lookup items (ps_data key) = None" using items(1) by (simp add: engine_map_def)
    have empty: "ps_empty key \<longleftrightarrow> ps_data key = []" by (simp add: ps_empty_def ps_size_def)
    obtain content where "ed_files w (FileName ?dir 0) = Some content" using assms(2) by blast
    then have read: "DataStore_Read True rs Location_new (ed_files w) (ee_store e) = Some (kSucc, Some [], rs)"
      by (simp add: DataStore_Read_def Location_new_def)
    show ?thesis
      using None none items(1) read plate_full_iff [OF items(2), of "[]"]
      by (auto simp: Engine_Read_def ToString_def plate_find_iff [OF items(2)] empty dom_engine_map [OF items(1)])
  next
    case (Some v)
    then obtain l where l: "plate_lookup items (ps_data key) = Some l" "located (ed_files w) ?dir l v"
      by (auto simp: engine_map_iff [OF assms(1) items(1)])
    have "\<exists>rest. Engine_Read True rs key val e w = Some (kSucc, v, rest)" if "enough_calls (length v) rs"
      using read_enough_calls [OF l(2) that] l(1) items(1)
      by (auto simp: Engine_Read_def ToString_def plate_find_iff [OF items(2)])
    with Some show ?thesis by simp
  qed
qed

text \<open>C18: \<^verbatim>\<open>EngineExample::Read\<close> of a key that is in the map gives its value, once the
  \<^verbatim>\<open>read\<close> calls have transferred enough; a key that is not in the map gives
  \<^verbatim>\<open>kNotFound\<close> and leaves the string of the caller alone. The exception is the empty key:
  unless the index is full, reading it succeeds with an empty value although it was never written.\<close>

theorem engine_read:
  assumes "data_ok (ds_dir (ee_store e)) w" and "ed_files w (FileName (ds_dir (ee_store e)) 0) \<noteq> None"
  shows "case engine_map (ds_dir (ee_store e)) w (ps_data key) of
      Some v \<Rightarrow> enough_calls (length v) rs \<longrightarrow> (\<exists>rest. Engine_Read True rs key val e w = Some (kSucc, v, rest))
    | None \<Rightarrow> Engine_Read True rs key val e w =
        (if ps_empty key \<and> card (dom (engine_map (ds_dir (ee_store e)) w)) \<noteq> kMaxDoorCnt
         then Some (kSucc, [], rs) else Some (kNotFound, val, rs))"
  using assms by (rule read_result)

theorem engine_read_witness:
  "Engine_Read True [] (PolarString [107]) [120] new_engine new_disk = Some (kNotFound, [120], [])
   \<and> Engine_Read True [] (PolarString []) [120] new_engine new_disk = Some (kSucc, [], [])"
proof -
  have ok: "data_ok (ds_dir (ee_store new_engine)) new_disk" using new_engine_ok(1) by (simp add: engine_ok_def)
  have exists: "ed_files new_disk (FileName (ds_dir (ee_store new_engine)) 0) \<noteq> None"
    by (simp add: new_disk_def small_fs_def new_engine_ok)
  have "(0::nat) \<noteq> kMaxDoorCnt" by (simp add: kMaxDoorCnt_def)
  with engine_read [OF ok exists, where key = "PolarString [107]" and rs = "[]" and val = "[120]"]
    engine_read [OF ok exists, where key = "PolarString []" and rs = "[]" and val = "[120]"]
  show ?thesis by (simp add: new_engine_ok(2,4) ps_empty_def ps_size_def)
qed

subsection \<open>Sequences of writes\<close>

text \<open>The engine with the results of its future system calls, as a keyed store.\<close>

type_synonym engine_run = "EngineExample \<times> engine_disk \<times> io_result list"

definition run_ok :: "cxx_string \<Rightarrow> engine_run \<Rightarrow> bool" where
  "run_ok dir = (\<lambda>(e, w, rs). engine_ok e w \<and> ds_dir (ee_store e) = dir)"

definition run_map :: "cxx_string \<Rightarrow> engine_run \<Rightarrow> cxx_string \<Rightarrow> cxx_string option" where
  "run_map dir = (\<lambda>(e, w, rs). engine_map dir w)"

definition run_write :: "cxx_string \<Rightarrow> cxx_string \<Rightarrow> engine_run \<Rightarrow> engine_run option" where
  "run_write key val = (\<lambda>(e, w, rs).
     if unat (file_no (ds_next (ee_store e))) < 2 ^ 32 - 1
     then case Engine_Write True rs (PolarString key) (PolarString val) e w of
         None \<Rightarrow> None
       | Some (rc, e, w, rs) \<Rightarrow> if rc = kSucc then Some (e, w, rs) else None
     else None)"

interpretation engine_store: keyed_store "run_ok dir" "run_map dir" run_write "\<lambda>_ v. v"
proof unfold_locales
  fix t k v t'
  assume ok: "run_ok dir t" and wr: "run_write k v t = Some t'"
  obtain e w rs e' w' rs' where t: "t = (e, w, rs)" "t' = (e', w', rs')" by (cases t, cases t')
  from wr have "unat (file_no (ds_next (ee_store e))) < 2 ^ 32 - 1"
    "Engine_Write True rs (PolarString k) (PolarString v) e w = Some (kSucc, e', w', rs')"
    by (auto simp: run_write_def t split: if_splits option.splits)
  with ok show "run_ok dir t'" "run_map dir t' = (run_map dir t)(k \<mapsto> v)"
    using write_cases [of e w rs "PolarString k" "PolarString v" kSucc e' w' rs']
    by (auto simp: run_ok_def run_map_def t)
qed

subsection \<open>Ranges\<close>

lemma read_loop_rest:
  "read_loop rs content n = Some (Some buf, rest) \<Longrightarrow> enough_calls (n + m) rs \<Longrightarrow> enough_calls m rest"
proof (induction rs content n arbitrary: buf rule: read_loop.induct)
  case (5 r rs content n)
  define q where "q = min r (min (Suc n) (length content))"
  obtain buf' where buf: "read_loop rs (drop q content) (Suc n - q) = Some (Some buf', rest)"
    using 5(2) by (auto simp: Let_def simp flip: q_def)
  from read_loop_ok [OF 5(2)] have "Suc n \<le> length content" by simp
  then have "r \<noteq> 0 \<Longrightarrow> 1 \<le> q" "q \<le> Suc n" by (auto simp: q_def)
  then have "enough_calls (Suc n - q + m) rs"
    using 5(3) by (cases "r = 0") (auto simp: enough_calls_def)
  with 5(1) [OF q_def buf] show ?case by blast
qed (auto simp: enough_calls_def)

lemma visit_loop_ok:
  assumes "\<forall>(k, l) \<in> set locs. located fs (ds_dir d) l (location_value fs (ds_dir d) l)"
    and "visit_loop True rs locs fs d = Some (rc, visits, rs')"
  shows "prefix visits (map (\<lambda>(k, l). (k, location_value fs (ds_dir d) l)) locs)
    \<and> (rc = kSucc \<longrightarrow> visits = map (\<lambda>(k, l). (k, location_value fs (ds_dir d) l)) locs) \<and> rc \<in> {kSucc, kIOError}"
  using assms
proof (induction locs arbitrary: rs visits rc)
  case (Cons kl locs)
  obtain k l where kl: "kl = (k, l)" by force
  from Cons.prems(2) obtain ret buf rs1 where rd: "DataStore_Read True rs l fs d = Some (ret, buf, rs1)"
    by (auto simp: kl bind_eq_Some_conv)
  have "located fs (ds_dir d) l (location_value fs (ds_dir d) l)" using Cons.prems(1) kl by simp
  from read_located [OF this rd] show ?case
  proof
    assume r: "ret = kSucc \<and> buf = Some (location_value fs (ds_dir d) l)"
    with Cons.prems(2) rd obtain visits1 where v: "visit_loop True rs1 locs fs d = Some (rc, visits1, rs')"
      "visits = (k, location_value fs (ds_dir d) l) # visits1"
      by (auto simp: kl bind_eq_Some_conv)
    from Cons.IH [OF _ v(1)] Cons.prems(1) v(2) kl show ?thesis by auto
  next
    assume "ret = kIOError \<and> buf = None"
    with Cons.prems(2) rd kl show ?thesis by auto
  qed
qed simp

lemma visit_loop_enough:
  assumes "\<forall>(k, l) \<in> set locs. located fs (ds_dir d) l (location_value fs (ds_dir d) l)"
    and "enough_calls (sum_list (map (\<lambda>(k, l). length (location_value fs (ds_dir d) l)) locs)) rs"
  shows "\<exists>rs'. visit_loop True rs locs fs d
    = Some (kSucc, map (\<lambda>(k, l). (k, location_value fs (ds_dir d) l)) locs, rs')"
  using assms
proof (induction locs arbitrary: rs)
  case (Cons kl locs)
  obtain k l where kl: "kl = (k, l)" by force
  define v where "v = location_value fs (ds_dir d) l"
  define m where "m = sum_list (map (\<lambda>(k, l). length (location_value fs (ds_dir d) l)) locs)"
  have loc: "located fs (ds_dir d) l v" using Cons.prems(1) kl by (simp add: v_def)
  have calls: "enough_calls (length v + m) rs" using Cons.prems(2) kl by (simp add: v_def m_def)
  then have "enough_calls (length v) rs" by (simp add: enough_calls_def)
  from read_enough_calls [OF loc this] obtain rs1 where rd: "DataStore_Read True rs l fs d = Some (kSucc, Some v, rs1)"
    by blast
  have "unat (loc_len l) = length v" using located_length [OF loc] by simp
  with rd have "enough_calls m rs1"
    using read_loop_rest [OF _ calls] by (auto simp: DataStore_Read_def split: option.splits if_splits)
  with Cons.IH [of rs1] Cons.prems(1) obtain rs' where
    "visit_loop True rs1 locs fs d = Some (kSucc, map (\<lambda>(k, l). (k, location_value fs (ds_dir d) l)) locs, rs')"
    by (auto simp: m_def)
  with rd kl show ?case by (simp add: v_def)
qed simp


lemma range_result:
  assumes "data_ok (ds_dir (ee_store e)) w"
  shows "\<exists>kvs. sorted_wrt (<) (map fst kvs)
    \<and> (\<forall>k v. (k, v) \<in> set kvs \<longleftrightarrow> engine_map (ds_dir (ee_store e)) w k = Some v \<and> in_range (ps_data lower) (ps_data upper) k)
    \<and> (\<forall>rs rc visits rs'. Engine_Range True rs lower upper e w = Some (rc, visits, rs') \<longrightarrow>
        prefix visits kvs \<and> (rc = kSucc \<longrightarrow> visits = kvs) \<and> rc \<in> {kSucc, kIOError})
    \<and> (\<forall>rs. enough_calls (sum_list (map (\<lambda>(k, v). length v) kvs)) rs \<longrightarrow>
        (\<exists>rs'. Engine_Range True rs lower upper e w = Some (kSucc, kvs, rs')))"
proof -
  let ?dir = "ds_dir (ee_store e)" and ?val = "location_value (ed_files w) (ds_dir (ee_store e))"
  obtain items where items: "mapped_items w = Some items" "plate_inv items"
    "\<And>k l. plate_lookup items k = Some l \<Longrightarrow> \<exists>v. located (ed_files w) ?dir l v"
    using assms by (auto simp: data_ok_def)
  obtain locs where locs: "GetRangeLocation (ps_data lower) (ps_data upper) items = (kSucc, locs)"
    "sorted_wrt (<) (map fst locs)"
    and all: "\<And>k l. (k, l) \<in> set locs \<longleftrightarrow> plate_lookup items k = Some l \<and> in_range (ps_data lower) (ps_data upper) k"
    using range_locations [OF items(2), of "ps_data lower" "ps_data upper"] by blast
  define kvs where "kvs = map (\<lambda>(k, l). (k, ?val l)) locs"
  have ok: "\<forall>(k, l) \<in> set locs. located (ed_files w) ?dir l (?val l)"
    using items(3) all value_located by fastforce
  have eq: "Engine_Range True rs lower upper e w = visit_loop True rs locs (ed_files w) (ee_store e)" for rs
    using items(1) locs(1) by (simp add: Engine_Range_def ToString_def)
  have "map fst kvs = map fst locs" by (auto simp: kvs_def)
  moreover have "(k, v) \<in> set kvs \<longleftrightarrow> engine_map ?dir w k = Some v \<and> in_range (ps_data lower) (ps_data upper) k" for k v
    using all items(1) by (force simp: kvs_def engine_map_def)
  moreover have "map (\<lambda>(k, l). length (?val l)) locs = map (\<lambda>(k, v). length v) kvs" by (auto simp: kvs_def)
  ultimately show ?thesis
    using locs(2) visit_loop_ok [OF ok] visit_loop_enough [OF ok] unfolding eq kvs_def [symmetric]
    by (intro exI [of _ kvs] conjI allI impI) simp_all
qed

text \<open>C16: \<^verbatim>\<open>EngineExample::Range\<close> passes to the visitor, in strictly ascending order of
  the keys as unsigned bytes, exactly the pairs of the map with keys from \<open>lower\<close> on and below
  \<open>upper\<close> (an empty bound is no bound). If a \<^verbatim>\<open>read\<close> call fails, it has passed a first
  part of them and returns \<^verbatim>\<open>kIOError\<close>; if the calls transfer enough, it returns
  \<^verbatim>\<open>kSucc\<close>.\<close>

theorem engine_range:
  assumes "data_ok (ds_dir (ee_store e)) w"
  shows "\<exists>kvs. sorted_wrt (<) (map fst kvs)
    \<and> (\<forall>k v. (k, v) \<in> set kvs \<longleftrightarrow> engine_map (ds_dir (ee_store e)) w k = Some v \<and> in_range (ps_data lower) (ps_data upper) k)
    \<and> (\<forall>rs rc visits rs'. Engine_Range True rs lower upper e w = Some (rc, visits, rs') \<longrightarrow>
        prefix visits kvs \<and> (rc = kSucc \<longrightarrow> visits = kvs) \<and> rc \<in> {kSucc, kIOError})
    \<and> (\<forall>rs. enough_calls (sum_list (map (\<lambda>(k, v). length v) kvs)) rs \<longrightarrow>
        (\<exists>rs'. Engine_Range True rs lower upper e w = Some (kSucc, kvs, rs')))"
  using assms by (rule range_result)

lemma small_run:
  obtains e w where "Engine_Write True [Transferred 1, Transferred 4] (PolarString [107]) (PolarString [65, 66]) new_engine new_disk
      = Some (kSucc, e, w, [])"
    and "ds_dir (ee_store e) = [47]" and "data_ok [47] w" and "engine_map [47] w = [[107] \<mapsto> [65, 66]]"
proof -
  obtain e w where wr: "Engine_Write True [Transferred 1, Transferred 4] (PolarString [107]) (PolarString [65, 66]) new_engine new_disk
    = Some (kSucc, e, w, [])" by (rule new_engine_write)
  with write_cases [OF new_engine_ok(1,3) wr] show ?thesis by (intro that [of e w]) (simp_all add: new_engine_ok)
qed

theorem engine_range_witness:
  "\<exists>e w rest. engine_map [47] w = [[107] \<mapsto> [65, 66]]
    \<and> Engine_Range True [Transferred 2, Transferred 2] (PolarString []) (PolarString []) e w = Some (kSucc, [([107], [65, 66])], rest)"
proof -
  obtain e w where "Engine_Write True [Transferred 1, Transferred 4] (PolarString [107]) (PolarString [65, 66]) new_engine new_disk
      = Some (kSucc, e, w, [])"
    and w: "ds_dir (ee_store e) = [47]" "data_ok [47] w" "engine_map [47] w = [[107] \<mapsto> [65, 66]]"
    by (rule small_run)
  obtain kvs where kvs: "sorted_wrt (<) (map fst kvs)"
    "\<And>k v. (k, v) \<in> set kvs \<longleftrightarrow> engine_map [47] w k = Some v \<and> in_range [] [] k"
    and run: "\<And>rs. enough_calls (sum_list (map (\<lambda>(k, v). length v) kvs)) rs \<Longrightarrow>
        \<exists>rs'. Engine_Range True rs (PolarString []) (PolarString []) e w = Some (kSucc, kvs, rs')"
    using engine_range [of e w "PolarString []" "PolarString []"] w by auto
  have "set kvs = {([107], [65, 66])}" using kvs(2) by (auto simp: w(3) in_range_def split: if_splits)
  moreover have "distinct kvs" using kvs(1) by (metis distinct_map strict_sorted_iff)
  ultimately have one: "kvs = [([107], [65, 66])]" by (rule distinct_singleton)
  from run [of "[Transferred 2, Transferred 2]"] w(3) show ?thesis
    unfolding one by (auto simp: enough_calls_def)
qed

text \<open>C14: After any sequence of successful writes with any outcomes of the system calls, a
  successful \<^verbatim>\<open>Range\<close> without bounds visits the keys in ascending order, and the visited
  pairs are those of the map before the writes, overwritten by the last value written under each
  key.\<close>

theorem engine_history:
  assumes "run_ok dir (e, w, rs)" and "engine_store.update_all kvs (e, w, rs) = Some (e', w', rs')"
    and "Engine_Range True reads (PolarString []) (PolarString []) e' w' = Some (kSucc, visits, reads')"
  shows "sorted_wrt (<) (map fst visits) \<and> map_of visits = engine_map dir w ++ map_of (rev kvs)"
proof -
  have ok: "run_ok dir (e', w', rs')" by (rule engine_store.update_all_invar [OF assms(1,2)])
  have "fold (\<lambda>kv old. Some (snd kv)) (filter (\<lambda>kv. fst kv = k) kvs) m = (case map_of (rev kvs) k of None \<Rightarrow> m | Some v \<Rightarrow> Some v)"
    for k and m :: "cxx_string option"
    by (induction kvs rule: rev_induct) (auto simp: map_of_append split: option.split)
  then have final: "engine_map dir w' = engine_map dir w ++ map_of (rev kvs)"
    using engine_store.update_all_lookup [OF assms(1,2)] by (intro ext) (simp add: run_map_def map_add_def)
  from ok have data: "data_ok (ds_dir (ee_store e')) w'" and dir: "ds_dir (ee_store e') = dir"
    by (auto simp: run_ok_def engine_ok_def)
  from range_result [OF data, of "PolarString []" "PolarString []"] obtain kvs where
    kvs: "sorted_wrt (<) (map fst kvs)" "\<forall>k v. (k, v) \<in> set kvs \<longleftrightarrow> engine_map (ds_dir (ee_store e')) w' k = Some v
      \<and> in_range (ps_data (PolarString [])) (ps_data (PolarString [])) k"
    and run: "\<forall>rs rc visits rs'. Engine_Range True rs (PolarString []) (PolarString []) e' w' = Some (rc, visits, rs') \<longrightarrow>
        prefix visits kvs \<and> (rc = kSucc \<longrightarrow> visits = kvs) \<and> rc \<in> {kSucc, kIOError}"
    by blast
  have "visits = kvs" using run assms(3) by blast
  have v: "sorted_wrt (<) (map fst visits)" "\<And>k v. (k, v) \<in> set visits \<longleftrightarrow> engine_map dir w' k = Some v"
    using kvs \<open>visits = kvs\<close> dir by (simp_all add: in_range_def)
  then have "distinct (map fst visits)" by (simp add: strict_sorted_iff)
  then have "map_of visits k = Some v \<longleftrightarrow> engine_map dir w' k = Some v" for k v
    by (simp add: v(2))
  then have "map_of visits = engine_map dir w'" by (intro ext option_eqI) blast
  with v(1) final show ?thesis by simp
qed

theorem engine_history_witness:
  "\<exists>e w reads visits rest. engine_store.update_all [([107], [65, 66])] (new_engine, new_disk, [Transferred 1, Transferred 4]) = Some (e, w, [])
    \<and> Engine_Range True reads (PolarString []) (PolarString []) e w = Some (kSucc, visits, rest)
    \<and> map_of visits = [[107] \<mapsto> [65, 66]]"
proof -
  obtain e w where wr: "Engine_Write True [Transferred 1, Transferred 4] (PolarString [107]) (PolarString [65, 66]) new_engine new_disk
      = Some (kSucc, e, w, [])" and w: "ds_dir (ee_store e) = [47]" "data_ok [47] w"
    "engine_map [47] w = [[107] \<mapsto> [65, 66]]"
    by (rule small_run)
  have all: "engine_store.update_all [([107], [65, 66])] (new_engine, new_disk, [Transferred 1, Transferred 4]) = Some (e, w, [])"
    using wr new_engine_ok(3) by (simp add: run_write_def)
  obtain kvs where run: "\<And>rs. enough_calls (sum_list (map (\<lambda>(k, v). length v) kvs)) rs \<Longrightarrow>
        \<exists>rs'. Engine_Range True rs (PolarString []) (PolarString []) e w = Some (kSucc, kvs, rs')"
    using range_result [of e w "PolarString []" "PolarString []"] w by auto
  have "enough_calls n (replicate n (Transferred 1))" for n by (simp add: enough_calls_def)
  from run [OF this] obtain reads rest where rg: "Engine_Range True reads (PolarString []) (PolarString []) e w = Some (kSucc, kvs, rest)"
    by blast
  have "run_ok [47] (new_engine, new_disk, [Transferred 1, Transferred 4])" by (simp add: run_ok_def new_engine_ok)
  from engine_history [OF this all rg] all rg show ?thesis by (auto simp: new_engine_ok(2))
qed

subsection \<open>Opening and closing\<close>

definition open_ok :: "cxx_string list \<Rightarrow> open_calls" where
  "open_ok entries = \<lparr>oc_plate = all_calls_succeed, oc_entries = Some entries, oc_data = True, oc_lock = True\<rparr>"

lemma lock_path_data: "FileName name n \<noteq> lock_path name"
  by (simp add: FileName_def lock_path_def kDataFilePrefix_def kLockFile_def cstr_def)

lemma store_inv_lock: "fs (lock_path name) = None \<Longrightarrow> store_inv fs d \<Longrightarrow> ds_dir d = name \<Longrightarrow> store_inv (fs(lock_path name \<mapsto> [])) d"
  using lock_path_data by (auto simp: store_inv_def store_files_def split: if_splits)

lemma locks_irrelevant:
  "data_ok dir (w\<lparr>ed_locks := locks\<rparr>) = data_ok dir w" "engine_map dir (w\<lparr>ed_locks := locks\<rparr>) = engine_map dir w"
  by (simp_all add: data_ok_def engine_map_def mapped_items_def fun_eq_iff)

text \<open>C17: \<^verbatim>\<open>EngineExample::Open\<close> on a directory without a \<^verbatim>\<open>META\<close> file, or on
  data in which every entry of the mapped index points to a value in the files (\<open>data_ok\<close>, which the
  invariant of the engine contains), when all its system calls succeed, the directory is listed as it is,
  no other process holds the lock, and all data files have numbers and lengths below \<open>2 ^ 31\<close>: it opens
  the engine, which is ready for all operations, holds the lock, and has exactly the keys and values
  that were there.\<close>

theorem engine_open:
  assumes "ed_meta w = None \<or> data_ok name w" and "lists_files (ed_files w) name entries"
    and "\<And>n bs. ed_files w (FileName name n) = Some bs \<Longrightarrow> unat n < 2 ^ 31 \<and> length bs < 2 ^ 31"
    and "ed_locks w (lock_path name) \<in> {None, Some pid}"
  shows "\<exists>e w'. EngineExample_Open (open_ok entries) pid name w = Some (kSucc, Some e, w')
    \<and> engine_ok e w' \<and> ds_dir (ee_store e) = name \<and> engine_map name w' = engine_map name w
    \<and> unat (file_no (ds_next (ee_store e))) < 2 ^ 31
    \<and> ed_locks w' (lock_path name) = Some pid"
proof -
  obtain m where meta: "DoorPlate_Init all_calls_succeed (ed_dir w) (ed_meta w) = (kSucc, True, Some m)"
    and new: "ed_meta w = None \<Longrightarrow> m = \<lparr>mt_size = map_size, mt_items = (\<lambda>_. Item_zero)\<rparr>"
    and old: "ed_meta w = Some m' \<Longrightarrow> m = m'" for m'
    by (cases "ed_meta w") (auto simp: DoorPlate_Init_def all_calls_succeed_def)
  define w1 where "w1 = w\<lparr>ed_dir := True, ed_meta := Some m\<rparr>"
  have map1: "data_ok name w1 \<and> engine_map name w1 = engine_map name w"
  proof (cases "ed_meta w")
    case None
    then show ?thesis
      by (auto simp: w1_def new data_ok_def engine_map_def mapped_items_def mapping_backed_def plate_empty)
  next
    case (Some m')
    then have "mapped_items w1 = mapped_items w" by (simp add: w1_def mapped_items_def old)
    with assms(1) Some show ?thesis by (auto simp: data_ok_def engine_map_def w1_def)
  qed
  obtain fs d where init: "DataStore_Init True (Some entries) True True (ed_files w) (DataStore_new name) = Some (kSucc, True, fs, d)"
    "ds_dir d = name" "store_inv fs d" "unat (file_no (ds_next d)) < 2 ^ 31"
    "if \<exists>n. ed_files w (FileName name n) \<noteq> None then fs = ed_files w else fs = (ed_files w)(FileName name 0 \<mapsto> [])"
    using init_ok [OF assms(2,3), of True] by blast
  define fs2 where "fs2 = (if FileExists (lock_path name) fs then fs else fs(lock_path name \<mapsto> []))"
  have inv: "store_inv fs2 d"
    using store_inv_lock init(2,3) by (simp add: fs2_def FileExists_def)
  have "grown (ed_files w) fs" using init(5) by (auto simp: grown_create split: if_splits)
  moreover have "grown fs fs2" by (simp add: fs2_def FileExists_def grown_create)
  ultimately have grown: "grown (ed_files w1) fs2" using grown_trans by (simp add: w1_def)
  define w2 where "w2 = w1\<lparr>ed_files := fs2, ed_locks := (ed_locks w)(lock_path name \<mapsto> pid)\<rparr>"
  define e where "e = \<lparr>ee_db_lock = Some \<lparr>fl_fd = lock_path name, fl_name = lock_path name\<rparr>, ee_store = d\<rparr>"
  have "EngineExample_Open (open_ok entries) pid name w = Some (kSucc, Some e, w2)"
    using meta init(1) assms(4)
    by (auto simp: EngineExample_Open_def open_ok_def EngineExample_new_def LockFile_def LockOrUnlock_def w1_def w2_def e_def
        fs2_def all_calls_succeed_def Let_def)
  moreover have "data_ok name w2 \<and> engine_map name w2 = engine_map name w"
    using engine_map_grown [OF _ grown, of name] map1 unfolding w2_def by (simp only: locks_irrelevant)
  ultimately show ?thesis
    using inv init(2,4) by (auto simp: engine_ok_def e_def w2_def)
qed


theorem engine_open_witness:
  "\<exists>e w'. EngineExample_Open (open_ok [cstr ''..'']) 1 [47] \<lparr>ed_dir = False, ed_meta = None, ed_files = Map.empty, ed_locks = Map.empty\<rparr>
      = Some (kSucc, Some e, w') \<and> engine_ok e w' \<and> engine_map [47] w' = Map.empty \<and> ed_locks w' (lock_path [47]) = Some 1"
proof -
  define w where "w = \<lparr>ed_dir = False, ed_meta = None, ed_files = Map.empty, ed_locks = Map.empty\<rparr>"
  have "lists_files (ed_files w) [47] [cstr ''..'']"
    by (auto simp: w_def lists_files_def prefix_not_dot kDataFilePrefix_def kDataFilePrefixLen_def cstr_def)
  moreover have "engine_map [47] w = Map.empty" by (simp add: w_def engine_map_def mapped_items_def fun_eq_iff)
  ultimately show ?thesis
    using engine_open [of w "[47]" "[cstr ''..'']" 1] unfolding w_def by fastforce
qed

lemma open_lock:
  assumes "EngineExample_Open c pid name w = Some (kSucc, Some e, w')"
  shows "ed_locks w (lock_path name) \<in> {None, Some pid}" and "ed_locks w' (lock_path name) = Some pid"
    and "ee_db_lock e = Some \<lparr>fl_fd = lock_path name, fl_name = lock_path name\<rparr>"
  using assms
  by (auto simp: EngineExample_Open_def LockFile_def LockOrUnlock_def EngineExample_new_def Let_def bind_eq_Some_conv
      split: if_splits prod.splits)

text \<open>The lock keeps other processes out: while a process has the engine open, \<^verbatim>\<open>Open\<close>
  in another process never succeeds. It does not work within a process: a second \<^verbatim>\<open>Open\<close> can
  succeed, and closing the second engine gives the lock up although the first one is still open, so
  that another process can open the engine, too.\<close>

lemma engine_lock:
  assumes "EngineExample_Open c pid name w = Some (kSucc, Some e, w1)"
  shows "(\<forall>c' pid' e' w2. pid' \<noteq> pid \<longrightarrow> EngineExample_Open c' pid' name w1 \<noteq> Some (kSucc, Some e', w2))
    \<and> (\<forall>c' e' w2. EngineExample_Open c' pid name w1 = Some (kSucc, Some e', w2) \<longrightarrow>
      ed_locks (EngineExample_close pid e' w2) (lock_path name) = None)"
proof (intro conjI allI impI notI)
  fix c' pid' e' w2
  assume "pid' \<noteq> pid" and "EngineExample_Open c' pid' name w1 = Some (kSucc, Some e', w2)"
  with open_lock(1) [of c' pid' name w1 e' w2] open_lock(2) [OF assms] show False by simp
next
  fix c' e' w2
  assume "EngineExample_Open c' pid name w1 = Some (kSucc, Some e', w2)"
  from open_lock(2,3) [OF this] show "ed_locks (EngineExample_close pid e' w2) (lock_path name) = None"
    by (simp add: EngineExample_close_def UnlockFile_def LockOrUnlock_def)
qed

lemma engine_lock_example:
  "\<exists>e w1 e' w2. EngineExample_Open (open_ok [cstr ''..'']) 1 [47]
      \<lparr>ed_dir = False, ed_meta = None, ed_files = Map.empty, ed_locks = Map.empty\<rparr> = Some (kSucc, Some e, w1)
    \<and> EngineExample_Open (open_ok [cstr ''..'', cstr ''META'', cstr ''DATA_0'', cstr ''LOCK'']) 1 [47] w1 = Some (kSucc, Some e', w2)
    \<and> ed_locks (EngineExample_close 1 e' w2) (lock_path [47]) = None"
proof -
  have "scan_files (GetDirFiles [cstr ''..'', cstr ''META'', cstr ''DATA_0'', cstr ''LOCK'']) 0 = Some 0"
    "scan_files (GetDirFiles [cstr ''..'']) 0 = Some 0"
    by (simp_all add: GetDirFiles_def cstr_def kDataFilePrefix_def kDataFilePrefixLen_def stoul_def read_number_def
        isspace_def isdigit_def Let_def)
  then obtain e w1 e' w2 where two: "EngineExample_Open (open_ok [cstr ''..'']) 1 [47]
      \<lparr>ed_dir = False, ed_meta = None, ed_files = Map.empty, ed_locks = Map.empty\<rparr> = Some (kSucc, Some e, w1)"
    "EngineExample_Open (open_ok [cstr ''..'', cstr ''META'', cstr ''DATA_0'', cstr ''LOCK'']) 1 [47] w1 = Some (kSucc, Some e', w2)"
    by (simp add: EngineExample_Open_def open_ok_def EngineExample_new_def LockFile_def LockOrUnlock_def
        all_calls_succeed_def Let_def DoorPlate_Init_def DataStore_Init_def DataStore_new_def OpenCurFile_def)
  with engine_lock [OF two(1)] show ?thesis by blast
qed

end
