(* ===== verification/Engine_Race.thy ===== *)
theory Engine_Race
  imports Polar_String
begin

text \<open>
  \<^verbatim>\<open>engine_race/engine_race.cc\<close>: the engine that \<^verbatim>\<open>Engine::Open\<close> returns. Its
  methods are stubs; they are not connected to \<^verbatim>\<open>DBSystem\<close>. An operation returns its
  result and, where it has one, the string of the caller; \<^verbatim>\<open>Range\<close> makes no call of the
  visitor.
\<close>

datatype EngineRace = EngineRace

definition EngineRace_Open :: "cxx_string \<Rightarrow> RetCode \<times> EngineRace" where
  "EngineRace_Open name = (kSucc, EngineRace)"

definition Engine_Open :: "cxx_string \<Rightarrow> RetCode \<times> EngineRace" where
  "Engine_Open name = EngineRace_Open name"

definition EngineRace_Write :: "PolarString \<Rightarrow> PolarString \<Rightarrow> EngineRace \<Rightarrow> RetCode \<times> EngineRace" where
  "EngineRace_Write key val e = (kSucc, e)"

definition EngineRace_Read :: "PolarString \<Rightarrow> cxx_string \<Rightarrow> EngineRace \<Rightarrow> RetCode \<times> cxx_string" where
  "EngineRace_Read key val e = (kSucc, val)"

definition EngineRace_Range ::
  "PolarString \<Rightarrow> PolarString \<Rightarrow> EngineRace \<Rightarrow> RetCode \<times> (cxx_string \<times> cxx_string) list" where
  "EngineRace_Range lower upper e = (kSucc, [])"

text \<open>A value that has been written successfully is not read back, and a range visits nothing.\<close>

lemma EngineRace_stores_nothing:
  assumes "fold (\<lambda>(k, v) e. snd (EngineRace_Write k v e)) kvs (snd (Engine_Open name)) = e"
  shows "EngineRace_Read key val e = (kSucc, val) \<and> EngineRace_Range lower upper e = (kSucc, [])"
  by (simp add: EngineRace_Read_def EngineRace_Range_def)

end
