(* ===== verification/Slot_Access.thy ===== *)
theory Slot_Access
  imports Record_Buffer
begin

text \<open>
  Threads that share the pool of \<^verbatim>\<open>Buffer\<close>: \<^verbatim>\<open>wait_for_access\<close> sleeps on the one
  condition variable \<^verbatim>\<open>slot_waiter\<close> until the slot is free, \<^verbatim>\<open>end_access\<close> frees the
  slot and wakes one of the sleeping threads, whichever slot that one waits for.
\<close>

subsection \<open>Threads and steps\<close>

datatype access = Idle | Sleeps nat | Woken nat | Holds nat

type_synonym pool = "Buffer \<times> (nat \<Rightarrow> access)"

text \<open>\<^verbatim>\<open>notify_one\<close>.\<close>

inductive notify_slot :: "(nat \<Rightarrow> access) \<Rightarrow> (nat \<Rightarrow> access) \<Rightarrow> bool" where
  nobody: "(\<And>t i. ts t \<noteq> Sleeps i) \<Longrightarrow> notify_slot ts ts"
| someone: "ts t = Sleeps i \<Longrightarrow> notify_slot ts (ts(t := Woken i))"

text \<open>
  One step of one thread; the threads ask for slots in \<open>S\<close>. A thread that sleeps may also wake
  up without a notification. A thread that holds the slot \<open>i\<close> ends the access to a slot \<open>j\<close> with
  \<open>ends i j\<close>. That is its own slot, \<open>ends = (=)\<close>, in \<^verbatim>\<open>write\<close>,
  \<^verbatim>\<open>dump_all\<close> and the recovery; \<^verbatim>\<open>read\<close> gets the number of the slot
  from the hash index a second time, and by then it can be another one.
\<close>

inductive pool_step :: "(nat \<Rightarrow> nat \<Rightarrow> bool) \<Rightarrow> nat set \<Rightarrow> pool \<Rightarrow> pool \<Rightarrow> bool"
  for ends :: "nat \<Rightarrow> nat \<Rightarrow> bool" and S :: "nat set" where
  enter: "ts t = Idle \<Longrightarrow> i \<in> S \<Longrightarrow> wait_for_access i b = Some b' \<Longrightarrow> pool_step ends S (b, ts) (b', ts(t := Holds i))"
| sleep: "ts t = Idle \<Longrightarrow> i \<in> S \<Longrightarrow> wait_for_access i b = None \<Longrightarrow> pool_step ends S (b, ts) (b, ts(t := Sleeps i))"
| enter_woken: "ts t = Woken i \<Longrightarrow> wait_for_access i b = Some b' \<Longrightarrow> pool_step ends S (b, ts) (b', ts(t := Holds i))"
| sleep_again: "ts t = Woken i \<Longrightarrow> wait_for_access i b = None \<Longrightarrow> pool_step ends S (b, ts) (b, ts(t := Sleeps i))"
| spurious: "ts t = Sleeps i \<Longrightarrow> pool_step ends S (b, ts) (b, ts(t := Woken i))"
| leave: "ts t = Holds i \<Longrightarrow> ends i j \<Longrightarrow> end_access j b = Some b' \<Longrightarrow> notify_slot (ts(t := Idle)) ts' \<Longrightarrow>
    pool_step ends S (b, ts) (b', ts')"

inductive pool_run :: "(nat \<Rightarrow> nat \<Rightarrow> bool) \<Rightarrow> nat set \<Rightarrow> pool \<Rightarrow> bool"
  for ends :: "nat \<Rightarrow> nat \<Rightarrow> bool" and S :: "nat set" where
  start: "pool_run ends S (Buffer_new, \<lambda>_. Idle)"
| step: "pool_run ends S p \<Longrightarrow> pool_step ends S p p' \<Longrightarrow> pool_run ends S p'"

inductive_cases pool_stepE: "pool_step ends S p p'"
inductive_cases notify_slotE: "notify_slot ts ts'"

definition busy :: "Buffer \<Rightarrow> nat \<Rightarrow> bool" where
  "busy b i \<longleftrightarrow> bf_accessing b ! i"

subsection \<open>The invariant\<close>

definition pool_inv :: "nat set \<Rightarrow> pool \<Rightarrow> bool" where
  "pool_inv S = (\<lambda>(b, ts). length (bf_accessing b) = RECORD_BUFF_SIZE
     \<and> (\<forall>t i. ts t \<in> {Sleeps i, Woken i, Holds i} \<longrightarrow> i \<in> S)
     \<and> (\<forall>i \<in> S. busy b i \<longleftrightarrow> (\<exists>t. ts t = Holds i))
     \<and> (\<forall>t t' i. ts t = Holds i \<longrightarrow> ts t' = Holds i \<longrightarrow> t = t')
     \<and> ((\<exists>t i. ts t = Sleeps i) \<longrightarrow> (\<exists>t j. ts t = Woken j \<or> ts t = Holds j)))"

lemma wait_for_access_Some:
  "wait_for_access i b = Some b' \<longleftrightarrow> i < length (bf_accessing b) \<and> \<not> busy b i
    \<and> b' = b\<lparr>bf_accessing := (bf_accessing b)[i := True]\<rparr>"
  by (auto simp: wait_for_access_def busy_def vget_def vset_def bind_eq_Some_conv)

lemma wait_for_access_None:
  "wait_for_access i b = None \<longleftrightarrow> length (bf_accessing b) \<le> i \<or> busy b i"
  by (auto simp: wait_for_access_def busy_def vget_def vset_def)

lemma end_access_Some:
  "end_access i b = Some b' \<longleftrightarrow> i < length (bf_accessing b) \<and> b' = b\<lparr>bf_accessing := (bf_accessing b)[i := False]\<rparr>"
  by (auto simp: end_access_def vset_def)

lemma busy_upd: "i < length (bf_accessing b) \<Longrightarrow> busy (b\<lparr>bf_accessing := (bf_accessing b)[i := x]\<rparr>) j \<longleftrightarrow> (if j = i then x else busy b j)"
  by (simp add: busy_def nth_list_update)

lemmas access_simps = wait_for_access_Some wait_for_access_None end_access_Some busy_upd

text \<open>A notification changes sleeping threads only, and wakes one if there is one.\<close>

lemma notify_slot_holds: "notify_slot ts ts' \<Longrightarrow> ts' t = Holds i \<longleftrightarrow> ts t = Holds i"
  by (auto elim!: notify_slotE split: if_splits)

lemma notify_slot_in: "notify_slot ts ts' \<Longrightarrow> ts' t \<in> {Sleeps i, Woken i, Holds i} \<Longrightarrow> ts t \<in> {Sleeps i, Woken i, Holds i}"
  by (auto elim!: notify_slotE split: if_splits)

lemma notify_slot_wakes: "notify_slot ts ts' \<Longrightarrow> ts' t = Sleeps i \<Longrightarrow> \<exists>t' j. ts t' = Sleeps j \<and> ts' t' = Woken j"
  by (auto elim!: notify_slotE split: if_splits)

text \<open>The same invariant, piece by piece.\<close>

lemma pool_invI:
  assumes "length (bf_accessing b) = RECORD_BUFF_SIZE"
    and "\<And>t i. ts t \<in> {Sleeps i, Woken i, Holds i} \<Longrightarrow> i \<in> S"
    and "\<And>t i. ts t = Holds i \<Longrightarrow> busy b i"
    and "\<And>i. i \<in> S \<Longrightarrow> busy b i \<Longrightarrow> \<exists>t. ts t = Holds i"
    and "\<And>t t' i. ts t = Holds i \<Longrightarrow> ts t' = Holds i \<Longrightarrow> t = t'"
    and "\<And>t i. ts t = Sleeps i \<Longrightarrow> \<exists>t j. ts t = Woken j \<or> ts t = Holds j"
  shows "pool_inv S (b, ts)"
  using assms unfolding pool_inv_def by auto

lemma pool_invD:
  assumes "pool_inv S (b, ts)"
  shows "length (bf_accessing b) = RECORD_BUFF_SIZE"
    and "\<And>t i. ts t \<in> {Sleeps i, Woken i, Holds i} \<Longrightarrow> i \<in> S"
    and "\<And>t i. ts t = Holds i \<Longrightarrow> busy b i"
    and "\<And>i. i \<in> S \<Longrightarrow> busy b i \<Longrightarrow> \<exists>t. ts t = Holds i"
    and "\<And>t t' i. ts t = Holds i \<Longrightarrow> ts t' = Holds i \<Longrightarrow> t = t'"
    and "\<And>t i. ts t = Sleeps i \<Longrightarrow> \<exists>t j. ts t = Woken j \<or> ts t = Holds j"
  using assms unfolding pool_inv_def by auto

text \<open>Taking a free slot, going to sleep on a busy one.\<close>

lemma pool_inv_enter:
  assumes inv: "pool_inv S (b, ts)" and "ts t \<in> {Idle, Woken i}" and "i \<in> S" and "wait_for_access i b = Some b'"
  shows "pool_inv S (b', ts(t := Holds i))"
proof (rule pool_invI)
  note D = pool_invD [OF inv]
  have free: "i < length (bf_accessing b)" "\<not> busy b i" "b' = b\<lparr>bf_accessing := (bf_accessing b)[i := True]\<rparr>"
    using assms(4) by (simp_all add: access_simps)
  show "length (bf_accessing b') = RECORD_BUFF_SIZE" using D(1) free(3) by simp
  show "j \<in> S" if "(ts(t := Holds i)) u \<in> {Sleeps j, Woken j, Holds j}" for u j
    using that D(2) [of u j] assms(3) by (auto split: if_splits)
  show "busy b' j" if "(ts(t := Holds i)) u = Holds j" for u j
    using that D(3) [of u j] free by (auto simp: busy_upd split: if_splits)
  show "\<exists>u. (ts(t := Holds i)) u = Holds j" if "j \<in> S" "busy b' j" for j
  proof (cases "j = i")
    case False
    with that free D(4) [of j] obtain u where "ts u = Holds j" by (auto simp: busy_upd)
    with assms(2) show ?thesis by (intro exI [of _ u]) auto
  qed auto
  show "u = u'" if "(ts(t := Holds i)) u = Holds j" "(ts(t := Holds i)) u' = Holds j" for u u' j
    using that D(3) [of u i] D(3) [of u' i] D(5) [of u j u'] free(2) by (auto split: if_splits)
  show "\<exists>u k. (ts(t := Holds i)) u = Woken k \<or> (ts(t := Holds i)) u = Holds k" if "(ts(t := Holds i)) u = Sleeps j" for u j
    by (rule exI [of _ t]) simp
qed

lemma pool_inv_sleep:
  assumes inv: "pool_inv S (b, ts)" and "ts t \<in> {Idle, Woken i}" and "i \<in> S" and "i < RECORD_BUFF_SIZE"
    and "wait_for_access i b = None"
  shows "pool_inv S (b, ts(t := Sleeps i))"
proof (rule pool_invI)
  note D = pool_invD [OF inv]
  have "busy b i" using assms(4,5) D(1) by (simp add: access_simps)
  then obtain u where u: "ts u = Holds i" "u \<noteq> t" using D(4) assms(2,3) by force
  show "length (bf_accessing b) = RECORD_BUFF_SIZE" by (rule D(1))
  show "j \<in> S" if "(ts(t := Sleeps i)) u \<in> {Sleeps j, Woken j, Holds j}" for u j
    using that D(2) [of u j] assms(3) by (auto split: if_splits)
  show "busy b j" if "(ts(t := Sleeps i)) u = Holds j" for u j
    using that D(3) [of u j] by (auto split: if_splits)
  show "\<exists>u. (ts(t := Sleeps i)) u = Holds j" if "j \<in> S" "busy b j" for j
  proof -
    have "\<exists>u. ts u = Holds j" using that D(4) by blast
    then obtain u where "ts u = Holds j" by blast
    with assms(2) show ?thesis by (intro exI [of _ u]) auto
  qed
  show "u = u'" if "(ts(t := Sleeps i)) u = Holds j" "(ts(t := Sleeps i)) u' = Holds j" for u u' j
    using that D(5) [of u j u'] by (auto split: if_splits)
  show "\<exists>u k. (ts(t := Sleeps i)) u = Woken k \<or> (ts(t := Sleeps i)) u = Holds k" if "(ts(t := Sleeps i)) v = Sleeps j" for v j
    using u by (intro exI [of _ u] exI [of _ i]) simp
qed

lemma pool_step_inv:
  assumes inv: "pool_inv S p" and st: "pool_step (=) S p p'" and S: "\<And>i. i \<in> S \<Longrightarrow> i < RECORD_BUFF_SIZE"
  shows "pool_inv S p'"
  using st
proof cases
  case (enter ts t i b b')
  with inv show ?thesis by (auto intro: pool_inv_enter)
next
  case (sleep ts t i b)
  with inv S show ?thesis by (auto intro: pool_inv_sleep)
next
  case (enter_woken ts t i b b')
  moreover have "i \<in> S" using pool_invD(2) [of S b ts t i] inv enter_woken by simp
  ultimately show ?thesis using inv by (auto intro: pool_inv_enter)
next
  case (sleep_again ts t i b)
  moreover have "i \<in> S" using pool_invD(2) [of S b ts t i] inv sleep_again by simp
  ultimately show ?thesis using inv S by (auto intro: pool_inv_sleep)
next
  case (spurious ts t i b)
  note D = pool_invD [OF inv [unfolded spurious(1)]]
  show ?thesis
    unfolding spurious(2)
  proof (rule pool_invI)
    show "\<exists>u. (ts(t := Woken i)) u = Holds j" if "j \<in> S" "busy b j" for j
      using D(4) [OF that] spurious(3) by (metis access.distinct(9) fun_upd_apply)
  next
    show "\<exists>u k. (ts(t := Woken i)) u = Woken k \<or> (ts(t := Woken i)) u = Holds k" for v j
      by (rule exI [of _ t]) simp
  qed (use D(1,2,3,5) spurious(3) in \<open>auto split: if_splits\<close>)
next
  case (leave ts t i j b b' ts')
  then have j: "j = i" by simp
  note leave = leave(1-3) leave(5,6) [unfolded j]
  note D = pool_invD [OF inv [unfolded leave(1)]]
  have b': "i < length (bf_accessing b)" "b' = b\<lparr>bf_accessing := (bf_accessing b)[i := False]\<rparr>"
    using leave(4) by (simp_all add: access_simps)
  have holds: "ts' u = Holds j \<longleftrightarrow> u \<noteq> t \<and> ts u = Holds j" for u j
    using notify_slot_holds [OF leave(5)] by simp
  show ?thesis
    unfolding leave(2)
  proof (rule pool_invI)
    show "length (bf_accessing b') = RECORD_BUFF_SIZE" using D(1) b' by simp
    show "j \<in> S" if "ts' u \<in> {Sleeps j, Woken j, Holds j}" for u j
      using notify_slot_in [OF leave(5) that] D(2) [of u j] by (auto split: if_splits)
    show "busy b' j" if "ts' u = Holds j" for u j
      using that D(3) [of u j] D(5) [of t i u] leave(3) b' by (auto simp: holds busy_upd)
    show "\<exists>u. ts' u = Holds j" if "j \<in> S" "busy b' j" for j
    proof -
      have "j \<noteq> i" "busy b j" using that(2) b' by (auto simp: busy_upd split: if_splits)
      with D(4) [OF that(1)] obtain u where "ts u = Holds j" by blast
      with leave(3) \<open>j \<noteq> i\<close> show ?thesis by (intro exI [of _ u]) (auto simp: holds)
    qed
    show "u = u'" if "ts' u = Holds j" "ts' u' = Holds j" for u u' j
      using that D(5) [of u j u'] by (simp add: holds)
    show "\<exists>u k. ts' u = Woken k \<or> ts' u = Holds k" if "ts' v = Sleeps j" for v j
      using notify_slot_wakes [OF leave(5) that] by blast
  qed
qed


lemma pool_run_inv:
  assumes "pool_run (=) S p" and "\<And>i. i \<in> S \<Longrightarrow> i < RECORD_BUFF_SIZE"
  shows "pool_inv S p"
  using assms(1)
proof induction
  case start
  show ?case
    by (rule pool_invI) (use assms(2) in \<open>auto simp: Buffer_new_def busy_def\<close>)
next
  case (step p p')
  from pool_step_inv [OF step.IH step.hyps(2) assms(2)] show ?case by simp
qed

text \<open>If the threads use one slot only, no wake-up is lost.\<close>

lemma one_slot_step:
  assumes "pool_step (=) {i} (b, ts) (b', ts')" and "pool_inv {i} (b, ts)" and "i < RECORD_BUFF_SIZE"
    and ok: "busy b i \<or> (\<forall>t. ts t \<noteq> Sleeps i) \<or> (\<exists>t. ts t = Woken i)"
  shows "busy b' i \<or> (\<forall>t. ts' t \<noteq> Sleeps i) \<or> (\<exists>t. ts' t = Woken i)"
proof -
  note D = pool_invD [OF assms(2)]
  have only: "ts t = Sleeps j \<or> ts t = Woken j \<or> ts t = Holds j \<Longrightarrow> j = i" for t j
    using D(2) [of t j] by auto
  from assms(1) show ?thesis
  proof cases
    case (enter t j)
    then show ?thesis by (auto simp: access_simps)
  next
    case (sleep t j)
    with assms(3) D(1) show ?thesis by (auto simp: access_simps)
  next
    case (enter_woken t j)
    with only [of t j] show ?thesis by (auto simp: access_simps)
  next
    case (sleep_again t j)
    with only [of t j] assms(3) D(1) show ?thesis by (auto simp: access_simps)
  next
    case (spurious t j)
    with only [of t j] show ?thesis by auto
  next
    case (leave t j j')
    have "\<exists>u. ts' u = Woken i" if sl: "ts' v = Sleeps i" for v
    proof -
      obtain u k where u: "(ts(t := Idle)) u = Sleeps k" "ts' u = Woken k"
        using notify_slot_wakes [OF leave(4) sl] by blast
      with only [of u k] have "k = i" by (auto split: if_splits)
      with u(2) show ?thesis by blast
    qed
    then show ?thesis by blast
  qed
qed

lemma one_slot_run:
  assumes "pool_run (=) {i} p" and "i < RECORD_BUFF_SIZE"
  shows "busy (fst p) i \<or> (\<forall>t. snd p t \<noteq> Sleeps i) \<or> (\<exists>t. snd p t = Woken i)"
  using assms(1)
proof induction
  case (step p p')
  have "pool_inv {i} p" by (rule pool_run_inv [OF step.hyps(1)]) (use assms(2) in simp)
  with step one_slot_step [of i "fst p" "snd p" "fst p'" "snd p'"] assms(2) show ?case by simp
qed simp

subsection \<open>Concrete runs\<close>

text \<open>The state in which the slots \<open>used\<close> are held and the first threads are as listed.\<close>

definition pool_state :: "nat set \<Rightarrow> access list \<Rightarrow> pool" where
  "pool_state used accs = (Buffer_new\<lparr>bf_accessing := map (\<lambda>i. i \<in> used) [0..<RECORD_BUFF_SIZE]\<rparr>,
     \<lambda>t. if t < length accs then accs ! t else Idle)"

lemma pool_state_new: "pool_state {} (replicate n Idle) = (Buffer_new, \<lambda>_. Idle)"
  by (auto simp: pool_state_def Buffer_new_def map_replicate_const)

lemma map_used_upd:
  "i < n \<Longrightarrow> (map (\<lambda>i. i \<in> U) [0..<n])[i := x] = map (\<lambda>j. j \<in> (if x then insert i U else U - {i})) [0..<n]"
  by (rule nth_equalityI) (auto simp: nth_list_update)

lemma pool_state_enter:
  assumes "i < RECORD_BUFF_SIZE" and "i \<notin> U" and "t < length accs" and "accs ! t = Idle" and "i \<in> S"
  shows "pool_step ends S (pool_state U accs) (pool_state (insert i U) (accs[t := Holds i]))"
proof -
  let ?b = "fst (pool_state U accs)" and ?ts = "snd (pool_state U accs)"
  have "wait_for_access i ?b = Some (fst (pool_state (insert i U) accs))"
    using assms(1,2) by (simp add: access_simps pool_state_def busy_def map_used_upd)
  then have "pool_step ends S (?b, ?ts) (fst (pool_state (insert i U) accs), ?ts(t := Holds i))"
    by (rule pool_step.enter [rotated 2]) (use assms(3-5) in \<open>simp_all add: pool_state_def\<close>)
  moreover have "?ts(t := Holds i) = snd (pool_state (insert i U) (accs[t := Holds i]))"
    using assms(3) by (auto simp: pool_state_def nth_list_update)
  ultimately show ?thesis by (simp add: pool_state_def)
qed

lemma pool_state_sleep:
  assumes "i < RECORD_BUFF_SIZE" and "i \<in> U" and "t < length accs" and "accs ! t \<in> {Idle, Woken i}" and "i \<in> S"
  shows "pool_step ends S (pool_state U accs) (pool_state U (accs[t := Sleeps i]))"
proof -
  let ?b = "fst (pool_state U accs)" and ?ts = "snd (pool_state U accs)"
  have none: "wait_for_access i ?b = None"
    using assms(1,2) by (simp add: access_simps pool_state_def busy_def)
  have "?ts t \<in> {Idle, Woken i}" using assms(3,4) by (simp add: pool_state_def)
  then have "pool_step ends S (?b, ?ts) (?b, ?ts(t := Sleeps i))"
    using none assms(5) pool_step.sleep [of ?ts t i S ?b ends] pool_step.sleep_again [of ?ts t i ?b ends S] by auto
  moreover have "?ts(t := Sleeps i) = snd (pool_state U (accs[t := Sleeps i]))"
    using assms(3) by (auto simp: pool_state_def nth_list_update)
  ultimately show ?thesis by (simp add: pool_state_def)
qed

lemma pool_state_leave:
  assumes "i < RECORD_BUFF_SIZE" and "t < length accs" and "accs ! t = Holds h" and "ends h i"
    and "notify_slot ((snd (pool_state U accs))(t := Idle)) (snd (pool_state (U - {i}) accs'))"
  shows "pool_step ends S (pool_state U accs) (pool_state (U - {i}) accs')"
proof -
  let ?b = "fst (pool_state U accs)" and ?ts = "snd (pool_state U accs)"
  have ended: "end_access i ?b = Some (fst (pool_state (U - {i}) accs'))"
    using assms(1) by (simp add: access_simps pool_state_def map_used_upd)
  have held: "?ts t = Holds h" using assms(2,3) by (simp add: pool_state_def)
  have "pool_step ends S (?b, ?ts) (fst (pool_state (U - {i}) accs'), snd (pool_state (U - {i}) accs'))"
    using held assms(4) ended assms(5) by (rule pool_step.leave)
  then show ?thesis by (simp add: pool_state_def)
qed

text \<open>One thread is woken; nobody is there to be woken.\<close>

lemma notify_wakes:
  assumes "t < length accs" and "u < length accs" and "u \<noteq> t" and "accs ! u = Sleeps k"
  shows "notify_slot ((snd (pool_state U accs))(t := Idle)) (snd (pool_state V (accs[t := Idle, u := Woken k])))"
proof -
  let ?ts = "snd (pool_state U accs)"
  have "notify_slot (?ts(t := Idle)) ((?ts(t := Idle))(u := Woken k))"
    by (rule notify_slot.someone) (use assms in \<open>simp add: pool_state_def\<close>)
  moreover have "(?ts(t := Idle))(u := Woken k) = snd (pool_state V (accs[t := Idle, u := Woken k]))"
    using assms(1,2) by (auto simp: pool_state_def nth_list_update)
  ultimately show ?thesis by simp
qed

lemma notify_nobody:
  assumes "t < length accs" and "\<forall>k. Sleeps k \<notin> set accs"
  shows "notify_slot ((snd (pool_state U accs))(t := Idle)) (snd (pool_state V (accs[t := Idle])))"
proof -
  let ?ts = "snd (pool_state U accs)"
  have "(?ts(t := Idle)) = snd (pool_state V (accs[t := Idle]))"
    using assms(1) by (auto simp: pool_state_def nth_list_update)
  moreover have "snd (pool_state V (accs[t := Idle])) u \<noteq> Sleeps k" for u k
    using assms by (auto simp: pool_state_def nth_list_update) (metis nth_mem)
  ultimately show ?thesis using notify_slot.nobody by metis
qed

text \<open>If a thread that holds a slot may end the access to another one, both promises are broken.\<close>

lemma pool_run_three: "pool_run ends S (pool_state {} [Idle, Idle, Idle])"
  using pool_run.start [of ends S] pool_state_new [of 3] by (simp add: numeral_eq_Suc)

lemma stray_end_busy:
  assumes "i < RECORD_BUFF_SIZE" and "j < RECORD_BUFF_SIZE" and "i \<noteq> j" and "i \<in> S" and "ends i j"
  shows "pool_run ends S (pool_state ({i} - {j}) [Idle, Idle, Idle])"
proof -
  have "pool_run ends S (pool_state {i} [Holds i, Idle, Idle])"
    using pool_run_three by (rule pool_run.step) (use pool_state_enter [of i "{}" 0 "[Idle, Idle, Idle]" S] assms in simp)
  then show ?thesis
  proof (rule pool_run.step)
    show "pool_step ends S (pool_state {i} [Holds i, Idle, Idle]) (pool_state ({i} - {j}) [Idle, Idle, Idle])"
      using notify_nobody [of 0 "[Holds i, Idle, Idle]" "{i}" "{i} - {j}"] assms by (intro pool_state_leave [where t = 0]) simp_all
  qed
qed

lemma stray_end_twice:
  assumes "i < RECORD_BUFF_SIZE" and "j < RECORD_BUFF_SIZE" and "i \<noteq> j" and "i \<in> S" and "j \<in> S" and "ends i j"
  shows "pool_run ends S (pool_state (insert j ({j, i} - {j})) [Idle, Holds j, Holds j])"
proof -
  have "pool_run ends S (pool_state {i} [Holds i, Idle, Idle])"
    using pool_run_three by (rule pool_run.step) (use pool_state_enter [of i "{}" 0 "[Idle, Idle, Idle]" S] assms in simp)
  then have "pool_run ends S (pool_state {j, i} [Holds i, Holds j, Idle])"
    by (rule pool_run.step) (use pool_state_enter [of j "{i}" 1 "[Holds i, Idle, Idle]" S] assms in simp)
  then have "pool_run ends S (pool_state ({j, i} - {j}) [Idle, Holds j, Idle])"
  proof (rule pool_run.step)
    show "pool_step ends S (pool_state {j, i} [Holds i, Holds j, Idle]) (pool_state ({j, i} - {j}) [Idle, Holds j, Idle])"
      using notify_nobody [of 0 "[Holds i, Holds j, Idle]" "{j, i}" "{j, i} - {j}"] assms
      by (intro pool_state_leave [where t = 0]) simp_all
  qed
  then show ?thesis
    by (rule pool_run.step) (use pool_state_enter [of j "{j, i} - {j}" 2 "[Idle, Holds j, Idle]" S] assms in simp)
qed

text \<open>C22: While every thread ends the access that it began, then under every schedule of any
  number of threads, spurious wake-ups included, a slot of the pool is held by at most one thread, its
  flag says whether it is held, and there is no deadlock: while a thread sleeps, some thread holds a
  slot or has been woken. If all threads use the same slot, no wake-up is lost: a thread sleeps only
  while the slot is held or another one has been woken for it. The condition is needed, and
  \<^verbatim>\<open>read\<close>, which takes the number of the slot from the hash index twice, does not
  keep it when the entry changes in between: if a thread that holds \<open>i\<close> may end the access to another
  slot \<open>j\<close>, there are schedules after which the flag of \<open>i\<close> is set for ever although all threads are
  idle, and after which two threads hold \<open>j\<close>.\<close>

theorem slot_access:
  assumes "pool_run (=) S (b, ts)" and "\<And>i. i \<in> S \<Longrightarrow> i < RECORD_BUFF_SIZE"
  shows "(\<forall>t t' i. ts t = Holds i \<and> ts t' = Holds i \<longrightarrow> t = t')
    \<and> (\<forall>i \<in> S. busy b i \<longleftrightarrow> (\<exists>t. ts t = Holds i))
    \<and> (\<forall>t i. ts t = Sleeps i \<longrightarrow> (\<exists>t j. ts t = Woken j \<or> ts t = Holds j))
    \<and> (\<forall>t i. S = {i} \<and> ts t = Sleeps i \<longrightarrow> busy b i \<or> (\<exists>t. ts t = Woken i))
    \<and> (\<forall>i \<in> S. \<forall>j \<in> S. \<forall>ends. i \<noteq> j \<and> ends i j \<longrightarrow>
        (\<exists>b ts. pool_run ends S (b, ts) \<and> busy b i \<and> (\<forall>t. ts t = Idle))
        \<and> (\<exists>b ts t t'. pool_run ends S (b, ts) \<and> t \<noteq> t' \<and> ts t = Holds j \<and> ts t' = Holds j))"
proof -
  have inv: "pool_inv S (b, ts)" by (rule pool_run_inv [OF assms])
  note D = pool_invD [OF inv]
  have one: "busy b i \<or> (\<exists>t. ts t = Woken i)" if "S = {i}" "ts t = Sleeps i" for t i
    using one_slot_run [of i "(b, ts)"] assms that by auto
  have stray: "(\<exists>b ts. pool_run ends S (b, ts) \<and> busy b i \<and> (\<forall>t. ts t = Idle))
      \<and> (\<exists>b ts t t'. pool_run ends S (b, ts) \<and> t \<noteq> t' \<and> ts t = Holds j \<and> ts t' = Holds j)"
    if "i \<in> S" "j \<in> S" "i \<noteq> j \<and> ends i j" for i j ends
  proof
    have ij: "i < RECORD_BUFF_SIZE" "j < RECORD_BUFF_SIZE" using assms(2) that by simp_all
    let ?p = "pool_state ({i} - {j}) [Idle, Idle, Idle]"
    have "busy (fst ?p) i" "\<forall>t. snd ?p t = Idle"
      using ij that(3) by (auto simp: pool_state_def busy_def less_Suc_eq nth_Cons split: nat.split)
    moreover have "pool_run ends S (fst ?p, snd ?p)" using stray_end_busy [OF ij] that by simp
    ultimately show "\<exists>b ts. pool_run ends S (b, ts) \<and> busy b i \<and> (\<forall>t. ts t = Idle)" by blast
    let ?q = "pool_state (insert j ({j, i} - {j})) [Idle, Holds j, Holds j]"
    have "snd ?q 1 = Holds j" "snd ?q 2 = Holds j" "(1 :: nat) \<noteq> 2" by (simp_all add: pool_state_def)
    moreover have "pool_run ends S (fst ?q, snd ?q)" using stray_end_twice [OF ij] that by simp
    ultimately show "\<exists>b ts t t'. pool_run ends S (b, ts) \<and> t \<noteq> t' \<and> ts t = Holds j \<and> ts t' = Holds j" by blast
  qed
  have "\<forall>t t' i. ts t = Holds i \<and> ts t' = Holds i \<longrightarrow> t = t'" using D(5) by blast
  moreover have "\<forall>i \<in> S. busy b i \<longleftrightarrow> (\<exists>t. ts t = Holds i)" using D(3,4) by blast
  moreover have "\<forall>t i. ts t = Sleeps i \<longrightarrow> (\<exists>t j. ts t = Woken j \<or> ts t = Holds j)" using D(6) by blast
  moreover have "\<forall>t i. S = {i} \<and> ts t = Sleeps i \<longrightarrow> busy b i \<or> (\<exists>t. ts t = Woken i)" using one by blast
  moreover have "\<forall>i \<in> S. \<forall>j \<in> S. \<forall>ends. i \<noteq> j \<and> ends i j \<longrightarrow>
        (\<exists>b ts. pool_run ends S (b, ts) \<and> busy b i \<and> (\<forall>t. ts t = Idle))
        \<and> (\<exists>b ts t t'. pool_run ends S (b, ts) \<and> t \<noteq> t' \<and> ts t = Holds j \<and> ts t' = Holds j)"
    by (intro ballI allI impI) (rule stray)
  ultimately show ?thesis by (intro conjI) assumption+
qed

subsection \<open>A wake-up for another slot\<close>

text \<open>C36: With two different slots a wake-up can go to the wrong thread, because
  \<^verbatim>\<open>end_access\<close> notifies one thread only: there is a schedule after which a thread sleeps
  although its slot is free, no thread has been woken, and the only thread that will wake anyone
  holds the other slot.\<close>

theorem slot_wakeup_misdirected:
  assumes "i < RECORD_BUFF_SIZE" and "j < RECORD_BUFF_SIZE" and "i \<noteq> j"
  shows "\<exists>b ts t. pool_run (=) {i, j} (b, ts) \<and> ts t = Sleeps i \<and> \<not> busy b i
    \<and> (\<forall>u k. ts u \<noteq> Woken k) \<and> (\<forall>u k. ts u = Holds k \<longrightarrow> k = j)"
proof -
  let ?S = "{i, j}"
  have "pool_run (=) ?S (pool_state {} (replicate 4 Idle))" unfolding pool_state_new by (rule pool_run.start)
  then have "pool_run (=) ?S (pool_state {} [Idle, Idle, Idle, Idle])" by (simp add: numeral_eq_Suc)
  then have "pool_run (=) ?S (pool_state {i} [Holds i, Idle, Idle, Idle])"
    by (rule pool_run.step) (use pool_state_enter [of i "{}" 0 "[Idle, Idle, Idle, Idle]" ?S] assms in simp)
  then have "pool_run (=) ?S (pool_state {j, i} [Holds i, Holds j, Idle, Idle])"
    by (rule pool_run.step) (use pool_state_enter [of j "{i}" 1 "[Holds i, Idle, Idle, Idle]" ?S] assms in simp)
  then have "pool_run (=) ?S (pool_state {j, i} [Holds i, Holds j, Sleeps i, Idle])"
    by (rule pool_run.step) (use pool_state_sleep [of i "{j, i}" 2 "[Holds i, Holds j, Idle, Idle]" ?S] assms in simp)
  then have "pool_run (=) ?S (pool_state {j, i} [Holds i, Holds j, Sleeps i, Sleeps j])"
    by (rule pool_run.step) (use pool_state_sleep [of j "{j, i}" 3 "[Holds i, Holds j, Sleeps i, Idle]" ?S] assms in simp)
  then have "pool_run (=) ?S (pool_state ({j, i} - {i}) [Idle, Holds j, Sleeps i, Woken j])"
    by (rule pool_run.step)
      (use pool_state_leave [of i 0 "[Holds i, Holds j, Sleeps i, Sleeps j]" i "(=)" "{j, i}" "[Idle, Holds j, Sleeps i, Woken j]" ?S]
        notify_wakes [of 0 "[Holds i, Holds j, Sleeps i, Sleeps j]" 3 j "{j, i}" "{j, i} - {i}"] assms in simp)
  moreover have "{j, i} - {i} = {j}" using assms(3) by auto
  ultimately have "pool_run (=) ?S (pool_state {j} [Idle, Holds j, Sleeps i, Woken j])" by simp
  then have run: "pool_run (=) ?S (pool_state {j} [Idle, Holds j, Sleeps i, Sleeps j])"
    by (rule pool_run.step) (use pool_state_sleep [of j "{j}" 3 "[Idle, Holds j, Sleeps i, Woken j]" ?S] assms in simp)
  let ?p = "pool_state {j} [Idle, Holds j, Sleeps i, Sleeps j]"
  have "snd ?p t \<in> {Idle, Holds j, Sleeps i, Sleeps j}" for t
    by (auto simp: pool_state_def less_Suc_eq nth_Cons split: nat.split)
  then have "snd ?p u \<noteq> Woken k" "snd ?p u = Holds k \<Longrightarrow> k = j" for u k by (metis access.distinct access.inject insertE singletonD)+
  moreover have "snd ?p 2 = Sleeps i" "\<not> busy (fst ?p) i"
    using assms by (simp_all add: pool_state_def busy_def)
  ultimately show ?thesis using run by (intro exI [of _ "fst ?p"] exI [of _ "snd ?p"] exI [of _ 2]) auto
qed

theorem slot_wakeup_misdirected_witness:
  "\<exists>b ts t. pool_run (=) {3, 5} (b, ts) \<and> ts t = Sleeps 3 \<and> \<not> busy b 3
    \<and> (\<forall>u k. ts u \<noteq> Woken k) \<and> (\<forall>u k. ts u = Holds k \<longrightarrow> k = 5)"
  by (rule slot_wakeup_misdirected) (simp_all add: RECORD_BUFF_SIZE_def)

theorem slot_access_witness:
  "pool_run (=) {3} (pool_state {3} [Holds 3, Sleeps 3])
   \<and> (busy (fst (pool_state {3} [Holds 3, Sleeps 3])) 3 \<longleftrightarrow> (\<exists>t. snd (pool_state {3} [Holds 3, Sleeps 3]) t = Holds 3))"
proof -
  have size: "3 < RECORD_BUFF_SIZE" by (simp add: RECORD_BUFF_SIZE_def)
  have "pool_run (=) {3} (pool_state {} (replicate 2 Idle))" unfolding pool_state_new by (rule pool_run.start)
  then have "pool_run (=) {3} (pool_state {} [Idle, Idle])" by (simp add: numeral_eq_Suc)
  then have "pool_run (=) {3} (pool_state {3} [Holds 3, Idle])"
    by (rule pool_run.step) (use pool_state_enter [of 3 "{}" 0 "[Idle, Idle]" "{3}"] size in simp)
  then have run: "pool_run (=) {3} (pool_state {3} [Holds 3, Sleeps 3])"
    by (rule pool_run.step) (use pool_state_sleep [of 3 "{3}" 1 "[Holds 3, Idle]" "{3}"] size in simp)
  then show ?thesis
    using slot_access [of "{3}" "fst (pool_state {3} [Holds 3, Sleeps 3])" "snd (pool_state {3} [Holds 3, Sleeps 3])"] size by simp
qed

end
