(* ===== verification/Mem_Shutdown.thy ===== *)
theory Mem_Shutdown
  imports Mem_Tables
begin

text \<open>
  The threads of \<^verbatim>\<open>MemTables\<close>: \<^verbatim>\<open>start_working\<close>, the loops of the creator and of the
  dumper, \<^verbatim>\<open>submit_dump\<close>, and \<^verbatim>\<open>stop_working\<close>, which the destructor calls. A step is an
  operation on one of the two queues, or a test of \<^verbatim>\<open>if_working\<close>; a thread that waits has no
  step. The work of the dumper on one generation is one step, see \<open>DB_System\<close>.
\<close>

subsection \<open>Threads and steps\<close>

datatype main_pc = Constructing nat | Running | Submitting "nat list" nat
  | Stop_pop | Stop_join_creater | Stop_push | Stop_join_dumper | Stopped

datatype creater_pc = C_test | C_push | C_done
datatype dumper_pc = D_test | D_pop | D_dump "nat list" | D_done

record workers =
  wk_mem :: MemTables
  wk_main :: main_pc
  wk_creater :: creater_pc
  wk_dumper :: dumper_pc
  wk_dumped :: "nat list list"

definition start_working :: workers where
  "start_working = \<lparr>wk_mem = \<lparr>mt_heap = Map.empty, mt_fresh = 0, mt_can_insert = [], mt_wait_for_dump = [],
       mt_current = [], mt_working = True\<rparr>,
     wk_main = Constructing MEMTABLE_CO_WRITE_NUM, wk_creater = C_test, wk_dumper = D_test, wk_dumped = []\<rparr>"

inductive worker_step :: "workers \<Rightarrow> workers \<Rightarrow> bool" where
  creater_test: "wk_creater s = C_test \<Longrightarrow>
    worker_step s (s\<lparr>wk_creater := if mt_working (wk_mem s) then C_push else C_done\<rparr>)"
| creater_push: "wk_creater s = C_push \<Longrightarrow> buffers_creater_round (wk_mem s) = Some m \<Longrightarrow>
    worker_step s (s\<lparr>wk_mem := m, wk_creater := C_test\<rparr>)"
| dumper_test: "wk_dumper s = D_test \<Longrightarrow>
    worker_step s (s\<lparr>wk_dumper := if mt_working (wk_mem s) then D_pop else D_done\<rparr>)"
| dumper_pop: "wk_dumper s = D_pop \<Longrightarrow> wait_and_pop (mt_wait_for_dump (wk_mem s)) = Some (job, q) \<Longrightarrow>
    worker_step s (s\<lparr>wk_mem := (wk_mem s)\<lparr>mt_wait_for_dump := q\<rparr>,
      wk_dumper := case job of None \<Rightarrow> D_test | Some seq \<Rightarrow> D_dump seq\<rparr>)"
| dumper_dump: "wk_dumper s = D_dump seq \<Longrightarrow>
    worker_step s (s\<lparr>wk_dumped := wk_dumped s @ [seq], wk_dumper := D_test\<rparr>)"
| construct: "wk_main s = Constructing (Suc n) \<Longrightarrow> wait_and_pop (mt_can_insert (wk_mem s)) = Some (ptr, q) \<Longrightarrow>
    worker_step s (s\<lparr>wk_mem := (wk_mem s)\<lparr>mt_can_insert := q, mt_current := ptr # mt_current (wk_mem s)\<rparr>,
      wk_main := Constructing n\<rparr>)"
| constructed: "wk_main s = Constructing 0 \<Longrightarrow> worker_step s (s\<lparr>wk_main := Running\<rparr>)"
| submit: "wk_main s = Running \<Longrightarrow> set_all_dumping (mt_current (wk_mem s)) (mt_heap (wk_mem s)) = Some h \<Longrightarrow>
    worker_step s (s\<lparr>wk_mem := (wk_mem s)\<lparr>mt_heap := h, mt_current := []\<rparr>,
      wk_main := Submitting (mt_current (wk_mem s)) MEMTABLE_CO_WRITE_NUM\<rparr>)"
| submit_pop: "wk_main s = Submitting seq (Suc n) \<Longrightarrow> wait_and_pop (mt_can_insert (wk_mem s)) = Some (ptr, q) \<Longrightarrow>
    worker_step s (s\<lparr>wk_mem := (wk_mem s)\<lparr>mt_can_insert := q, mt_current := mt_current (wk_mem s) @ [ptr]\<rparr>,
      wk_main := Submitting seq n\<rparr>)"
| submit_push: "wk_main s = Submitting seq 0 \<Longrightarrow>
    wait_and_push wait_for_dump_capacity (Some seq) (mt_wait_for_dump (wk_mem s)) = Some q \<Longrightarrow>
    worker_step s (s\<lparr>wk_mem := (wk_mem s)\<lparr>mt_wait_for_dump := q\<rparr>, wk_main := Running\<rparr>)"
| stop: "wk_main s = Running \<Longrightarrow>
    worker_step s (s\<lparr>wk_mem := (wk_mem s)\<lparr>mt_working := False\<rparr>, wk_main := Stop_pop\<rparr>)"
| stop_pop: "wk_main s = Stop_pop \<Longrightarrow> wait_and_pop (mt_can_insert (wk_mem s)) = Some (tmp, q) \<Longrightarrow>
    worker_step s (s\<lparr>wk_mem := (wk_mem s)\<lparr>mt_can_insert := q\<rparr>, wk_main := Stop_join_creater\<rparr>)"
| stop_join_creater: "wk_main s = Stop_join_creater \<Longrightarrow> wk_creater s = C_done \<Longrightarrow>
    worker_step s (s\<lparr>wk_main := Stop_push\<rparr>)"
| stop_push: "wk_main s = Stop_push \<Longrightarrow>
    wait_and_push wait_for_dump_capacity None (mt_wait_for_dump (wk_mem s)) = Some q \<Longrightarrow>
    worker_step s (s\<lparr>wk_mem := (wk_mem s)\<lparr>mt_wait_for_dump := q\<rparr>, wk_main := Stop_join_dumper\<rparr>)"
| stop_join_dumper: "wk_main s = Stop_join_dumper \<Longrightarrow> wk_dumper s = D_done \<Longrightarrow>
    worker_step s (s\<lparr>wk_main := Stopped\<rparr>)"

inductive worker_steps :: "nat \<Rightarrow> workers \<Rightarrow> workers \<Rightarrow> bool" where
  none: "worker_steps 0 s s"
| more: "worker_steps n s s' \<Longrightarrow> worker_step s' s'' \<Longrightarrow> worker_steps (Suc n) s s''"

definition reached :: "workers \<Rightarrow> bool" where
  "reached s \<longleftrightarrow> (\<exists>n. worker_steps n start_working s)"

inductive_cases worker_stepE: "worker_step s s'"
inductive_cases worker_stepsE: "worker_steps n s s'"

subsection \<open>Stopping ends\<close>

text \<open>How many steps each thread has at most once \<^verbatim>\<open>if_working\<close> is false.\<close>

fun main_left :: "main_pc \<Rightarrow> nat" where
  "main_left Stop_pop = 5"
| "main_left Stop_join_creater = 4"
| "main_left Stop_push = 3"
| "main_left Stop_join_dumper = 2"
| "main_left Stopped = 0"
| "main_left _ = 100"

fun creater_left :: "creater_pc \<Rightarrow> nat" where
  "creater_left C_push = 2" | "creater_left C_test = 1" | "creater_left C_done = 0"

fun dumper_left :: "dumper_pc \<Rightarrow> nat" where
  "dumper_left D_pop = 3" | "dumper_left (D_dump _) = 2" | "dumper_left D_test = 1" | "dumper_left D_done = 0"

definition steps_left :: "workers \<Rightarrow> nat" where
  "steps_left s = main_left (wk_main s) + creater_left (wk_creater s) + dumper_left (wk_dumper s)"

text \<open>The state while \<^verbatim>\<open>stop_working\<close> runs and will come to its end.\<close>

definition stopping :: "workers \<Rightarrow> bool" where
  "stopping s \<longleftrightarrow> \<not> mt_working (wk_mem s)
     \<and> wk_main s \<in> {Stop_pop, Stop_join_creater, Stop_push, Stop_join_dumper, Stopped}
     \<and> (wk_main s = Stop_pop \<longrightarrow> mt_can_insert (wk_mem s) \<noteq> [] \<or> wk_creater s = C_push)
     \<and> (if wk_main s = Stop_pop then length (mt_can_insert (wk_mem s)) \<le> can_insert_capacity
        else wk_creater s = C_push \<longrightarrow> length (mt_can_insert (wk_mem s)) < can_insert_capacity)
     \<and> (wk_main s \<in> {Stop_pop, Stop_join_creater, Stop_push} \<longrightarrow> length (mt_wait_for_dump (wk_mem s)) < wait_for_dump_capacity)
     \<and> (wk_main s = Stop_join_dumper \<and> wk_dumper s = D_pop \<longrightarrow> mt_wait_for_dump (wk_mem s) \<noteq> [])
     \<and> (wk_main s \<in> {Stop_push, Stop_join_dumper, Stopped} \<longrightarrow> wk_creater s = C_done)
     \<and> (wk_main s = Stopped \<longrightarrow> wk_dumper s = D_done)"

lemma creater_round:
  "buffers_creater_round m = Some m' \<Longrightarrow> length (mt_can_insert m) < can_insert_capacity
    \<and> mt_can_insert m' = mt_can_insert m @ [mt_fresh m] \<and> mt_wait_for_dump m' = mt_wait_for_dump m
    \<and> mt_working m' = mt_working m \<and> mt_current m' = mt_current m"
  by (auto simp: buffers_creater_round_def Let_def wait_and_push_Some bind_eq_Some_conv)

lemma creater_round_ok:
  "length (mt_can_insert m) < can_insert_capacity \<Longrightarrow> \<exists>m'. buffers_creater_round m = Some m'"
  using SkipList_new_eq [of 0] by (auto simp: buffers_creater_round_def Let_def wait_and_push_def)

lemma stopping_step:
  assumes "stopping s" and "worker_step s s'"
  shows "stopping s' \<and> steps_left s' < steps_left s"
  using assms(2,1)
proof cases
  case creater_test
  with assms(1) show ?thesis by (auto simp: stopping_def steps_left_def)
next
  case (creater_push m)
  from creater_round [OF this(3)] creater_push assms(1) show ?thesis
    by (auto simp: stopping_def steps_left_def)
next
  case dumper_test
  with assms(1) show ?thesis by (auto simp: stopping_def steps_left_def)
next
  case (dumper_pop job q)
  with assms(1) show ?thesis by (auto simp: stopping_def steps_left_def wq_op_simps split: option.splits if_splits)
next
  case (dumper_dump seq)
  with assms(1) show ?thesis by (auto simp: stopping_def steps_left_def split: if_splits)
next
  case (stop_pop tmp q)
  with assms(1) show ?thesis by (auto simp: stopping_def steps_left_def wq_op_simps)
next
  case stop_join_creater
  with assms(1) show ?thesis by (auto simp: stopping_def steps_left_def)
next
  case (stop_push q)
  with assms(1) show ?thesis by (auto simp: stopping_def steps_left_def wq_op_simps)
next
  case stop_join_dumper
  with assms(1) show ?thesis by (auto simp: stopping_def steps_left_def)
qed (use assms(1) in \<open>auto simp: stopping_def\<close>)


lemma stopping_progress:
  assumes st: "stopping s" and "wk_main s \<noteq> Stopped"
  shows "\<exists>s'. worker_step s s'"
proof (cases "wk_creater s")
  case C_test
  then show ?thesis by (blast intro: creater_test)
next
  case C_push
  show ?thesis
  proof (cases "length (mt_can_insert (wk_mem s)) < can_insert_capacity")
    case True
    with creater_round_ok C_push show ?thesis by (blast intro: creater_push)
  next
    case False
    then have "wk_main s = Stop_pop" using st C_push by (auto simp: stopping_def split: if_splits)
    moreover obtain tmp q where "mt_can_insert (wk_mem s) = tmp # q"
      using False by (cases "mt_can_insert (wk_mem s)") (auto simp: can_insert_capacity_def)
    ultimately show ?thesis using stop_pop [of s tmp q] by auto
  qed
next
  case C_done
  consider "wk_main s = Stop_pop" | "wk_main s = Stop_join_creater" | "wk_main s = Stop_push" | "wk_main s = Stop_join_dumper"
    using st assms(2) by (auto simp: stopping_def)
  then show ?thesis
  proof cases
    case 1
    then obtain tmp q where "mt_can_insert (wk_mem s) = tmp # q"
      using st C_done by (cases "mt_can_insert (wk_mem s)") (auto simp: stopping_def)
    with 1 show ?thesis using stop_pop [of s tmp q] by auto
  next
    case 2
    with C_done show ?thesis by (blast intro: stop_join_creater)
  next
    case 3
    then have "length (mt_wait_for_dump (wk_mem s)) < wait_for_dump_capacity" using st by (auto simp: stopping_def)
    with 3 show ?thesis using stop_push [of s] by (auto simp: wait_and_push_def)
  next
    case 4
    show ?thesis
    proof (cases "wk_dumper s")
      case D_test
      then show ?thesis by (blast intro: dumper_test)
    next
      case D_pop
      then obtain job q where "mt_wait_for_dump (wk_mem s) = job # q"
        using st 4 by (cases "mt_wait_for_dump (wk_mem s)") (auto simp: stopping_def)
      with D_pop show ?thesis using dumper_pop [of s job q] by auto
    next
      case (D_dump seq)
      then show ?thesis by (blast intro: dumper_dump)
    next
      case D_done
      with 4 show ?thesis by (blast intro: stop_join_dumper)
    qed
  qed
qed

lemma stopped_stuck: "stopping s \<Longrightarrow> wk_main s = Stopped \<Longrightarrow> \<not> worker_step s s'"
  by (auto simp: stopping_def elim: worker_stepE)

lemma stopping_steps:
  "worker_steps n s s' \<Longrightarrow> stopping s \<Longrightarrow> stopping s' \<and> steps_left s' + n \<le> steps_left s"
proof (induction rule: worker_steps.induct)
  case (more n s s' s'')
  with stopping_step [of s' s''] show ?case by fastforce
qed simp

text \<open>The queues never exceed their capacities.\<close>

lemma reached_bounds:
  assumes "reached s"
  shows "length (mt_can_insert (wk_mem s)) \<le> can_insert_capacity"
proof -
  have "worker_steps n u s \<Longrightarrow> length (mt_can_insert (wk_mem u)) \<le> can_insert_capacity
      \<Longrightarrow> length (mt_can_insert (wk_mem s)) \<le> can_insert_capacity" for n u s
  proof (induction rule: worker_steps.induct)
    case (more n s s' s'')
    then have "length (mt_can_insert (wk_mem s')) \<le> can_insert_capacity" by simp
    with more.hyps(2) show ?case
      by (cases rule: worker_step.cases) (auto simp: wq_op_simps dest!: creater_round)
  qed simp
  with assms show ?thesis by (auto simp: reached_def start_working_def)
qed

definition stop_now :: "workers \<Rightarrow> workers" where
  "stop_now s = s\<lparr>wk_mem := (wk_mem s)\<lparr>mt_working := False\<rparr>, wk_main := Stop_pop\<rparr>"

text \<open>C20: Stopping the threads of \<^verbatim>\<open>MemTables\<close> ends under every schedule, after at most ten
  steps, with both threads joined, provided that there is a list in the queue of the creator or the
  creator is about to push one when \<^verbatim>\<open>stop_working\<close> starts, and the queue of the dumper is not
  full.\<close>

theorem memtables_shutdown:
  assumes "reached s" and "wk_main s = Running"
    and "mt_can_insert (wk_mem s) \<noteq> [] \<or> wk_creater s = C_push"
    and "length (mt_wait_for_dump (wk_mem s)) < wait_for_dump_capacity"
  shows "worker_step s (stop_now s)
    \<and> (\<forall>n s'. worker_steps n (stop_now s) s' \<longrightarrow> n \<le> 10
      \<and> ((\<exists>s''. worker_step s' s'') \<longleftrightarrow> wk_main s' \<noteq> Stopped)
      \<and> (wk_main s' = Stopped \<longrightarrow> wk_creater s' = C_done \<and> wk_dumper s' = D_done))"
proof -
  have st: "stopping (stop_now s)"
    using assms reached_bounds [OF assms(1)] by (auto simp: stopping_def stop_now_def)
  have cd: "creater_left c \<le> 2" "dumper_left d \<le> 3" for c d by (cases c; simp) (cases d; simp)
  from add_mono [OF cd(1) [of "wk_creater s"] cd(2) [of "wk_dumper s"]] have left: "steps_left (stop_now s) \<le> 10"
    by (simp add: steps_left_def stop_now_def)
  have "worker_step s (stop_now s)" unfolding stop_now_def using assms(2) by (rule stop)
  moreover have "n \<le> 10 \<and> ((\<exists>s''. worker_step s' s'') \<longleftrightarrow> wk_main s' \<noteq> Stopped)
      \<and> (wk_main s' = Stopped \<longrightarrow> wk_creater s' = C_done \<and> wk_dumper s' = D_done)"
    if "worker_steps n (stop_now s) s'" for n s'
  proof -
    from stopping_steps [OF that st] have s': "stopping s'" "n \<le> 10" using left by auto
    then have "wk_main s' = Stopped \<longrightarrow> wk_creater s' = C_done \<and> wk_dumper s' = D_done" by (auto simp: stopping_def)
    with s' stopping_progress [OF s'(1)] stopped_stuck [OF s'(1)] show ?thesis by blast
  qed
  ultimately show ?thesis by blast
qed


subsection \<open>Stopping fails\<close>

lemma reached_start: "reached start_working"
  unfolding reached_def by (blast intro: worker_steps.none)

lemma reached_step: "reached s \<Longrightarrow> worker_step s s' \<Longrightarrow> reached s'"
  unfolding reached_def by (blast intro: worker_steps.more)

text \<open>States in which the queue of the creator is empty and neither thread has got far.\<close>

definition idle_workers :: "main_pc \<Rightarrow> nat \<Rightarrow> nat list option list \<Rightarrow> workers \<Rightarrow> bool" where
  "idle_workers pc n dq s \<longleftrightarrow> reached s \<and> wk_main s = pc \<and> wk_creater s = C_test \<and> wk_dumper s = D_test
     \<and> wk_dumped s = [] \<and> mt_working (wk_mem s) \<and> mt_can_insert (wk_mem s) = [] \<and> mt_wait_for_dump (wk_mem s) = dq
     \<and> length (mt_current (wk_mem s)) = n \<and> (\<forall>p \<in> set (mt_current (wk_mem s)). mt_heap (wk_mem s) p \<noteq> None)"

lemma idle_start: "idle_workers (Constructing MEMTABLE_CO_WRITE_NUM) 0 [] start_working"
  using reached_start by (simp add: idle_workers_def start_working_def)

text \<open>The creator makes a list.\<close>

lemma idle_new_list:
  assumes "idle_workers pc n dq s"
  obtains s1 m p where "reached s1" and "s1 = s\<lparr>wk_mem := m\<rparr>" and "mt_can_insert m = [p]" and "mt_heap m p \<noteq> None"
    and "mt_current m = mt_current (wk_mem s)" and "mt_wait_for_dump m = dq" and "mt_working m"
    and "\<forall>q \<in> set (mt_current m). mt_heap m q \<noteq> None"
proof -
  have s: "reached s" "wk_creater s = C_test" "mt_working (wk_mem s)" "mt_can_insert (wk_mem s) = []"
    "mt_wait_for_dump (wk_mem s) = dq" "\<forall>q \<in> set (mt_current (wk_mem s)). mt_heap (wk_mem s) q \<noteq> None"
    using assms by (simp_all add: idle_workers_def)
  let ?s = "s\<lparr>wk_creater := C_push\<rparr>"
  have one: "reached ?s" using reached_step [OF s(1) creater_test [OF s(2)]] s(3) by simp
  have "length (mt_can_insert (wk_mem s)) < can_insert_capacity" by (simp add: s(4) can_insert_capacity_def)
  then obtain m where m: "buffers_creater_round (wk_mem s) = Some m" using creater_round_ok by blast
  have "reached (?s\<lparr>wk_mem := m, wk_creater := C_test\<rparr>)"
    by (rule reached_step [OF one creater_push]) (simp_all add: m)
  moreover have "?s\<lparr>wk_mem := m, wk_creater := C_test\<rparr> = s\<lparr>wk_mem := m\<rparr>" using s(2) by simp
  ultimately show ?thesis
    using creater_round [OF m] m s(3-6)
    by (intro that [of "s\<lparr>wk_mem := m\<rparr>" m "mt_fresh (wk_mem s)"])
      (auto simp: buffers_creater_round_def Let_def bind_eq_Some_conv)
qed

lemma idle_construct:
  assumes "idle_workers (Constructing (Suc k)) n dq s"
  shows "\<exists>s'. idle_workers (Constructing k) (Suc n) dq s'"
proof -
  obtain s1 m p where s1: "reached s1" "s1 = s\<lparr>wk_mem := m\<rparr>" "mt_can_insert m = [p]" "mt_heap m p \<noteq> None"
    "mt_current m = mt_current (wk_mem s)" "mt_wait_for_dump m = dq" "mt_working m"
    "\<forall>q \<in> set (mt_current m). mt_heap m q \<noteq> None" using assms by (rule idle_new_list)
  have "worker_step s1 (s1\<lparr>wk_mem := m\<lparr>mt_can_insert := [], mt_current := p # mt_current m\<rparr>, wk_main := Constructing k\<rparr>)"
    using construct [of s1 k p "[]"] s1(2,3) assms by (simp add: idle_workers_def)
  from reached_step [OF s1(1) this] show ?thesis
    using s1 assms by (intro exI) (auto simp: idle_workers_def)
qed

lemma idle_submit_pop:
  assumes "idle_workers (Submitting seq (Suc k)) n dq s"
  shows "\<exists>s'. idle_workers (Submitting seq k) (Suc n) dq s'"
proof -
  obtain s1 m p where s1: "reached s1" "s1 = s\<lparr>wk_mem := m\<rparr>" "mt_can_insert m = [p]" "mt_heap m p \<noteq> None"
    "mt_current m = mt_current (wk_mem s)" "mt_wait_for_dump m = dq" "mt_working m"
    "\<forall>q \<in> set (mt_current m). mt_heap m q \<noteq> None" using assms by (rule idle_new_list)
  have "worker_step s1 (s1\<lparr>wk_mem := m\<lparr>mt_can_insert := [], mt_current := mt_current m @ [p]\<rparr>, wk_main := Submitting seq k\<rparr>)"
    using submit_pop [of s1 seq k p "[]"] s1(2,3) assms by (simp add: idle_workers_def)
  from reached_step [OF s1(1) this] show ?thesis
    using s1 assms by (intro exI) (auto simp: idle_workers_def)
qed

lemma idle_running: "\<exists>s. idle_workers Running MEMTABLE_CO_WRITE_NUM [] s"
proof -
  have "idle_workers (Constructing k) n [] s \<Longrightarrow> \<exists>s'. idle_workers (Constructing 0) (n + k) [] s'" for k n s
  proof (induction k arbitrary: n s)
    case (Suc k)
    from idle_construct [OF Suc.prems] Suc.IH show ?case by fastforce
  qed auto
  from this [OF idle_start] obtain s where s: "idle_workers (Constructing 0) MEMTABLE_CO_WRITE_NUM [] s" by auto
  then have "worker_step s (s\<lparr>wk_main := Running\<rparr>)" by (intro constructed) (simp add: idle_workers_def)
  with s have "idle_workers Running MEMTABLE_CO_WRITE_NUM [] (s\<lparr>wk_main := Running\<rparr>)"
    by (auto simp: idle_workers_def intro: reached_step)
  then show ?thesis by blast
qed


lemma set_all_dumping_total: "\<forall>p \<in> set ps. h p \<noteq> None \<Longrightarrow> \<exists>h'. set_all_dumping ps h = Some h'"
proof (induction ps arbitrary: h)
  case (Cons p ps)
  then obtain l where "h p = Some l" by auto
  with Cons show ?case by simp
qed simp

lemma idle_submitted:
  "\<exists>s seq. idle_workers Running MEMTABLE_CO_WRITE_NUM [Some seq] s \<and> length seq = MEMTABLE_CO_WRITE_NUM"
proof -
  obtain s where s: "idle_workers Running MEMTABLE_CO_WRITE_NUM [] s" using idle_running by blast
  define seq where "seq = mt_current (wk_mem s)"
  obtain h where h: "set_all_dumping seq (mt_heap (wk_mem s)) = Some h"
    using s set_all_dumping_total [of seq] by (auto simp: idle_workers_def seq_def)
  let ?s = "s\<lparr>wk_mem := (wk_mem s)\<lparr>mt_heap := h, mt_current := []\<rparr>, wk_main := Submitting seq MEMTABLE_CO_WRITE_NUM\<rparr>"
  have "worker_step s ?s" using submit [of s h] s h by (simp add: idle_workers_def seq_def)
  with s have "idle_workers (Submitting seq MEMTABLE_CO_WRITE_NUM) 0 [] ?s"
    by (auto simp: idle_workers_def intro: reached_step)
  moreover have "idle_workers (Submitting seq k) n [] u \<Longrightarrow> \<exists>s'. idle_workers (Submitting seq 0) (n + k) [] s'" for k n u
  proof (induction k arbitrary: n u)
    case (Suc k)
    from idle_submit_pop [OF Suc.prems] Suc.IH show ?case by fastforce
  qed auto
  ultimately obtain u where u: "idle_workers (Submitting seq 0) MEMTABLE_CO_WRITE_NUM [] u" by fastforce
  let ?u = "u\<lparr>wk_mem := (wk_mem u)\<lparr>mt_wait_for_dump := [Some seq]\<rparr>, wk_main := Running\<rparr>"
  have "worker_step u ?u"
    using submit_push [of u seq "[Some seq]"] u by (simp add: idle_workers_def wait_and_push_def wait_for_dump_capacity_def)
  with u have "idle_workers Running MEMTABLE_CO_WRITE_NUM [Some seq] ?u"
    by (auto simp: idle_workers_def intro: reached_step)
  moreover have "length seq = MEMTABLE_CO_WRITE_NUM" using s by (simp add: seq_def idle_workers_def)
  ultimately show ?thesis by blast
qed

text \<open>With the creator gone and its queue empty, \<^verbatim>\<open>stop_working\<close> waits forever.\<close>

lemma stuck_steps:
  "worker_steps n s s' \<Longrightarrow> wk_main s = Stop_pop \<and> wk_creater s = C_done \<and> mt_can_insert (wk_mem s) = [] \<Longrightarrow>
   wk_main s' = Stop_pop \<and> wk_creater s' = C_done \<and> mt_can_insert (wk_mem s') = []"
proof (induction rule: worker_steps.induct)
  case (more n s s' s'')
  then have "wk_main s' = Stop_pop \<and> wk_creater s' = C_done \<and> mt_can_insert (wk_mem s') = []" by simp
  with more.hyps(2) show ?case by (cases rule: worker_step.cases) auto
qed simp

text \<open>A dumper that tests \<^verbatim>\<open>if_working\<close> after it has become false takes no more jobs.\<close>

lemma lost_steps:
  "worker_steps n s s' \<Longrightarrow> \<not> mt_working (wk_mem s) \<and> wk_main s \<notin> {Running} \<union> range Constructing \<and> (\<forall>seq k. wk_main s \<noteq> Submitting seq k)
      \<and> wk_dumper s \<noteq> D_pop \<and> job \<in> set (mt_wait_for_dump (wk_mem s)) \<Longrightarrow>
   \<not> mt_working (wk_mem s') \<and> wk_main s' \<notin> {Running} \<union> range Constructing \<and> (\<forall>seq k. wk_main s' \<noteq> Submitting seq k)
      \<and> wk_dumper s' \<noteq> D_pop \<and> job \<in> set (mt_wait_for_dump (wk_mem s'))"
proof (induction rule: worker_steps.induct)
  case (more n s s' s'')
  then have "\<not> mt_working (wk_mem s') \<and> wk_main s' \<notin> {Running} \<union> range Constructing \<and> (\<forall>seq k. wk_main s' \<noteq> Submitting seq k)
      \<and> wk_dumper s' \<noteq> D_pop \<and> job \<in> set (mt_wait_for_dump (wk_mem s'))" by simp
  with more.hyps(2) show ?case
    by (cases rule: worker_step.cases) (auto simp: wq_op_simps dest!: creater_round)
qed simp

lemma worker_steps_first: "worker_steps n s' s'' \<Longrightarrow> worker_step s s' \<Longrightarrow> worker_steps (Suc n) s s''"
proof (induction rule: worker_steps.induct)
  case (none s')
  show ?case by (rule worker_steps.more [OF worker_steps.none none])
next
  case (more n s1 s2 s3)
  from worker_steps.more [OF more.IH [OF more.prems] more.hyps(2)] show ?case .
qed

lemma stopping_ends: "stopping s \<Longrightarrow> \<exists>n s'. worker_steps n s s' \<and> wk_main s' = Stopped"
proof (induction "steps_left s" arbitrary: s rule: less_induct)
  case less
  show ?case
  proof (cases "wk_main s = Stopped")
    case True
    then show ?thesis by (blast intro: worker_steps.none)
  next
    case False
    then obtain s1 where "worker_step s s1" using stopping_progress less.prems by blast
    with stopping_step [OF less.prems this] less.hyps [of s1] show ?thesis by (blast intro: worker_steps_first)
  qed
qed

text \<open>C21: \<^verbatim>\<open>stop_working\<close> can deadlock and can lose data. There is a schedule of the
  constructor and the destructor alone after which the creator has ended and its queue is empty, so
  that \<^verbatim>\<open>stop_working\<close> waits for a list forever. And there is a schedule with one
  \<^verbatim>\<open>submit_dump\<close> after which \<^verbatim>\<open>stop_working\<close> ends, but under every continuation that
  ends the 40 submitted lists are still in the queue of the dumper, which has ended.\<close>

theorem memtables_shutdown_fails:
  "(\<exists>s. reached s \<and> wk_main s = Stop_pop \<and> (\<forall>n s'. worker_steps n s s' \<longrightarrow> wk_main s' = Stop_pop))
   \<and> (\<exists>s seq. reached s \<and> wk_main s = Running \<and> length seq = MEMTABLE_CO_WRITE_NUM
      \<and> (\<exists>n s'. worker_steps n (stop_now s) s' \<and> wk_main s' = Stopped)
      \<and> (\<forall>n s'. worker_steps n (stop_now s) s' \<longrightarrow> Some seq \<in> set (mt_wait_for_dump (wk_mem s'))))"
proof
  obtain s where s: "idle_workers Running MEMTABLE_CO_WRITE_NUM [] s" using idle_running by blast
  have "worker_step s (stop_now s)" unfolding stop_now_def by (rule stop) (use s in \<open>simp add: idle_workers_def\<close>)
  then have "reached (stop_now s)" using s by (auto simp: idle_workers_def intro: reached_step)
  moreover have "worker_step (stop_now s) ((stop_now s)\<lparr>wk_creater := C_done\<rparr>)"
    using creater_test [of "stop_now s"] s by (simp add: idle_workers_def stop_now_def)
  ultimately have "reached ((stop_now s)\<lparr>wk_creater := C_done\<rparr>)" by (rule reached_step)
  moreover have "wk_main ((stop_now s)\<lparr>wk_creater := C_done\<rparr>) = Stop_pop
      \<and> wk_creater ((stop_now s)\<lparr>wk_creater := C_done\<rparr>) = C_done
      \<and> mt_can_insert (wk_mem ((stop_now s)\<lparr>wk_creater := C_done\<rparr>)) = []"
    using s by (simp add: idle_workers_def stop_now_def)
  ultimately show "\<exists>s. reached s \<and> wk_main s = Stop_pop \<and> (\<forall>n s'. worker_steps n s s' \<longrightarrow> wk_main s' = Stop_pop)"
    using stuck_steps by blast
next
  obtain s seq where s: "idle_workers Running MEMTABLE_CO_WRITE_NUM [Some seq] s" "length seq = MEMTABLE_CO_WRITE_NUM"
    using idle_submitted by blast
  let ?s = "s\<lparr>wk_creater := C_push\<rparr>"
  have "worker_step s ?s" using creater_test [of s] s(1) by (simp add: idle_workers_def)
  then have r: "reached ?s" "wk_main ?s = Running" using s(1) by (auto simp: idle_workers_def intro: reached_step)
  have "stopping (stop_now ?s)"
    using s(1) by (auto simp: stopping_def stop_now_def idle_workers_def wait_for_dump_capacity_def)
  from stopping_ends [OF this] have ends: "\<exists>n s'. worker_steps n (stop_now ?s) s' \<and> wk_main s' = Stopped" .
  have "Some seq \<in> set (mt_wait_for_dump (wk_mem s'))" if "worker_steps n (stop_now ?s) s'" for n s'
    using lost_steps [OF that, of "Some seq"] s(1) by (auto simp: stop_now_def idle_workers_def)
  with r s(2) ends show "\<exists>s seq. reached s \<and> wk_main s = Running \<and> length seq = MEMTABLE_CO_WRITE_NUM
      \<and> (\<exists>n s'. worker_steps n (stop_now s) s' \<and> wk_main s' = Stopped)
      \<and> (\<forall>n s'. worker_steps n (stop_now s) s' \<longrightarrow> Some seq \<in> set (mt_wait_for_dump (wk_mem s')))"
    by blast
qed

theorem memtables_shutdown_fails_witness:
  "(\<exists>s. reached s \<and> wk_main s = Stop_pop) \<and> (\<exists>s seq. length seq = MEMTABLE_CO_WRITE_NUM \<and> Some seq \<in> set (mt_wait_for_dump (wk_mem (stop_now s))))"
  using memtables_shutdown_fails worker_steps.none by blast

theorem memtables_shutdown_witness:
  "\<exists>s s'. reached s \<and> worker_step s (stop_now s) \<and> worker_step (stop_now s) s'"
proof -
  obtain s where s: "idle_workers Running MEMTABLE_CO_WRITE_NUM [] s" using idle_running by blast
  have "worker_step s (s\<lparr>wk_creater := C_push\<rparr>)" using creater_test [of s] s by (simp add: idle_workers_def)
  then have r: "reached (s\<lparr>wk_creater := C_push\<rparr>)" using s by (auto simp: idle_workers_def intro: reached_step)
  have "wk_main (s\<lparr>wk_creater := C_push\<rparr>) = Running"
    "mt_can_insert (wk_mem (s\<lparr>wk_creater := C_push\<rparr>)) \<noteq> [] \<or> wk_creater (s\<lparr>wk_creater := C_push\<rparr>) = C_push"
    "length (mt_wait_for_dump (wk_mem (s\<lparr>wk_creater := C_push\<rparr>))) < wait_for_dump_capacity"
    using s by (simp_all add: idle_workers_def wait_for_dump_capacity_def)
  from memtables_shutdown [OF r this] r show ?thesis
    using worker_steps.none [of "stop_now (s\<lparr>wk_creater := C_push\<rparr>)"] by (fastforce simp: stop_now_def)
qed

end
