(* ===== verification/Threads.thy ===== *)
theory Threads
  imports Prelude
begin

text \<open>
  Threads that take turns. A thread is a local state; its step is a function of that state and the
  shared one, and has no result where the thread waits or has ended. A schedule says which thread
  makes the next step. The locales give what follows from an invariant of the single steps, and from
  a number of stages that every thread goes through.
\<close>

fun run_threads ::
  "('w \<Rightarrow> 's \<Rightarrow> ('w \<times> 's) option) \<Rightarrow> nat list \<Rightarrow> 'w list \<Rightarrow> 's \<Rightarrow> ('w list \<times> 's) option" where
  "run_threads step [] ws s = Some (ws, s)"
| "run_threads step (t # ts) ws s = do {
     w \<leftarrow> vget ws t;
     (w, s) \<leftarrow> step w s;
     run_threads step ts (ws[t := w]) s
   }"

lemma run_threads_append:
  "run_threads step (ts @ ts') ws s
    = Option.bind (run_threads step ts ws s) (\<lambda>(ws, s). run_threads step ts' ws s)"
  by (induction ts arbitrary: ws s) (auto simp: split_def intro!: Option.bind_cong)

lemma run_threads_join:
  "run_threads step ts ws s = Some (ws1, s1) \<Longrightarrow> run_threads step ts' ws1 s1 = r
    \<Longrightarrow> run_threads step (ts @ ts') ws s = r"
  by (simp add: run_threads_append)

lemma run_threads_snoc:
  "run_threads step (ts @ [t]) ws s = Some (ws', s') \<longleftrightarrow>
    (\<exists>ws1 s1 w. run_threads step ts ws s = Some (ws1, s1) \<and> t < length ws1
      \<and> step (ws1 ! t) s1 = Some (w, s') \<and> ws' = ws1[t := w])"
  by (fastforce simp: run_threads_append bind_eq_Some_conv vget_def split: if_splits)

lemma run_threads_length: "run_threads step ts ws s = Some (ws', s') \<Longrightarrow> length ws' = length ws"
  by (induction ts arbitrary: ws s) (auto simp: bind_eq_Some_conv)

lemma run_threads_range: "run_threads step ts ws s = Some (ws', s') \<Longrightarrow> set ts \<subseteq> {..<length ws}"
  by (induction ts arbitrary: ws s) (fastforce simp: bind_eq_Some_conv vget_def split: if_splits)+

text \<open>The threads in the order in which they make their step number \<open>n\<close>, counted from 0.\<close>

definition turns :: "nat \<Rightarrow> nat list \<Rightarrow> nat list" where
  "turns n ts = [ts ! i. i \<leftarrow> [0..<length ts], count_list (take i ts) (ts ! i) = n]"

lemma turns_snoc: "turns n (ts @ [t]) = turns n ts @ (if count_list ts t = n then [t] else [])"
proof -
  have "concat (map (\<lambda>i. if count_list (take i (ts @ [t])) ((ts @ [t]) ! i) = n then [(ts @ [t]) ! i] else []) [0..<length ts])
      = turns n ts"
    unfolding turns_def by (intro arg_cong [where f = concat] map_cong) (auto simp: nth_append)
  then show ?thesis by (simp add: turns_def)
qed

lemma turns_nil [simp]: "turns n [] = []"
  by (simp add: turns_def)

lemma turns_set: "set (turns n ts) = {t. n < count_list ts t} \<and> distinct (turns n ts)"
  by (induction ts rule: rev_induct) (auto simp: turns_snoc less_Suc_eq)

lemma turns_range:
  assumes "run_threads step ts ws s = Some (ws', s')" and "t \<in> set (turns n ts)"
  shows "t < length ws"
proof -
  have "count_list ts t \<noteq> 0" using turns_set [of n ts] assms(2) by auto
  then have "t \<in> set ts" by (metis count_list_0_iff)
  with run_threads_range [OF assms(1)] show ?thesis by blast
qed

lemma turns_length:
  assumes "run_threads step ts ws s = Some (ws', s')"
  shows "length (turns n ts) \<le> length ws"
proof -
  have "length (turns n ts) = card (set (turns n ts))" using turns_set distinct_card by metis
  also have "\<dots> \<le> card {..<length ws}" using turns_range [OF assms] by (intro card_mono) auto
  finally show ?thesis by simp
qed

subsection \<open>Invariants\<close>

locale thread_invariant =
  fixes step :: "'w \<Rightarrow> 's \<Rightarrow> ('w \<times> 's) option" and inv :: "'w list \<Rightarrow> 's \<Rightarrow> bool"
  assumes inv_step:
    "inv ws s \<Longrightarrow> t < length ws \<Longrightarrow> step (ws ! t) s = Some (w, s') \<Longrightarrow> inv (ws[t := w]) s'"
begin

lemma run_inv: "run_threads step ts ws s = Some (ws', s') \<Longrightarrow> inv ws s \<Longrightarrow> inv ws' s'"
  by (induction ts arbitrary: ws' s' rule: rev_induct) (auto simp: run_threads_snoc intro: inv_step)

end

text \<open>Every thread goes through \<open>final\<close> stages, and when some have not ended one can go on.\<close>

locale staged_threads = thread_invariant step inv
  for step :: "'w \<Rightarrow> 's \<Rightarrow> ('w \<times> 's) option" and inv :: "'w list \<Rightarrow> 's \<Rightarrow> bool" +
  fixes stage :: "'w \<Rightarrow> nat" and final :: nat
  assumes stage_step:
      "inv ws s \<Longrightarrow> t < length ws \<Longrightarrow> step (ws ! t) s = Some (w, s') \<Longrightarrow> stage w = Suc (stage (ws ! t))"
    and stage_bound: "inv ws s \<Longrightarrow> t < length ws \<Longrightarrow> stage (ws ! t) \<le> final"
    and some_step: "inv ws s \<Longrightarrow> t < length ws \<Longrightarrow> stage (ws ! t) \<noteq> final
      \<Longrightarrow> \<exists>u < length ws. step (ws ! u) s \<noteq> None"
begin

lemma run_stage:
  assumes "run_threads step ts ws s = Some (ws', s')" and "inv ws s" and "t < length ws"
  shows "stage (ws' ! t) = stage (ws ! t) + count_list ts t"
  using assms(1)
proof (induction ts arbitrary: ws' s' rule: rev_induct)
  case (snoc u ts)
  then obtain ws1 s1 w where 1: "run_threads step ts ws s = Some (ws1, s1)" "u < length ws1"
    "step (ws1 ! u) s1 = Some (w, s')" "ws' = ws1[u := w]" by (auto simp: run_threads_snoc)
  have "stage w = Suc (stage (ws1 ! u))"
    using stage_step [OF run_inv [OF 1(1) assms(2)] 1(2,3)] .
  then show ?case using snoc.IH [OF 1(1)] 1(2,4) by (cases "t = u") simp_all
qed simp

text \<open>A schedule has at most \<open>final\<close> steps of each thread, and can be prolonged until all have ended.\<close>

lemma run_bounded:
  assumes "run_threads step ts ws s = Some (ws', s')" and "inv ws s" and "\<forall>w \<in> set ws. stage w = 0"
  shows "length ts \<le> final * length ws"
    and "length ts = final * length ws \<longleftrightarrow> (\<forall>w \<in> set ws'. stage w = final)"
    and "(\<forall>w \<in> set ws'. stage w = final) \<or> (\<exists>t. run_threads step (ts @ [t]) ws s \<noteq> None)"
proof -
  have len: "length ws' = length ws" using assms(1) by (rule run_threads_length)
  have inv: "inv ws' s'" using run_inv [OF assms(1,2)] .
  have stage: "stage (ws' ! t) = count_list ts t" if "t < length ws" for t
    using run_stage [OF assms(1,2) that] assms(3) that by simp
  have bound: "count_list ts t \<le> final" if "t < length ws" for t
    using stage_bound [OF inv, of t] stage [OF that] that len by simp
  have sum: "(\<Sum>t<length ws. count_list ts t) = length ts"
    using sum_count_set [OF run_threads_range [OF assms(1)]] by simp
  show "length ts \<le> final * length ws"
    using sum_bounded_above [of "{..<length ws}" "count_list ts" final] bound sum by (simp add: mult.commute)
  show "length ts = final * length ws \<longleftrightarrow> (\<forall>w \<in> set ws'. stage w = final)"
  proof
    assume "length ts = final * length ws"
    then have "(\<Sum>t<length ws. count_list ts t) = (\<Sum>t<length ws. final)" using sum by simp
    then have "\<forall>t < length ws. count_list ts t = final"
      using sum_mono_inv [of "count_list ts" "{..<length ws}" "\<lambda>_. final"] bound by auto
    then show "\<forall>w \<in> set ws'. stage w = final" using stage len by (auto simp: in_set_conv_nth)
  next
    assume "\<forall>w \<in> set ws'. stage w = final"
    then have "count_list ts t = final" if "t < length ws" for t using stage [OF that] that len by (metis nth_mem)
    then show "length ts = final * length ws" using sum by (simp add: mult.commute)
  qed
  have "\<exists>t. run_threads step (ts @ [t]) ws s \<noteq> None" if "w \<in> set ws'" "stage w \<noteq> final" for w
  proof -
    obtain u where "u < length ws'" "step (ws' ! u) s' \<noteq> None"
      using some_step [OF inv] \<open>w \<in> set ws'\<close> \<open>stage w \<noteq> final\<close> by (metis in_set_conv_nth)
    then obtain v t where "step (ws' ! u) s' = Some (v, t)" "u < length ws'" by auto
    then have "run_threads step (ts @ [u]) ws s = Some (ws'[u := v], t)"
      using assms(1) by (auto simp: run_threads_snoc)
    then show ?thesis by blast
  qed
  then show "(\<forall>w \<in> set ws'. stage w = final) \<or> (\<exists>t. run_threads step (ts @ [t]) ws s \<noteq> None)" by blast
qed

end

subsection \<open>What the threads hold\<close>

text \<open>
  A thread holds at most one thing \<open>f w\<close> of a kind; \<open>taken\<close> are the things that some thread
  holds, and \<open>apart\<close> says that no two threads hold the same.
\<close>

definition taken :: "('w \<Rightarrow> 'a option) \<Rightarrow> 'w list \<Rightarrow> 'a set" where
  "taken f ws = {a. Some a \<in> f ` set ws}"

definition apart :: "('w \<Rightarrow> 'a option) \<Rightarrow> 'w list \<Rightarrow> bool" where
  "apart f ws \<longleftrightarrow> (\<forall>t < length ws. \<forall>u < length ws. \<forall>a. f (ws ! t) = Some a \<longrightarrow> f (ws ! u) = Some a \<longrightarrow> t = u)"

lemma taken_nth: "t < length ws \<Longrightarrow> f (ws ! t) = Some a \<Longrightarrow> a \<in> taken f ws"
  unfolding taken_def by (metis (mono_tags) mem_Collect_eq image_eqI nth_mem)

lemma takenE:
  assumes "a \<in> taken f ws" obtains t where "t < length ws" "f (ws ! t) = Some a"
  using assms by (auto simp: taken_def image_iff) (metis in_set_conv_nth)

lemma apartD: "apart f ws \<Longrightarrow> t < length ws \<Longrightarrow> u < length ws \<Longrightarrow> f (ws ! t) = Some a \<Longrightarrow> f (ws ! u) = Some a \<Longrightarrow> t = u"
  by (auto simp: apart_def)

lemma taken_same: "t < length ws \<Longrightarrow> f w = f (ws ! t) \<Longrightarrow> taken f (ws[t := w]) = taken f ws"
proof -
  assume "t < length ws" "f w = f (ws ! t)"
  then have "map f (ws[t := w]) = map f ws" by (simp add: map_update list_update_same_conv)
  then show ?thesis by (metis taken_def list.set_map)
qed

lemma apart_same: "t < length ws \<Longrightarrow> f w = f (ws ! t) \<Longrightarrow> apart f (ws[t := w]) = apart f ws"
  by (auto simp: apart_def nth_list_update)

lemma taken_take:
  assumes "t < length ws" and "f (ws ! t) = None" and "f w = Some a"
  shows "taken f (ws[t := w]) = insert a (taken f ws)"
proof (intro set_eqI iffI)
  fix b
  assume "b \<in> taken f (ws[t := w])"
  then obtain u where "u < length ws" "f (ws[t := w] ! u) = Some b" by (auto elim: takenE)
  then show "b \<in> insert a (taken f ws)" using assms by (cases "u = t") (auto intro: taken_nth)
next
  fix b
  assume b: "b \<in> insert a (taken f ws)"
  show "b \<in> taken f (ws[t := w])"
  proof (cases "b = a")
    case True
    then show ?thesis using assms by (intro taken_nth [of t]) simp_all
  next
    case False
    with b obtain u where "u < length ws" "f (ws ! u) = Some b" by (auto elim: takenE)
    moreover from this assms(2) have "u \<noteq> t" by auto
    ultimately show ?thesis by (intro taken_nth [of u]) simp_all
  qed
qed

lemma apart_take:
  assumes "apart f ws" and "t < length ws" and "f w = Some a" and "a \<notin> taken f ws"
  shows "apart f (ws[t := w])"
  using assms taken_nth [of _ ws f a] by (auto simp: apart_def nth_list_update)

lemma taken_none: "t < length ws \<Longrightarrow> f w = None \<Longrightarrow> taken f (ws[t := w]) \<subseteq> taken f ws"
  by (auto elim!: takenE simp: nth_list_update intro: taken_nth split: if_splits)

lemma taken_drop:
  assumes "apart f ws" and "t < length ws" and "f (ws ! t) = Some a" and "f w = None"
  shows "taken f (ws[t := w]) = taken f ws - {a}"
proof (intro set_eqI iffI)
  fix b
  assume "b \<in> taken f (ws[t := w])"
  then obtain u where u: "u < length ws" "f (ws[t := w] ! u) = Some b" by (auto elim: takenE)
  then have "u \<noteq> t" using assms(4) by (auto simp: assms(2))
  with u have "f (ws ! u) = Some b" by simp
  moreover from this \<open>u \<noteq> t\<close> have "b \<noteq> a" using apartD [OF assms(1) u(1) assms(2) _ assms(3)] by blast
  ultimately show "b \<in> taken f ws - {a}" using u(1) by (auto intro: taken_nth)
next
  fix b
  assume "b \<in> taken f ws - {a}"
  then obtain u where u: "u < length ws" "f (ws ! u) = Some b" "b \<noteq> a" by (auto elim: takenE)
  with assms(3) have "u \<noteq> t" by auto
  with u show "b \<in> taken f (ws[t := w])" by (intro taken_nth [of u]) simp_all
qed

lemma apart_drop: "apart f ws \<Longrightarrow> t < length ws \<Longrightarrow> f w = None \<Longrightarrow> apart f (ws[t := w])"
  by (auto simp: apart_def nth_list_update)

text \<open>How many threads have something still to do.\<close>

definition pending :: "('w \<Rightarrow> bool) \<Rightarrow> 'w list \<Rightarrow> nat" where
  "pending P ws = length (filter P ws)"

lemma pending_update:
  assumes "t < length ws"
  shows "pending P (ws[t := w]) + (if P (ws ! t) then 1 else 0) = pending P ws + (if P w then 1 else 0)"
proof -
  have "ws = take t ws @ ws ! t # drop (Suc t) ws" using assms by (rule id_take_nth_drop)
  then have "length (filter P ws) = length (filter P (take t ws @ ws ! t # drop (Suc t) ws))" by simp
  then show ?thesis using assms by (simp add: pending_def upd_conv_take_nth_drop)
qed

lemma pending_same: "t < length ws \<Longrightarrow> P w = P (ws ! t) \<Longrightarrow> pending P (ws[t := w]) = pending P ws"
  using pending_update [of t ws P w] by simp

lemma pending_less: "t < length ws \<Longrightarrow> P (ws ! t) \<Longrightarrow> \<not> P w \<Longrightarrow> Suc (pending P (ws[t := w])) = pending P ws"
  using pending_update [of t ws P w] by simp

end
