(* ===== verification/Write_Steps.thy ===== *)
theory Write_Steps
  imports DB_Recovery Threads
begin

text \<open>
  Concurrent calls of \<^verbatim>\<open>DBSystem::write\<close>. The function takes one lock after the other: for
  the log, the free slots, the access to the slot (twice), the hash index, the memory tables, one
  list, and at the end for the test of the generation, the log and the memory tables again. Each of
  these sections is a step; between the steps other threads run.
\<close>

subsection \<open>The steps of a write\<close>

datatype write_pc =
  At_log | At_slot | At_access nat | At_copy nat | At_end nat | At_hash nat | At_table nat
  | At_update nat nat | At_unlock nat | At_total | At_switch | At_submit | Written

record writer =
  wr_key :: KEY_T
  wr_value :: "u8 list"
  wr_rnd :: "nat \<Rightarrow> nat"
  wr_pc :: write_pc

definition writer_start :: "(nat \<Rightarrow> nat) \<Rightarrow> KEY_T \<Rightarrow> u8 list \<Rightarrow> writer" where
  "writer_start rnd keyT value = \<lparr>wr_key = keyT, wr_value = value, wr_rnd = rnd, wr_pc = At_log\<rparr>"

text \<open>
  A step that has to wait is \<^term>\<open>None\<close>: for a slot, for the access to it, for an unlocked list
  in \<^verbatim>\<open>get_memtable\<close> and \<^verbatim>\<open>get_total_items\<close>, for the dumper in
  \<^verbatim>\<open>switch_log\<close>.
\<close>

definition writer_step :: "writer \<Rightarrow> DBSystem \<Rightarrow> (writer \<times> DBSystem) option" where
  "writer_step w s = (case wr_pc w of
     At_log \<Rightarrow> do {
       gather \<leftarrow> make_record (wr_key w) (wr_value w);
       (_, disk) \<leftarrow> write_to_log (record_bytes gather) (db_disk s);
       Some (w\<lparr>wr_pc := At_slot\<rparr>, s\<lparr>db_disk := disk\<rparr>)
     }
   | At_slot \<Rightarrow> do {
       (idx_buffer, buffer) \<leftarrow> request_record_buff (db_buffer s);
       Some (w\<lparr>wr_pc := At_access idx_buffer\<rparr>, s\<lparr>db_buffer := buffer\<rparr>)
     }
   | At_access idx_buffer \<Rightarrow> do {
       buffer \<leftarrow> wait_for_access idx_buffer (db_buffer s);
       Some (w\<lparr>wr_pc := At_copy idx_buffer\<rparr>, s\<lparr>db_buffer := buffer\<rparr>)
     }
   | At_copy idx_buffer \<Rightarrow> do {
       gather \<leftarrow> make_record (wr_key w) (wr_value w);
       buffer \<leftarrow> set_record idx_buffer gather (db_buffer s);
       Some (w\<lparr>wr_pc := At_end idx_buffer\<rparr>, s\<lparr>db_buffer := buffer\<rparr>)
     }
   | At_end idx_buffer \<Rightarrow> do {
       buffer \<leftarrow> end_access idx_buffer (db_buffer s);
       Some (w\<lparr>wr_pc := At_hash idx_buffer\<rparr>, s\<lparr>db_buffer := buffer\<rparr>)
     }
   | At_hash idx_buffer \<Rightarrow> do {
       (hashTable, _) \<leftarrow> Indexer_update (wr_key w) (buffer_index idx_buffer) (db_hash s);
       Some (w\<lparr>wr_pc := At_table idx_buffer\<rparr>, s\<lparr>db_hash := hashTable\<rparr>)
     }
   | At_table idx_buffer \<Rightarrow> do {
       (memtable, memTables) \<leftarrow> get_memtable (db_mem s);
       Some (w\<lparr>wr_pc := At_update idx_buffer memtable\<rparr>, s\<lparr>db_mem := memTables\<rparr>)
     }
   | At_update idx_buffer memtable \<Rightarrow> do {
       list \<leftarrow> mt_heap (db_mem s) memtable;
       (list, _) \<leftarrow> SkipList_update (wr_rnd w) (wr_key w) (buffer_index idx_buffer) list;
       Some (w\<lparr>wr_pc := At_unlock memtable\<rparr>,
         s\<lparr>db_mem := (db_mem s)\<lparr>mt_heap := (mt_heap (db_mem s))(memtable \<mapsto> list)\<rparr>\<rparr>)
     }
   | At_unlock memtable \<Rightarrow> do {
       list \<leftarrow> mt_heap (db_mem s) memtable;
       Some (w\<lparr>wr_pc := At_total\<rparr>,
         s\<lparr>db_mem := (db_mem s)\<lparr>mt_heap := (mt_heap (db_mem s))(memtable \<mapsto> un_lock list)\<rparr>\<rparr>)
     }
   | At_total \<Rightarrow> do {
       total \<leftarrow> get_total_items (db_mem s);
       Some (w\<lparr>wr_pc := (if int RECORD_BUFF_SIZE \<le> total then At_switch else Written)\<rparr>, s)
     }
   | At_switch \<Rightarrow> do {
       disk \<leftarrow> switch_log (db_disk s);
       Some (w\<lparr>wr_pc := At_submit\<rparr>, s\<lparr>db_disk := disk\<rparr>)
     }
   | At_submit \<Rightarrow> do {
       memTables \<leftarrow> submit_dump (db_mem s);
       Some (w\<lparr>wr_pc := Written\<rparr>, s\<lparr>db_mem := memTables\<rparr>)
     }
   | Written \<Rightarrow> None)"

abbreviation run_schedule :: "nat list \<Rightarrow> writer list \<Rightarrow> DBSystem \<Rightarrow> (writer list \<times> DBSystem) option" where
  "run_schedule \<equiv> run_threads writer_step"

subsection \<open>One writer alone\<close>

definition put_rest :: "writer \<Rightarrow> DBSystem \<Rightarrow> DBSystem option" where
  "put_rest w s = do {
     gather \<leftarrow> make_record (wr_key w) (wr_value w);
     (idx_buffer, buffer) \<leftarrow> request_record_buff (db_buffer s);
     buffer \<leftarrow> store_record idx_buffer gather buffer;
     (hashTable, _) \<leftarrow> Indexer_update (wr_key w) (buffer_index idx_buffer) (db_hash s);
     memTables \<leftarrow> memtables_write (wr_rnd w) (wr_key w) (buffer_index idx_buffer) (db_mem s);
     Some (s\<lparr>db_buffer := buffer, db_hash := hashTable, db_mem := memTables\<rparr>)
   }"

lemma run_rest:
  assumes "t < length ws" and "wr_pc (ws ! t) = At_slot"
  shows "run_schedule (replicate 8 t) ws s
    = map_option (\<lambda>s. (ws[t := (ws ! t)\<lparr>wr_pc := At_total\<rparr>], s)) (put_rest (ws ! t) s)"
proof -
  have "replicate 8 t = [t, t, t, t, t, t, t, t]" by (simp add: numeral_eq_Suc)
  then show ?thesis
    using assms
    by (simp add: writer_step_def put_rest_def store_record_def memtables_write_def split_def map_option_case bind_eq_None_conv bind_eq_Some_conv
        split: Option.bind_split option.split)
qed

lemma put_rest_disk: "put_rest w (s\<lparr>db_disk := d\<rparr>) = map_option (\<lambda>s. s\<lparr>db_disk := d\<rparr>) (put_rest w s)"
  by (auto simp: put_rest_def split_def map_option_case split: Option.bind_split option.split)

lemma db_put_rest:
  assumes "wr_key w = k" and "wr_value w = value" and "wr_rnd w = rnd"
  shows "db_put rnd k value s = do {
     gather \<leftarrow> make_record k value;
     (_, disk) \<leftarrow> write_to_log (record_bytes gather) (db_disk s);
     put_rest w (s\<lparr>db_disk := disk\<rparr>)
   }"
  unfolding put_rest_disk using assms
  by (auto simp: db_put_def put_rest_def split_def map_option_case split: Option.bind_split option.split)

lemma run_put:
  assumes "t < length ws" and "wr_pc (ws ! t) = At_log"
  shows "run_schedule (replicate 9 t) ws s = map_option (\<lambda>s. (ws[t := (ws ! t)\<lparr>wr_pc := At_total\<rparr>], s))
    (db_put (wr_rnd (ws ! t)) (wr_key (ws ! t)) (wr_value (ws ! t)) s)"
proof -
  let ?w = "ws ! t"
  have rest: "run_schedule (replicate 8 t) (ws[t := ?w\<lparr>wr_pc := At_slot\<rparr>]) s1
      = map_option (\<lambda>s. (ws[t := ?w\<lparr>wr_pc := At_total\<rparr>], s)) (put_rest ?w s1)" for s1
  proof -
    have "put_rest (?w\<lparr>wr_pc := At_slot\<rparr>) s1 = put_rest ?w s1" by (simp add: put_rest_def)
    with run_rest [of t "ws[t := ?w\<lparr>wr_pc := At_slot\<rparr>]" s1] assms(1) show ?thesis by simp
  qed
  have "replicate 9 t = t # replicate 8 t" by (simp add: numeral_eq_Suc)
  then show ?thesis
    using assms db_put_rest [of ?w, OF refl refl refl, of s]
    by (auto simp: writer_step_def rest split_def map_option_case split: Option.bind_split option.split)
qed

text \<open>The thread \<open>t\<close> takes all turns until it has returned.\<close>

definition returns :: "nat \<Rightarrow> writer list \<Rightarrow> DBSystem \<Rightarrow> DBSystem \<Rightarrow> bool" where
  "returns t ws s s' \<longleftrightarrow> (\<exists>n. run_schedule (replicate n t) ws s = Some (ws[t := (ws ! t)\<lparr>wr_pc := Written\<rparr>], s'))"

lemma writer_step_keeps:
  "writer_step w s = Some (w', s') \<Longrightarrow> w'\<lparr>wr_pc := Written\<rparr> = w\<lparr>wr_pc := Written\<rparr>"
  by (auto simp: writer_step_def bind_eq_Some_conv split: write_pc.splits)

lemma returns_step:
  assumes "t < length ws" and "wr_pc (ws ! t) \<noteq> Written"
  shows "returns t ws s s' \<longleftrightarrow> (\<exists>w s1. writer_step (ws ! t) s = Some (w, s1) \<and> returns t (ws[t := w]) s1 s')"
proof
  assume "returns t ws s s'"
  then obtain n where n: "run_schedule (replicate n t) ws s = Some (ws[t := (ws ! t)\<lparr>wr_pc := Written\<rparr>], s')"
    by (auto simp: returns_def)
  moreover have "n \<noteq> 0"
  proof
    assume "n = 0"
    with n have "ws ! t = ws[t := (ws ! t)\<lparr>wr_pc := Written\<rparr>] ! t" by simp
    with assms(1,2) show False by simp (metis writer.select_convs(4) writer.surjective writer.update_convs(4))
  qed
  ultimately obtain m where "run_schedule (t # replicate m t) ws s = Some (ws[t := (ws ! t)\<lparr>wr_pc := Written\<rparr>], s')"
    by (metis not0_implies_Suc replicate_Suc)
  with assms(1) writer_step_keeps [of "ws ! t" s] show "\<exists>w s1. writer_step (ws ! t) s = Some (w, s1) \<and> returns t (ws[t := w]) s1 s'"
    by (fastforce simp: returns_def bind_eq_Some_conv)
next
  assume "\<exists>w s1. writer_step (ws ! t) s = Some (w, s1) \<and> returns t (ws[t := w]) s1 s'"
  then obtain w s1 n where "writer_step (ws ! t) s = Some (w, s1)"
    "run_schedule (replicate n t) (ws[t := w]) s1 = Some (ws[t := w\<lparr>wr_pc := Written\<rparr>], s')"
    using assms(1) by (auto simp: returns_def)
  then have "run_schedule (replicate (Suc n) t) ws s = Some (ws[t := (ws ! t)\<lparr>wr_pc := Written\<rparr>], s')"
    using assms(1) writer_step_keeps [of "ws ! t" s] by simp
  then show "returns t ws s s'" unfolding returns_def by blast
qed

lemma returns_written:
  assumes "t < length ws" and "wr_pc (ws ! t) = Written"
  shows "returns t ws s s' \<longleftrightarrow> s = s'"
proof -
  have ws: "ws[t := (ws ! t)\<lparr>wr_pc := Written\<rparr>] = ws" using assms by (cases "ws ! t") (simp add: list_update_same_conv)
  have stop: "run_schedule (replicate (Suc n) t) ws s = None" for n
    using assms by (simp add: writer_step_def)
  show ?thesis
  proof
    assume "returns t ws s s'"
    then obtain n where n: "run_schedule (replicate n t) ws s = Some (ws, s')" unfolding returns_def ws by blast
    with stop show "s = s'" by (cases n) simp_all
  next
    assume "s = s'"
    then have "run_schedule (replicate 0 t) ws s = Some (ws, s')" by simp
    then show "returns t ws s s'" unfolding returns_def ws by blast
  qed
qed

lemma returns_check:
  assumes "t < length ws" and "wr_pc (ws ! t) = At_total"
  shows "returns t ws s s' \<longleftrightarrow> db_check s = Some s'"
proof -
  have submit: "returns t vs u v \<longleftrightarrow> (\<exists>m. submit_dump (db_mem u) = Some m \<and> v = u\<lparr>db_mem := m\<rparr>)"
    if "t < length vs" "wr_pc (vs ! t) = At_submit" for vs u v
    using that returns_step [where s = u and s' = v, OF that(1)]
    by (auto simp: writer_step_def bind_eq_Some_conv returns_written)
  have switch: "returns t vs u v \<longleftrightarrow> (\<exists>d m. switch_log (db_disk u) = Some d \<and> submit_dump (db_mem u) = Some m
      \<and> v = u\<lparr>db_mem := m, db_disk := d\<rparr>)"
    if "t < length vs" "wr_pc (vs ! t) = At_switch" for vs u v
    using that returns_step [where s = u and s' = v, OF that(1)]
    by (auto simp: writer_step_def bind_eq_Some_conv submit)
  have step: "returns t ws s s' \<longleftrightarrow> (\<exists>w s1. writer_step (ws ! t) s = Some (w, s1) \<and> returns t (ws[t := w]) s1 s')"
    using assms by (intro returns_step) simp_all
  show ?thesis
  proof (cases "get_total_items (db_mem s)")
    case None
    then show ?thesis unfolding step by (simp add: writer_step_def assms(2) db_check_def)
  next
    case (Some y)
    then have "writer_step (ws ! t) s = Some ((ws ! t)\<lparr>wr_pc := (if int RECORD_BUFF_SIZE \<le> y then At_switch else Written)\<rparr>, s)"
      by (simp add: writer_step_def assms(2))
    then show ?thesis
      unfolding step using assms(1) Some
      by (cases "int RECORD_BUFF_SIZE \<le> y") (auto simp: db_check_def switch returns_written bind_eq_Some_conv)
  qed
qed

text \<open>The slot that a writer has requested and not yet entered into the index.\<close>

definition slot_held :: "writer \<Rightarrow> nat option" where
  "slot_held w = (case wr_pc w of
     At_access i \<Rightarrow> Some i | At_copy i \<Rightarrow> Some i | At_end i \<Rightarrow> Some i | At_hash i \<Rightarrow> Some i | _ \<Rightarrow> None)"

text \<open>The number of steps that a writer has made; a switch of the log comes after \<open>At_total\<close>.\<close>

definition write_stage :: "writer \<Rightarrow> nat" where
  "write_stage w = (case wr_pc w of
     At_log \<Rightarrow> 0 | At_slot \<Rightarrow> 1 | At_access _ \<Rightarrow> 2 | At_copy _ \<Rightarrow> 3 | At_end _ \<Rightarrow> 4 | At_hash _ \<Rightarrow> 5
   | At_table _ \<Rightarrow> 6 | At_update _ _ \<Rightarrow> 7 | At_unlock _ \<Rightarrow> 8 | At_total \<Rightarrow> 9 | Written \<Rightarrow> 10
   | At_switch \<Rightarrow> 11 | At_submit \<Rightarrow> 12)"

lemma writer_step_stage:
  "writer_step w s = Some (w', s') \<Longrightarrow> write_stage w < 9 \<Longrightarrow> write_stage w' = Suc (write_stage w)"
  by (auto simp: writer_step_def write_stage_def bind_eq_Some_conv split: write_pc.splits)

lemma run_early:
  "run_schedule (replicate n t) ws s = Some (ws', s') \<Longrightarrow> t < length ws \<Longrightarrow> write_stage (ws ! t) + n \<le> 9
    \<Longrightarrow> write_stage (ws' ! t) = write_stage (ws ! t) + n"
proof (induction n arbitrary: ws s)
  case (Suc n)
  then obtain w s1 where w: "writer_step (ws ! t) s = Some (w, s1)" "run_schedule (replicate n t) (ws[t := w]) s1 = Some (ws', s')"
    by (auto simp: bind_eq_Some_conv)
  moreover have "write_stage w = Suc (write_stage (ws ! t))" using writer_step_stage [OF w(1)] Suc.prems(3) by simp
  ultimately show ?case using Suc.IH [OF w(2)] Suc.prems(2,3) by simp
qed simp

text \<open>A writer that is not interrupted does what the model of \<^verbatim>\<open>DBSystem::write\<close> does.\<close>

lemma returns_put:
  assumes t: "t < length ws" "wr_pc (ws ! t) = At_log"
  shows "returns t ws s s' \<longleftrightarrow>
    Option.bind (db_put (wr_rnd (ws ! t)) (wr_key (ws ! t)) (wr_value (ws ! t)) s) db_check = Some s'"
proof
  let ?w = "ws ! t"
  let ?put = "db_put (wr_rnd ?w) (wr_key ?w) (wr_value ?w) s"
  have total: "returns t (ws[t := ?w\<lparr>wr_pc := At_total\<rparr>]) s1 s' \<longleftrightarrow> db_check s1 = Some s'" for s1
    using t by (intro returns_check) simp_all
  have done_eq: "(ws[t := ?w\<lparr>wr_pc := At_total\<rparr>])[t := ((ws[t := ?w\<lparr>wr_pc := At_total\<rparr>]) ! t)\<lparr>wr_pc := Written\<rparr>]
      = ws[t := ?w\<lparr>wr_pc := Written\<rparr>]" using t by simp
  {
    assume "returns t ws s s'"
    then obtain n where n: "run_schedule (replicate n t) ws s = Some (ws[t := ?w\<lparr>wr_pc := Written\<rparr>], s')"
      by (auto simp: returns_def)
    have "9 < n" using run_early [OF n t(1)] t by (force simp: write_stage_def)
    then have "replicate n t = replicate 9 t @ replicate (n - 9) t" by (simp flip: replicate_add)
    with n obtain s1 where "?put = Some s1"
      "run_schedule (replicate (n - 9) t) (ws[t := ?w\<lparr>wr_pc := At_total\<rparr>]) s1 = Some (ws[t := ?w\<lparr>wr_pc := Written\<rparr>], s')"
      by (auto simp: run_threads_append run_put [OF t] bind_eq_Some_conv)
    moreover from this(2) have "returns t (ws[t := ?w\<lparr>wr_pc := At_total\<rparr>]) s1 s'" unfolding returns_def done_eq by blast
    ultimately show "Option.bind ?put db_check = Some s'" using total by simp
  next
    assume "Option.bind ?put db_check = Some s'"
    then obtain s1 where s1: "?put = Some s1" "db_check s1 = Some s'" by (auto simp: bind_eq_Some_conv)
    then obtain n where n: "run_schedule (replicate n t) (ws[t := ?w\<lparr>wr_pc := At_total\<rparr>]) s1 = Some (ws[t := ?w\<lparr>wr_pc := Written\<rparr>], s')"
      using total [of s1] unfolding returns_def done_eq by blast
    have "run_schedule (replicate (9 + n) t) ws s = Some (ws[t := ?w\<lparr>wr_pc := Written\<rparr>], s')"
      unfolding replicate_add run_threads_append run_put [OF t] by (simp add: s1(1) n)
    then show "returns t ws s s'" unfolding returns_def by blast
  }
qed

lemma returns_write:
  assumes "get_key_string key = Some k" and "t < length ws" and "ws ! t = writer_start rnd k value"
  shows "returns t ws s s' \<longleftrightarrow> DBSystem_write rnd key value s = Some s'"
  using returns_put [of t ws s s'] assms by (simp add: writer_start_def write_split)

end
