(* ===== verification/Write_Race.thy ===== *)
theory Write_Race
  imports Write_Steps
begin

text \<open>
  What can go wrong between concurrent calls of \<^verbatim>\<open>DBSystem::write\<close>: two writers of one key
  (\<open>write_race\<close>).
\<close>

lemma run_total:
  assumes "t < length ws" and "wr_pc (ws ! t) = At_total"
    and "get_total_items (db_mem s) = Some y" and "y < int RECORD_BUFF_SIZE"
  shows "run_schedule [t] ws s = Some (ws[t := (ws ! t)\<lparr>wr_pc := Written\<rparr>], s)"
  using assms by (simp add: writer_step_def)

subsection \<open>Two writers of one key\<close>

lemma log_step:
  assumes ok: "db_ok s" and val: "RECORD_VALUE_LEN \<le> length value"
    and log: "dm_curr_log_len (db_disk s) + sizeof_Record < 2 ^ 31"
  shows "\<exists>full. write_to_log (record_bytes (new_record k value)) (db_disk s)
      = Some (full, log_append (new_record k value) (db_disk s))"
    and "db_ok (s\<lparr>db_disk := log_append (new_record k value) (db_disk s)\<rparr>)"
proof -
  let ?r = "new_record k value"
  have len: "length (record_bytes ?r) = sizeof_Record"
    using val by (intro length_record_bytes) (simp add: new_record_def)
  obtain p bs where p: "dm_curr_log_fd (db_disk s) = Some p" "dm_files (db_disk s) p = Some bs"
    using ok by (auto simp: db_ok_def)
  show "\<exists>full. write_to_log (record_bytes ?r) (db_disk s) = Some (full, log_append ?r (db_disk s))"
    using write_to_log_eq [OF p, of "record_bytes ?r"] log len p by (auto simp: log_append_def write_fd_def)
  show "db_ok (s\<lparr>db_disk := log_append ?r (db_disk s)\<rparr>)"
    using ok p by (auto simp: db_ok_def slot_of_disk log_append_def write_fd_def)
qed

text \<open>The rest of a write that has logged before.\<close>

lemma put_rest_ok:
  assumes ok: "db_ok s" and val: "RECORD_VALUE_LEN \<le> length (wr_value w)"
    and free: "bf_empty (db_buffer s) \<noteq> []" and log: "dm_curr_log_len (db_disk s) + sizeof_Record < 2 ^ 31"
  shows "\<exists>s'. put_rest w s = Some s' \<and> db_ok s' \<and> db_map s' = (db_map s)(wr_key w \<mapsto> take RECORD_VALUE_LEN (wr_value w))
    \<and> db_disk s' = db_disk s"
proof -
  obtain t where t: "db_put (wr_rnd w) (wr_key w) (wr_value w) s = Some t" "db_step (wr_key w) (wr_value w) s t"
    using db_put_ok [OF ok val free log] by blast
  from t(1) val obtain full disk where "put_rest w (s\<lparr>db_disk := disk\<rparr>) = Some t"
    by (auto simp: db_put_rest [of w] make_record_eq bind_eq_Some_conv)
  then obtain s' where s': "put_rest w s = Some s'" "t = s'\<lparr>db_disk := disk\<rparr>" by (auto simp: put_rest_disk)
  have disk: "db_disk s' = db_disk s" using s'(1) by (auto simp: put_rest_def bind_eq_Some_conv)
  have "s' = t\<lparr>db_disk := db_disk s\<rparr>" using s'(2) disk by simp
  moreover have "db_ok (t\<lparr>db_disk := db_disk s\<rparr>)" using t(2) ok by (auto simp: db_step_def db_ok_def slot_of_disk)
  moreover have "db_map (t\<lparr>db_disk := db_disk s\<rparr>) = (db_map s)(wr_key w \<mapsto> take RECORD_VALUE_LEN (wr_value w))"
    using t(2) by (simp add: db_step_def slot_of_disk)
  ultimately show ?thesis using s'(1) disk by auto
qed

text \<open>
  The first writer logs its record, then the second one makes its whole write, then the first one
  goes on.
\<close>

definition crossed :: "nat list" where
  "crossed = [0] @ replicate 9 1 @ [1] @ replicate 8 0 @ [0]"

lemma crossed_run:
  assumes ok: "db_ok s"
    and val: "RECORD_VALUE_LEN \<le> length v1" "RECORD_VALUE_LEN \<le> length v2"
    and free: "2 \<le> length (bf_empty (db_buffer s))" and small: "card (insert k (dom (db_map s))) < RECORD_BUFF_SIZE"
    and log: "dm_curr_log_len (db_disk s) + 3 * sizeof_Record < 2 ^ 31"
  shows "\<exists>ws s'. run_schedule crossed [writer_start g k v1, writer_start g k v2] s = Some (ws, s')
    \<and> map wr_pc ws = [Written, Written] \<and> db_ok s' \<and> db_map s' = (db_map s)(k \<mapsto> take RECORD_VALUE_LEN v1)
    \<and> db_disk s' = log_append (new_record k v2) (log_append (new_record k v1) (db_disk s))"
proof -
  let ?w1 = "writer_start g k v1" and ?w2 = "writer_start g k v2"
  let ?s1 = "s\<lparr>db_disk := log_append (new_record k v1) (db_disk s)\<rparr>"
  have len: "dm_curr_log_len (db_disk ?s1) = dm_curr_log_len (db_disk s) + sizeof_Record" by (simp add: log_append_def)
  obtain full where wl: "write_to_log (record_bytes (new_record k v1)) (db_disk s) = Some (full, log_append (new_record k v1) (db_disk s))"
    and ok1: "db_ok ?s1" using log_step [OF ok val(1), of k] log by auto
  have step: "writer_step ?w1 s = Some (?w1\<lparr>wr_pc := At_slot\<rparr>, ?s1)"
    using wl val(1) by (simp add: writer_step_def writer_start_def make_record_eq)
  have "bf_empty (db_buffer s) \<noteq> []" using free by auto
  then obtain s2 where s2: "db_put g k v2 ?s1 = Some s2" "db_step k v2 ?s1 s2"
    using db_put_ok [OF ok1 val(2), of g k] log len by auto
  have pc: "wr_pc ?w1 = At_log" "wr_pc ?w2 = At_log" by (simp_all add: writer_start_def)
  have run2: "run_schedule (replicate 9 1) [?w1\<lparr>wr_pc := At_slot\<rparr>, ?w2] ?s1
      = Some ([?w1\<lparr>wr_pc := At_slot\<rparr>, ?w2\<lparr>wr_pc := At_total\<rparr>], s2)"
    using run_put [of 1 "[?w1\<lparr>wr_pc := At_slot\<rparr>, ?w2]" ?s1] s2(1) by (simp add: writer_start_def)
  let ?v = "?w1\<lparr>wr_pc := At_slot\<rparr>"
  have v: "wr_value ?v = v1" "wr_key ?v = k" by (simp_all add: writer_start_def)
  have "bf_empty (db_buffer s2) = butlast (bf_empty (db_buffer s))"
    and disk2: "db_disk s2 = log_append (new_record k v2) (db_disk ?s1)" and ok2: "db_ok s2"
    and map2: "db_map s2 = (db_map s)(k \<mapsto> take RECORD_VALUE_LEN v2)"
    using s2(2) by (simp_all add: db_step_def slot_of_disk)
  then have "length (bf_empty (db_buffer s2)) \<noteq> 0" using free by simp
  moreover have "dm_curr_log_len (db_disk s2) + sizeof_Record < 2 ^ 31"
    using log len by (simp add: disk2 log_append_def)
  ultimately obtain s3 where s3: "put_rest ?v s2 = Some s3" "db_ok s3"
    "db_map s3 = (db_map s2)(k \<mapsto> take RECORD_VALUE_LEN v1)" "db_disk s3 = db_disk s2"
    using put_rest_ok [OF ok2, of ?v] val(1) unfolding v by auto
  have run3: "run_schedule (replicate 8 0) [?v, ?w2\<lparr>wr_pc := Written\<rparr>] s2
      = Some ([?w1\<lparr>wr_pc := At_total\<rparr>, ?w2\<lparr>wr_pc := Written\<rparr>], s3)"
    using run_rest [of 0 "[?v, ?w2\<lparr>wr_pc := Written\<rparr>]" s2] s3(1) by simp
  have total: "get_total_items (db_mem u) = Some (int (card (insert k (dom (db_map s)))))" if "u \<in> {s2, s3}" for u
    using that db_total [OF db_ok_core [OF ok2]] db_total [OF db_ok_core [OF s3(2)]] s3(3) map2 by auto
  have end2: "run_schedule [1] [?v, ?w2\<lparr>wr_pc := At_total\<rparr>] s2 = Some ([?v, ?w2\<lparr>wr_pc := Written\<rparr>], s2)"
    using run_total [of 1 "[?v, ?w2\<lparr>wr_pc := At_total\<rparr>]", OF _ _ total] small by simp
  have end3: "run_schedule [0] [?w1\<lparr>wr_pc := At_total\<rparr>, ?w2\<lparr>wr_pc := Written\<rparr>] s3
      = Some ([?w1\<lparr>wr_pc := Written\<rparr>, ?w2\<lparr>wr_pc := Written\<rparr>], s3)"
    using run_total [of 0 "[?w1\<lparr>wr_pc := At_total\<rparr>, ?w2\<lparr>wr_pc := Written\<rparr>]", OF _ _ total] small by simp
  have "run_schedule [0] [?w1, ?w2] s = Some ([?v, ?w2], ?s1)" using step by simp
  then have "run_schedule crossed [?w1, ?w2] s = Some ([?w1\<lparr>wr_pc := Written\<rparr>, ?w2\<lparr>wr_pc := Written\<rparr>], s3)"
    unfolding crossed_def run_threads_append using run2 run3 end2 end3
    by (simp del: run_threads.simps add: run_threads_append)
  moreover have "db_map s3 = (db_map s)(k \<mapsto> take RECORD_VALUE_LEN v1)" using s3(3) map2 by simp
  ultimately show ?thesis using s3(2,4) disk2 by (auto simp: map2)
qed

text \<open>C23: Two concurrent writes of one key can end in a state that a crash changes: there is a
  schedule after which both have returned and every read gives the value of the first writer, while
  the log has the two records in the other order; a new process that recovers from the files which
  are then on disk reads the value of the second writer. No lock covers a write as a whole.\<close>

theorem write_race:
  assumes nf: "no_files base fs" and key: "get_key_string key = Some k"
    and val: "RECORD_VALUE_LEN \<le> length v1" "RECORD_VALUE_LEN \<le> length v2"
  shows "\<exists>s0 ws s s'. DBSystem_init g g' base fs = Some s0
    \<and> run_schedule crossed [writer_start r k v1, writer_start r k v2] s0 = Some (ws, s)
    \<and> map wr_pc ws = [Written, Written] \<and> DBSystem_read key s = Some (take RECORD_VALUE_LEN v1, s)
    \<and> DBSystem_init h h' base (dm_files (db_disk s)) = Some s'
    \<and> DBSystem_read key s' = Some (take RECORD_VALUE_LEN v2, s')"
proof -
  let ?hot = "the (path_join [base, HOT_LOG])"
  obtain s0 where s0: "DBSystem_init g g' base fs = Some s0" "db_ok s0" "db_map s0 = Map.empty"
    "length (bf_empty (db_buffer s0)) = RECORD_BUFF_SIZE"
    and d: "dm_curr_log_len (db_disk s0) = 0" "dm_curr_log_fd (db_disk s0) = Some ?hot" "dm_files (db_disk s0) = fs(?hot \<mapsto> [])"
    using fresh_db [OF nf, of g g'] by blast
  have "2 \<le> length (bf_empty (db_buffer s0))" "card (insert k (dom (db_map s0))) < RECORD_BUFF_SIZE"
    "dm_curr_log_len (db_disk s0) + 3 * sizeof_Record < 2 ^ 31"
    using s0(3,4) d(1) by (simp_all add: RECORD_BUFF_SIZE_def sizeof_Record_def RECORD_VALUE_LEN_def)
  note run = crossed_run [OF s0(2) val this, of r, unfolded s0(3)]
  obtain ws s where
    s: "run_schedule crossed [writer_start r k v1, writer_start r k v2] s0 = Some (ws, s)" "map wr_pc ws = [Written, Written]"
      "db_ok s" "db_map s = Map.empty(k \<mapsto> take RECORD_VALUE_LEN v1)"
      "db_disk s = log_append (new_record k v2) (log_append (new_record k v1) (db_disk s0))"
    using run by (elim exE conjE)
  let ?rs = "[new_record k v1, new_record k v2]"
  have files: "dm_files (db_disk s) = fs(?hot \<mapsto> log_bytes ?rs)"
    by (simp add: s(5) log_append_def d write_fd_def log_bytes_def del: path_join.simps)
  have sized: "\<forall>r \<in> set ?rs. sized r" using val by (simp add: sized_def new_record_def)
  have "length ?rs < RECORD_BUFF_SIZE" by (simp add: RECORD_BUFF_SIZE_def)
  from recover_hot [OF nf files sized this, of h h'] key obtain s' where s': "DBSystem_init h h' base (dm_files (db_disk s)) = Some s'"
    "DBSystem_read key s' = Some (take RECORD_VALUE_LEN v2, s')"
    by (auto simp: log_map_def new_record_def get_value_def)
  have "DBSystem_read key s = Some (take RECORD_VALUE_LEN v1, s)"
    using db_read_eq [OF db_ok_core [OF s(3)] key] by (simp add: s(4))
  with s0(1) s(1,2) s' show ?thesis by (intro exI conjI) assumption+
qed

theorem write_race_witness:
  "\<exists>s0 ws s s'. DBSystem_init (\<lambda>_ _. 1) (\<lambda>_ _. 1) [100] Map.empty = Some s0
    \<and> run_schedule crossed [writer_start (\<lambda>_. 1) (key_of one_write) (replicate RECORD_VALUE_LEN 7),
        writer_start (\<lambda>_. 1) (key_of one_write) (replicate RECORD_VALUE_LEN 8)] s0 = Some (ws, s)
    \<and> DBSystem_read (cstr ''abcdefgh'') s = Some (replicate RECORD_VALUE_LEN 7, s)
    \<and> DBSystem_init (\<lambda>_ _. 1) (\<lambda>_ _. 1) [100] (dm_files (db_disk s)) = Some s'
    \<and> DBSystem_read (cstr ''abcdefgh'') s' = Some (replicate RECORD_VALUE_LEN 8, s')"
  using write_race [OF no_files_empty one_write_valid(2), of "replicate RECORD_VALUE_LEN 7" "replicate RECORD_VALUE_LEN 8"
      "\<lambda>_ _. 1" "\<lambda>_ _. 1" "\<lambda>_. 1" "\<lambda>_ _. 1" "\<lambda>_ _. 1"]
  by auto

end
