(* ===== verification/Concurrent_Writes.thy ===== *)
theory Concurrent_Writes
  imports Write_Race DB_Dump
begin

text \<open>
  Any number of concurrent writers, under every schedule, as long as no generation gets full. What
  the writers hold is \<open>slot_held\<close>, \<open>accessed\<close>, \<open>list_held\<close>; the invariant \<open>writers_ok\<close> relates it
  to the parts of the state. The interpretation \<open>writers\<close> of \<open>staged_threads\<close> rests on one lemma per
  step.
\<close>

subsection \<open>What a writer holds\<close>

definition accessed :: "writer \<Rightarrow> nat option" where
  "accessed w = (case wr_pc w of At_copy i \<Rightarrow> Some i | At_end i \<Rightarrow> Some i | _ \<Rightarrow> None)"

definition copied :: "writer \<Rightarrow> (nat \<times> Record) option" where
  "copied w = (case wr_pc w of
     At_end i \<Rightarrow> Some (i, new_record (wr_key w) (wr_value w))
   | At_hash i \<Rightarrow> Some (i, new_record (wr_key w) (wr_value w)) | _ \<Rightarrow> None)"

definition list_held :: "writer \<Rightarrow> nat option" where
  "list_held w = (case wr_pc w of At_update _ p \<Rightarrow> Some p | At_unlock p \<Rightarrow> Some p | _ \<Rightarrow> None)"

definition not_before :: "nat \<Rightarrow> writer list \<Rightarrow> nat" where
  "not_before n ws = pending (\<lambda>w. write_stage w \<le> n) ws"

subsection \<open>The invariant\<close>

text \<open>
  The parts: the log, the slots, the hash index, the memory tables. Each has room for the writers
  that still come.
\<close>

definition log_part :: "writer list \<Rightarrow> DiskManager \<Rightarrow> bool" where
  "log_part ws d \<longleftrightarrow> (\<exists>p bs. dm_curr_log_fd d = Some p \<and> dm_files d p = Some bs)
     \<and> dm_curr_log_len d + not_before 0 ws * sizeof_Record < 2 ^ 31"

definition slot_part :: "writer list \<Rightarrow> Buffer \<Rightarrow> bool" where
  "slot_part ws b \<longleftrightarrow> buffer_inv b \<and> not_before 1 ws \<le> length (bf_empty b)
     \<and> apart slot_held ws \<and> taken slot_held ws \<subseteq> in_use b
     \<and> (\<forall>i < RECORD_BUFF_SIZE. bf_accessing b ! i \<longleftrightarrow> i \<in> taken accessed ws)
     \<and> (\<forall>(i, r) \<in> taken copied ws. bf_data b ! i = r)"

definition index_part :: "writer list \<Rightarrow> DBSystem \<Rightarrow> bool" where
  "index_part ws s \<longleftrightarrow> index_inv (db_hash s) \<and> card (dom (slot_of s)) + not_before 5 ws < 11662
     \<and> ran (slot_of s) \<subseteq> in_use (db_buffer s) - taken slot_held ws
     \<and> inj_on (slot_of s) (dom (slot_of s))"

definition items :: "MemTables \<Rightarrow> nat" where
  "items m = sum_list (map (\<lambda>p. card (dom (list_map (mt_heap m) p))) (mt_current m))"

definition table_part :: "writer list \<Rightarrow> MemTables \<Rightarrow> bool" where
  "table_part ws m \<longleftrightarrow> tables_ok m \<and> mt_current m \<noteq> [] \<and> items m + not_before 7 ws < RECORD_BUFF_SIZE
     \<and> apart list_held ws \<and> taken list_held ws \<subseteq> set (mt_current m)
     \<and> (\<forall>p \<in> set (mt_current m). unlocked (mt_heap m) p \<longleftrightarrow> p \<notin> taken list_held ws)"

definition writers_ok :: "writer list \<Rightarrow> DBSystem \<Rightarrow> bool" where
  "writers_ok ws s \<longleftrightarrow> log_part ws (db_disk s) \<and> slot_part ws (db_buffer s) \<and> index_part ws s
     \<and> table_part ws (db_mem s)
     \<and> (\<forall>w \<in> set ws. RECORD_VALUE_LEN \<le> length (wr_value w) \<and> write_stage w \<le> 10)"

text \<open>A part does not mind steps that leave what it looks at.\<close>

lemma not_before_same:
  "t < length ws \<Longrightarrow> write_stage w \<le> n \<longleftrightarrow> write_stage (ws ! t) \<le> n \<Longrightarrow> not_before n (ws[t := w]) = not_before n ws"
  by (simp add: not_before_def pending_same)

lemma not_before_less:
  "t < length ws \<Longrightarrow> write_stage (ws ! t) = n \<Longrightarrow> write_stage w = Suc n \<Longrightarrow> Suc (not_before n (ws[t := w])) = not_before n ws"
  by (simp add: not_before_def pending_less)

lemma log_part_same:
  "t < length ws \<Longrightarrow> write_stage w \<le> 0 \<longleftrightarrow> write_stage (ws ! t) \<le> 0 \<Longrightarrow> log_part (ws[t := w]) d = log_part ws d"
  by (simp add: log_part_def not_before_same)

lemma slot_part_same:
  "t < length ws \<Longrightarrow> write_stage w \<le> 1 \<longleftrightarrow> write_stage (ws ! t) \<le> 1 \<Longrightarrow> slot_held w = slot_held (ws ! t)
    \<Longrightarrow> accessed w = accessed (ws ! t) \<Longrightarrow> copied w = copied (ws ! t) \<Longrightarrow> slot_part (ws[t := w]) b = slot_part ws b"
  by (simp add: slot_part_def not_before_same taken_same apart_same)

lemma index_part_same:
  "t < length ws \<Longrightarrow> write_stage w \<le> 5 \<longleftrightarrow> write_stage (ws ! t) \<le> 5 \<Longrightarrow> slot_held w = slot_held (ws ! t)
    \<Longrightarrow> slot_of s' = slot_of s \<Longrightarrow> db_hash s' = db_hash s \<Longrightarrow> in_use (db_buffer s') = in_use (db_buffer s)
    \<Longrightarrow> index_part (ws[t := w]) s' = index_part ws s"
  by (simp add: index_part_def not_before_same taken_same)

lemma table_part_same:
  "t < length ws \<Longrightarrow> write_stage w \<le> 7 \<longleftrightarrow> write_stage (ws ! t) \<le> 7 \<Longrightarrow> list_held w = list_held (ws ! t)
    \<Longrightarrow> table_part (ws[t := w]) m = table_part ws m"
  by (simp add: table_part_def not_before_same taken_same apart_same)

lemmas part_same = log_part_same slot_part_same index_part_same table_part_same

lemma slot_of_simps [simp]:
  "slot_of (s\<lparr>db_disk := d\<rparr>) = slot_of s" "slot_of (s\<lparr>db_buffer := b\<rparr>) = slot_of s" "slot_of (s\<lparr>db_mem := m\<rparr>) = slot_of s"
  by (simp_all add: slot_of_def fun_eq_iff)

lemma db_map_simps [simp]:
  "db_map (s\<lparr>db_disk := d\<rparr>) = db_map s" "db_map (s\<lparr>db_mem := m\<rparr>) = db_map s"
  by (simp_all add: db_map_def [abs_def])

lemmas held_defs = slot_held_def accessed_def copied_def list_held_def write_stage_def

subsection \<open>The steps\<close>

text \<open>
  A step of the writer \<open>t\<close> that succeeds: the invariant afterwards, the next stage, and what it
  does to the map that reads see and to the log.
\<close>

definition write_map :: "writer \<Rightarrow> (KEY_T \<Rightarrow> u8 list option) \<Rightarrow> KEY_T \<Rightarrow> u8 list option" where
  "write_map w m = m(wr_key w \<mapsto> take RECORD_VALUE_LEN (wr_value w))"

definition write_log :: "writer \<Rightarrow> DiskManager \<Rightarrow> DiskManager" where
  "write_log w = log_append (new_record (wr_key w) (wr_value w))"

definition good_step :: "nat \<Rightarrow> writer list \<Rightarrow> DBSystem \<Rightarrow> bool" where
  "good_step t ws s \<longleftrightarrow> (\<exists>w s'. writer_step (ws ! t) s = Some (w, s') \<and> writers_ok (ws[t := w]) s'
     \<and> write_stage w = Suc (write_stage (ws ! t)) \<and> wr_key w = wr_key (ws ! t) \<and> wr_value w = wr_value (ws ! t)
     \<and> db_map s' = (if write_stage (ws ! t) = 5 then write_map (ws ! t) (db_map s) else db_map s)
     \<and> db_disk s' = (if write_stage (ws ! t) = 0 then write_log (ws ! t) (db_disk s) else db_disk s))"

lemma writers_okI:
  assumes "writers_ok ws s" and "t < length ws" and "wr_value w = wr_value (ws ! t)" and "write_stage w \<le> 10"
    and "log_part (ws[t := w]) (db_disk s')" and "slot_part (ws[t := w]) (db_buffer s')"
    and "index_part (ws[t := w]) s'" and "table_part (ws[t := w]) (db_mem s')"
  shows "writers_ok (ws[t := w]) s'"
proof -
  have "RECORD_VALUE_LEN \<le> length (wr_value v) \<and> write_stage v \<le> 10" if "v \<in> set (ws[t := w])" for v
  proof (cases "v = w")
    case True
    then show ?thesis using assms(1-4) by (auto simp: writers_ok_def)
  next
    case False
    then have "v \<in> set ws" using that set_update_subset_insert [of ws t w] by auto
    then show ?thesis using assms(1) by (auto simp: writers_ok_def)
  qed
  with assms(5-8) show ?thesis by (simp add: writers_ok_def)
qed

lemma step_log:
  assumes ok: "writers_ok ws s" and t: "t < length ws" and pc: "wr_pc (ws ! t) = At_log"
  shows "good_step t ws s"
proof -
  let ?w = "(ws ! t)\<lparr>wr_pc := At_slot\<rparr>"
  let ?r = "new_record (wr_key (ws ! t)) (wr_value (ws ! t))"
  let ?s = "s\<lparr>db_disk := log_append ?r (db_disk s)\<rparr>"
  note parts = ok [unfolded writers_ok_def]
  have val: "RECORD_VALUE_LEN \<le> length (wr_value (ws ! t))" using parts t by simp
  obtain p bs where p: "dm_curr_log_fd (db_disk s) = Some p" "dm_files (db_disk s) p = Some bs"
    using parts by (auto simp: log_part_def)
  have n: "Suc (not_before 0 (ws[t := ?w])) = not_before 0 ws"
    using t pc by (intro not_before_less) (simp_all add: write_stage_def)
  have len: "length (record_bytes ?r) = sizeof_Record"
    using val by (intro length_record_bytes) (simp add: new_record_def)
  have log: "dm_curr_log_len (db_disk s) + sizeof_Record + not_before 0 (ws[t := ?w]) * sizeof_Record < 2 ^ 31"
    using parts by (simp add: log_part_def flip: n)
  then obtain full where "write_to_log (record_bytes ?r) (db_disk s) = Some (full, log_append ?r (db_disk s))"
    using write_to_log_eq [OF p, of "record_bytes ?r"] len p by (auto simp: log_append_def write_fd_def)
  then have "writer_step (ws ! t) s = Some (?w, ?s)"
    using pc val by (simp add: writer_step_def make_record_eq)
  moreover have "writers_ok (ws[t := ?w]) ?s"
  proof (rule writers_okI [OF ok t])
    show "log_part (ws[t := ?w]) (db_disk ?s)"
      using log p by (simp add: log_part_def log_append_def write_fd_def)
  qed (use parts t pc in \<open>simp_all add: part_same held_defs\<close>)
  ultimately show ?thesis using pc unfolding good_step_def by (intro exI conjI) (assumption | simp add: write_stage_def write_log_def)+
qed

lemma good_stepI:
  assumes "writer_step (ws ! t) s = Some (w, s')" and "writers_ok (ws[t := w]) s'"
    and "write_stage w = Suc (write_stage (ws ! t))"
    and "db_map s' = (if write_stage (ws ! t) = 5 then write_map (ws ! t) (db_map s) else db_map s)"
    and "db_disk s' = (if write_stage (ws ! t) = 0 then write_log (ws ! t) (db_disk s) else db_disk s)"
  shows "good_step t ws s"
proof -
  have "wr_key w = wr_key (ws ! t) \<and> wr_value w = wr_value (ws ! t)"
    using writer_step_keeps [OF assms(1)] by (metis writer.select_convs(1,2) writer.surjective writer.update_convs(4))
  with assms show ?thesis unfolding good_step_def by blast
qed

lemma db_map_buffer:
  "bf_data b = bf_data (db_buffer s) \<Longrightarrow> db_map (s\<lparr>db_buffer := b\<rparr>) = db_map s"
  by (simp add: db_map_def [abs_def])

lemma step_slot:
  assumes ok: "writers_ok ws s" and t: "t < length ws" and pc: "wr_pc (ws ! t) = At_slot"
  shows "good_step t ws s"
proof -
  note parts = ok [unfolded writers_ok_def]
  have sp: "slot_part ws (db_buffer s)" using parts by simp
  let ?i = "last (bf_empty (db_buffer s))"
  let ?w = "(ws ! t)\<lparr>wr_pc := At_access ?i\<rparr>"
  have n: "Suc (not_before 1 (ws[t := ?w])) = not_before 1 ws"
    using t pc by (intro not_before_less) (simp_all add: write_stage_def)
  then have free: "bf_empty (db_buffer s) \<noteq> []" using sp by (auto simp: slot_part_def)
  have inv: "buffer_inv (db_buffer s)" using sp by (simp add: slot_part_def)
  from request_ok [OF inv free] obtain b where b: "request_record_buff (db_buffer s) = Some (?i, b)" "buffer_inv b"
    "bf_empty b = butlast (bf_empty (db_buffer s))" "in_use b = insert ?i (in_use (db_buffer s))"
    "bf_data b = bf_data (db_buffer s)" "bf_accessing b = bf_accessing (db_buffer s)" by blast
  have new: "?i \<notin> in_use (db_buffer s)"
  proof -
    have "?i \<in> set (bf_empty (db_buffer s))" using free by simp
    with inv show ?thesis by (auto simp: buffer_inv_def in_use_def)
  qed
  have taken: "taken slot_held (ws[t := ?w]) = insert ?i (taken slot_held ws)"
    using t pc by (intro taken_take) (simp_all add: slot_held_def)
  have "?i \<notin> taken slot_held ws" using sp new by (auto simp: slot_part_def)
  then have apart: "apart slot_held (ws[t := ?w])"
    using sp t by (intro apart_take [where a = ?i]) (simp_all add: slot_held_def slot_part_def)
  have same: "taken accessed (ws[t := ?w]) = taken accessed ws" "taken copied (ws[t := ?w]) = taken copied ws"
    using t pc by (simp_all add: taken_same held_defs)
  show ?thesis
  proof (rule good_stepI)
    show "writer_step (ws ! t) s = Some (?w, s\<lparr>db_buffer := b\<rparr>)" using pc b(1) by (simp add: writer_step_def)
    show "writers_ok (ws[t := ?w]) (s\<lparr>db_buffer := b\<rparr>)"
    proof (rule writers_okI [OF ok t])
      show "slot_part (ws[t := ?w]) (db_buffer (s\<lparr>db_buffer := b\<rparr>))"
        using sp n apart b unfolding slot_part_def taken same by auto
      have "not_before 5 (ws[t := ?w]) = not_before 5 ws"
        using t pc by (simp add: not_before_same write_stage_def)
      then show "index_part (ws[t := ?w]) (s\<lparr>db_buffer := b\<rparr>)"
        using parts new b(4) unfolding index_part_def taken by auto
    qed (use parts t pc in \<open>simp_all add: part_same held_defs\<close>)
    show "db_map (s\<lparr>db_buffer := b\<rparr>) = (if write_stage (ws ! t) = 5 then write_map (ws ! t) (db_map s) else db_map s)"
      using pc by (simp add: db_map_buffer [OF b(5)] write_stage_def)
  qed (simp_all add: pc write_stage_def)
qed

text \<open>The slot that a writer holds is its own.\<close>

lemma own_slot:
  assumes ok: "writers_ok ws s" and t: "t < length ws" and i: "slot_held (ws ! t) = Some i"
  shows "i < RECORD_BUFF_SIZE" and "i \<in> in_use (db_buffer s)" and "i \<notin> ran (slot_of s)"
    and "i < length (bf_data (db_buffer s))" and "i < length (bf_accessing (db_buffer s))"
    and "(j, r) \<in> taken copied ws \<Longrightarrow> copied (ws ! t) = None \<Longrightarrow> j \<noteq> i"
proof -
  note parts = ok [unfolded writers_ok_def]
  have sp: "slot_part ws (db_buffer s)" using parts by simp
  have "i \<in> taken slot_held ws" using t i by (rule taken_nth)
  then show use: "i \<in> in_use (db_buffer s)" "i \<notin> ran (slot_of s)" using parts by (auto simp: slot_part_def index_part_def)
  have inv: "buffer_inv (db_buffer s)" using sp by (simp add: slot_part_def)
  show "i < RECORD_BUFF_SIZE" using in_use_bound [OF inv use(1)] .
  then show "i < length (bf_data (db_buffer s))" "i < length (bf_accessing (db_buffer s))"
    using inv by (simp_all add: buffer_inv_def)
  assume none: "(j, r) \<in> taken copied ws" "copied (ws ! t) = None"
  then obtain u where u: "u < length ws" "copied (ws ! u) = Some (j, r)" by (auto elim: takenE)
  with none(2) have "u \<noteq> t" by auto
  moreover have "slot_held (ws ! u) = Some j" using u(2) by (auto simp: copied_def slot_held_def split: write_pc.splits)
  ultimately show "j \<noteq> i" using sp u(1) \<open>u \<noteq> t\<close> t i apartD [of slot_held ws u t i] by (auto simp: slot_part_def)
qed

lemma step_access:
  assumes ok: "writers_ok ws s" and t: "t < length ws" and pc: "wr_pc (ws ! t) = At_access i"
  shows "good_step t ws s"
proof -
  note parts = ok [unfolded writers_ok_def]
  have sp: "slot_part ws (db_buffer s)" using parts by simp
  have held: "slot_held (ws ! t) = Some i" using pc by (simp add: slot_held_def)
  note own = own_slot [OF ok t held]
  let ?w = "(ws ! t)\<lparr>wr_pc := At_copy i\<rparr>"
  have "i \<notin> taken accessed ws"
  proof
    assume "i \<in> taken accessed ws"
    then obtain u where u: "u < length ws" "accessed (ws ! u) = Some i" by (auto elim: takenE)
    then have "slot_held (ws ! u) = Some i" by (auto simp: accessed_def slot_held_def split: write_pc.splits)
    then have "u = t" using sp u(1) t held apartD [of slot_held ws u t i] by (auto simp: slot_part_def)
    with u(2) pc show False by (simp add: accessed_def)
  qed
  then have "\<not> bf_accessing (db_buffer s) ! i" using sp own(1) by (simp add: slot_part_def)
  then have wait: "wait_for_access i (db_buffer s)
      = Some ((db_buffer s)\<lparr>bf_accessing := (bf_accessing (db_buffer s))[i := True]\<rparr>)" (is "_ = Some ?b")
    using own(5) by (simp add: wait_for_access_def)
  have taken: "taken accessed (ws[t := ?w]) = insert i (taken accessed ws)"
    using t pc by (intro taken_take) (simp_all add: accessed_def)
  have same: "taken slot_held (ws[t := ?w]) = taken slot_held ws" "taken copied (ws[t := ?w]) = taken copied ws"
    "apart slot_held (ws[t := ?w]) = apart slot_held ws" "not_before 1 (ws[t := ?w]) = not_before 1 ws"
    using t pc by (simp_all add: taken_same apart_same not_before_same held_defs)
  show ?thesis
  proof (rule good_stepI)
    show "writer_step (ws ! t) s = Some (?w, s\<lparr>db_buffer := ?b\<rparr>)" using pc wait by (simp add: writer_step_def)
    show "writers_ok (ws[t := ?w]) (s\<lparr>db_buffer := ?b\<rparr>)"
    proof (rule writers_okI [OF ok t])
      show "slot_part (ws[t := ?w]) (db_buffer (s\<lparr>db_buffer := ?b\<rparr>))"
        using sp own(5) unfolding slot_part_def taken same
        by (auto simp: buffer_inv_def in_use_def nth_list_update)
    qed (use parts t pc in \<open>simp_all add: part_same held_defs in_use_def\<close>)
    show "db_map (s\<lparr>db_buffer := ?b\<rparr>) = (if write_stage (ws ! t) = 5 then write_map (ws ! t) (db_map s) else db_map s)"
      using pc by (simp add: db_map_buffer write_stage_def)
  qed (simp_all add: pc write_stage_def)
qed

lemma step_copy:
  assumes ok: "writers_ok ws s" and t: "t < length ws" and pc: "wr_pc (ws ! t) = At_copy i"
  shows "good_step t ws s"
proof -
  note parts = ok [unfolded writers_ok_def]
  have sp: "slot_part ws (db_buffer s)" using parts by simp
  have held: "slot_held (ws ! t) = Some i" using pc by (simp add: slot_held_def)
  note own = own_slot [OF ok t held]
  let ?w = "(ws ! t)\<lparr>wr_pc := At_end i\<rparr>"
  let ?r = "new_record (wr_key (ws ! t)) (wr_value (ws ! t))"
  let ?b = "(db_buffer s)\<lparr>bf_data := (bf_data (db_buffer s))[i := ?r]\<rparr>"
  have val: "RECORD_VALUE_LEN \<le> length (wr_value (ws ! t))" using parts t by simp
  have taken: "taken copied (ws[t := ?w]) = insert (i, ?r) (taken copied ws)"
    using t pc by (intro taken_take) (simp_all add: copied_def)
  have other: "j \<noteq> i" if "(j, r) \<in> taken copied ws" for j r
    using own(6) [OF that] pc by (simp add: copied_def)
  have same: "taken slot_held (ws[t := ?w]) = taken slot_held ws" "taken accessed (ws[t := ?w]) = taken accessed ws"
    "apart slot_held (ws[t := ?w]) = apart slot_held ws" "not_before 1 (ws[t := ?w]) = not_before 1 ws"
    using t pc by (simp_all add: taken_same apart_same not_before_same held_defs)
  show ?thesis
  proof (rule good_stepI)
    show "writer_step (ws ! t) s = Some (?w, s\<lparr>db_buffer := ?b\<rparr>)"
      using pc val own(4) by (simp add: writer_step_def make_record_eq set_record_def)
    show "writers_ok (ws[t := ?w]) (s\<lparr>db_buffer := ?b\<rparr>)"
    proof (rule writers_okI [OF ok t])
      show "slot_part (ws[t := ?w]) (db_buffer (s\<lparr>db_buffer := ?b\<rparr>))"
        using sp own(4) other unfolding slot_part_def taken same
        by (fastforce simp: buffer_inv_def in_use_def nth_list_update)
    qed (use parts t pc in \<open>simp_all add: part_same held_defs in_use_def\<close>)
    have "db_map (s\<lparr>db_buffer := ?b\<rparr>) k = db_map s k" for k
    proof -
      have "a \<noteq> i" if "slot_of s k = Some a" for a using own(3) that by (metis ranI)
      then show ?thesis by (cases "slot_of s k") (simp_all add: db_map_def)
    qed
    then show "db_map (s\<lparr>db_buffer := ?b\<rparr>) = (if write_stage (ws ! t) = 5 then write_map (ws ! t) (db_map s) else db_map s)"
      using pc by (simp add: write_stage_def fun_eq_iff)
  qed (simp_all add: pc write_stage_def)
qed

lemma step_end:
  assumes ok: "writers_ok ws s" and t: "t < length ws" and pc: "wr_pc (ws ! t) = At_end i"
  shows "good_step t ws s"
proof -
  note parts = ok [unfolded writers_ok_def]
  have sp: "slot_part ws (db_buffer s)" using parts by simp
  have held: "slot_held (ws ! t) = Some i" using pc by (simp add: slot_held_def)
  note own = own_slot [OF ok t held]
  let ?w = "(ws ! t)\<lparr>wr_pc := At_hash i\<rparr>"
  let ?b = "(db_buffer s)\<lparr>bf_accessing := (bf_accessing (db_buffer s))[i := False]\<rparr>"
  have "apart accessed ws"
    using sp unfolding slot_part_def apart_def accessed_def slot_held_def by (fastforce split: write_pc.splits)
  then have taken: "taken accessed (ws[t := ?w]) = taken accessed ws - {i}"
    using t pc by (intro taken_drop) (simp_all add: accessed_def)
  have same: "taken slot_held (ws[t := ?w]) = taken slot_held ws" "taken copied (ws[t := ?w]) = taken copied ws"
    "apart slot_held (ws[t := ?w]) = apart slot_held ws" "not_before 1 (ws[t := ?w]) = not_before 1 ws"
    using t pc by (simp_all add: taken_same apart_same not_before_same held_defs)
  show ?thesis
  proof (rule good_stepI)
    show "writer_step (ws ! t) s = Some (?w, s\<lparr>db_buffer := ?b\<rparr>)"
      using pc own(5) by (simp add: writer_step_def end_access_def)
    show "writers_ok (ws[t := ?w]) (s\<lparr>db_buffer := ?b\<rparr>)"
    proof (rule writers_okI [OF ok t])
      show "slot_part (ws[t := ?w]) (db_buffer (s\<lparr>db_buffer := ?b\<rparr>))"
        using sp own(5) unfolding slot_part_def taken same
        by (auto simp: buffer_inv_def in_use_def nth_list_update)
    qed (use parts t pc in \<open>simp_all add: part_same held_defs in_use_def\<close>)
    show "db_map (s\<lparr>db_buffer := ?b\<rparr>) = (if write_stage (ws ! t) = 5 then write_map (ws ! t) (db_map s) else db_map s)"
      using pc by (simp add: db_map_buffer write_stage_def)
  qed (simp_all add: pc write_stage_def)
qed

lemma step_hash:
  assumes ok: "writers_ok ws s" and t: "t < length ws" and pc: "wr_pc (ws ! t) = At_hash i"
  shows "good_step t ws s"
proof -
  note parts = ok [unfolded writers_ok_def]
  have sp: "slot_part ws (db_buffer s)" and ip: "index_part ws s" using parts by simp_all
  have held: "slot_held (ws ! t) = Some i" using pc by (simp add: slot_held_def)
  note own = own_slot [OF ok t held]
  let ?k = "wr_key (ws ! t)" and ?w = "(ws ! t)\<lparr>wr_pc := At_table i\<rparr>"
  have inv: "index_inv (db_hash s)" and card: "card (dom (index_lookup (db_hash s))) < 11662"
    using ip by (simp_all add: index_part_def flip: dom_db_map(2))
  from hash_update_ok [OF this, of ?k "buffer_index i"] obtain hash c where
    hash: "Indexer_update ?k (buffer_index i) (db_hash s) = Some (hash, c)" "index_inv hash"
    "index_lookup hash = (index_lookup (db_hash s))(?k \<mapsto> set_in_hash True (buffer_index i))" by blast
  let ?s = "s\<lparr>db_hash := hash\<rparr>"
  have slot: "slot_of ?s = (slot_of s)(?k \<mapsto> i)"
    using unat_buffer_index(1) [OF own(1)] by (auto simp: slot_of_def hash(3) fun_eq_iff)
  have n: "Suc (not_before 5 (ws[t := ?w])) = not_before 5 ws"
    using t pc by (intro not_before_less) (simp_all add: write_stage_def)
  have ap: "apart slot_held ws" using sp by (simp add: slot_part_def)
  have taken: "taken slot_held (ws[t := ?w]) = taken slot_held ws - {i}"
    using ap t held by (rule taken_drop) (simp add: slot_held_def)
  have apart: "apart slot_held (ws[t := ?w])" using ap t by (rule apart_drop) (simp add: slot_held_def)
  have same: "taken accessed (ws[t := ?w]) = taken accessed ws" "not_before 1 (ws[t := ?w]) = not_before 1 ws"
    using t pc by (simp_all add: taken_same not_before_same held_defs)
  have sub: "taken copied (ws[t := ?w]) \<subseteq> taken copied ws" using t by (intro taken_none) (simp_all add: copied_def)
  have "copied (ws ! t) = Some (i, new_record ?k (wr_value (ws ! t)))" by (simp add: copied_def pc)
  with t have "(i, new_record ?k (wr_value (ws ! t))) \<in> taken copied ws" by (rule taken_nth)
  then have data: "bf_data (db_buffer s) ! i = new_record ?k (wr_value (ws ! t))" using sp by (auto simp: slot_part_def)
  show ?thesis
  proof (rule good_stepI)
    show "writer_step (ws ! t) s = Some (?w, ?s)" using pc hash(1) by (simp add: writer_step_def)
    show "writers_ok (ws[t := ?w]) ?s"
    proof (rule writers_okI [OF ok t])
      show "slot_part (ws[t := ?w]) (db_buffer ?s)"
        using sp sub apart unfolding slot_part_def taken same by auto
      show "index_part (ws[t := ?w]) ?s"
        unfolding index_part_def
      proof (intro conjI)
        show "index_inv (db_hash ?s)" using hash(2) by simp
        have "card (dom (slot_of ?s)) \<le> Suc (card (dom (slot_of s)))" unfolding slot by (simp add: card_insert_le_m1 card_insert_if)
        then show "card (dom (slot_of ?s)) + not_before 5 (ws[t := ?w]) < 11662" using ip n by (simp add: index_part_def)
        have "ran (slot_of ?s) \<subseteq> insert i (ran (slot_of s))" unfolding slot by (auto simp: ran_def)
        moreover have "insert i (ran (slot_of s)) \<subseteq> in_use (db_buffer s) - (taken slot_held ws - {i})"
          using ip own(2) by (auto simp: index_part_def)
        ultimately have "ran (slot_of ?s) \<subseteq> in_use (db_buffer s) - (taken slot_held ws - {i})" by (rule subset_trans)
        then show "ran (slot_of ?s) \<subseteq> in_use (db_buffer ?s) - taken slot_held (ws[t := ?w])"
          unfolding taken by simp
        have "slot_of s k \<noteq> Some i" for k using own(3) by (auto simp: ran_def)
        then show "inj_on (slot_of ?s) (dom (slot_of ?s))"
          using ip unfolding slot index_part_def by (auto simp: inj_on_def)
      qed
    qed (use parts t pc in \<open>simp_all add: part_same held_defs\<close>)
    show "db_map ?s = (if write_stage (ws ! t) = 5 then write_map (ws ! t) (db_map s) else db_map s)"
      using pc data by (auto simp: write_stage_def write_map_def db_map_def slot fun_eq_iff get_value_def new_record_def)
  qed (simp_all add: pc write_stage_def)
qed

text \<open>The lists.\<close>

lemma list_ready:
  assumes "table_part ws m" and "p \<in> set (mt_current m)"
  shows "\<exists>l. mt_heap m p = Some l \<and> sl_inv l \<and> sk_id l = 0 \<and> \<not> sk_dumping l"
  using assms by (auto simp: table_part_def tables_ok_def ready_def)

lemma items_upd:
  assumes "distinct (mt_current m)" and "p \<in> set (mt_current m)"
  shows "items (m\<lparr>mt_heap := (mt_heap m)(p \<mapsto> l)\<rparr>) + card (dom (list_map (mt_heap m) p)) = items m + card (dom (sl_map l))"
proof -
  obtain xs ys where c: "mt_current m = xs @ p # ys" using assms(2) by (auto dest: split_list)
  let ?n = "\<lambda>h q. card (dom (list_map h q))"
  let ?h = "(mt_heap m)(p \<mapsto> l)"
  have "sum_list (map (?n ?h) xs) = sum_list (map (?n (mt_heap m)) xs)"
    "sum_list (map (?n ?h) ys) = sum_list (map (?n (mt_heap m)) ys)"
    using assms(1) by (intro arg_cong [where f = sum_list] map_cong; auto simp: c list_map_def)+
  moreover have "?n ?h p = card (dom (sl_map l))" by (simp add: list_map_def)
  ultimately show ?thesis by (simp add: items_def c)
qed

text \<open>A list in a new state, with the same keys or one more.\<close>

lemma table_part_upd:
  assumes tp: "table_part ws m" and p: "p \<in> set (mt_current m)"
    and l: "sl_inv l" "sk_id l = 0" "\<not> sk_dumping l"
    and room: "card (dom (sl_map l)) + not_before 7 vs \<le> card (dom (list_map (mt_heap m) p)) + not_before 7 ws"
    and held: "apart list_held vs" "taken list_held vs \<subseteq> set (mt_current m)"
      "taken list_held vs - {p} = taken list_held ws - {p}" "sk_locked l \<longleftrightarrow> p \<in> taken list_held vs"
  shows "table_part vs (m\<lparr>mt_heap := (mt_heap m)(p \<mapsto> l)\<rparr>)"
proof -
  let ?m = "m\<lparr>mt_heap := (mt_heap m)(p \<mapsto> l)\<rparr>"
  have ok: "tables_ok m" using tp by (simp add: table_part_def)
  have "tables_ok ?m" using tables_ok_upd [OF ok p l] .
  moreover have "distinct (mt_current m)" using ok by (simp add: tables_ok_def)
  then have "items ?m + not_before 7 vs < RECORD_BUFF_SIZE"
    using items_upd [OF _ p, of l] room tp by (simp add: table_part_def)
  moreover have "unlocked (mt_heap ?m) q \<longleftrightarrow> q \<notin> taken list_held vs" if "q \<in> set (mt_current m)" for q
  proof (cases "q = p")
    case True
    then show ?thesis using held(4) by (simp add: unlocked_def)
  next
    case False
    then have "q \<in> taken list_held vs \<longleftrightarrow> q \<in> taken list_held ws" using held(3) by blast
    then show ?thesis using tp that False by (simp add: table_part_def unlocked_def)
  qed
  ultimately show ?thesis using tp held(1,2) by (simp add: table_part_def)
qed

lemma step_table:
  assumes ok: "writers_ok ws s" and t: "t < length ws" and pc: "wr_pc (ws ! t) = At_table i"
  shows "if set (mt_current (db_mem s)) \<subseteq> taken list_held ws then writer_step (ws ! t) s = None else good_step t ws s"
proof -
  let ?m = "db_mem s"
  note parts = ok [unfolded writers_ok_def]
  have tp: "table_part ws ?m" using parts by simp
  have "\<forall>p \<in> set (mt_current ?m). \<exists>l. mt_heap ?m p = Some l \<and> \<not> sk_dumping l" using list_ready [OF tp] by blast
  note get = get_memtable_eq [OF this]
  have free: "unlocked (mt_heap ?m) p \<longleftrightarrow> p \<notin> taken list_held ws" if "p \<in> set (mt_current ?m)" for p
    using tp that by (simp add: table_part_def)
  show ?thesis
  proof (cases "find (unlocked (mt_heap ?m)) (mt_current ?m)")
    case None
    then have "set (mt_current ?m) \<subseteq> taken list_held ws" using free by (auto simp: find_None_iff)
    then show ?thesis using pc get None by (simp add: writer_step_def)
  next
    case (Some p)
    then have p: "p \<in> set (mt_current ?m)" "unlocked (mt_heap ?m) p" by (auto simp: find_Some_iff)
    then have new: "p \<notin> taken list_held ws" using free by blast
    obtain l where l: "mt_heap ?m p = Some l" "sl_inv l" "sk_id l = 0" "\<not> sk_dumping l"
      using list_ready [OF tp p(1)] by blast
    let ?w = "(ws ! t)\<lparr>wr_pc := At_update i p\<rparr>"
    let ?m' = "?m\<lparr>mt_heap := (mt_heap ?m)(p \<mapsto> l\<lparr>sk_locked := True\<rparr>)\<rparr>"
    have taken: "taken list_held (ws[t := ?w]) = insert p (taken list_held ws)"
      using t pc by (intro taken_take) (simp_all add: list_held_def)
    have "good_step t ws s"
    proof (rule good_stepI)
      show "writer_step (ws ! t) s = Some (?w, s\<lparr>db_mem := ?m'\<rparr>)"
        using pc get Some l(1) by (simp add: writer_step_def lock_def)
      show "writers_ok (ws[t := ?w]) (s\<lparr>db_mem := ?m'\<rparr>)"
      proof (rule writers_okI [OF ok t])
        have "table_part (ws[t := ?w]) ?m'"
        proof (rule table_part_upd [OF tp p(1)])
          show "apart list_held (ws[t := ?w])"
            using tp t new by (intro apart_take [where a = p]) (simp_all add: list_held_def table_part_def)
          have "not_before 7 (ws[t := ?w]) = not_before 7 ws" using t pc by (simp add: not_before_same write_stage_def)
          then show "card (dom (sl_map (l\<lparr>sk_locked := True\<rparr>))) + not_before 7 (ws[t := ?w])
              \<le> card (dom (list_map (mt_heap ?m) p)) + not_before 7 ws" by (simp add: list_map_def l(1))
        qed (use tp p(1) l in \<open>auto simp: taken table_part_def\<close>)
        then show "table_part (ws[t := ?w]) (db_mem (s\<lparr>db_mem := ?m'\<rparr>))" by simp
      qed (use parts t pc in \<open>simp_all add: part_same held_defs\<close>)
      show "db_map (s\<lparr>db_mem := ?m'\<rparr>) = (if write_stage (ws ! t) = 5 then write_map (ws ! t) (db_map s) else db_map s)"
        using pc by (simp add: write_stage_def)
    qed (simp_all add: pc write_stage_def)
    with p(1) new show ?thesis by auto
  qed
qed

text \<open>The list that a writer holds is a current one.\<close>

lemma own_list:
  assumes ok: "writers_ok ws s" and t: "t < length ws" and p: "list_held (ws ! t) = Some p"
  obtains l where "p \<in> set (mt_current (db_mem s))" "p \<in> taken list_held ws" "mt_heap (db_mem s) p = Some l"
    "sl_inv l" "sk_id l = 0" "\<not> sk_dumping l" "sk_locked l"
proof -
  have tp: "table_part ws (db_mem s)" using ok by (simp add: writers_ok_def)
  have p': "p \<in> taken list_held ws" using t p by (rule taken_nth)
  then have cur: "p \<in> set (mt_current (db_mem s))" using tp by (auto simp: table_part_def)
  then obtain l where l: "mt_heap (db_mem s) p = Some l" "sl_inv l" "sk_id l = 0" "\<not> sk_dumping l"
    using list_ready [OF tp] by blast
  have "\<not> unlocked (mt_heap (db_mem s)) p" using tp cur p' by (simp add: table_part_def)
  with l cur p' show thesis by (intro that) (simp_all add: unlocked_def)
qed

lemma items_le: "p \<in> set (mt_current m) \<Longrightarrow> card (dom (list_map (mt_heap m) p)) \<le> items m"
  unfolding items_def by (intro member_le_sum_list) auto

lemma step_update:
  assumes ok: "writers_ok ws s" and t: "t < length ws" and pc: "wr_pc (ws ! t) = At_update i p"
  shows "good_step t ws s"
proof -
  let ?m = "db_mem s"
  note parts = ok [unfolded writers_ok_def]
  have tp: "table_part ws ?m" using parts by simp
  obtain l where l: "p \<in> set (mt_current ?m)" "p \<in> taken list_held ws" "mt_heap ?m p = Some l" "sl_inv l"
    "sk_id l = 0" "\<not> sk_dumping l" "sk_locked l"
    using own_list [OF ok t, of p] pc by (auto simp: list_held_def)
  have "card (dom (sl_map l)) \<le> items ?m" using items_le [OF l(1)] by (simp add: list_map_def l(3))
  then have "card (dom (sl_map l)) + 2 < 2 ^ 31" using tp by (simp add: table_part_def RECORD_BUFF_SIZE_def)
  from SkipList_update_ok [OF l(4) this, of "wr_rnd (ws ! t)" "wr_key (ws ! t)" "buffer_index i"]
  obtain l' n where u: "SkipList_update (wr_rnd (ws ! t)) (wr_key (ws ! t)) (buffer_index i) l = Some (l', n)"
    "sl_inv l'" "dom (sl_map l') = insert (wr_key (ws ! t)) (dom (sl_map l))"
    "l' = l\<lparr>sk_data := sk_data l', sk_capacity := sk_capacity l'\<rparr>" by auto
  have flags: "sk_id l' = 0" "\<not> sk_dumping l'" "sk_locked l'"
    using l(5-7) by (subst u(4), simp)+
  let ?w = "(ws ! t)\<lparr>wr_pc := At_unlock p\<rparr>" and ?m' = "?m\<lparr>mt_heap := (mt_heap ?m)(p \<mapsto> l')\<rparr>"
  have taken: "taken list_held (ws[t := ?w]) = taken list_held ws" "apart list_held (ws[t := ?w]) = apart list_held ws"
    using t pc by (simp_all add: taken_same apart_same list_held_def)
  have n: "Suc (not_before 7 (ws[t := ?w])) = not_before 7 ws"
    using t pc by (intro not_before_less) (simp_all add: write_stage_def)
  show ?thesis
  proof (rule good_stepI)
    show "writer_step (ws ! t) s = Some (?w, s\<lparr>db_mem := ?m'\<rparr>)" using pc l(3) u(1) by (simp add: writer_step_def)
    show "writers_ok (ws[t := ?w]) (s\<lparr>db_mem := ?m'\<rparr>)"
    proof (rule writers_okI [OF ok t])
      have "table_part (ws[t := ?w]) ?m'"
      proof (rule table_part_upd [OF tp l(1) u(2) flags(1,2)])
        have "card (dom (sl_map l')) \<le> Suc (card (dom (sl_map l)))" unfolding u(3) by (rule card_insert_le_m1) simp_all
        then show "card (dom (sl_map l')) + not_before 7 (ws[t := ?w])
            \<le> card (dom (list_map (mt_heap ?m) p)) + not_before 7 ws" using n by (simp add: list_map_def l(3))
      qed (use tp l(2) flags(3) in \<open>simp_all add: taken table_part_def\<close>)
      then show "table_part (ws[t := ?w]) (db_mem (s\<lparr>db_mem := ?m'\<rparr>))" by simp
    qed (use parts t pc in \<open>simp_all add: part_same held_defs\<close>)
    show "db_map (s\<lparr>db_mem := ?m'\<rparr>) = (if write_stage (ws ! t) = 5 then write_map (ws ! t) (db_map s) else db_map s)"
      using pc by (simp add: write_stage_def)
  qed (simp_all add: pc write_stage_def)
qed

lemma step_unlock:
  assumes ok: "writers_ok ws s" and t: "t < length ws" and pc: "wr_pc (ws ! t) = At_unlock p"
  shows "good_step t ws s"
proof -
  let ?m = "db_mem s"
  note parts = ok [unfolded writers_ok_def]
  have tp: "table_part ws ?m" using parts by simp
  have held: "list_held (ws ! t) = Some p" using pc by (simp add: list_held_def)
  obtain l where l: "p \<in> set (mt_current ?m)" "p \<in> taken list_held ws" "mt_heap ?m p = Some l" "sl_inv l"
    "sk_id l = 0" "\<not> sk_dumping l" "sk_locked l"
    using own_list [OF ok t held] by auto
  let ?w = "(ws ! t)\<lparr>wr_pc := At_total\<rparr>" and ?m' = "?m\<lparr>mt_heap := (mt_heap ?m)(p \<mapsto> un_lock l)\<rparr>"
  have ap: "apart list_held ws" using tp by (simp add: table_part_def)
  have taken: "taken list_held (ws[t := ?w]) = taken list_held ws - {p}"
    using ap t held by (rule taken_drop) (simp add: list_held_def)
  have n: "not_before 7 (ws[t := ?w]) = not_before 7 ws" using t pc by (simp add: not_before_same write_stage_def)
  show ?thesis
  proof (rule good_stepI)
    show "writer_step (ws ! t) s = Some (?w, s\<lparr>db_mem := ?m'\<rparr>)" using pc l(3) by (simp add: writer_step_def)
    show "writers_ok (ws[t := ?w]) (s\<lparr>db_mem := ?m'\<rparr>)"
    proof (rule writers_okI [OF ok t])
      have "table_part (ws[t := ?w]) ?m'"
      proof (rule table_part_upd [OF tp l(1)])
        show "apart list_held (ws[t := ?w])" using ap t by (rule apart_drop) (simp add: list_held_def)
      qed (use tp l n in \<open>auto simp: taken table_part_def un_lock_def list_map_def\<close>)
      then show "table_part (ws[t := ?w]) (db_mem (s\<lparr>db_mem := ?m'\<rparr>))" by simp
    qed (use parts t pc in \<open>simp_all add: part_same held_defs\<close>)
    show "db_map (s\<lparr>db_mem := ?m'\<rparr>) = (if write_stage (ws ! t) = 5 then write_map (ws ! t) (db_map s) else db_map s)"
      using pc by (simp add: write_stage_def)
  qed (simp_all add: pc write_stage_def)
qed

lemma total_locked:
  "p \<in> set ps \<Longrightarrow> \<not> unlocked heap p \<Longrightarrow> total_items heap ps = None"
  by (induction ps) (auto simp: unlocked_def split: option.splits Option.bind_split)

lemma step_total:
  assumes ok: "writers_ok ws s" and t: "t < length ws" and pc: "wr_pc (ws ! t) = At_total"
  shows "if taken list_held ws \<noteq> {} then writer_step (ws ! t) s = None else good_step t ws s"
proof -
  let ?m = "db_mem s"
  note parts = ok [unfolded writers_ok_def]
  have tp: "table_part ws ?m" using parts by simp
  show ?thesis
  proof (cases "taken list_held ws = {}")
    case False
    then obtain p where p: "p \<in> taken list_held ws" by blast
    then have "p \<in> set (mt_current ?m)" using tp by (auto simp: table_part_def)
    then have "get_total_items ?m = None"
      using total_locked [of p] p tp unfolding get_total_items_def table_part_def by blast
    with False pc show ?thesis by (simp add: writer_step_def)
  next
    case True
    then have "\<exists>l. mt_heap ?m p = Some l \<and> sl_inv l \<and> \<not> sk_locked l" if "p \<in> set (mt_current ?m)" for p
      using list_ready [OF tp that] tp that by (auto simp: table_part_def unlocked_def)
    then have "get_total_items ?m = Some (int (items ?m))"
      unfolding get_total_items_def items_def by (intro total_items_eq) blast
    moreover have "items ?m < RECORD_BUFF_SIZE" using tp by (simp add: table_part_def)
    ultimately have step: "writer_step (ws ! t) s = Some ((ws ! t)\<lparr>wr_pc := Written\<rparr>, s)" (is "_ = Some (?w, _)")
      using pc by (simp add: writer_step_def)
    have "good_step t ws s"
    proof (rule good_stepI [OF step])
      show "writers_ok (ws[t := ?w]) s"
        by (rule writers_okI [OF ok t]) (use parts t pc in \<open>simp_all add: part_same held_defs\<close>)
    qed (use pc in \<open>simp_all add: write_stage_def\<close>)
    with True show ?thesis by simp
  qed
qed

lemma step_cases:
  assumes ok: "writers_ok ws s" and t: "t < length ws"
  shows "writer_step (ws ! t) s = None \<or> good_step t ws s"
proof -
  have "write_stage (ws ! t) \<le> 10" using ok t by (simp add: writers_ok_def)
  then show ?thesis
    using step_log [OF ok t] step_slot [OF ok t] step_access [OF ok t] step_copy [OF ok t] step_end [OF ok t]
      step_hash [OF ok t] step_table [OF ok t] step_update [OF ok t] step_unlock [OF ok t] step_total [OF ok t]
    by (cases "wr_pc (ws ! t)") (auto simp: write_stage_def writer_step_def split: if_splits)
qed

text \<open>A writer that waits waits for a list, and the one that holds that list can go on.\<close>

lemma step_some:
  assumes ok: "writers_ok ws s" and t: "t < length ws" and st: "write_stage (ws ! t) \<noteq> 10"
  shows "\<exists>u < length ws. good_step u ws s"
proof (cases "taken list_held ws = {}")
  case True
  have "write_stage (ws ! t) \<le> 10" using ok t by (simp add: writers_ok_def)
  moreover have "mt_current (db_mem s) \<noteq> []" using ok by (simp add: writers_ok_def table_part_def)
  ultimately have "good_step t ws s"
    using st True step_log [OF ok t] step_slot [OF ok t] step_access [OF ok t] step_copy [OF ok t] step_end [OF ok t]
      step_hash [OF ok t] step_table [OF ok t] step_update [OF ok t] step_unlock [OF ok t] step_total [OF ok t]
    by (cases "wr_pc (ws ! t)") (auto simp: write_stage_def)
  with t show ?thesis by blast
next
  case False
  then obtain p where "p \<in> taken list_held ws" by blast
  then obtain u where u: "u < length ws" "list_held (ws ! u) = Some p" by (auto elim: takenE)
  then have "good_step u ws s"
    using step_update [OF ok u(1)] step_unlock [OF ok u(1)]
    by (cases "wr_pc (ws ! u)") (auto simp: list_held_def)
  with u(1) show ?thesis by blast
qed

interpretation writers: staged_threads writer_step writers_ok write_stage 10
proof
  fix ws s t w s'
  assume "writers_ok ws s" "t < length ws" "writer_step (ws ! t) s = Some (w, s')"
  then show "writers_ok (ws[t := w]) s'" "write_stage w = Suc (write_stage (ws ! t))"
    using step_cases [of ws s t] by (auto simp: good_step_def)
next
  fix ws s t
  assume "writers_ok ws s" "t < length ws"
  then show "write_stage (ws ! t) \<le> 10" by (simp add: writers_ok_def)
next
  fix ws s t
  assume "writers_ok ws s" "t < length ws" "write_stage (ws ! t) \<noteq> 10"
  from step_some [OF this] show "\<exists>u < length ws. writer_step (ws ! u) s \<noteq> None" by (auto simp: good_step_def)
qed

text \<open>The order of the writes in the map is that of the step at the hash index, in the log that of the first step.\<close>

lemma run_writes:
  assumes "run_schedule ts ws s = Some (ws', s')" and ok: "writers_ok ws s" and start: "\<forall>w \<in> set ws. write_stage w = 0"
  shows "db_map s' = fold (\<lambda>t. write_map (ws ! t)) (turns 5 ts) (db_map s)"
    and "db_disk s' = fold (\<lambda>t. write_log (ws ! t)) (turns 0 ts) (db_disk s)"
proof -
  have "db_map s' = fold (\<lambda>t. write_map (ws ! t)) (turns 5 ts) (db_map s)
      \<and> db_disk s' = fold (\<lambda>t. write_log (ws ! t)) (turns 0 ts) (db_disk s)
      \<and> (\<forall>t < length ws. wr_key (ws' ! t) = wr_key (ws ! t) \<and> wr_value (ws' ! t) = wr_value (ws ! t))"
    using assms(1)
  proof (induction ts arbitrary: ws' s' rule: rev_induct)
    case (snoc t ts)
    then obtain ws1 s1 w where 1: "run_schedule ts ws s = Some (ws1, s1)" "t < length ws1"
      "writer_step (ws1 ! t) s1 = Some (w, s')" "ws' = ws1[t := w]" by (auto simp: run_threads_snoc)
    have len: "length ws1 = length ws" using run_threads_length [OF 1(1)] .
    have "good_step t ws1 s1" using step_cases [OF writers.run_inv [OF 1(1) ok] 1(2)] 1(3) by simp
    moreover have "write_stage (ws1 ! t) = count_list ts t"
      using writers.run_stage [OF 1(1) ok, of t] start 1(2) len by simp
    ultimately have g: "wr_key w = wr_key (ws1 ! t)" "wr_value w = wr_value (ws1 ! t)"
      "db_map s' = (if count_list ts t = 5 then write_map (ws1 ! t) (db_map s1) else db_map s1)"
      "db_disk s' = (if count_list ts t = 0 then write_log (ws1 ! t) (db_disk s1) else db_disk s1)"
      using 1(3) by (auto simp: good_step_def)
    note IH = snoc.IH [OF 1(1)]
    then have "wr_key (ws1 ! t) = wr_key (ws ! t)" "wr_value (ws1 ! t) = wr_value (ws ! t)" using 1(2) len by simp_all
    then have "write_map (ws1 ! t) = write_map (ws ! t)" "write_log (ws1 ! t) = write_log (ws ! t)"
      by (simp_all add: write_map_def write_log_def fun_eq_iff)
    then show ?case using IH g 1(2,4) len by (auto simp: turns_snoc nth_list_update)
  qed simp
  then show "db_map s' = fold (\<lambda>t. write_map (ws ! t)) (turns 5 ts) (db_map s)"
    "db_disk s' = fold (\<lambda>t. write_log (ws ! t)) (turns 0 ts) (db_disk s)" by simp_all
qed

text \<open>A read while the writers are anywhere.\<close>

lemma read_between:
  assumes ok: "writers_ok ws s" and key: "get_key_string key = Some k"
  shows "DBSystem_read key s = map_option (\<lambda>v. (v, s)) (db_map s k)"
proof (cases "slot_of s k")
  case None
  then have "IndexHashMap_get k (db_hash s) = None" by (simp add: slot_of_def index_lookup_def)
  with None key show ?thesis by (simp add: DBSystem_read_def Indexer_get_def db_map_def)
next
  case (Some a)
  have parts: "slot_part ws (db_buffer s)" "index_part ws s" using ok by (simp_all add: writers_ok_def)
  have "a \<in> ran (slot_of s)" using Some by (rule ranI)
  then have a: "a \<in> in_use (db_buffer s)" "a \<notin> taken slot_held ws" using parts(2) by (auto simp: index_part_def)
  have "a \<notin> taken accessed ws"
  proof
    assume "a \<in> taken accessed ws"
    then obtain u where u: "u < length ws" "accessed (ws ! u) = Some a" by (auto elim: takenE)
    then have "slot_held (ws ! u) = Some a" by (auto simp: accessed_def slot_held_def split: write_pc.splits)
    with u(1) a(2) show False by (auto dest: taken_nth)
  qed
  have inv: "buffer_inv (db_buffer s)" using parts(1) by (simp add: slot_part_def)
  have bound: "a < RECORD_BUFF_SIZE" using in_use_bound [OF inv a(1)] .
  then have free: "\<not> bf_accessing (db_buffer s) ! a" "a < length (bf_accessing (db_buffer s))" "a < length (bf_data (db_buffer s))"
    using parts(1) inv \<open>a \<notin> taken accessed ws\<close> by (simp_all add: slot_part_def buffer_inv_def)
  then have "(bf_accessing (db_buffer s))[a := False] = bf_accessing (db_buffer s)" by (metis list_update_id)
  moreover obtain c where "Indexer_get k (db_hash s) = Some c" "unat (get_idx (kv_idx (db_hash s c))) = a"
    using Some by (auto simp: slot_of_def index_lookup_def Indexer_get_def)
  ultimately show ?thesis
    using Some key free by (simp add: DBSystem_read_def wait_for_access_def record_at_def end_access_def db_map_def)
qed

subsection \<open>Concurrent writers\<close>

definition starting :: "writer list \<Rightarrow> DBSystem \<Rightarrow> bool" where
  "starting ws s \<longleftrightarrow> (\<forall>w \<in> set ws. wr_pc w = At_log \<and> RECORD_VALUE_LEN \<le> length (wr_value w))
     \<and> length ws \<le> length (bf_empty (db_buffer s)) \<and> card (dom (db_map s)) + length ws < RECORD_BUFF_SIZE
     \<and> dm_curr_log_len (db_disk s) + length ws * sizeof_Record < 2 ^ 31"

lemma starting_ok:
  assumes ok: "db_ok s" and start: "starting ws s"
  shows "writers_ok ws s" and "\<forall>w \<in> set ws. write_stage w = 0"
proof -
  have core: "db_core s" using ok by (rule db_ok_core)
  have pc: "wr_pc w = At_log" if "w \<in> set ws" for w using start that by (simp add: starting_def)
  then show st: "\<forall>w \<in> set ws. write_stage w = 0" by (simp add: write_stage_def)
  have none: "f w = None" if "w \<in> set ws" "f \<in> {slot_held, accessed, list_held}" for w f
    using pc [OF that(1)] that(2) by (auto simp: held_defs)
  have taken: "taken f ws = {}" "apart f ws" if "f \<in> {slot_held, accessed, list_held}" for f
    using none [OF _ that] by (auto simp: taken_def apart_def image_iff)
  have "taken copied ws = {}" using pc by (auto simp: taken_def copied_def image_iff)
  then have idle: "taken copied ws = {}" "taken slot_held ws = {}" "taken accessed ws = {}" "taken list_held ws = {}"
    "apart slot_held ws" "apart list_held ws" using taken by simp_all
  have n: "not_before n ws = length ws" for n using st by (simp add: not_before_def pending_def filter_id_conv)
  have quiet: "buffer_inv (db_buffer s)" "True \<notin> set (bf_accessing (db_buffer s))"
    using core by (simp_all add: db_core_def quiet_def)
  have "\<not> bf_accessing (db_buffer s) ! i" if "i < RECORD_BUFF_SIZE" for i
    using quiet that by (metis buffer_inv_def nth_mem)
  then have "slot_part ws (db_buffer s)"
    using quiet(1) start by (simp add: slot_part_def idle n starting_def)
  moreover have "log_part ws (db_disk s)" using ok start by (simp add: log_part_def n db_ok_def starting_def)
  moreover have "index_part ws s"
    using core start by (auto simp: index_part_def idle n db_core_def starting_def ran_def dom_db_map(1) RECORD_BUFF_SIZE_def)
  moreover have "table_part ws (db_mem s)"
  proof -
    have calm: "calm (db_mem s)" using core by (simp add: db_core_def)
    have "get_total_items (db_mem s) = Some (int (items (db_mem s)))"
      unfolding get_total_items_def items_def using calm_lists [OF calm] by (intro total_items_eq) blast
    then have "items (db_mem s) = card (dom (db_map s))" using db_total [OF core] by simp
    then show ?thesis using calm start by (simp add: table_part_def idle n calm_def starting_def)
  qed
  ultimately show "writers_ok ws s" using start st by (simp add: writers_ok_def starting_def)
qed

text \<open>C4: Threads write at once, under any schedule. The condition \<open>starting\<close> is that, in a state of
  the invariant, no generation can get full (the keys that are there and the writers are together fewer
  than \<^verbatim>\<open>RECORD_BUFF_SIZE\<close>), that there is a slot and room in the length counter of the log for
  each writer, and that no value is too short. Then, whenever the schedule stops, a read gives the
  value of the writer of its key that was the last one at the hash index, or what was there before: the
  writes take effect one by one, each in its sixth step.\<close>

theorem concurrent_writes:
  assumes "db_ok s" and "starting ws s" and "run_schedule ts ws s = Some (ws', s')" and "get_key_string key = Some k"
  shows "DBSystem_read key s'
    = map_option (\<lambda>v. (v, s')) (fold (\<lambda>t. write_map (ws ! t)) (turns 5 ts) (db_map s) k)"
proof -
  note start = starting_ok [OF assms(1,2)]
  have "writers_ok ws' s'" using writers.run_inv [OF assms(3) start(1)] .
  then show ?thesis using read_between [OF _ assms(4)] run_writes(1) [OF assms(3) start] by metis
qed


lemma fold_write_log:
  "fold (\<lambda>t. write_log (ws ! t)) ts d = log_extend (map (\<lambda>t. new_record (wr_key (ws ! t)) (wr_value (ws ! t))) ts) d"
  by (induction ts arbitrary: d rule: rev_induct) (simp_all add: log_extend_simps write_log_def)

lemma fold_write_map:
  "log_map (map (\<lambda>t. new_record (wr_key (ws ! t)) (wr_value (ws ! t))) ts) m = fold (\<lambda>t. write_map (ws ! t)) ts m"
  unfolding log_map_def fold_map comp_def by (simp add: new_record_def write_map_def [abs_def])

lemma fresh_starting:
  assumes nf: "no_files base fs" and init: "DBSystem_init g g' base fs = Some s"
    and ws: "\<forall>w \<in> set ws. wr_pc w = At_log \<and> RECORD_VALUE_LEN \<le> length (wr_value w)" "length ws < RECORD_BUFF_SIZE"
  shows "db_ok s" and "starting ws s" and "db_map s = Map.empty"
    and "dm_files (db_disk s) = fs(the (path_join [base, HOT_LOG]) \<mapsto> [])"
    and "dm_curr_log_fd (db_disk s) = Some (the (path_join [base, HOT_LOG]))"
proof -
  from fresh_db [OF nf, of g g'] init show *: "db_ok s" "db_map s = Map.empty"
    "dm_files (db_disk s) = fs(the (path_join [base, HOT_LOG]) \<mapsto> [])"
    "dm_curr_log_fd (db_disk s) = Some (the (path_join [base, HOT_LOG]))" by auto
  from fresh_db [OF nf, of g g'] init have "length (bf_empty (db_buffer s)) = RECORD_BUFF_SIZE" "dm_curr_log_len (db_disk s) = 0"
    by auto
  then show "starting ws s"
    using ws *(2) by (simp add: starting_def sizeof_Record_def RECORD_VALUE_LEN_def RECORD_BUFF_SIZE_def)
qed

text \<open>C7: Fewer than \<^verbatim>\<open>RECORD_BUFF_SIZE\<close> threads write at once, with values that are long
  enough, in a process that started in an empty directory, and the process ends between two steps of any
  schedule, so that the log has whole records (for a record that is cut short see \<open>torn_log\<close>). The process
  that recovers from the files then reads the writes in the order of the log, which is that of the
  first steps. So it reads what the writers' process would read (\<open>concurrent_writes\<close>), except for
  records that have not reached the hash index, and for keys that two writers logged in one order
  and entered into the index in the other.\<close>

theorem concurrent_crash:
  assumes "no_files base fs" and "\<forall>w \<in> set ws. wr_pc w = At_log \<and> RECORD_VALUE_LEN \<le> length (wr_value w)"
    and "length ws < RECORD_BUFF_SIZE" and "DBSystem_init g g' base fs = Some s"
    and "run_schedule ts ws s = Some (ws', s')" and "get_key_string key = Some k"
  shows "\<exists>s2. DBSystem_init h h' base (dm_files (db_disk s')) = Some s2
    \<and> DBSystem_read key s2 = map_option (\<lambda>v. (v, s2)) (fold (\<lambda>t. write_map (ws ! t)) (turns 0 ts) Map.empty k)"
proof -
  let ?hot = "the (path_join [base, HOT_LOG])"
  let ?rs = "map (\<lambda>t. new_record (wr_key (ws ! t)) (wr_value (ws ! t))) (turns 0 ts)"
  note fresh = fresh_starting [OF assms(1,4,2,3)]
  note start = starting_ok [OF fresh(1,2)]
  have files: "dm_files (db_disk s') = fs(?hot \<mapsto> log_bytes ?rs)"
    by (simp add: run_writes(2) [OF assms(5) start] fold_write_log log_extend_def fresh(4,5) write_fd_def del: path_join.simps)
  have "t < length ws" if "t \<in> set (turns 0 ts)" for t using turns_range [OF assms(5) that] .
  then have sized: "\<forall>r \<in> set ?rs. sized r" using assms(2) by (auto simp: sized_def new_record_def)
  have "length ?rs < RECORD_BUFF_SIZE" using turns_length [OF assms(5), of 0] assms(3) by simp
  from recover_hot [OF assms(1) files sized this, of h h'] assms(6) show ?thesis
    unfolding fold_write_map by blast
qed

text \<open>Two writers of one key under the schedule \<open>crossed\<close>.\<close>

definition two_writers :: "writer list" where
  "two_writers = [writer_start (\<lambda>_. 1) (key_of one_write) (replicate RECORD_VALUE_LEN 7),
     writer_start (\<lambda>_. 1) (key_of one_write) (replicate RECORD_VALUE_LEN 8)]"

lemma two_writers_run:
  "\<exists>s ws' s'. DBSystem_init (\<lambda>_ _. 1) (\<lambda>_ _. 1) [100] Map.empty = Some s \<and> db_ok s \<and> starting two_writers s
    \<and> db_map s = Map.empty \<and> run_schedule crossed two_writers s = Some (ws', s')"
proof -
  have ws: "\<forall>w \<in> set two_writers. wr_pc w = At_log \<and> RECORD_VALUE_LEN \<le> length (wr_value w)"
    "length two_writers < RECORD_BUFF_SIZE"
    by (simp_all add: two_writers_def writer_start_def RECORD_BUFF_SIZE_def)
  obtain s where s: "DBSystem_init (\<lambda>_ _. 1) (\<lambda>_ _. 1) [100] Map.empty = Some s"
    using DBSystem_init_fresh [OF no_files_empty] by blast
  note fresh = fresh_starting [OF no_files_empty s ws]
  have "dm_curr_log_len (db_disk s) = 0" using fresh_db [OF no_files_empty, of "\<lambda>_ _. 1" "\<lambda>_ _. 1"] s by auto
  then have "\<exists>ws' s'. run_schedule crossed two_writers s = Some (ws', s')"
    using crossed_run [OF fresh(1), of "replicate RECORD_VALUE_LEN 7" "replicate RECORD_VALUE_LEN 8" "key_of one_write" "\<lambda>_. 1"]
      fresh(2,3)
    by (simp add: starting_def two_writers_def RECORD_BUFF_SIZE_def sizeof_Record_def RECORD_VALUE_LEN_def) blast
  with s fresh show ?thesis by blast
qed

lemma crossed_turns: "turns 5 crossed = [1, 0]" "turns 0 crossed = [0, 1]" "length crossed = 20"
  by (simp_all add: turns_def crossed_def upt_rec numeral_nat)

theorem concurrent_writes_witness:
  "\<exists>s ws' s'. DBSystem_init (\<lambda>_ _. 1) (\<lambda>_ _. 1) [100] Map.empty = Some s
    \<and> run_schedule crossed two_writers s = Some (ws', s')
    \<and> DBSystem_read (cstr ''abcdefgh'') s' = Some (replicate RECORD_VALUE_LEN 7, s')"
proof -
  obtain s ws' s' where s: "DBSystem_init (\<lambda>_ _. 1) (\<lambda>_ _. 1) [100] Map.empty = Some s" "db_ok s" "starting two_writers s"
    "db_map s = Map.empty" "run_schedule crossed two_writers s = Some (ws', s')" using two_writers_run by blast
  from concurrent_writes [OF s(2,3,5) one_write_valid(2)]
  have "DBSystem_read (cstr ''abcdefgh'') s' = Some (replicate RECORD_VALUE_LEN 7, s')"
    by (simp add: crossed_turns write_map_def two_writers_def writer_start_def)
  with s show ?thesis by blast
qed


theorem concurrent_crash_witness:
  "\<exists>s ws' s' s2. DBSystem_init (\<lambda>_ _. 1) (\<lambda>_ _. 1) [100] Map.empty = Some s
    \<and> run_schedule crossed two_writers s = Some (ws', s')
    \<and> DBSystem_init (\<lambda>_ _. 1) (\<lambda>_ _. 1) [100] (dm_files (db_disk s')) = Some s2
    \<and> DBSystem_read (cstr ''abcdefgh'') s2 = Some (replicate RECORD_VALUE_LEN 8, s2)"
proof -
  obtain s ws' s' where s: "DBSystem_init (\<lambda>_ _. 1) (\<lambda>_ _. 1) [100] Map.empty = Some s"
    "run_schedule crossed two_writers s = Some (ws', s')" using two_writers_run by blast
  have ws: "\<forall>w \<in> set two_writers. wr_pc w = At_log \<and> RECORD_VALUE_LEN \<le> length (wr_value w)"
    "length two_writers < RECORD_BUFF_SIZE"
    by (simp_all add: two_writers_def writer_start_def RECORD_BUFF_SIZE_def)
  from concurrent_crash [OF no_files_empty ws s one_write_valid(2), of "\<lambda>_ _. 1" "\<lambda>_ _. 1"]
  obtain s2 where "DBSystem_init (\<lambda>_ _. 1) (\<lambda>_ _. 1) [100] (dm_files (db_disk s')) = Some s2"
    "DBSystem_read (cstr ''abcdefgh'') s2 = Some (replicate RECORD_VALUE_LEN 8, s2)"
    by (auto simp: crossed_turns write_map_def two_writers_def writer_start_def)
  with s show ?thesis by blast
qed

end
