(* ===== verification/Double_Dump.thy ===== *)
theory Double_Dump
  imports Write_Steps DB_Dump
begin

text \<open>
  The end of a generation with two writers: both see that the memory tables are full, so both switch
  the log and hand their lists to the dumper.
\<close>

subsection \<open>Lists without records\<close>

text \<open>The round of the dumper for lists without records.\<close>

lemma empty_round:
  assumes wait: "mt_wait_for_dump (db_mem s) = Some ptrs # queue"
    and lists: "distinct ptrs" "\<forall>p \<in> set ptrs. \<exists>l. mt_heap (db_mem s) p = Some l \<and> sl_inv l \<and> sl_map l = Map.empty"
  shows "dumper_round junk s = None"
proof -
  let ?h = "mt_heap (db_mem s)"
  have ok: "\<exists>l. ?h p = Some l \<and> level_0_ok l \<and> level_0_pairs l = []" if p: "p \<in> set ptrs" for p
  proof -
    obtain l where l: "?h p = Some l" "sl_inv l" "sl_map l = Map.empty" using lists(2) p by blast
    then have l0: "level_0_ok l" using sl_inv_level_0 by blast
    have "\<not> (\<exists>q \<in> set (level_0_pairs l). kv_key q = k \<and> kv_idx q = i)" for k i
      using level_0_pairs_map [OF l0, of k i] l(3) by simp
    then have "level_0_pairs l = []" by (cases "level_0_pairs l") auto
    with l l0 show ?thesis by blast
  qed
  then have live: "live ?h ptrs" using lists(1) by (auto simp: live_def)
  have "eligible ?h p = []" if "p \<in> set ptrs" for p
    using ok [OF that] by (auto simp: eligible_def pairs_def)
  then have "remaining ?h ptrs = {#}" by (simp add: remaining_empty)
  with merge_loop_result [OF live, of "[]"] obtain heap' ptrs' where
    "merge_loop ?h ptrs [] = Some (heap', ptrs', [])" by auto
  then show ?thesis by (simp add: dumper_round_def wait dump_all_def split: Option.bind_split)
qed

subsection \<open>Both writers at the end\<close>

text \<open>
  Each writer enters its record; each tests for the end of the generation; then the first one goes
  on to its end. After a round of the dumper the second one does the same.
\<close>

definition both_full :: "nat list" where
  "both_full = replicate 9 0 @ replicate 9 1 @ [0, 1] @ [0, 0]"

lemma both_full_run:
  assumes put: "db_put g1 k1 v1 s = Some s1" "db_put g2 k2 v2 s1 = Some t"
    and total: "get_total_items (db_mem t) = Some (int RECORD_BUFF_SIZE)" and check: "db_check t = Some u"
  shows "run_schedule both_full [writer_start g1 k1 v1, writer_start g2 k2 v2] s
    = Some ([(writer_start g1 k1 v1)\<lparr>wr_pc := Written\<rparr>, (writer_start g2 k2 v2)\<lparr>wr_pc := At_switch\<rparr>], u)"
proof -
  let ?w1 = "writer_start g1 k1 v1" and ?w2 = "writer_start g2 k2 v2"
  let ?at = "\<lambda>p q. [?w1\<lparr>wr_pc := p\<rparr>, ?w2\<lparr>wr_pc := q\<rparr>]"
  have w: "[?w1, ?w2] = ?at At_log At_log" by (simp add: writer_start_def)
  have 1: "run_schedule (replicate 9 0) (?at At_log At_log) s = Some (?at At_total At_log, s1)"
    using run_put [of 0 "?at At_log At_log" s] put(1) by (simp add: writer_start_def)
  have 2: "run_schedule (replicate 9 1) (?at At_total At_log) s1 = Some (?at At_total At_total, t)"
    using run_put [of 1 "?at At_total At_log" s1] put(2) by (simp add: writer_start_def)
  have 3: "run_schedule [0, 1] (?at At_total At_total) t = Some (?at At_switch At_switch, t)"
    using total by (simp add: writer_step_def)
  obtain d m where "switch_log (db_disk t) = Some d" "submit_dump (db_mem t) = Some m" "u = t\<lparr>db_mem := m, db_disk := d\<rparr>"
    using check total by (auto simp: db_check_def bind_eq_Some_conv)
  then have 4: "run_schedule [0, 0] (?at At_switch At_switch) t = Some (?at Written At_switch, u)"
    by (simp add: writer_step_def)
  show ?thesis unfolding both_full_def w by (simp only: run_threads_append 1 2 3 4 bind.simps prod.case)
qed

text \<open>The new lists have no records, so their dump has none.\<close>

lemma second_dump:
  assumes re: "restarted (db_mem s)" and pc: "wr_pc w = At_switch"
    and base: "\<And>name. name \<noteq> [] \<Longrightarrow> path_join [dm_basepath (db_disk s), name] = Some (p @ name)"
    and log: "dm_files (db_disk s) (p @ HOT_LOG) = Some bs" and died: "dm_files (db_disk s) (p @ DIED_LOG) = None"
  shows "\<exists>s'. run_schedule [1, 1] [v, w] s = Some ([v, w\<lparr>wr_pc := Written\<rparr>], s') \<and> dumper_round junk s' = None
    \<and> mt_wait_for_dump (db_mem s') = [Some (mt_current (db_mem s))]"
proof -
  let ?cur = "mt_current (db_mem s)"
  obtain d where d: "switch_log (db_disk s) = Some d" using switch_log_ok [OF base log died] by blast
  have r: "tables_ok (db_mem s)" "mt_working (db_mem s)" "mt_wait_for_dump (db_mem s) = []"
    "\<forall>q \<in> set ?cur. fresh_list (mt_heap (db_mem s)) q"
    using re by (simp_all add: restarted_def)
  have "length (mt_wait_for_dump (db_mem s)) < wait_for_dump_capacity" by (simp add: r(3) wait_for_dump_capacity_def)
  from submit_dump_ok [OF r(1,2) this] obtain m where m: "submit_dump (db_mem s) = Some m"
    "mt_wait_for_dump m = mt_wait_for_dump (db_mem s) @ [Some ?cur]"
    "\<forall>q \<in> set ?cur. mt_heap m q = map_option set_dumping (mt_heap (db_mem s) q)" by blast
  let ?s = "s\<lparr>db_disk := d, db_mem := m\<rparr>"
  have run: "run_schedule [1, 1] [v, w] s = Some ([v, w\<lparr>wr_pc := Written\<rparr>], ?s)"
    using pc d m(1) by (simp add: writer_step_def)
  have wait: "mt_wait_for_dump (db_mem ?s) = [Some ?cur]" using m(2) r(3) by simp
  have "sl_map (set_dumping l) = sl_map l" for l by (simp add: set_dumping_def sl_map_def)
  then have "\<exists>l. mt_heap m q = Some l \<and> sl_inv l \<and> sl_map l = Map.empty" if "q \<in> set ?cur" for q
    using m(3) r(4) that unfolding fresh_list_def by fastforce
  then have "dumper_round junk ?s = None"
    using r(1) wait by (intro empty_round [where ptrs = ?cur and queue = "[]"]) (auto simp: tables_ok_def)
  with run wait show ?thesis by (intro exI [of _ ?s]) simp
qed

text \<open>A new process, the first writes of a generation, and the records of the last two.\<close>

lemma last_two_puts:
  assumes nf: "no_files base fs" and valid: "\<forall>w \<in> set (ws @ [(g1, key1, v1), (g2, key2, v2)]). valid_write w"
    and len: "length (ws @ [(g1, key1, v1), (g2, key2, v2)]) = RECORD_BUFF_SIZE"
    and dist: "distinct (map key_of (ws @ [(g1, key1, v1), (g2, key2, v2)]))"
    and keys: "get_key_string key1 = Some k1" "get_key_string key2 = Some k2"
  shows "\<exists>s s1 t. Option.bind (DBSystem_init g g' base fs) (db_writes ws) = Some s
    \<and> db_put g1 k1 v1 s = Some s1 \<and> db_put g2 k2 v2 s1 = Some t \<and> db_ok t
    \<and> dom (db_map t) = key_of ` set (ws @ [(g1, key1, v1), (g2, key2, v2)])
    \<and> mt_wait_for_dump (db_mem t) = [] \<and> db_manifest t = manifest_new \<and> dm_basepath (db_disk t) = base
    \<and> dm_files (db_disk t) = fs(the (path_join [base, HOT_LOG])
        \<mapsto> log_bytes (records (ws @ [(g1, key1, v1), (g2, key2, v2)])))"
proof -
  let ?w1 = "(g1, key1, v1)" and ?w2 = "(g2, key2, v2)" and ?hot = "the (path_join [base, HOT_LOG])"
  have ks: "key_of ?w1 = k1" "key_of ?w2 = k2" using keys by (simp_all add: key_of_def)
  have none: "fs ?hot = None" using nf by (simp add: no_files_def del: path_join.simps)
  obtain s0 where s0: "DBSystem_init g g' base fs = Some s0" "db_ok s0" "db_map s0 = Map.empty"
    "bf_empty (db_buffer s0) = [0..<RECORD_BUFF_SIZE]" "mt_wait_for_dump (db_mem s0) = []"
    "db_manifest s0 = manifest_new" "db_disk s0 = open_append ?hot (DiskManager_init base fs)"
    using DBSystem_init_fresh [OF nf, of g g'] by (auto simp: Buffer_new_def simp del: path_join.simps)
  from s0(7) none have d: "dm_curr_log_len (db_disk s0) = 0" "dm_curr_log_fd (db_disk s0) = Some ?hot"
    "dm_files (db_disk s0) = fs(?hot \<mapsto> [])" "dm_basepath (db_disk s0) = base"
    by (simp_all add: open_append_def DiskManager_init_def if_file_exists_def del: path_join.simps)
  have short: "length ws < RECORD_BUFF_SIZE" "Suc (length ws) < RECORD_BUFF_SIZE" using len by simp_all
  have log: "dm_curr_log_len (db_disk s0) + Suc n * sizeof_Record < 2 ^ 31" if "n < RECORD_BUFF_SIZE" for n
    using that d(1) by (simp add: sizeof_Record_def RECORD_VALUE_LEN_def RECORD_BUFF_SIZE_def)
  obtain s where s: "db_writes ws s0 = Some s" "since s0 ws s"
    using since_writes_slots [OF s0(2,4,3) d(1), of ws] valid dist short(1) by auto
  obtain s1 where s1: "db_put g1 k1 v1 s = Some s1" "since s0 (ws @ [?w1]) s1"
    using since_put [OF s(2), of ?w1 g1] valid short(1) s0(4) log [of "length ws"] ks by auto
  obtain t where t: "db_put g2 k2 v2 s1 = Some t" "since s0 ((ws @ [?w1]) @ [?w2]) t"
    using since_put [OF s1(2), of ?w2 g2] valid short(2) s0(4) log [of "length (ws @ [?w1])"] ks by auto
  let ?all = "ws @ [?w1, ?w2]"
  have t': "db_ok t" "db_map t = contents ?all" "mt_wait_for_dump (db_mem t) = []" "db_manifest t = manifest_new"
    "dm_basepath (db_disk t) = base" "dm_files (db_disk t) = fs(?hot \<mapsto> log_bytes (records ?all))"
    using t(2) s0 d by (simp_all add: since_def log_extend_simps(4) log_extend_def write_fd_def
        del: contents_simps records_simps path_join.simps)
  have "dom (db_map t) = key_of ` set ?all" unfolding t'(2) by (rule dom_contents)
  with s0(1) s(1) s1(1) t(1) t'(1,3-6) show ?thesis by (intro exI conjI) (assumption | simp del: path_join.simps)+
qed

text \<open>The dumper's round after them.\<close>

lemma last_two_dump:
  assumes nf: "no_files base fs" and valid: "\<forall>w \<in> set (ws @ [(g1, key1, v1), (g2, key2, v2)]). valid_write w"
    and len: "length (ws @ [(g1, key1, v1), (g2, key2, v2)]) = RECORD_BUFF_SIZE"
    and dist: "distinct (map key_of (ws @ [(g1, key1, v1), (g2, key2, v2)]))"
    and small: "\<forall>w \<in> set (ws @ [(g1, key1, v1), (g2, key2, v2)]). key_of w < INT64_MAX"
    and keys: "get_key_string key1 = Some k1" "get_key_string key2 = Some k2"
    and p: "\<And>name. name \<noteq> [] \<Longrightarrow> path_join [base, name] = Some (p @ name)"
  shows "\<exists>s s1 t u s2. Option.bind (DBSystem_init g g' base fs) (db_writes ws) = Some s
    \<and> db_put g1 k1 v1 s = Some s1 \<and> db_put g2 k2 v2 s1 = Some t
    \<and> get_total_items (db_mem t) = Some (int RECORD_BUFF_SIZE) \<and> db_check t = Some u
    \<and> dumper_round junk u = Some s2 \<and> get_records_num (db_manifest s2) = 1 \<and> restarted (db_mem s2)
    \<and> dm_basepath (db_disk s2) = base \<and> dm_files (db_disk s2) (p @ HOT_LOG) = Some []
    \<and> dm_files (db_disk s2) (p @ DIED_LOG) = None"
proof -
  let ?all = "ws @ [(g1, key1, v1), (g2, key2, v2)]"
  note paths = p [OF log_names(2)] p [OF log_names(3)]
  have none: "fs (p @ HOT_LOG) = None" "fs (p @ DIED_LOG) = None"
    using nf by (simp_all add: no_files_def paths del: path_join.simps)
  obtain s s1 t where s: "Option.bind (DBSystem_init g g' base fs) (db_writes ws) = Some s"
    "db_put g1 k1 v1 s = Some s1" "db_put g2 k2 v2 s1 = Some t"
    and t: "db_ok t" "dom (db_map t) = key_of ` set ?all" "mt_wait_for_dump (db_mem t) = []" "db_manifest t = manifest_new"
    "dm_basepath (db_disk t) = base" "dm_files (db_disk t) = fs(p @ HOT_LOG \<mapsto> log_bytes (records ?all))"
    using last_two_puts [OF nf valid len dist keys, of g g'] unfolding paths option.sel by blast
  have full: "card (dom (db_map t)) = RECORD_BUFF_SIZE"
    unfolding t(2) using dist len by (metis distinct_card length_map list.set_map)
  have total: "get_total_items (db_mem t) = Some (int RECORD_BUFF_SIZE)"
    using db_total [OF db_ok_core [OF t(1)]] full by simp
  have base': "\<And>name. name \<noteq> [] \<Longrightarrow> path_join [dm_basepath (db_disk t), name] = Some (p @ name)"
    unfolding t(5) by (rule p)
  have small': "\<forall>k \<in> dom (db_map t). k < INT64_MAX" using small unfolding t(2) by auto
  have files: "dm_files (db_disk t) (p @ HOT_LOG) = Some (log_bytes (records ?all))" "dm_files (db_disk t) (p @ DIED_LOG) = None"
    using none log_names(1) by (simp_all add: t(6))
  have mn: "get_records_num (db_manifest t) = 0" "mn_record_cnt (db_manifest t) \<noteq> []"
    by (simp_all add: t(4) manifest_new_def get_records_num_def MAX_LOG_RECORD_NUM_def)
  obtain u s2 mf where u: "db_check t = Some u" "dumper_round junk u = Some s2"
    "length (mn_records (db_manifest s2)) = Suc 0" "restarted (db_mem s2)" "dm_basepath (db_disk s2) = base"
    "dm_files (db_disk s2) = (dm_files (db_disk t))
        (p @ DIED_LOG \<mapsto> log_bytes (records ?all), p @ HOT_LOG \<mapsto> [],
         p @ sst_name 0 \<mapsto> sst_keys (sorted_list_of_set (dom (db_map t)))
           @ concat (map (\<lambda>k. the (db_map t k)) (sorted_list_of_set (dom (db_map t)))),
         p @ MANIFIST_FILE \<mapsto> mf, p @ DIED_LOG := None)"
    using generation_dump [OF t(1) full base' t(3) small' files mn(1) _ mn(2), of junk] t(5) by auto
  have "dm_files (db_disk s2) (p @ HOT_LOG) = Some []" "dm_files (db_disk s2) (p @ DIED_LOG) = None"
    using log_names(1) sst_name_names [of 0] MANIFIST_names by (simp_all add: u(6))
  moreover have "get_records_num (db_manifest s2) = 1" using u(3) by (simp add: get_records_num_def)
  ultimately show ?thesis using s total u(1,2,4,5) by (intro exI conjI)
qed

text \<open>C11: Two threads make the last two writes of a generation. If both test for its end
  before one of them submits it, both switch the log and submit their lists. The first generation
  becomes a table file; the second one has no records, and its dump takes the first and the last
  element of an empty vector, which is undefined.\<close>

theorem double_dump:
  assumes nf: "no_files base fs" and valid: "\<forall>w \<in> set (ws @ [(g1, key1, v1), (g2, key2, v2)]). valid_write w"
    and len: "length (ws @ [(g1, key1, v1), (g2, key2, v2)]) = RECORD_BUFF_SIZE"
    and dist: "distinct (map key_of (ws @ [(g1, key1, v1), (g2, key2, v2)]))"
    and small: "\<forall>w \<in> set (ws @ [(g1, key1, v1), (g2, key2, v2)]). key_of w < INT64_MAX"
    and keys: "get_key_string key1 = Some k1" "get_key_string key2 = Some k2"
  shows "\<exists>s us s1 s2 us' s3. Option.bind (DBSystem_init g g' base fs) (db_writes ws) = Some s
    \<and> run_schedule both_full [writer_start g1 k1 v1, writer_start g2 k2 v2] s = Some (us, s1)
    \<and> dumper_round junk s1 = Some s2 \<and> get_records_num (db_manifest s2) = 1
    \<and> run_schedule [1, 1] us s2 = Some (us', s3) \<and> map wr_pc us' = [Written, Written]
    \<and> mt_wait_for_dump (db_mem s3) = [Some (mt_current (db_mem s2))] \<and> dumper_round junk s3 = None"
proof -
  obtain p where p: "\<And>name. name \<noteq> [] \<Longrightarrow> path_join [base, name] = Some (p @ name)"
    using path_join_names no_files_holds(1) [OF nf] by blast
  obtain s s1 t u s2 where s: "Option.bind (DBSystem_init g g' base fs) (db_writes ws) = Some s"
    "db_put g1 k1 v1 s = Some s1" "db_put g2 k2 v2 s1 = Some t"
    and total: "get_total_items (db_mem t) = Some (int RECORD_BUFF_SIZE)"
    and u: "db_check t = Some u" "dumper_round junk u = Some s2" "get_records_num (db_manifest s2) = 1"
    "restarted (db_mem s2)" "dm_basepath (db_disk s2) = base"
    and files: "dm_files (db_disk s2) (p @ HOT_LOG) = Some []" "dm_files (db_disk s2) (p @ DIED_LOG) = None"
    using last_two_dump [OF nf valid len dist small keys p, of g g' junk] by blast
  have run1: "run_schedule both_full [writer_start g1 k1 v1, writer_start g2 k2 v2] s
    = Some ([(writer_start g1 k1 v1)\<lparr>wr_pc := Written\<rparr>, (writer_start g2 k2 v2)\<lparr>wr_pc := At_switch\<rparr>], u)"
    (is "_ = Some ([?v, ?w], _)")
    by (rule both_full_run [OF s(2,3) total u(1)])
  have "\<And>name. name \<noteq> [] \<Longrightarrow> path_join [dm_basepath (db_disk s2), name] = Some (p @ name)"
    unfolding u(5) by (rule p)
  moreover have "wr_pc ?w = At_switch" by simp
  ultimately obtain s3 where s3: "run_schedule [1, 1] [?v, ?w] s2 = Some ([?v, ?w\<lparr>wr_pc := Written\<rparr>], s3)"
    "dumper_round junk s3 = None" "mt_wait_for_dump (db_mem s3) = [Some (mt_current (db_mem s2))]"
    using files second_dump [OF u(4), of ?w p "[]" ?v junk] by blast
  have "map wr_pc [?v, ?w\<lparr>wr_pc := Written\<rparr>] = [Written, Written]" by simp
  with s(1) run1 u(2,3) s3 show ?thesis by (intro exI conjI)
qed

theorem double_dump_witness:
  "\<exists>s us s1 s2 us' s3. Option.bind (DBSystem_init (\<lambda>_ _. 1) (\<lambda>_ _. 1) [100] Map.empty) (db_writes (map num_write [0..<1022])) = Some s
    \<and> run_schedule both_full [writer_start (\<lambda>_. 1) (key_of (num_write 1022)) (replicate RECORD_VALUE_LEN 254),
        writer_start (\<lambda>_. 1) (key_of (num_write 1023)) (replicate RECORD_VALUE_LEN 255)] s = Some (us, s1)
    \<and> dumper_round [] s1 = Some s2 \<and> get_records_num (db_manifest s2) = 1
    \<and> run_schedule [1, 1] us s2 = Some (us', s3) \<and> map wr_pc us' = [Written, Written]
    \<and> mt_wait_for_dump (db_mem s3) = [Some (mt_current (db_mem s2))] \<and> dumper_round [] s3 = None"
proof -
  have split: "map num_write [0..<1022] @ [((\<lambda>_. 1), fixed_dec 8 1022, replicate RECORD_VALUE_LEN 254),
      ((\<lambda>_. 1), fixed_dec 8 1023, replicate RECORD_VALUE_LEN 255)] = num_writes"
  proof -
    have "[0..<RECORD_BUFF_SIZE] = [0..<1022] @ [1022, 1023]"
    proof -
      have "[1022..<1022 + 2] = [1022 :: nat, 1023]" by simp
      then show ?thesis using upt_add_eq_append [of 0 1022 2] by (simp add: RECORD_BUFF_SIZE_def)
    qed
    moreover have "num_write 1022 = ((\<lambda>_. 1), fixed_dec 8 1022, replicate RECORD_VALUE_LEN 254)"
      "num_write 1023 = ((\<lambda>_. 1), fixed_dec 8 1023, replicate RECORD_VALUE_LEN 255)"
      by (simp_all add: num_write_def)
    ultimately show ?thesis by (simp only: num_writes_def map_append list.map)
  qed
  from double_dump [where ws = "map num_write [0..<1022]" and ?g1.0 = "\<lambda>_. 1" and ?g2.0 = "\<lambda>_. 1"
      and ?key1.0 = "fixed_dec 8 1022" and ?key2.0 = "fixed_dec 8 1023" and ?v1.0 = "replicate RECORD_VALUE_LEN 254"
      and ?v2.0 = "replicate RECORD_VALUE_LEN 255" and junk = "[]" and g = "\<lambda>_ _. 1" and g' = "\<lambda>_ _. 1",
      unfolded split, OF no_files_empty num_writes_ok(1-4) num_write_key(1) num_write_key(1)]
  show ?thesis by simp_all
qed

end
