(* ===== verification/Dump_Steps.thy ===== *)
theory Dump_Steps
  imports Write_Steps DB_Dump
begin

text \<open>
  All kinds of threads of the engine as steps: the writers of \<open>Write_Steps\<close>, readers
  (\<^verbatim>\<open>DBSystem::read\<close>) and the dumper (a round of \<^verbatim>\<open>buffers_dumper\<close> with
  \<^verbatim>\<open>dump_all\<close>). A reader or a dumper that is not interrupted does what the models of these
  functions do as one step. A reader that meets the dumper can block all writers.
\<close>

subsection \<open>Reading\<close>

text \<open>
  \<^verbatim>\<open>idx_ptr\<close> points into the hash index; the slot is read through it twice, without a lock.
\<close>

datatype read_pc =
  At_get | At_wait u32 | At_value u32 nat | At_release u32 "u8 list" | Returned "u8 list"

record reader =
  rd_key :: KEY_T
  rd_pc :: read_pc

definition reader_step :: "reader \<Rightarrow> DBSystem \<Rightarrow> (reader \<times> DBSystem) option" where
  "reader_step r s = (case rd_pc r of
     At_get \<Rightarrow> do {
       idx_ptr \<leftarrow> Indexer_get (rd_key r) (db_hash s);
       Some (r\<lparr>rd_pc := At_wait idx_ptr\<rparr>, s)
     }
   | At_wait idx_ptr \<Rightarrow> do {
       let idx = unat (get_idx (kv_idx (db_hash s idx_ptr)));
       buffer \<leftarrow> wait_for_access idx (db_buffer s);
       Some (r\<lparr>rd_pc := At_value idx_ptr idx\<rparr>, s\<lparr>db_buffer := buffer\<rparr>)
     }
   | At_value idx_ptr at \<Rightarrow> do {
       buff \<leftarrow> record_at at (db_buffer s);
       Some (r\<lparr>rd_pc := At_release idx_ptr (get_value buff)\<rparr>, s)
     }
   | At_release idx_ptr value \<Rightarrow> do {
       let idx = unat (get_idx (kv_idx (db_hash s idx_ptr)));
       buffer \<leftarrow> end_access idx (db_buffer s);
       Some (r\<lparr>rd_pc := Returned value\<rparr>, s\<lparr>db_buffer := buffer\<rparr>)
     }
   | Returned _ \<Rightarrow> None)"

subsection \<open>Dumping\<close>

datatype dump_pc =
  D_pop | D_keys | D_access | D_append | D_release | D_end | D_hash | D_insert | D_finish | D_idle

record dumper =
  du_kvidxes :: "KeyIdxPair list"
  du_i :: nat
  du_pc :: dump_pc

definition dumper_start :: dumper where
  "dumper_start = \<lparr>du_kvidxes = [], du_i = 0, du_pc = D_pop\<rparr>"

text \<open>Where the loop of \<^verbatim>\<open>dump_all\<close> goes on.\<close>

definition dump_loop :: "dumper \<Rightarrow> dumper" where
  "dump_loop d = d\<lparr>du_pc := (if du_i d < length (du_kvidxes d) then D_access else D_insert)\<rparr>"

text \<open>The head of the loop of \<^verbatim>\<open>buffers_dumper\<close>, with the merge of the popped lists.\<close>

definition dumper_pop :: "dumper \<Rightarrow> DBSystem \<Rightarrow> (dumper \<times> DBSystem) option" where
  "dumper_pop d s = do {
     (curr_writing, queue) \<leftarrow> wait_and_pop (mt_wait_for_dump (db_mem s));
     let s = s\<lparr>db_mem := (db_mem s)\<lparr>mt_wait_for_dump := queue\<rparr>\<rparr>;
     case curr_writing of
       None \<Rightarrow> Some (d\<lparr>du_pc := D_idle\<rparr>, s)
     | Some seq \<Rightarrow> do {
         (heap, _, kvs) \<leftarrow> merge_loop (mt_heap (db_mem s)) seq [];
         kvidxes \<leftarrow> deref_all heap kvs;
         Some (d\<lparr>du_kvidxes := kvidxes, du_i := 0, du_pc := D_keys\<rparr>, s\<lparr>db_mem := (db_mem s)\<lparr>mt_heap := heap\<rparr>\<rparr>)
       }
   }"

text \<open>
  The steps of \<^verbatim>\<open>dump_all\<close>: the header of the table file, five steps for each record, the
  manifest, the died log. The merge has read the nodes of the lists already, so a step of the loop
  finds the pairs in \<open>du_kvidxes\<close>.
\<close>

definition dumper_step :: "u8 list \<Rightarrow> dumper \<Rightarrow> DBSystem \<Rightarrow> (dumper \<times> DBSystem) option" where
  "dumper_step junk d s = (case du_pc d of
     D_pop \<Rightarrow> dumper_pop d s
   | D_keys \<Rightarrow> do {
       disk \<leftarrow> dumpint_keys (sst_name (get_records_num (db_manifest s))) (map kv_key (du_kvidxes d)) (db_disk s);
       Some (dump_loop d, s\<lparr>db_disk := disk\<rparr>)
     }
   | D_access \<Rightarrow> do {
       kv \<leftarrow> vget (du_kvidxes d) (du_i d);
       buffer \<leftarrow> wait_for_access (pair_slot kv) (db_buffer s);
       Some (d\<lparr>du_pc := D_append\<rparr>, s\<lparr>db_buffer := buffer\<rparr>)
     }
   | D_append \<Rightarrow> do {
       kv \<leftarrow> vget (du_kvidxes d) (du_i d);
       record \<leftarrow> record_at (pair_slot kv) (db_buffer s);
       Some (d\<lparr>du_pc := D_release\<rparr>,
         s\<lparr>db_disk := append_dumping (take RECORD_VALUE_LEN (rc_value record)) (db_disk s)\<rparr>)
     }
   | D_release \<Rightarrow> do {
       kv \<leftarrow> vget (du_kvidxes d) (du_i d);
       buffer \<leftarrow> release_buff (pair_slot kv) (db_buffer s);
       Some (d\<lparr>du_pc := D_end\<rparr>, s\<lparr>db_buffer := buffer\<rparr>)
     }
   | D_end \<Rightarrow> do {
       kv \<leftarrow> vget (du_kvidxes d) (du_i d);
       buffer \<leftarrow> end_access (pair_slot kv) (db_buffer s);
       Some (d\<lparr>du_pc := D_hash\<rparr>, s\<lparr>db_buffer := buffer\<rparr>)
     }
   | D_hash \<Rightarrow> do {
       kv \<leftarrow> vget (du_kvidxes d) (du_i d);
       let index = set_in_file True (set_idx (of_nat (du_i d))
         (set_fid (of_nat (get_records_num (db_manifest s))) Index_new));
       (hashtable, _) \<leftarrow> Indexer_update (kv_key kv) index (db_hash s);
       Some (dump_loop (d\<lparr>du_i := Suc (du_i d)\<rparr>), s\<lparr>db_hash := hashtable\<rparr>)
     }
   | D_insert \<Rightarrow>
       (if du_kvidxes d = [] then None
        else do {
          (manifest, disk) \<leftarrow> insert_record junk 0 (kv_key (hd (du_kvidxes d))) (kv_key (last (du_kvidxes d)))
            (of_nat (length (du_kvidxes d))) (db_manifest s) (db_disk s);
          Some (d\<lparr>du_pc := D_finish\<rparr>, s\<lparr>db_disk := disk, db_manifest := manifest\<rparr>)
        })
   | D_finish \<Rightarrow> do {
       disk \<leftarrow> end_dumping (db_disk s);
       Some (d\<lparr>du_pc := D_idle\<rparr>, s\<lparr>db_disk := disk\<rparr>)
     }
   | D_idle \<Rightarrow> None)"

subsection \<open>The engine\<close>

datatype engine_thread = Writing writer | Reading reader | Dumping dumper

definition engine_step :: "u8 list \<Rightarrow> engine_thread \<Rightarrow> DBSystem \<Rightarrow> (engine_thread \<times> DBSystem) option" where
  "engine_step junk th s = (case th of
     Writing w \<Rightarrow> do { (w, s) \<leftarrow> writer_step w s; Some (Writing w, s) }
   | Reading r \<Rightarrow> do { (r, s) \<leftarrow> reader_step r s; Some (Reading r, s) }
   | Dumping d \<Rightarrow> do { (d, s) \<leftarrow> dumper_step junk d s; Some (Dumping d, s) })"

text \<open>A reader alone.\<close>

lemma read_alone:
  assumes "get_key_string key = Some k" and "t < length ths" and "ths ! t = Reading \<lparr>rd_key = k, rd_pc = At_get\<rparr>"
  shows "run_threads (engine_step junk) (replicate 4 t) ths s
    = map_option (\<lambda>(v, s). (ths[t := Reading \<lparr>rd_key = k, rd_pc = Returned v\<rparr>], s)) (DBSystem_read key s)"
proof -
  have "replicate 4 t = [t, t, t, t]" by (simp add: numeral_eq_Suc)
  then show ?thesis
    using assms
    by (auto simp: engine_step_def reader_step_def DBSystem_read_def Let_def split_def map_option_case record_at_def
          wait_for_access_def vget_def vset_def end_access_def
        split: Option.bind_split option.split if_splits)
qed

text \<open>The loop of the dumper alone: five steps for each record.\<close>

lemma loop_some:
  assumes "t < length ths" and "i + n \<le> length qs"
  shows "run_threads (engine_step junk) (replicate (5 * n) t)
      (ths[t := Dumping (dump_loop \<lparr>du_kvidxes = qs, du_i = i, du_pc = pc\<rparr>)]) s
    = map_option (\<lambda>(b, h, d). (ths[t := Dumping (dump_loop \<lparr>du_kvidxes = qs, du_i = i + n, du_pc = pc'\<rparr>)],
          s\<lparr>db_buffer := b, db_hash := h, db_disk := d\<rparr>))
        (dump_records (get_records_num (db_manifest s)) i (take n (drop i qs)) (db_buffer s, db_hash s, db_disk s))"
  using assms(2)
proof (induction n arbitrary: i s pc)
  case 0
  then show ?case by (simp add: dump_loop_def)
next
  case (Suc n)
  then have i: "i < length qs" by simp
  have drop: "take (Suc n) (drop i qs) = qs ! i # take n (drop (Suc i) qs)" using i by (simp add: take_Suc hd_drop_conv_nth tl_drop drop_Suc)
  have rep: "replicate (5 * Suc n) t = [t, t, t, t, t] @ replicate (5 * n) t" by (simp add: numeral_eq_Suc)
  have IH: "run_threads (engine_step junk) (replicate (5 * n) t)
      (ths[t := Dumping (dump_loop \<lparr>du_kvidxes = qs, du_i = Suc i, du_pc = pc\<rparr>)]) s
    = map_option (\<lambda>(b, h, d). (ths[t := Dumping (dump_loop \<lparr>du_kvidxes = qs, du_i = Suc i + n, du_pc = pc'\<rparr>)],
          s\<lparr>db_buffer := b, db_hash := h, db_disk := d\<rparr>))
        (dump_records (get_records_num (db_manifest s)) (Suc i) (take n (drop (Suc i) qs)) (db_buffer s, db_hash s, db_disk s))"
    for s pc
    using Suc.prems by (intro Suc.IH) simp
  show ?case
    unfolding rep run_threads_append drop using assms(1) i
    by (auto simp: engine_step_def dumper_step_def dump_loop_def [of "\<lparr>du_kvidxes = qs, du_i = i, du_pc = pc\<rparr>"] pair_slot_def Let_def IH split_def
        split: Option.bind_split)
qed

lemma loop_alone:
  assumes "t < length ths" and "i \<le> length qs"
  shows "run_threads (engine_step junk) (replicate (5 * (length qs - i)) t)
      (ths[t := Dumping (dump_loop \<lparr>du_kvidxes = qs, du_i = i, du_pc = pc\<rparr>)]) s
    = map_option (\<lambda>(b, h, d). (ths[t := Dumping \<lparr>du_kvidxes = qs, du_i = length qs, du_pc = D_insert\<rparr>],
          s\<lparr>db_buffer := b, db_hash := h, db_disk := d\<rparr>))
        (dump_records (get_records_num (db_manifest s)) i (drop i qs) (db_buffer s, db_hash s, db_disk s))"
  using loop_some [OF assms(1), of i "length qs - i" qs junk pc s] assms(2) by (simp add: dump_loop_def)

text \<open>A round of the dumper alone.\<close>

lemma merges_step:
  assumes "merges_to s qs u" and "t < length ths"
  shows "run_threads (engine_step junk) [t] (ths[t := Dumping dumper_start]) s
    = Some (ths[t := Dumping \<lparr>du_kvidxes = qs, du_i = 0, du_pc = D_keys\<rparr>], u)"
  using assms by (auto simp: merges_to_def engine_step_def dumper_step_def dumper_pop_def dumper_start_def)

lemma keys_step:
  assumes "t < length ths"
  shows "run_threads (engine_step junk) [t] (ths[t := Dumping \<lparr>du_kvidxes = qs, du_i = 0, du_pc = D_keys\<rparr>]) s
    = map_option (\<lambda>d. (ths[t := Dumping (dump_loop \<lparr>du_kvidxes = qs, du_i = 0, du_pc = D_keys\<rparr>)], s\<lparr>db_disk := d\<rparr>))
        (dumpint_keys (sst_name (get_records_num (db_manifest s))) (map kv_key qs) (db_disk s))"
  using assms by (simp add: engine_step_def dumper_step_def map_option_case split: Option.bind_split option.split)

definition dump_tail :: "u8 list \<Rightarrow> KeyIdxPair list \<Rightarrow> DBSystem \<Rightarrow> DBSystem option" where
  "dump_tail junk qs s = (if qs = [] then None else do {
     (manifest, disk) \<leftarrow> insert_record junk 0 (kv_key (hd qs)) (kv_key (last qs)) (of_nat (length qs))
       (db_manifest s) (db_disk s);
     disk \<leftarrow> end_dumping disk;
     Some (s\<lparr>db_disk := disk, db_manifest := manifest\<rparr>)
   })"

lemma tail_steps:
  assumes "t < length ths"
  shows "run_threads (engine_step junk) [t, t] (ths[t := Dumping \<lparr>du_kvidxes = qs, du_i = n, du_pc = D_insert\<rparr>]) s
    = map_option (\<lambda>s. (ths[t := Dumping \<lparr>du_kvidxes = qs, du_i = n, du_pc = D_idle\<rparr>], s)) (dump_tail junk qs s)"
  using assms
  by (auto simp: engine_step_def dumper_step_def dump_tail_def map_option_case split_def split: Option.bind_split option.split)

lemma dump_all_tail:
  "dump_all junk qs s = do {
     disk \<leftarrow> dumpint_keys (sst_name (get_records_num (db_manifest s))) (map kv_key qs) (db_disk s);
     (b, h, d) \<leftarrow> dump_records (get_records_num (db_manifest s)) 0 qs (db_buffer s, db_hash s, disk);
     dump_tail junk qs (s\<lparr>db_buffer := b, db_hash := h, db_disk := d\<rparr>)
   }"
  by (auto simp: dump_all_def dump_tail_def Let_def split_def intro!: Option.bind_cong)

lemma round_alone:
  assumes "merges_to s qs u" and t: "t < length ths"
  shows "run_threads (engine_step junk) ([t] @ [t] @ replicate (5 * length qs) t @ [t, t]) (ths[t := Dumping dumper_start]) s
    = map_option (\<lambda>s. (ths[t := Dumping \<lparr>du_kvidxes = qs, du_i = length qs, du_pc = D_idle\<rparr>], s)) (dumper_round junk s)"
proof -
  note loop = loop_alone [OF t, of 0 qs junk D_keys, simplified]
  show ?thesis
    unfolding merges_round [OF assms(1)] dump_all_tail run_threads_append merges_step [OF assms] option.case bind.simps prod.case
      keys_step [OF t]
    using t by (auto simp: loop tail_steps map_option_case split_def simp del: run_threads.simps
        split: Option.bind_split option.split)
qed

subsection \<open>A slot that nobody leaves\<close>

text \<open>
  The writer \<open>ths ! 0\<close> has been given the slot \<open>a\<close>, whose flag is set although no thread accesses it. The other
  threads are writers, readers and dumpers that have nothing to do; none of them has to do with \<open>a\<close>.
\<close>

definition off_slot :: "nat \<Rightarrow> DBSystem \<Rightarrow> engine_thread \<Rightarrow> bool" where
  "off_slot a s th = (case th of
     Writing w \<Rightarrow> (\<forall>i. slot_held w = Some i \<longrightarrow> i \<noteq> a \<and> i < RECORD_BUFF_SIZE)
   | Reading r \<Rightarrow> (case rd_pc r of
         At_value p _ \<Rightarrow> unat (get_idx (kv_idx (db_hash s p))) \<noteq> a
       | At_release p _ \<Rightarrow> unat (get_idx (kv_idx (db_hash s p))) \<noteq> a
       | _ \<Rightarrow> True)
   | Dumping d \<Rightarrow> du_pc d = D_idle)"

definition waits_at :: "nat \<Rightarrow> engine_thread \<Rightarrow> bool" where
  "waits_at a th \<longleftrightarrow> (\<exists>w. th = Writing w \<and> wr_pc w = At_access a)"

definition slot_lost :: "nat \<Rightarrow> engine_thread list \<Rightarrow> DBSystem \<Rightarrow> bool" where
  "slot_lost a ths s \<longleftrightarrow> ths \<noteq> [] \<and> waits_at a (ths ! 0) \<and> (\<forall>t < length ths. t \<noteq> 0 \<longrightarrow> off_slot a s (ths ! t))
     \<and> a < length (bf_accessing (db_buffer s)) \<and> bf_accessing (db_buffer s) ! a
     \<and> set (bf_empty (db_buffer s)) \<subseteq> {..<RECORD_BUFF_SIZE} - {a}"

lemma waits_stuck: "waits_at a th \<Longrightarrow> bf_accessing (db_buffer s) ! a \<Longrightarrow> engine_step junk th s = None"
  by (auto simp: waits_at_def engine_step_def writer_step_def wait_for_access_def vget_def)

text \<open>What a thread other than the waiting one does to the flag, the empty slots and the index.\<close>

definition off_step :: "nat \<Rightarrow> DBSystem \<Rightarrow> DBSystem \<Rightarrow> bool" where
  "off_step a s s' \<longleftrightarrow> length (bf_accessing (db_buffer s')) = length (bf_accessing (db_buffer s))
     \<and> bf_accessing (db_buffer s') ! a = bf_accessing (db_buffer s) ! a
     \<and> set (bf_empty (db_buffer s')) \<subseteq> set (bf_empty (db_buffer s))
     \<and> (\<forall>c. db_hash s' c = db_hash s c \<or> unat (get_idx (kv_idx (db_hash s' c))) \<noteq> a)"

lemma update_entries:
  "Indexer_update k (buffer_index i) h = Some (h', n) \<Longrightarrow> i < RECORD_BUFF_SIZE
    \<Longrightarrow> h' c = h c \<or> unat (get_idx (kv_idx (h' c))) = i"
  by (auto simp: Indexer_update_def IndexHashMap_update_def Let_def unat_buffer_index split: prod.splits if_splits)

lemma end_access_off:
  "end_access i b = Some b' \<Longrightarrow> i \<noteq> a \<Longrightarrow> bf_accessing b' ! a = bf_accessing b ! a
    \<and> length (bf_accessing b') = length (bf_accessing b) \<and> bf_empty b' = bf_empty b"
  by (auto simp: end_access_def vset_def bind_eq_Some_conv split: if_splits)

lemma wait_for_access_off:
  "wait_for_access i b = Some b' \<Longrightarrow> bf_accessing b ! a \<Longrightarrow> i \<noteq> a \<and> bf_accessing b' ! a
    \<and> length (bf_accessing b') = length (bf_accessing b) \<and> bf_empty b' = bf_empty b"
  by (auto simp: wait_for_access_def vget_def vset_def nth_list_update bind_eq_Some_conv split: if_splits)

lemma request_off:
  "request_record_buff b = Some (i, b') \<Longrightarrow> i \<in> set (bf_empty b) \<and> set (bf_empty b') \<subseteq> set (bf_empty b)
    \<and> bf_accessing b' = bf_accessing b"
  by (auto simp: request_record_buff_def take_free_Some bind_eq_Some_conv Let_def)

lemma writer_off:
  assumes "writer_step w s = Some (w', s')" and "off_slot a s (Writing w)" and "bf_accessing (db_buffer s) ! a"
    and "set (bf_empty (db_buffer s)) \<subseteq> {..<RECORD_BUFF_SIZE} - {a}"
  shows "off_slot a s' (Writing w') \<and> off_step a s s'"
proof (cases "wr_pc w")
  case At_slot
  with assms(1) obtain i b where i: "request_record_buff (db_buffer s) = Some (i, b)"
    "w' = w\<lparr>wr_pc := At_access i\<rparr>" "s' = s\<lparr>db_buffer := b\<rparr>"
    by (auto simp: writer_step_def bind_eq_Some_conv)
  with request_off [OF i(1)] assms(4) show ?thesis by (auto simp: off_slot_def slot_held_def off_step_def)
next
  case (At_access i)
  with assms(1) obtain b where "wait_for_access i (db_buffer s) = Some b" "w' = w\<lparr>wr_pc := At_copy i\<rparr>" "s' = s\<lparr>db_buffer := b\<rparr>"
    by (auto simp: writer_step_def bind_eq_Some_conv)
  with wait_for_access_off [OF this(1) assms(3)] assms(2,3) At_access show ?thesis
    by (auto simp: off_slot_def slot_held_def off_step_def)
next
  case (At_end i)
  with assms(1) obtain b where "end_access i (db_buffer s) = Some b" "w' = w\<lparr>wr_pc := At_hash i\<rparr>" "s' = s\<lparr>db_buffer := b\<rparr>"
    by (auto simp: writer_step_def bind_eq_Some_conv)
  with end_access_off [OF this(1), of a] assms(2) At_end show ?thesis
    by (auto simp: off_slot_def slot_held_def off_step_def)
next
  case (At_hash i)
  with assms(1) obtain h n where h: "Indexer_update (wr_key w) (buffer_index i) (db_hash s) = Some (h, n)"
    "w' = w\<lparr>wr_pc := At_table i\<rparr>" "s' = s\<lparr>db_hash := h\<rparr>"
    by (auto simp: writer_step_def bind_eq_Some_conv)
  have "i \<noteq> a" "i < RECORD_BUFF_SIZE" using assms(2) At_hash by (auto simp: off_slot_def slot_held_def)
  with update_entries [OF h(1)] h(2,3) show ?thesis by (auto simp: off_slot_def slot_held_def off_step_def)
qed (use assms(1,2) in \<open>auto simp: writer_step_def bind_eq_Some_conv set_record_def off_slot_def slot_held_def off_step_def split: if_splits\<close>)

lemma reader_off:
  assumes "reader_step r s = Some (r', s')" and "off_slot a s (Reading r)" and "bf_accessing (db_buffer s) ! a"
  shows "off_slot a s' (Reading r') \<and> off_step a s s'"
proof (cases "rd_pc r")
  case (At_wait p)
  let ?i = "unat (get_idx (kv_idx (db_hash s p)))"
  from At_wait assms(1) obtain b where "wait_for_access ?i (db_buffer s) = Some b"
    "r' = r\<lparr>rd_pc := At_value p ?i\<rparr>" "s' = s\<lparr>db_buffer := b\<rparr>"
    by (auto simp: reader_step_def bind_eq_Some_conv Let_def)
  with wait_for_access_off [OF this(1) assms(3)] assms(3) show ?thesis by (auto simp: off_slot_def off_step_def)
next
  case (At_release p v)
  let ?i = "unat (get_idx (kv_idx (db_hash s p)))"
  from At_release assms(1) obtain b where "end_access ?i (db_buffer s) = Some b" "r' = r\<lparr>rd_pc := Returned v\<rparr>"
    "s' = s\<lparr>db_buffer := b\<rparr>"
    by (auto simp: reader_step_def bind_eq_Some_conv Let_def)
  with end_access_off [OF this(1), of a] assms(2) At_release show ?thesis by (auto simp: off_slot_def off_step_def)
qed (use assms(1,2) in \<open>auto simp: reader_step_def bind_eq_Some_conv off_slot_def off_step_def\<close>)

lemma engine_off:
  assumes "engine_step junk th s = Some (th', s')" and "off_slot a s th" and "bf_accessing (db_buffer s) ! a"
    and "set (bf_empty (db_buffer s)) \<subseteq> {..<RECORD_BUFF_SIZE} - {a}"
  shows "off_slot a s' th' \<and> off_step a s s'"
proof (cases th)
  case (Writing w)
  with assms writer_off [of w s] show ?thesis by (auto simp: engine_step_def bind_eq_Some_conv)
next
  case (Reading r)
  with assms reader_off [of r s] show ?thesis by (auto simp: engine_step_def bind_eq_Some_conv)
next
  case (Dumping d)
  with assms(1,2) show ?thesis by (simp add: engine_step_def off_slot_def dumper_step_def)
qed

lemma off_slot_step: "off_slot a s th \<Longrightarrow> off_step a s s' \<Longrightarrow> off_slot a s' th"
proof -
  assume off: "off_slot a s th" and step: "off_step a s s'"
  then have "unat (get_idx (kv_idx (db_hash s' c))) \<noteq> a" if "unat (get_idx (kv_idx (db_hash s c))) \<noteq> a" for c
    using that by (metis off_step_def)
  with off show "off_slot a s' th" by (auto simp: off_slot_def split: engine_thread.splits read_pc.splits)
qed

interpretation lost_slot: thread_invariant "engine_step junk" "slot_lost a" for junk a
proof
  fix ths s t th s'
  assume inv: "slot_lost a ths s" and t: "t < length ths" and step: "engine_step junk (ths ! t) s = Some (th, s')"
  have lost: "waits_at a (ths ! 0)" "\<forall>t < length ths. t \<noteq> 0 \<longrightarrow> off_slot a s (ths ! t)"
    "bf_accessing (db_buffer s) ! a" "set (bf_empty (db_buffer s)) \<subseteq> {..<RECORD_BUFF_SIZE} - {a}"
    using inv by (simp_all add: slot_lost_def)
  have "t \<noteq> 0"
  proof
    assume "t = 0"
    with waits_stuck [OF lost(1,3)] step show False by simp
  qed
  with lost(2) t have "off_slot a s (ths ! t)" by blast
  from engine_off [OF step this lost(3,4)] have off: "off_slot a s' th" "off_step a s s'" by blast+
  moreover have "off_slot a s' (ths ! u)" if "u < length ths" "u \<noteq> 0" for u
    using lost(2) that off_slot_step [OF _ off(2)] by blast
  ultimately show "slot_lost a (ths[t := th]) s'"
    using inv t \<open>t \<noteq> 0\<close> by (auto simp: slot_lost_def off_step_def nth_list_update)
qed

text \<open>The writer that takes the slot stays where it is.\<close>

lemma slot_lost_forever:
  assumes "slot_lost a ths s" and "run_threads (engine_step junk) ts ths s = Some (ths', s')"
  shows "waits_at a (ths' ! 0)" and "0 \<notin> set ts"
proof -
  show "waits_at a (ths' ! 0)" using lost_slot.run_inv [OF assms(2,1)] by (simp add: slot_lost_def)
  show "0 \<notin> set ts"
  proof
    assume "0 \<in> set ts"
    then obtain us vs where "ts = us @ 0 # vs" by (meson split_list)
    with assms(2) obtain ths1 s1 where 1: "run_threads (engine_step junk) us ths s = Some (ths1, s1)"
      "run_threads (engine_step junk) (0 # vs) ths1 s1 = Some (ths', s')"
      by (auto simp: run_threads_append bind_eq_Some_conv simp del: run_threads.simps)
    from lost_slot.run_inv [OF 1(1) assms(1)] have "waits_at a (ths1 ! 0)" "bf_accessing (db_buffer s1) ! a"
      by (simp_all add: slot_lost_def)
    from waits_stuck [OF this, of junk] 1(2) show False by (auto simp: bind_eq_Some_conv vget_def split: if_splits)
  qed
qed

text \<open>The next writer takes its first two steps, and gets the slot.\<close>

lemma next_writer:
  assumes b: "buffer_inv (db_buffer s)" "bf_empty (db_buffer s) \<noteq> []"
    "bf_accessing (db_buffer s) ! last (bf_empty (db_buffer s))"
    and log: "dm_curr_log_fd (db_disk s) \<noteq> None" "dm_curr_log_len (db_disk s) + sizeof_Record < 2 ^ 31"
    and long: "RECORD_VALUE_LEN \<le> length value" and off: "\<forall>th \<in> set ths. off_slot (last (bf_empty (db_buffer s))) s th"
    and w: "w = writer_start rnd k value"
  defines "a \<equiv> last (bf_empty (db_buffer s))"
  shows "\<exists>t. run_threads (engine_step junk) [0, 0] (Writing w # ths) s = Some (Writing (w\<lparr>wr_pc := At_access a\<rparr>) # ths, t)
    \<and> slot_lost a (Writing (w\<lparr>wr_pc := At_access a\<rparr>) # ths) t"
proof -
  have r: "make_record k value = Some (new_record k value)" using make_record_eq [OF long] .
  have "sized (new_record k value)" using long by (simp add: sized_def new_record_def)
  from write_to_log_len [OF this, of "db_disk s"] log obtain full d where
    d: "write_to_log (record_bytes (new_record k value)) (db_disk s) = Some (full, d)" by simp
  have wrote: "set (bf_empty (db_buffer s)) \<subseteq> {..<RECORD_BUFF_SIZE}" "distinct (bf_empty (db_buffer s))"
    "length (bf_accessing (db_buffer s)) = RECORD_BUFF_SIZE"
    using b(1) by (auto simp: buffer_inv_def)
  have split: "bf_empty (db_buffer s) = butlast (bf_empty (db_buffer s)) @ [a]" using b(2) by (simp add: a_def)
  obtain b' where b': "request_record_buff (db_buffer s) = Some (a, b')" "bf_empty b' = butlast (bf_empty (db_buffer s))"
    "bf_accessing b' = bf_accessing (db_buffer s)"
    using b(2) by (simp add: request_record_buff_def take_free_def a_def Let_def)
  have "a \<in> set (bf_empty (db_buffer s))" using b(2) by (simp add: a_def)
  with wrote(1) have a: "a < RECORD_BUFF_SIZE" by auto
  have "distinct (butlast (bf_empty (db_buffer s)) @ [a])" using wrote(2) split by simp
  then have empty: "set (bf_empty b') \<subseteq> {..<RECORD_BUFF_SIZE} - {a}" using wrote(1) b'(2) by (auto dest: in_set_butlastD)
  let ?t = "s\<lparr>db_disk := d, db_buffer := b'\<rparr>"
  have "off_slot a ?t th" if "th \<in> set ths" for th
  proof -
    have "off_slot a s th" using off that by (simp add: a_def)
    then show ?thesis by (auto simp: off_slot_def split: engine_thread.splits read_pc.splits)
  qed
  then have "slot_lost a (Writing (w\<lparr>wr_pc := At_access a\<rparr>) # ths) ?t"
    using empty a b(3) b'(3) wrote(3) by (auto simp: slot_lost_def waits_at_def a_def nth_Cons split: nat.split)
  moreover have "run_threads (engine_step junk) [0, 0] (Writing w # ths) s = Some (Writing (w\<lparr>wr_pc := At_access a\<rparr>) # ths, ?t)"
    using r d b'(1) by (simp add: w engine_step_def writer_step_def writer_start_def)
  ultimately show ?thesis by blast
qed

subsection \<open>A reader meets the dumper\<close>

text \<open>A slot that somebody else is accessing does not disturb the records in other slots.\<close>

definition busy_at :: "nat \<Rightarrow> Buffer \<Rightarrow> Buffer" where
  "busy_at a b = b\<lparr>bf_accessing := (bf_accessing b)[a := True]\<rparr>"

lemma dump_records_busy:
  "dump_records fid i qs (b, h, d) = Some (b', h', d') \<Longrightarrow> a \<notin> pair_slot ` set qs
    \<Longrightarrow> dump_records fid i qs (busy_at a b, h, d) = Some (busy_at a b', h', d')"
proof (induction qs arbitrary: i b h d)
  case (Cons q qs)
  let ?c = "pair_slot q"
  have ac: "a \<noteq> ?c" using Cons.prems(2) by auto
  from Cons.prems(1) obtain b1 r b2 b3 h1 c where 1: "wait_for_access ?c b = Some b1" "record_at ?c b1 = Some r"
    "release_buff ?c b1 = Some b2" "end_access ?c b2 = Some b3"
    "Indexer_update (kv_key q) (set_in_file True (set_idx (of_nat i) (set_fid (of_nat fid) Index_new))) h = Some (h1, c)"
    and rest: "dump_records fid (Suc i) qs (b3, h1, append_dumping (take RECORD_VALUE_LEN (rc_value r)) d) = Some (b', h', d')"
    by (auto simp: bind_eq_Some_conv Let_def pair_slot_def)
  have 2: "wait_for_access ?c (busy_at a b) = Some (busy_at a b1)" "record_at ?c (busy_at a b1) = Some r"
    "release_buff ?c (busy_at a b1) = Some (busy_at a b2)" "end_access ?c (busy_at a b2) = Some (busy_at a b3)"
    using 1(1-4) ac
    by (auto simp: busy_at_def wait_for_access_def record_at_def release_buff_def end_access_def vget_def vset_def
        bind_eq_Some_conv list_update_swap split: if_splits)
  have IH: "dump_records fid (Suc i) qs (busy_at a b3, h1, append_dumping (take RECORD_VALUE_LEN (rc_value r)) d)
      = Some (busy_at a b', h', d')"
    by (rule Cons.IH [OF rest]) (use Cons.prems(2) in simp)
  show ?case using 2 1(5) IH by (simp add: pair_slot_def Let_def)
qed simp

text \<open>The entry of a key stays where it is.\<close>

lemma update_entry:
  "Indexer_get k h = Some c \<Longrightarrow> Indexer_update k i h = Some (h', n) \<Longrightarrow> kv_idx (h' c) = set_in_hash True i"
  by (auto simp: Indexer_get_def Indexer_update_def IndexHashMap_get_def IndexHashMap_update_def Let_def
      split: prod.splits if_splits)

text \<open>
  The reader (thread 1) finds the key of the first record, and waits for its slot after the dumper
  (thread 0) has given it back, but before the dumper changes the index.
\<close>

definition meet :: "nat list" where
  "meet = [1] @ [0, 0, 0, 0] @ [1] @ [0] @ [1, 1]"

lemma meet_run:
  assumes b: "quiet (db_buffer s)" "pair_slot q \<in> in_use (db_buffer s)" "pair_slot q \<noteq> 0"
    and hash: "index_inv (db_hash s)" "card (dom (index_lookup (db_hash s))) < 11662"
      "slot_of s (kv_key q) = Some (pair_slot q)"
    and fid: "get_records_num (db_manifest s) < 256"
    and one: "dump_records (get_records_num (db_manifest s)) 0 [q] (db_buffer s, db_hash s, db_disk s) = Some (b', h', d')"
  shows "run_threads (engine_step junk) meet
      [Dumping (dump_loop \<lparr>du_kvidxes = q # qs, du_i = 0, du_pc = pc\<rparr>), Reading \<lparr>rd_key = kv_key q, rd_pc = At_get\<rparr>] s
    = Some ([Dumping (dump_loop \<lparr>du_kvidxes = q # qs, du_i = 1, du_pc = pc'\<rparr>), Reading \<lparr>rd_key = kv_key q, rd_pc = Returned (get_value (bf_data (db_buffer s) ! pair_slot q))\<rparr>],
        s\<lparr>db_buffer := busy_at (pair_slot q) b', db_hash := h', db_disk := d'\<rparr>)"
proof -
  let ?a = "pair_slot q" and ?fid = "get_records_num (db_manifest s)"
  let ?i = "set_in_file True (set_idx (of_nat 0) (set_fid (of_nat ?fid) Index_new))"
  from dump_one_ok [OF b(1,2)] obtain b1 b2 where 1: "wait_for_access ?a (db_buffer s) = Some b1"
    "bf_data b1 = bf_data (db_buffer s)" "?a < length (bf_data (db_buffer s))" "release_buff ?a b1 = Some b2"
    "end_access ?a b2 = Some (b2\<lparr>bf_accessing := bf_accessing (db_buffer s)\<rparr>)"
    "quiet (b2\<lparr>bf_accessing := bf_accessing (db_buffer s)\<rparr>)" "bf_data b2 = bf_data (db_buffer s)" by blast
  let ?b3 = "b2\<lparr>bf_accessing := bf_accessing (db_buffer s)\<rparr>"
  obtain c where c: "Indexer_get (kv_key q) (db_hash s) = Some c" "unat (get_idx (kv_idx (db_hash s c))) = ?a"
    using hash(3) by (auto simp: slot_of_def index_lookup_def Indexer_get_def)
  obtain n where n: "Indexer_update (kv_key q) ?i (db_hash s) = Some (h', n)" "b' = ?b3"
    "d' = append_dumping (take RECORD_VALUE_LEN (rc_value (bf_data (db_buffer s) ! ?a))) (db_disk s)"
    using one 1(1-5) by (auto simp: bind_eq_Some_conv Let_def record_at_def simp flip: pair_slot_def)
  have "kv_idx (h' c) = set_in_hash True ?i" using c(1) n(1) by (rule update_entry)
  then have c': "unat (get_idx (kv_idx (h' c))) = 0" using file_index [of 0 ?fid] fid by simp
  have a: "?a < RECORD_BUFF_SIZE" using b(1,2) in_use_bound by (auto simp: quiet_def)
  note q3 = quiet_access [OF 1(6) a]
  have wait: "wait_for_access ?a ?b3 = Some (busy_at ?a ?b3)" using q3(1) by (simp add: busy_at_def)
  have zero: "end_access 0 (busy_at ?a ?b3) = Some (busy_at ?a ?b3)"
  proof -
    note z = quiet_access(2,3) [OF 1(6), of 0]
    show ?thesis using z b(3) by (simp add: end_access_def busy_at_def list_update_swap RECORD_BUFF_SIZE_def)
  qed
  let ?ths = "\<lambda>i p r. [Dumping \<lparr>du_kvidxes = q # qs, du_i = i, du_pc = p\<rparr>, Reading \<lparr>rd_key = kv_key q, rd_pc = r\<rparr>]"
  let ?v = "get_value (bf_data (db_buffer s) ! ?a)"
  have run1: "run_threads (engine_step junk) ([1] @ [0, 0, 0, 0]) (?ths 0 D_access At_get) s
      = Some (?ths 0 D_hash (At_wait c), s\<lparr>db_buffer := ?b3, db_disk := d'\<rparr>)"
    using 1 c(1) n(3) by (simp add: engine_step_def reader_step_def dumper_step_def record_at_def)
  have run2: "run_threads (engine_step junk) ([1] @ [0] @ [1, 1]) (?ths 0 D_hash (At_wait c)) (s\<lparr>db_buffer := ?b3, db_disk := d'\<rparr>)
      = Some ([Dumping (dump_loop \<lparr>du_kvidxes = q # qs, du_i = 1, du_pc = pc'\<rparr>), Reading \<lparr>rd_key = kv_key q, rd_pc = Returned ?v\<rparr>],
          s\<lparr>db_buffer := busy_at ?a ?b3, db_hash := h', db_disk := d'\<rparr>)"
  proof -
    have "record_at ?a (busy_at ?a ?b3) = Some (bf_data (db_buffer s) ! ?a)"
      using 1(3,7) by (simp add: record_at_def busy_at_def)
    then show ?thesis
      using c(2) c' wait zero n(1) by (simp add: engine_step_def reader_step_def dumper_step_def dump_loop_def Let_def)
  qed
  have start: "[Dumping (dump_loop \<lparr>du_kvidxes = q # qs, du_i = 0, du_pc = pc\<rparr>), Reading \<lparr>rd_key = kv_key q, rd_pc = At_get\<rparr>]
      = ?ths 0 D_access At_get" by (simp add: dump_loop_def)
  have "meet = ([1] @ [0, 0, 0, 0]) @ [1] @ [0] @ [1, 1]" by (simp add: meet_def)
  with run_threads_join [OF run1 run2] show ?thesis unfolding start n(2) by metis
qed


text \<open>
  The whole round of the dumper, met by a reader at its first record. The dumper gives that slot
  back first, so it is the last in the vector of empty slots: the next one that a writer gets.
\<close>

definition meet_round :: "nat \<Rightarrow> nat list" where
  "meet_round n = [0] @ [0] @ meet @ replicate (5 * (n - 1)) 0 @ [0, 0]"

lemma dump_records_append:
  "dump_records fid i (qs @ rs) st
    = Option.bind (dump_records fid i qs st) (dump_records fid (i + length qs) rs)"
  by (induction fid i qs st rule: dump_records.induct) (auto simp: Let_def intro!: Option.bind_cong)

lemma meet_records:
  assumes core: "db_core s" and gen: "generation s qs" and q: "qs = q # rs" "pair_slot q \<noteq> 0"
    and u: "u = s\<lparr>db_mem := m, db_disk := d\<rparr>" and fid: "get_records_num (db_manifest s) < 256"
    and fd: "dm_dumping_fd d = Some path" "dm_files d path = Some bs"
  shows "\<exists>b h bs'. run_threads (engine_step junk) (meet @ replicate (5 * (length qs - 1)) 0)
      [Dumping (dump_loop \<lparr>du_kvidxes = qs, du_i = 0, du_pc = D_keys\<rparr>), Reading \<lparr>rd_key = kv_key q, rd_pc = At_get\<rparr>] u
    = Some ([Dumping \<lparr>du_kvidxes = qs, du_i = length qs, du_pc = D_insert\<rparr>,
          Reading \<lparr>rd_key = kv_key q, rd_pc = Returned (the (db_map s (kv_key q)))\<rparr>],
        u\<lparr>db_buffer := busy_at (pair_slot q) b, db_hash := h, db_disk := d\<lparr>dm_files := (dm_files d)(path \<mapsto> bs')\<rparr>\<rparr>)
    \<and> bf_empty b = rev (map pair_slot qs) \<and> quiet b"
proof -
  note ready = generation_ready [OF core gen]
  let ?fid = "get_records_num (db_manifest s)" and ?a = "pair_slot q"
  have "\<exists>b h. dump_records ?fid 0 qs (db_buffer s, db_hash s, d) = Some (b, h, d\<lparr>dm_files :=
      (dm_files d)(path \<mapsto> bs @ concat (map (\<lambda>q. get_value (bf_data (db_buffer s) ! pair_slot q)) qs))\<rparr>)
    \<and> quiet b \<and> bf_data b = bf_data (db_buffer s) \<and> in_use b = in_use (db_buffer s) - pair_slot ` set qs
    \<and> bf_empty b = rev (map pair_slot qs) @ bf_empty (db_buffer s)
    \<and> hash_slots h = hash_slots (db_hash s) ++ map_of (zip (map kv_key qs) [0..<0 + length qs])"
    by (rule dump_records_ok) (use ready fd fid in simp_all)
  then obtain b h bs' where all: "dump_records ?fid 0 qs (db_buffer s, db_hash s, d)
      = Some (b, h, d\<lparr>dm_files := (dm_files d)(path \<mapsto> bs')\<rparr>)" "quiet b" "bf_empty b = rev (map pair_slot qs)"
    using ready(10) by auto
  have qs: "qs = [q] @ rs" using q(1) by simp
  obtain b1 h1 d1 where one: "dump_records ?fid 0 [q] (db_buffer u, db_hash u, db_disk u) = Some (b1, h1, d1)"
    and rest: "dump_records ?fid 1 rs (b1, h1, d1) = Some (b, h, d\<lparr>dm_files := (dm_files d)(path \<mapsto> bs')\<rparr>)"
    using all(1) unfolding qs dump_records_append by (auto simp: u bind_eq_Some_conv simp del: dump_records.simps)
  have slot: "slot_of u (kv_key q) = Some ?a" using gen q(1) by (simp add: generation_def u slot_of_def)
  have uok: "quiet (db_buffer u)" "?a \<in> in_use (db_buffer u)" "index_inv (db_hash u)"
    "card (dom (index_lookup (db_hash u))) < 11662" "get_records_num (db_manifest u) < 256"
  proof -
    have "finite (dom (index_lookup (db_hash s)) \<union> kv_key ` set qs)" using ready(6) by simp
    from card_mono [OF this Un_upper1] ready(9) show "card (dom (index_lookup (db_hash u))) < 11662" by (simp add: u)
  qed (use ready(1,4,5) q(1) fid in \<open>simp_all add: u\<close>)
  have val: "get_value (bf_data (db_buffer u) ! ?a) = the (db_map s (kv_key q))"
    using gen q(1) by (simp add: db_map_def generation_def u)
  note run1 = meet_run [OF uok(1,2) q(2) uok(3,4) slot uok(5), where pc = D_keys and pc' = D_keys and qs = rs and junk = junk,
      unfolded val, folded q(1)]
  let ?u = "u\<lparr>db_buffer := busy_at ?a b1, db_hash := h1, db_disk := d1\<rparr>"
  have "?a \<notin> pair_slot ` set rs" using ready(2) q(1) by simp
  from dump_records_busy [OF rest this] have busy: "dump_records ?fid 1 (drop 1 qs) (busy_at ?a b1, h1, d1)
      = Some (busy_at ?a b, h, d\<lparr>dm_files := (dm_files d)(path \<mapsto> bs')\<rparr>)" using q(1) by simp
  let ?ths = "[Dumping dumper_start, Reading \<lparr>rd_key = kv_key q, rd_pc = Returned (the (db_map s (kv_key q)))\<rparr>]"
  have "1 \<le> length qs" using q(1) by simp
  note run2 = loop_alone [of 0 ?ths 1 qs junk D_keys ?u, OF _ this]
  show ?thesis
  proof (intro exI conjI)
    show "run_threads (engine_step junk) (meet @ replicate (5 * (length qs - 1)) 0)
      [Dumping (dump_loop \<lparr>du_kvidxes = qs, du_i = 0, du_pc = D_keys\<rparr>), Reading \<lparr>rd_key = kv_key q, rd_pc = At_get\<rparr>] u
    = Some ([Dumping \<lparr>du_kvidxes = qs, du_i = length qs, du_pc = D_insert\<rparr>,
          Reading \<lparr>rd_key = kv_key q, rd_pc = Returned (the (db_map s (kv_key q)))\<rparr>],
        u\<lparr>db_buffer := busy_at (pair_slot q) b, db_hash := h, db_disk := d\<lparr>dm_files := (dm_files d)(path \<mapsto> bs')\<rparr>\<rparr>)"
    proof (rule run_threads_join)
      show "run_threads (engine_step junk) meet
        [Dumping (dump_loop \<lparr>du_kvidxes = qs, du_i = 0, du_pc = D_keys\<rparr>), Reading \<lparr>rd_key = kv_key q, rd_pc = At_get\<rparr>] u
        = Some ([Dumping (dump_loop \<lparr>du_kvidxes = qs, du_i = 1, du_pc = D_keys\<rparr>),
            Reading \<lparr>rd_key = kv_key q, rd_pc = Returned (the (db_map s (kv_key q)))\<rparr>], ?u)"
        by (rule run1) (use one in \<open>simp add: u\<close>)
    qed (use run2 busy in \<open>simp add: u\<close>)
  qed (use all in simp_all)
qed

lemma meet_round_run:
  assumes ok: "db_core s" and bg: "merges_to s1 qs (s\<lparr>db_mem := m, db_disk := d0\<rparr>)" "generation s qs"
    and base: "\<And>name. name \<noteq> [] \<Longrightarrow> path_join [dm_basepath d0, name] = Some (p @ name)"
    and mf: "get_records_num (db_manifest s) < 256" "mn_record_cnt (db_manifest s) \<noteq> []"
    and nz: "pair_slot (hd qs) \<noteq> 0"
  defines "k \<equiv> kv_key (hd qs)"
  shows "\<exists>d s'. run_threads (engine_step junk) (meet_round (length qs)) [Dumping dumper_start, Reading \<lparr>rd_key = k, rd_pc = At_get\<rparr>] s1
    = Some ([Dumping d, Reading \<lparr>rd_key = k, rd_pc = Returned (the (db_map s k))\<rparr>], s')
    \<and> du_pc d = D_idle \<and> length (bf_empty (db_buffer s')) = length qs \<and> bf_accessing (db_buffer s') ! last (bf_empty (db_buffer s'))
    \<and> buffer_inv (db_buffer s') \<and> dm_curr_log_fd (db_disk s') = dm_curr_log_fd d0 \<and> dm_curr_log_len (db_disk s') = dm_curr_log_len d0"
proof -
  have ne: "qs \<noteq> []" using generation_ready(7) [OF ok bg(2)] .
  then obtain q rs where q: "qs = q # rs" by (cases qs) auto
  have k: "k = kv_key q" by (simp add: k_def q)
  let ?fid = "get_records_num (db_manifest s)" and ?u = "s\<lparr>db_mem := m, db_disk := d0\<rparr>" and ?ks = "map kv_key qs"
  let ?p = "p @ sst_name ?fid"
  let ?r = "Reading \<lparr>rd_key = k, rd_pc = At_get\<rparr>" and ?r' = "Reading \<lparr>rd_key = k, rd_pc = Returned (the (db_map s k))\<rparr>"
  let ?d1 = "d0\<lparr>dm_dumping_fd := Some ?p, dm_files := (dm_files d0)(?p \<mapsto> sst_keys ?ks)\<rparr>"
  have keys: "dumpint_keys (sst_name ?fid) ?ks d0 = Some ?d1"
    by (rule dumpint_keys_eq) (rule base, rule sst_name_names)
  have "pair_slot q \<noteq> 0" using nz by (simp add: q)
  then obtain b h bs' where loop: "run_threads (engine_step junk) (meet @ replicate (5 * (length qs - 1)) 0)
      [Dumping (dump_loop \<lparr>du_kvidxes = qs, du_i = 0, du_pc = D_keys\<rparr>), ?r] (s\<lparr>db_mem := m, db_disk := ?d1\<rparr>)
    = Some ([Dumping \<lparr>du_kvidxes = qs, du_i = length qs, du_pc = D_insert\<rparr>, ?r'],
        s\<lparr>db_mem := m, db_buffer := busy_at (pair_slot q) b, db_hash := h, db_disk := ?d1\<lparr>dm_files := (dm_files ?d1)(?p \<mapsto> bs')\<rparr>\<rparr>)"
    and b: "bf_empty b = rev (map pair_slot qs)" "quiet b"
    using meet_records [OF ok bg(2) q _ refl mf(1), of ?d1 ?p "sst_keys ?ks" junk m] unfolding k by auto
  let ?d2 = "?d1\<lparr>dm_files := (dm_files ?d1)(?p \<mapsto> bs')\<rparr>"
  let ?u2 = "s\<lparr>db_mem := m, db_buffer := busy_at (pair_slot q) b, db_hash := h, db_disk := ?d2\<rparr>"
  have base': "\<And>name. name \<noteq> [] \<Longrightarrow> path_join [dm_basepath ?d2, name] = Some (p @ name)"
    using base by (simp del: path_join.simps)
  obtain mn d3 d4 where tail: "insert_record junk 0 (kv_key (hd qs)) (kv_key (last qs)) (of_nat (length qs)) (db_manifest s) ?d2
      = Some (mn, d3)" "end_dumping d3 = Some d4"
    "dm_curr_log_fd d4 = dm_curr_log_fd d0" "dm_curr_log_len d4 = dm_curr_log_len d0"
    using dump_tail_ok [OF base' refl mf(2), of junk "kv_key (hd qs)" "kv_key (last qs)" "of_nat (length qs)"] by auto
  have "dump_tail junk qs ?u2 = Some (?u2\<lparr>db_disk := d4, db_manifest := mn\<rparr>)" using tail(1,2) ne by (simp add: dump_tail_def)
  note tl = this
  let ?ths = "[Dumping dumper_start, ?r]" and ?ths' = "[Dumping dumper_start, ?r']"
  have run1: "run_threads (engine_step junk) [0] ?ths s1 = Some ([Dumping \<lparr>du_kvidxes = qs, du_i = 0, du_pc = D_keys\<rparr>, ?r], ?u)"
    using merges_step [OF bg(1), of 0 ?ths junk] by (simp del: run_threads.simps)
  have run2: "run_threads (engine_step junk) [0] [Dumping \<lparr>du_kvidxes = qs, du_i = 0, du_pc = D_keys\<rparr>, ?r] ?u
    = Some ([Dumping (dump_loop \<lparr>du_kvidxes = qs, du_i = 0, du_pc = D_keys\<rparr>), ?r], s\<lparr>db_mem := m, db_disk := ?d1\<rparr>)"
    using keys_step [of 0 ?ths junk qs ?u] keys by (simp del: run_threads.simps)
  have run3: "run_threads (engine_step junk) [0, 0] [Dumping \<lparr>du_kvidxes = qs, du_i = length qs, du_pc = D_insert\<rparr>, ?r'] ?u2
    = Some ([Dumping \<lparr>du_kvidxes = qs, du_i = length qs, du_pc = D_idle\<rparr>, ?r'], ?u2\<lparr>db_disk := d4, db_manifest := mn\<rparr>)"
    using tail_steps [of 0 ?ths' junk qs "length qs" ?u2] tl by (simp del: run_threads.simps)
  have "meet_round (length qs) = [0] @ [0] @ (meet @ replicate (5 * (length qs - 1)) 0) @ [0, 0]" by (simp add: meet_round_def)
  moreover have "run_threads (engine_step junk) ([0] @ [0] @ (meet @ replicate (5 * (length qs - 1)) 0) @ [0, 0]) ?ths s1
    = Some ([Dumping \<lparr>du_kvidxes = qs, du_i = length qs, du_pc = D_idle\<rparr>, ?r'], ?u2\<lparr>db_disk := d4, db_manifest := mn\<rparr>)"
    by (rule run_threads_join [OF run1 run_threads_join [OF run2 run_threads_join [OF loop run3]]])
  moreover have "bf_accessing (busy_at (pair_slot q) b) ! pair_slot q"
  proof -
    have "pair_slot q < RECORD_BUFF_SIZE"
      using generation_ready(1,4) [OF ok bg(2)] in_use_bound by (auto simp: quiet_def q)
    then show ?thesis using quiet_access(3) [OF b(2)] by (simp add: busy_at_def)
  qed
  moreover have "bf_empty (busy_at (pair_slot q) b) = rev (map pair_slot qs)" using b(1) by (simp add: busy_at_def)
  moreover have "buffer_inv (busy_at (pair_slot q) b)"
    using b(2) by (auto simp: quiet_def buffer_inv_def busy_at_def)
  ultimately show ?thesis
    using tail(3,4) by (intro exI conjI) (assumption | simp add: q)+
qed

text \<open>Slot 0 belongs to the last write.\<close>

lemma smallest_slot:
  assumes slots: "slots_in_order ws s" and len: "length ws = RECORD_BUFF_SIZE"
    and k: "k = hd (sort (map key_of ws))" "key_of (last ws) \<noteq> k"
  shows "slot_of s k \<noteq> Some 0"
proof -
  have ne: "ws \<noteq> []" using len by (auto simp: RECORD_BUFF_SIZE_def)
  then have "sort (map key_of ws) \<noteq> []" by (metis list.map_disc_iff set_empty set_sort)
  then have "k \<in> set (map key_of ws)" unfolding k(1) by (metis hd_in_set set_sort)
  then obtain i where i: "i < length ws" "key_of (ws ! i) = k" by (auto simp: in_set_conv_nth)
  then have "i \<noteq> length ws - 1" using k(2) ne by (auto simp: last_conv_nth)
  moreover have "slot_of s k = Some (RECORD_BUFF_SIZE - 1 - i)" using slots i by (auto simp: slots_in_order_def)
  ultimately show ?thesis using i(1) len by simp
qed

text \<open>The state after the meeting.\<close>

lemma read_takes_slot:
  assumes "no_files base fs" and "\<forall>w \<in> set ws. valid_write w" and "length ws = RECORD_BUFF_SIZE"
    and "distinct (map key_of ws)" and "\<forall>w \<in> set ws. key_of w < INT64_MAX"
    and "k = hd (sort (map key_of ws))" and "key_of (last ws) \<noteq> k"
  shows "\<exists>s s' d. Option.bind (DBSystem_init g g' base fs) (db_writes ws) = Some s
    \<and> run_threads (engine_step junk) (meet_round RECORD_BUFF_SIZE)
        [Dumping dumper_start, Reading \<lparr>rd_key = k, rd_pc = At_get\<rparr>] s
      = Some ([Dumping d, Reading \<lparr>rd_key = k, rd_pc = Returned (the (contents ws k))\<rparr>], s')
    \<and> du_pc d = D_idle \<and> length (bf_empty (db_buffer s')) = RECORD_BUFF_SIZE
    \<and> bf_accessing (db_buffer s') ! last (bf_empty (db_buffer s'))
    \<and> buffer_inv (db_buffer s') \<and> dm_curr_log_fd (db_disk s') \<noteq> None
    \<and> dm_curr_log_len (db_disk s') = RECORD_BUFF_SIZE * sizeof_Record"
proof -
  obtain p where p: "\<And>name. name \<noteq> [] \<Longrightarrow> path_join [base, name] = Some (p @ name)"
    using path_join_names no_files_holds(1) [OF assms(1)] by blast
  obtain s where s: "Option.bind (DBSystem_init g g' base fs) (db_writes ws) = db_check s" "db_ok s"
    "db_map s = contents ws" "slots_in_order ws s" "mt_wait_for_dump (db_mem s) = []" "dm_basepath (db_disk s) = base"
    and full: "card (dom (db_map s)) = RECORD_BUFF_SIZE" and small: "\<forall>k \<in> dom (db_map s). k < INT64_MAX"
    and sorted: "sorted_list_of_set (dom (db_map s)) = sort (map key_of ws)"
    and log: "dm_files (db_disk s) (p @ HOT_LOG) = Some (log_bytes (records ws))" "dm_files (db_disk s) (p @ DIED_LOG) = None"
    and len: "dm_curr_log_len (db_disk s) = RECORD_BUFF_SIZE * sizeof_Record"
    and mn: "get_records_num (db_manifest s) < 256" "mn_record_cnt (db_manifest s) \<noteq> []"
    using fresh_full [OF assms(1-5) p, of g g'] by auto
  have base: "\<And>name. name \<noteq> [] \<Longrightarrow> path_join [dm_basepath (db_disk s), name] = Some (p @ name)"
    unfolding s(6) by (rule p)
  obtain s1 qs d m where bg: "db_check s = Some s1" "merges_to s1 qs (s\<lparr>db_mem := m, db_disk := d\<rparr>)" "generation s qs"
    "dm_basepath d = dm_basepath (db_disk s)" "switch_log (db_disk s) = Some d"
    using generation_begin [OF s(2) full base s(5) small log] by blast
  have base': "\<And>name. name \<noteq> [] \<Longrightarrow> path_join [dm_basepath d, name] = Some (p @ name)"
    unfolding bg(4) by (rule base)
  have qs: "qs \<noteq> []" "length qs = RECORD_BUFF_SIZE" "map kv_key qs = sorted_list_of_set (dom (db_map s))"
    "\<forall>q \<in> set qs. slot_of s (kv_key q) = Some (pair_slot q)"
    using bg(3) by (auto simp: generation_def RECORD_BUFF_SIZE_def)
  have ks: "map kv_key qs = sort (map key_of ws)" by (simp only: qs(3) sorted)
  have k: "k = kv_key (hd qs)" using ks qs(1) unfolding assms(6) by (metis hd_map)
  have "pair_slot (hd qs) \<noteq> 0"
    using smallest_slot [OF s(4) assms(3,6,7)] qs(1,4) k by simp
  from meet_round_run [OF db_ok_core [OF s(2)] bg(2,3) base' mn this, of junk]
  obtain du s' where run: "run_threads (engine_step junk) (meet_round RECORD_BUFF_SIZE)
        [Dumping dumper_start, Reading \<lparr>rd_key = k, rd_pc = At_get\<rparr>] s1
      = Some ([Dumping du, Reading \<lparr>rd_key = k, rd_pc = Returned (the (contents ws k))\<rparr>], s')"
    "du_pc du = D_idle" "length (bf_empty (db_buffer s')) = RECORD_BUFF_SIZE"
    "bf_accessing (db_buffer s') ! last (bf_empty (db_buffer s'))" "buffer_inv (db_buffer s')"
    "dm_curr_log_fd (db_disk s') = dm_curr_log_fd d" "dm_curr_log_len (db_disk s') = dm_curr_log_len d"
    unfolding qs(2) k s(3) by blast
  moreover have "dm_curr_log_fd d \<noteq> None" "dm_curr_log_len d = dm_curr_log_len (db_disk s)"
    using bg(5) by (auto simp: switch_log_def open_append_def Let_def bind_eq_Some_conv simp del: path_join.simps split: if_splits)
  ultimately have "dm_curr_log_fd (db_disk s') \<noteq> None" "dm_curr_log_len (db_disk s') = RECORD_BUFF_SIZE * sizeof_Record"
    using len by simp_all
  with s(1) bg(1) run show ?thesis by (intro exI conjI) (assumption | simp)+
qed

text \<open>C10: A read at the wrong moment takes a slot away for ever. A process that starts in an empty
  directory writes \<^verbatim>\<open>RECORD_BUFF_SIZE\<close> different keys below \<^verbatim>\<open>INT64_MAX\<close>, and
  then a reader of the smallest key (which is not the key written last) and the dumper take turns as in
  \<open>meet_round\<close>: the reader waits for the slot of its record, and before it ends the access the dumper
  changes the index entry, through which the reader reads the slot a second time. The dumper finishes
  its round, the reader returns the right value, and all slots are in the vector of empty ones; but
  the flag of one of them is still set, and it is the one that is handed out next. So the next writer
  logs its record, is given that slot, and waits for the access to it for ever: whatever other writers
  and readers do afterwards, under every schedule, it never makes another step.\<close>

theorem read_blocks_writers:
  assumes "no_files base fs" and "\<forall>w \<in> set ws. valid_write w" and "length ws = RECORD_BUFF_SIZE"
    and "distinct (map key_of ws)" and "\<forall>w \<in> set ws. key_of w < INT64_MAX"
    and "k = hd (sort (map key_of ws))" and "key_of (last ws) \<noteq> k"
    and "RECORD_VALUE_LEN \<le> length value" and "\<forall>w \<in> set others. wr_pc w = At_log" and "\<forall>r \<in> set readers. rd_pc r = At_get"
  shows "\<exists>s s' d a t. Option.bind (DBSystem_init g g' base fs) (db_writes ws) = Some s
    \<and> run_threads (engine_step junk) (meet_round RECORD_BUFF_SIZE)
        [Dumping dumper_start, Reading \<lparr>rd_key = k, rd_pc = At_get\<rparr>] s
      = Some ([Dumping d, Reading \<lparr>rd_key = k, rd_pc = Returned (the (contents ws k))\<rparr>], s')
    \<and> du_pc d = D_idle \<and> length (bf_empty (db_buffer s')) = RECORD_BUFF_SIZE
    \<and> a = last (bf_empty (db_buffer s')) \<and> bf_accessing (db_buffer s') ! a
    \<and> run_threads (engine_step junk) [0, 0]
        (Writing (writer_start rnd key value) # Dumping d # map Writing others @ map Reading readers) s'
      = Some (Writing ((writer_start rnd key value)\<lparr>wr_pc := At_access a\<rparr>) # Dumping d # map Writing others @ map Reading readers, t)
    \<and> (\<forall>ts ths u. run_threads (engine_step junk) ts
          (Writing ((writer_start rnd key value)\<lparr>wr_pc := At_access a\<rparr>) # Dumping d # map Writing others @ map Reading readers) t
        = Some (ths, u) \<longrightarrow> waits_at a (ths ! 0) \<and> 0 \<notin> set ts)"
proof -
  from read_takes_slot [OF assms(1-7), of g g' junk] obtain s s' d where
    s: "Option.bind (DBSystem_init g g' base fs) (db_writes ws) = Some s"
    "run_threads (engine_step junk) (meet_round RECORD_BUFF_SIZE)
        [Dumping dumper_start, Reading \<lparr>rd_key = k, rd_pc = At_get\<rparr>] s
      = Some ([Dumping d, Reading \<lparr>rd_key = k, rd_pc = Returned (the (contents ws k))\<rparr>], s')"
    "du_pc d = D_idle" "length (bf_empty (db_buffer s')) = RECORD_BUFF_SIZE"
    "bf_accessing (db_buffer s') ! last (bf_empty (db_buffer s'))" "buffer_inv (db_buffer s')"
    "dm_curr_log_fd (db_disk s') \<noteq> None" "dm_curr_log_len (db_disk s') = RECORD_BUFF_SIZE * sizeof_Record" by blast
  let ?ths = "Dumping d # map Writing others @ map Reading readers"
  have "dm_curr_log_len (db_disk s') + sizeof_Record < 2 ^ 31"
    by (simp add: s(8) RECORD_BUFF_SIZE_def sizeof_Record_def RECORD_VALUE_LEN_def)
  moreover have "bf_empty (db_buffer s') \<noteq> []" using s(4) by (auto simp: RECORD_BUFF_SIZE_def)
  moreover have "\<forall>th \<in> set ?ths. off_slot (last (bf_empty (db_buffer s'))) s' th"
    using assms(9,10) s(3) by (auto simp: off_slot_def slot_held_def)
  ultimately obtain t where t: "run_threads (engine_step junk) [0, 0] (Writing (writer_start rnd key value) # ?ths) s'
      = Some (Writing ((writer_start rnd key value)\<lparr>wr_pc := At_access (last (bf_empty (db_buffer s')))\<rparr>) # ?ths, t)"
    "slot_lost (last (bf_empty (db_buffer s'))) (Writing ((writer_start rnd key value)\<lparr>wr_pc := At_access (last (bf_empty (db_buffer s')))\<rparr>) # ?ths) t"
    using next_writer [OF s(6) _ s(5,7) _ assms(8) _ refl, of ?ths junk rnd key] by blast
  have "waits_at (last (bf_empty (db_buffer s'))) (ths ! 0) \<and> 0 \<notin> set ts" if "run_threads (engine_step junk) ts
      (Writing ((writer_start rnd key value)\<lparr>wr_pc := At_access (last (bf_empty (db_buffer s')))\<rparr>) # ?ths) t = Some (ths, u)" for ts ths u
    using slot_lost_forever [OF t(2) that] by blast
  with s(1-5) t(1) show ?thesis by blast
qed

theorem read_blocks_writers_witness:
  "\<exists>s s' d a t. Option.bind (DBSystem_init (\<lambda>_ _. 1) (\<lambda>_ _. 1) [100] Map.empty) (db_writes num_writes) = Some s
    \<and> run_threads (engine_step []) (meet_round RECORD_BUFF_SIZE)
        [Dumping dumper_start, Reading \<lparr>rd_key = key_of (num_write 0), rd_pc = At_get\<rparr>] s
      = Some ([Dumping d, Reading \<lparr>rd_key = key_of (num_write 0), rd_pc = Returned (replicate RECORD_VALUE_LEN 0)\<rparr>], s')
    \<and> run_threads (engine_step []) [0, 0] [Writing (writer_start (\<lambda>_. 1) 7 (replicate RECORD_VALUE_LEN 1)), Dumping d] s'
      = Some ([Writing ((writer_start (\<lambda>_. 1) 7 (replicate RECORD_VALUE_LEN 1))\<lparr>wr_pc := At_access a\<rparr>), Dumping d], t)
    \<and> run_threads (engine_step []) [0] [Writing ((writer_start (\<lambda>_. 1) 7 (replicate RECORD_VALUE_LEN 1))\<lparr>wr_pc := At_access a\<rparr>), Dumping d] t
      = None"
proof -
  have nth: "num_writes ! 0 = num_write 0" "num_writes ! 1023 = num_write 1023"
    by (simp_all add: num_writes_def RECORD_BUFF_SIZE_def)
  have len: "length num_writes = 1024" using num_writes_ok(2) by (simp add: RECORD_BUFF_SIZE_def)
  then have ne: "num_writes \<noteq> []" by auto
  have first: "key_of (num_write 0) = hd (sort (map key_of num_writes))"
    unfolding num_writes_ok(5) using ne hd_conv_nth [OF ne] by (simp add: hd_map nth(1))
  have "last num_writes = num_write 1023" using last_conv_nth [OF ne] nth(2) by (simp add: len)
  then have last: "key_of (last num_writes) \<noteq> key_of (num_write 0)" using num_write_less [of 0 1023] by simp
  have "contents num_writes (key_of (num_write 0)) = Some (replicate RECORD_VALUE_LEN 0)"
    using contents_nth [OF num_writes_ok(3), of 0] num_writes_ok(2) nth(1) by (simp add: num_write_def RECORD_BUFF_SIZE_def)
  then have val: "the (contents num_writes (key_of (num_write 0))) = replicate RECORD_VALUE_LEN 0" by simp
  let ?v = "replicate RECORD_VALUE_LEN (1 :: u8)"
  have v: "RECORD_VALUE_LEN \<le> length ?v" by simp
  have nobody: "\<forall>w \<in> set ([] :: writer list). wr_pc w = At_log" "\<forall>r \<in> set ([] :: reader list). rd_pc r = At_get" by simp_all
  from read_blocks_writers [OF no_files_empty num_writes_ok(1-4) first last v nobody,
      of "\<lambda>_ _. 1" "\<lambda>_ _. 1" "[]" "\<lambda>_. 1" 7, unfolded val list.map append_Nil]
  obtain s s' d a t where s: "Option.bind (DBSystem_init (\<lambda>_ _. 1) (\<lambda>_ _. 1) [100] Map.empty) (db_writes num_writes) = Some s"
    "run_threads (engine_step []) (meet_round RECORD_BUFF_SIZE)
        [Dumping dumper_start, Reading \<lparr>rd_key = key_of (num_write 0), rd_pc = At_get\<rparr>] s
      = Some ([Dumping d, Reading \<lparr>rd_key = key_of (num_write 0), rd_pc = Returned (replicate RECORD_VALUE_LEN 0)\<rparr>], s')"
    "run_threads (engine_step []) [0, 0] [Writing (writer_start (\<lambda>_. 1) 7 ?v), Dumping d] s'
      = Some ([Writing ((writer_start (\<lambda>_. 1) 7 ?v)\<lparr>wr_pc := At_access a\<rparr>), Dumping d], t)"
    "\<forall>ts ths u. run_threads (engine_step []) ts [Writing ((writer_start (\<lambda>_. 1) 7 ?v)\<lparr>wr_pc := At_access a\<rparr>), Dumping d] t
        = Some (ths, u) \<longrightarrow> waits_at a (ths ! 0) \<and> 0 \<notin> set ts" by blast
  have "run_threads (engine_step []) [0] [Writing ((writer_start (\<lambda>_. 1) 7 ?v)\<lparr>wr_pc := At_access a\<rparr>), Dumping d] t = None"
  proof (rule ccontr)
    assume "run_threads (engine_step []) [0] [Writing ((writer_start (\<lambda>_. 1) 7 ?v)\<lparr>wr_pc := At_access a\<rparr>), Dumping d] t \<noteq> None"
    then obtain ths u where "run_threads (engine_step []) [0]
        [Writing ((writer_start (\<lambda>_. 1) 7 ?v)\<lparr>wr_pc := At_access a\<rparr>), Dumping d] t = Some (ths, u)"
      by (metis option.exhaust surj_pair)
    with s(4) have "0 \<notin> set [0 :: nat]" by blast
    then show False by simp
  qed
  with s(1-3) show ?thesis by blast
qed

end
