(* ===== verification/Generations.thy ===== *)
theory Generations
  imports DB_Dump
begin

text \<open>
  The life of the engine over many generations. After a dump the hash index still has the dumped
  keys, so the invariant \<open>db_ok\<close> does not hold any more. But a write or a dump only adds to the hash
  index: it does the same to the rest of the state as in a state with fewer entries (\<open>covers\<close>). So
  each generation runs like the first one, which \<open>DB_Dump\<close> describes.
\<close>

subsection \<open>A hash index with more entries\<close>

definition covers :: "table \<Rightarrow> table \<Rightarrow> bool" where
  "covers h h0 \<longleftrightarrow> index_inv h \<and> index_inv h0 \<and> index_lookup h0 \<subseteq>\<^sub>m index_lookup h"

lemma covers_finite: "covers h h0 \<Longrightarrow> finite (dom (index_lookup h))"
  by (simp add: covers_def finite_index)

lemma covers_new: "index_inv h \<Longrightarrow> covers h IndexHashMap_new"
  by (simp add: covers_def index_new_inv index_new_lookup)

lemma covers_update:
  assumes cov: "covers h h0" and card: "card (dom (index_lookup h)) < 11662"
    and run: "Indexer_update k i h0 = Some (h0', c0)"
  shows "\<exists>h' c. Indexer_update k i h = Some (h', c) \<and> covers h' h0'
    \<and> index_lookup h' = (index_lookup h)(k \<mapsto> set_in_hash True i)"
proof -
  have "dom (index_lookup h0) \<subseteq> dom (index_lookup h)" using cov by (simp add: covers_def map_le_implies_dom_le)
  then have "card (dom (index_lookup h0)) < 11662"
    using card card_mono [OF covers_finite [OF cov]] le_less_trans by blast
  then have h0: "index_inv h0'" "index_lookup h0' = (index_lookup h0)(k \<mapsto> set_in_hash True i)"
    using hash_update_ok [of h0 k i] run cov by (auto simp: covers_def)
  obtain h' c where h: "Indexer_update k i h = Some (h', c)" "index_inv h'"
    "index_lookup h' = (index_lookup h)(k \<mapsto> set_in_hash True i)"
    using hash_update_ok [of h k i] card cov by (auto simp: covers_def)
  then show ?thesis using h0 cov by (auto simp: covers_def map_le_upd)
qed

lemma put_covers:
  assumes "db_put rnd k v t = Some t'" and "covers h (db_hash t)" and "card (dom (index_lookup h)) < 11662"
  shows "\<exists>h'. db_put rnd k v (t\<lparr>db_hash := h\<rparr>) = Some (t'\<lparr>db_hash := h'\<rparr>) \<and> covers h' (db_hash t')
    \<and> dom (index_lookup h') = insert k (dom (index_lookup h))"
proof -
  obtain r f d i b b' h0 c0 m where 1: "make_record k v = Some r" "write_to_log (record_bytes r) (db_disk t) = Some (f, d)"
    "request_record_buff (db_buffer t) = Some (i, b)" "store_record i r b = Some b'"
    "Indexer_update k (buffer_index i) (db_hash t) = Some (h0, c0)"
    "memtables_write rnd k (buffer_index i) (db_mem t) = Some m"
    "t' = t\<lparr>db_buffer := b', db_hash := h0, db_mem := m, db_disk := d\<rparr>"
    using assms(1) by (auto simp: db_put_def bind_eq_Some_conv)
  obtain h' c where "Indexer_update k (buffer_index i) h = Some (h', c)" "covers h' h0"
    "index_lookup h' = (index_lookup h)(k \<mapsto> set_in_hash True (buffer_index i))"
    using covers_update [OF assms(2,3) 1(5)] by blast
  with 1 show ?thesis by (intro exI [of _ h']) (simp add: db_put_def)
qed

lemma check_hash: "db_check (t\<lparr>db_hash := h\<rparr>) = map_option (\<lambda>s. s\<lparr>db_hash := h\<rparr>) (db_check t)"
  by (auto simp: db_check_def map_option_case split: Option.bind_split option.split)

lemma check_same: "db_check t = Some t' \<Longrightarrow> db_hash t' = db_hash t"
  by (auto simp: db_check_def bind_eq_Some_conv split: if_splits)

lemma write_covers:
  assumes "DBSystem_write rnd key v t = Some t'" and "get_key_string key = Some k"
    and "covers h (db_hash t)" and "card (dom (index_lookup h)) < 11662"
  shows "\<exists>h'. DBSystem_write rnd key v (t\<lparr>db_hash := h\<rparr>) = Some (t'\<lparr>db_hash := h'\<rparr>) \<and> covers h' (db_hash t')
    \<and> dom (index_lookup h') = insert k (dom (index_lookup h))"
proof -
  obtain t1 where t1: "db_put rnd k v t = Some t1" "db_check t1 = Some t'"
    using assms(1,2) by (auto simp: write_split bind_eq_Some_conv)
  with put_covers [OF t1(1) assms(3,4)] check_same [OF t1(2)] show ?thesis
    by (auto simp: write_split assms(2) check_hash)
qed

lemma writes_covers:
  assumes "db_writes ws t = Some t'" and "\<forall>w \<in> set ws. valid_write w" and "covers h (db_hash t)"
    and "card (dom (index_lookup h) \<union> key_of ` set ws) < 11662"
  shows "\<exists>h'. db_writes ws (t\<lparr>db_hash := h\<rparr>) = Some (t'\<lparr>db_hash := h'\<rparr>) \<and> covers h' (db_hash t')
    \<and> dom (index_lookup h') = dom (index_lookup h) \<union> key_of ` set ws"
  using assms
proof (induction ws arbitrary: t h)
  case (Cons w ws)
  obtain rnd key v where w: "w = (rnd, key, v)" by (cases w)
  have k: "get_key_string key = Some (key_of w)" using Cons.prems(2) by (auto simp: w valid_write_def key_of_def)
  have fin: "finite (dom (index_lookup h) \<union> key_of ` set (w # ws))" using covers_finite [OF Cons.prems(3)] by simp
  obtain t1 where t1: "DBSystem_write rnd key v t = Some t1" "db_writes ws t1 = Some t'"
    using Cons.prems(1) by (auto simp: w bind_eq_Some_conv)
  have "card (dom (index_lookup h)) < 11662" using card_mono [OF fin Un_upper1] Cons.prems(4) by (rule le_less_trans)
  then obtain h1 where h1: "DBSystem_write rnd key v (t\<lparr>db_hash := h\<rparr>) = Some (t1\<lparr>db_hash := h1\<rparr>)" "covers h1 (db_hash t1)"
    "dom (index_lookup h1) = insert (key_of w) (dom (index_lookup h))"
    using write_covers [OF t1(1) k Cons.prems(3)] by blast
  have un: "dom (index_lookup h1) \<union> key_of ` set ws = dom (index_lookup h) \<union> key_of ` set (w # ws)" using h1(3) by auto
  with Cons.IH [OF t1(2) _ h1(2)] Cons.prems(2,4) obtain h' where "db_writes ws (t1\<lparr>db_hash := h1\<rparr>) = Some (t'\<lparr>db_hash := h'\<rparr>)"
    "covers h' (db_hash t')" "dom (index_lookup h') = dom (index_lookup h) \<union> key_of ` set (w # ws)" by auto
  with h1(1) show ?case by (auto simp: w)
qed auto

lemma records_covers:
  assumes "dump_records fid i qs (b, h0, d) = Some (b', h0', d')" and "covers h h0"
    and "card (dom (index_lookup h) \<union> kv_key ` set qs) < 11662"
  shows "\<exists>h'. dump_records fid i qs (b, h, d) = Some (b', h', d') \<and> covers h' h0'
    \<and> dom (index_lookup h') = dom (index_lookup h) \<union> kv_key ` set qs"
  using assms
proof (induction qs arbitrary: i b h0 d h)
  case (Cons q qs)
  let ?i = "set_in_file True (set_idx (of_nat i) (set_fid (of_nat fid) Index_new))"
  from Cons.prems(1) obtain b1 r b2 b3 h1 c where 1: "wait_for_access (pair_slot q) b = Some b1" "record_at (pair_slot q) b1 = Some r"
    "release_buff (pair_slot q) b1 = Some b2" "end_access (pair_slot q) b2 = Some b3" "Indexer_update (kv_key q) ?i h0 = Some (h1, c)"
    and rest: "dump_records fid (Suc i) qs (b3, h1, append_dumping (take RECORD_VALUE_LEN (rc_value r)) d) = Some (b', h0', d')"
    by (auto simp: bind_eq_Some_conv Let_def pair_slot_def)
  have fin: "finite (dom (index_lookup h) \<union> kv_key ` set (q # qs))" using covers_finite [OF Cons.prems(2)] by simp
  have "card (dom (index_lookup h)) < 11662" using card_mono [OF fin Un_upper1] Cons.prems(3) by (rule le_less_trans)
  then obtain h2 c2 where h2: "Indexer_update (kv_key q) ?i h = Some (h2, c2)" "covers h2 h1"
    "index_lookup h2 = (index_lookup h)(kv_key q \<mapsto> set_in_hash True ?i)"
    using covers_update [OF Cons.prems(2) _ 1(5)] by blast
  have un: "dom (index_lookup h2) \<union> kv_key ` set qs = dom (index_lookup h) \<union> kv_key ` set (q # qs)" using h2(3) by auto
  with Cons.IH [OF rest h2(2)] Cons.prems(3) obtain h' where "dump_records fid (Suc i) qs
      (b3, h2, append_dumping (take RECORD_VALUE_LEN (rc_value r)) d) = Some (b', h', d')"
    "covers h' h0'" "dom (index_lookup h') = dom (index_lookup h) \<union> kv_key ` set (q # qs)" by auto
  with 1(1-4) h2(1) show ?case by (auto simp: Let_def pair_slot_def)
qed simp

lemma dump_covers:
  assumes "dump_all junk qs t = Some t'" and "covers h (db_hash t)" and "card (dom (index_lookup h) \<union> kv_key ` set qs) < 11662"
  shows "\<exists>h'. dump_all junk qs (t\<lparr>db_hash := h\<rparr>) = Some (t'\<lparr>db_hash := h'\<rparr>) \<and> covers h' (db_hash t')
    \<and> dom (index_lookup h') = dom (index_lookup h) \<union> kv_key ` set qs"
proof -
  let ?fid = "get_records_num (db_manifest t)"
  obtain d b h0 d1 mn d2 d3 where 1: "dumpint_keys (sst_name ?fid) (map kv_key qs) (db_disk t) = Some d"
    "dump_records ?fid 0 qs (db_buffer t, db_hash t, d) = Some (b, h0, d1)" "qs \<noteq> []"
    "insert_record junk 0 (kv_key (hd qs)) (kv_key (last qs)) (of_nat (length qs)) (db_manifest t) d1 = Some (mn, d2)"
    "end_dumping d2 = Some d3" "t' = t\<lparr>db_buffer := b, db_hash := h0, db_disk := d3, db_manifest := mn\<rparr>"
    using assms(1) by (auto simp: dump_all_def Let_def bind_eq_Some_conv split: if_splits)
  obtain h' where "dump_records ?fid 0 qs (db_buffer t, h, d) = Some (b, h', d1)" "covers h' h0"
    "dom (index_lookup h') = dom (index_lookup h) \<union> kv_key ` set qs"
    using records_covers [OF 1(2) assms(2,3)] by blast
  with 1 show ?thesis by (intro exI [of _ h']) (simp add: dump_all_def Let_def)
qed

lemma merges_hash: "merges_to s qs u \<Longrightarrow> merges_to (s\<lparr>db_hash := h\<rparr>) qs (u\<lparr>db_hash := h\<rparr>)"
  unfolding merges_to_def by auto

lemma merges_same: "merges_to s qs u \<Longrightarrow> u = s\<lparr>db_mem := db_mem u\<rparr>"
  unfolding merges_to_def by auto

lemma round_covers:
  assumes "merges_to t qs u" and "dumper_round junk t = Some t'" and "covers h (db_hash t)"
    and "card (dom (index_lookup h) \<union> kv_key ` set qs) < 11662"
  shows "\<exists>h'. dumper_round junk (t\<lparr>db_hash := h\<rparr>) = Some (t'\<lparr>db_hash := h'\<rparr>) \<and> covers h' (db_hash t')
    \<and> dom (index_lookup h') = dom (index_lookup h) \<union> kv_key ` set qs"
proof -
  have "db_hash u = db_hash t" using merges_same [OF assms(1)] by (metis DBSystem.ext_inject DBSystem.surjective DBSystem.update_convs(3))
  with dump_covers [of junk qs u t' h] assms show ?thesis
    using merges_round [OF assms(1), of junk] merges_round [OF merges_hash [OF assms(1), of h], of junk] by simp
qed

subsection \<open>What a dump leaves alone\<close>

definition disk_frame :: "DiskManager \<Rightarrow> DiskManager \<Rightarrow> bool" where
  "disk_frame d d' \<longleftrightarrow> dm_curr_log_fd d' = dm_curr_log_fd d \<and> dm_curr_log_len d' = dm_curr_log_len d
     \<and> dm_basepath d' = dm_basepath d"

lemma disk_frame_trans: "disk_frame d d' \<Longrightarrow> disk_frame d' d'' \<Longrightarrow> disk_frame d d''"
  by (simp add: disk_frame_def)

lemma append_frame: "disk_frame d (append_dumping bs d)"
  by (simp add: disk_frame_def append_dumping_def)

lemma keys_frame: "dumpint_keys name ks d = Some d' \<Longrightarrow> disk_frame d d'"
proof -
  have fold: "disk_frame d (fold (\<lambda>key. append_dumping (f key)) ks d)" for f d
    by (induction ks arbitrary: d) (auto simp: disk_frame_def append_dumping_def)
  assume "dumpint_keys name ks d = Some d'"
  then obtain path bs where "d' = fold (\<lambda>key. append_dumping (le_bytes 8 (unat key))) ks
      (append_dumping bs (d\<lparr>dm_dumping_fd := Some path, dm_files := (dm_files d)(path \<mapsto> [])\<rparr>))"
    by (auto simp: dumpint_keys_def Let_def bind_eq_Some_conv simp del: path_join.simps)
  then show "disk_frame d d'" using fold append_frame by (auto simp: disk_frame_def)
qed

lemma records_frame: "dump_records fid i qs (b, h, d) = Some (b', h', d') \<Longrightarrow> disk_frame d d'"
proof (induction qs arbitrary: i b h d)
  case (Cons q qs)
  then obtain b1 h1 bs where "dump_records fid (Suc i) qs (b1, h1, append_dumping bs d) = Some (b', h', d')"
    by (auto simp: bind_eq_Some_conv Let_def)
  with Cons.IH append_frame show ?case by (blast intro: disk_frame_trans)
qed (simp add: disk_frame_def)

lemma end_frame: "end_dumping d = Some d' \<Longrightarrow> disk_frame d d'"
  by (auto simp: end_dumping_def disk_frame_def Let_def bind_eq_Some_conv simp del: path_join.simps)

lemma switch_frame:
  assumes "switch_log d = Some d'" and "path_join [dm_basepath d, HOT_LOG] = Some p"
  shows "dm_curr_log_fd d' = Some p" and "dm_curr_log_len d' = dm_curr_log_len d"
  using assms by (auto simp: switch_log_def open_append_def Let_def bind_eq_Some_conv simp del: path_join.simps split: if_splits)

subsection \<open>The manifest after an insertion\<close>

definition counted :: "Manifester \<Rightarrow> bool" where
  "counted m \<longleftrightarrow> count_levels (mn_records m) (replicate MAX_LOG_RECORD_NUM 0) = Some (mn_record_cnt m)
     \<and> (\<forall>r \<in> set (mn_records m). mf_sized r) \<and> mn_record_cnt m \<noteq> []"

lemma counted_new: "counted manifest_new"
  by (simp add: counted_def manifest_new_def MAX_LOG_RECORD_NUM_def)

lemma count_levels_snoc: "count_levels (rs @ [r]) cnt = Option.bind (count_levels rs cnt) (count_level (mf_lvl r))"
  by (induction rs arbitrary: cnt) (auto split: Option.bind_split)

definition new_mf :: "u8 list \<Rightarrow> nat \<Rightarrow> KEY_T \<Rightarrow> KEY_T \<Rightarrow> u32 \<Rightarrow> MFRecord" where
  "new_mf junk n k1 k2 len = \<lparr>mf_lvl = 0, mf_file_name = sst_name n @ drop (length (sst_name n)) junk,
     mf_kstart = k1, mf_kend = k2, mf_nrecord = len\<rparr>"

text \<open>A new process finds the same records as this one has.\<close>

lemma insert_counted:
  assumes m: "counted m" and junk: "length junk = 256" and n: "get_records_num m = n" "n < IOV_MAX" "length (sst_name n) \<le> 256"
    and run: "insert_record junk 0 k1 k2 len m d = Some (m', d')"
  shows "counted m'" and "Manifester_new d' = Some m'" and "mn_records m' = mn_records m @ [new_mf junk n k1 k2 len]"
    and "disk_frame d d'"
proof -
  let ?new = "new_mf junk n k1 k2 len"
  have "length (map mf_bytes (mn_records m @ [?new])) \<le> IOV_MAX" using n by (simp add: get_records_num_def)
  then obtain p cnt where p: "path_join [dm_basepath d, MANIFIST_FILE] = Some p"
    and m': "m' = \<lparr>mn_records = mn_records m @ [?new], mn_record_cnt = cnt\<rparr>" "count_level 0 (mn_record_cnt m) = Some cnt"
    and d': "d' = d\<lparr>dm_files := (dm_files d)(p \<mapsto> concat (map mf_bytes (mn_records m @ [?new])))\<rparr>"
    using run n(1) by (auto simp: insert_record_def write_to_manifist_def get_records_num_def new_mf_def Let_def
        bind_eq_Some_conv simp del: path_join.simps)
  show "mn_records m' = mn_records m @ [?new]" "disk_frame d d'" by (simp_all add: m' d' disk_frame_def)
  have sized: "\<forall>r \<in> set (mn_records m @ [?new]). mf_sized r"
    using m junk n(3) by (auto simp: counted_def mf_sized_def new_mf_def)
  then have "recover_loop (replicate sizeof_MFRecord 0) (concat (map mf_bytes (mn_records m @ [?new]))) = mn_records m @ [?new]"
    by (intro recover_loop_all) auto
  then have rec: "recover_manifist d' = Some (mn_records m @ [?new])"
    using p by (simp add: recover_manifist_def d' del: path_join.simps map_append)
  have cnt: "count_levels (mn_records m @ [?new]) (replicate MAX_LOG_RECORD_NUM 0) = Some cnt"
    using m m'(2) by (simp add: counted_def count_levels_snoc new_mf_def)
  then show "Manifester_new d' = Some m'" by (simp add: Manifester_new_def rec m'(1))
  have "cnt \<noteq> []" using m'(2) by (auto simp: count_level_def vset_def bind_eq_Some_conv split: if_splits)
  then show "counted m'" using sized cnt by (simp add: counted_def m'(1))
qed

lemma Manifester_new_cong:
  assumes "dm_basepath d' = dm_basepath d" and "path_join [dm_basepath d, MANIFIST_FILE] = Some p" and "dm_files d' p = dm_files d p"
  shows "Manifester_new d' = Manifester_new d"
  using assms by (simp add: Manifester_new_def recover_manifist_def del: path_join.simps)

lemma Manifester_new_records: "Manifester_new d = Some m \<Longrightarrow> recover_manifist d = Some (mn_records m)"
  by (auto simp: Manifester_new_def bind_eq_Some_conv)

lemma sst_name_length: "n < IOV_MAX \<Longrightarrow> length (sst_name n) \<le> 256"
  using length_dec_digits [of 4 n] by (simp add: sst_name_def SST_FILE_APPENDIX_def cstr_def IOV_MAX_def)

text \<open>A dump: the manifest gets a record, which is in the file as well.\<close>

lemma dump_all_frame:
  assumes run: "dump_all junk qs u = Some u'" and m: "counted (db_manifest u)" and junk: "length junk = 256"
    and n: "get_records_num (db_manifest u) = n" "n < IOV_MAX"
    and base: "\<And>name. name \<noteq> [] \<Longrightarrow> path_join [dm_basepath (db_disk u), name] = Some (p @ name)"
  shows "disk_frame (db_disk u) (db_disk u')" and "counted (db_manifest u')" and "Manifester_new (db_disk u') = Some (db_manifest u')"
    and "mn_records (db_manifest u') = mn_records (db_manifest u) @ [new_mf junk n (kv_key (hd qs)) (kv_key (last qs)) (of_nat (length qs))]"
proof -
  obtain d b h d1 mn d2 d3 where 1: "dumpint_keys (sst_name n) (map kv_key qs) (db_disk u) = Some d"
    "dump_records n 0 qs (db_buffer u, db_hash u, d) = Some (b, h, d1)"
    "insert_record junk 0 (kv_key (hd qs)) (kv_key (last qs)) (of_nat (length qs)) (db_manifest u) d1 = Some (mn, d2)"
    "end_dumping d2 = Some d3" "u' = u\<lparr>db_buffer := b, db_hash := h, db_disk := d3, db_manifest := mn\<rparr>"
    using run n(1) by (auto simp: dump_all_def Let_def bind_eq_Some_conv split: if_splits)
  note ins = insert_counted [OF m junk n sst_name_length [OF n(2)] 1(3)]
  have frame: "disk_frame (db_disk u) d2" using keys_frame [OF 1(1)] records_frame [OF 1(2)] ins(4) by (blast intro: disk_frame_trans)
  with end_frame [OF 1(4)] show "disk_frame (db_disk u) (db_disk u')" by (auto simp: 1(5) intro: disk_frame_trans)
  show "counted (db_manifest u')" "mn_records (db_manifest u') = mn_records (db_manifest u)
      @ [new_mf junk n (kv_key (hd qs)) (kv_key (last qs)) (of_nat (length qs))]"
    using ins by (simp_all add: 1(5))
  have bp: "dm_basepath d2 = dm_basepath (db_disk u)" using frame by (simp add: disk_frame_def)
  note paths = base [OF MANIFIST_names(1)] base [OF log_names(3)]
  have "Manifester_new d3 = Manifester_new d2"
    using 1(4) paths MANIFIST_names(3) end_frame [OF 1(4)]
    by (intro Manifester_new_cong) (auto simp: bp disk_frame_def end_dumping_def Let_def if_file_exists_def simp del: path_join.simps)
  then show "Manifester_new (db_disk u') = Some (db_manifest u')" using ins(2) by (simp add: 1(5))
qed

subsection \<open>Between two generations\<close>

definition idle_db :: "cxx_string \<Rightarrow> nat \<Rightarrow> DBSystem \<Rightarrow> bool" where
  "idle_db p n s \<longleftrightarrow> restarted (db_mem s) \<and> quiet (db_buffer s) \<and> in_use (db_buffer s) = {} \<and> index_inv (db_hash s)
     \<and> counted (db_manifest s) \<and> get_records_num (db_manifest s) = n \<and> Manifester_new (db_disk s) = Some (db_manifest s)
     \<and> (\<forall>name. name \<noteq> [] \<longrightarrow> path_join [dm_basepath (db_disk s), name] = Some (p @ name))
     \<and> dm_curr_log_fd (db_disk s) = Some (p @ HOT_LOG) \<and> dm_curr_log_len (db_disk s) = n * RECORD_BUFF_SIZE * sizeof_Record
     \<and> dm_files (db_disk s) (p @ HOT_LOG) = Some [] \<and> dm_files (db_disk s) (p @ DIED_LOG) = None"

lemma calm_restarted:
  assumes "calm m" and "only_first m" and "first_map m = Map.empty" and "mt_wait_for_dump m = []"
  shows "restarted m"
proof -
  have "list_map (mt_heap m) q = Map.empty" if "q \<in> set (mt_current m)" for q
    using assms(2,3) that by (cases "mt_current m") (auto simp: only_first_def first_map_def)
  then have "\<forall>q \<in> set (mt_current m). fresh_list (mt_heap m) q"
    using assms(1) by (fastforce simp: calm_def tables_ok_def ready_def unlocked_def fresh_list_def list_map_def)
  then show ?thesis using assms(1,4) by (simp add: restarted_def calm_def)
qed

lemma idle_db_start:
  assumes nf: "no_files base fs" and init: "DBSystem_init g g' base fs = Some s"
    and names: "\<forall>name. name \<noteq> [] \<longrightarrow> path_join [base, name] = Some (p @ name)"
  shows "idle_db p 0 s" and "dom (index_lookup (db_hash s)) = {}"
    and "dm_files (db_disk s) = fs(p @ HOT_LOG \<mapsto> [])" and "mn_records (db_manifest s) = []" and "dm_basepath (db_disk s) = base"
proof -
  have base: "\<And>name. name \<noteq> [] \<Longrightarrow> path_join [base, name] = Some (p @ name)" using names by blast
  note paths = base [OF log_names(2)] base [OF log_names(3)] base [OF MANIFIST_names(1)]
  have none: "fs (p @ HOT_LOG) = None" "fs (p @ DIED_LOG) = None" "fs (p @ MANIFIST_FILE) = None"
    using nf by (simp_all add: no_files_def paths del: path_join.simps)
  have s: "db_ok s" "db_map s = Map.empty" "db_buffer s = Buffer_new" "mt_wait_for_dump (db_mem s) = []"
    "db_manifest s = manifest_new" "db_disk s = open_append (p @ HOT_LOG) (DiskManager_init base fs)"
    using DBSystem_init_fresh [OF nf, of g g'] init by (auto simp: paths simp del: path_join.simps)
  have core: "db_core s" using s(1) by (rule db_ok_core)
  show dom: "dom (index_lookup (db_hash s)) = {}" using s(2) by (simp flip: dom_db_map(2) add: dom_db_map(1) [symmetric])
  have first: "first_map (db_mem s) = Map.empty" using db_core_first_dom [OF core] s(2) by simp
  have d: "dm_basepath (db_disk s) = base" "dm_files (db_disk s) = fs(p @ HOT_LOG \<mapsto> [])"
    "dm_curr_log_fd (db_disk s) = Some (p @ HOT_LOG)" "dm_curr_log_len (db_disk s) = 0"
    by (simp_all add: s(6) open_append_def DiskManager_init_def if_file_exists_def none(1))
  then show "dm_files (db_disk s) = fs(p @ HOT_LOG \<mapsto> [])" "dm_basepath (db_disk s) = base" by simp_all
  show "mn_records (db_manifest s) = []" by (simp add: s(5) manifest_new_def)
  have "base \<noteq> []" using nf by (simp add: no_files_def)
  moreover have "fs (the (path_join [base, MANIFIST_FILE])) = None" using none(3) paths(3) by (simp del: path_join.simps)
  ultimately have "Manifester_new (DiskManager_init base fs) = Some manifest_new" by (rule manifester_none)
  moreover have "Manifester_new (db_disk s) = Manifester_new (DiskManager_init base fs)"
    using MANIFIST_names(2) paths(3) by (intro Manifester_new_cong) (auto simp: d DiskManager_init_def simp del: path_join.simps)
  moreover have "restarted (db_mem s)"
    using core first s(4) by (intro calm_restarted) (simp_all add: db_core_def)
  moreover have "in_use Buffer_new = {}" using in_use_card [OF buffer_new_inv] by (simp add: Buffer_new_def in_use_def)
  ultimately show "idle_db p 0 s"
    using core s(3,5) d base none(2) log_names(1) counted_new
    by (auto simp: idle_db_def db_core_def get_records_num_def manifest_new_def simp del: path_join.simps)
qed

text \<open>For the rest of the state, each generation begins as in a new process.\<close>

lemma idle_fresh:
  assumes idle: "idle_db p n s"
  defines "t \<equiv> s\<lparr>db_hash := IndexHashMap_new\<rparr>"
  shows "db_ok t" and "db_map t = Map.empty" and "length (bf_empty (db_buffer t)) = RECORD_BUFF_SIZE"
    and "covers (db_hash s) (db_hash t)" and "s = t\<lparr>db_hash := db_hash s\<rparr>"
proof -
  have r: "restarted (db_mem s)" and i: "quiet (db_buffer s)" "in_use (db_buffer s) = {}" "index_inv (db_hash s)"
    using idle by (simp_all add: idle_db_def)
  have slots: "slot_of t = Map.empty" by (simp add: t_def slot_of_def [abs_def] index_new_lookup)
  then show "db_map t = Map.empty" by (simp add: db_map_def [abs_def])
  have "calm (db_mem s)" "only_first (db_mem s)" "first_map (db_mem s) = Map.empty"
    using r by (auto simp: restarted_def intro: fresh_calm)
  then have "db_core t" using i slots index_new_inv by (simp add: db_core_def t_def)
  then show "db_ok t" using idle by (simp add: db_ok_def t_def idle_db_def)
  show "length (bf_empty (db_buffer t)) = RECORD_BUFF_SIZE"
    using in_use_card [of "db_buffer s"] i(1,2) by (simp add: t_def quiet_def)
  show "covers (db_hash s) (db_hash t)" using i(3) by (simp add: t_def covers_new)
qed (simp add: t_def)

subsection \<open>One generation\<close>

definition full_generation :: "write_op list \<Rightarrow> bool" where
  "full_generation ws \<longleftrightarrow> (\<forall>w \<in> set ws. valid_write w) \<and> length ws = RECORD_BUFF_SIZE
     \<and> distinct (map key_of ws) \<and> (\<forall>w \<in> set ws. key_of w < INT64_MAX)"

text \<open>What the table file and its record in the manifest should be.\<close>

definition table_file :: "write_op list \<Rightarrow> u8 list" where
  "table_file ws = (let ks = sort (map key_of ws) in sst_keys ks @ concat (map (\<lambda>k. the (contents ws k)) ks))"

definition table_record :: "u8 list \<Rightarrow> nat \<Rightarrow> write_op list \<Rightarrow> MFRecord" where
  "table_record junk n ws = (let ks = sort (map key_of ws) in new_mf junk n (hd ks) (last ks) (of_nat (length ks)))"

lemma generation_writes:
  assumes ok: "db_ok t" "db_map t = Map.empty" "length (bf_empty (db_buffer t)) = RECORD_BUFF_SIZE"
    and gen: "full_generation ws" and log: "dm_curr_log_len (db_disk t) + RECORD_BUFF_SIZE * sizeof_Record < 2 ^ 31"
  shows "\<exists>u. db_writes ws t = db_check u \<and> since t ws u"
proof -
  have g: "\<forall>w \<in> set ws. valid_write w" "length ws = RECORD_BUFF_SIZE" "distinct (map key_of ws)"
    using gen by (simp_all add: full_generation_def)
  then have "ws \<noteq> []" by (auto simp: RECORD_BUFF_SIZE_def)
  then obtain ws1 w where ws: "ws = ws1 @ [w]" by (cases ws rule: rev_cases) auto
  have len: "length ws1 < RECORD_BUFF_SIZE" "Suc (length ws1) = RECORD_BUFF_SIZE" using g(2) by (simp_all add: ws)
  have "card (key_of ` set ws1) \<le> length ws1" by (metis card_length list.set_map length_map)
  then have "card (dom (db_map t) \<union> key_of ` set ws1) < RECORD_BUFF_SIZE" using len(1) ok(2) by simp
  moreover have "dm_curr_log_len (db_disk t) + length ws1 * sizeof_Record < 2 ^ 31"
    using log len(1) mult_le_mono1 [of "length ws1" RECORD_BUFF_SIZE sizeof_Record] by linarith
  ultimately obtain u1 where u1: "db_writes ws1 t = Some u1" "since t ws1 u1"
    using since_writes [OF ok(1), of ws1] g(1) ok(3) len(1) by (auto simp: ws)
  obtain rnd key v where w: "w = (rnd, key, v)" by (cases w)
  have key: "get_key_string key = Some (key_of w)" using g(1) by (auto simp: ws w valid_write_def key_of_def)
  obtain u where u: "db_put rnd (key_of w) v u1 = Some u" "since t (ws1 @ [w]) u"
    using since_put [OF u1(2), of w rnd] g(1) ok(3) len log by (auto simp: ws w)
  have "db_writes ws t = db_check u" using u1(1) u(1) key by (simp add: ws w db_writes_snoc write_split)
  with u(2) show ?thesis by (auto simp: ws)
qed

lemma length_table: "full_generation ws \<Longrightarrow> length (sort (map key_of ws)) = RECORD_BUFF_SIZE"
  by (simp add: full_generation_def)

lemma generation_step:
  assumes idle: "idle_db p n s" and gen: "full_generation ws" and n: "n < 256" and junk: "length junk = 256"
    and room: "card (dom (index_lookup (db_hash s)) \<union> key_of ` set ws) < 11662"
  shows "\<exists>s1 s2 mf. db_writes ws s = Some s1 \<and> dumper_round junk s1 = Some s2 \<and> idle_db p (Suc n) s2
    \<and> dom (index_lookup (db_hash s2)) = dom (index_lookup (db_hash s)) \<union> key_of ` set ws
    \<and> mn_records (db_manifest s2) = mn_records (db_manifest s) @ [table_record junk n ws]
    \<and> dm_basepath (db_disk s2) = dm_basepath (db_disk s)
    \<and> dm_files (db_disk s2) = (dm_files (db_disk s))(p @ sst_name n \<mapsto> table_file ws, p @ MANIFIST_FILE \<mapsto> mf)"
proof -
  define t where "t = s\<lparr>db_hash := IndexHashMap_new\<rparr>"
  note fresh = idle_fresh [OF idle, folded t_def]
  have g: "\<forall>w \<in> set ws. valid_write w" "length ws = RECORD_BUFF_SIZE" "distinct (map key_of ws)" "\<forall>w \<in> set ws. key_of w < INT64_MAX"
    using gen by (simp_all add: full_generation_def)
  have d: "dm_curr_log_fd (db_disk t) = Some (p @ HOT_LOG)" "dm_curr_log_len (db_disk t) = n * RECORD_BUFF_SIZE * sizeof_Record"
    "dm_files (db_disk t) (p @ HOT_LOG) = Some []" "dm_files (db_disk t) (p @ DIED_LOG) = None"
    "\<And>name. name \<noteq> [] \<Longrightarrow> path_join [dm_basepath (db_disk t), name] = Some (p @ name)"
    "counted (db_manifest t)" "get_records_num (db_manifest t) = n" "mt_wait_for_dump (db_mem t) = []"
    using idle by (auto simp: idle_db_def t_def restarted_def simp del: path_join.simps)
  have "dm_curr_log_len (db_disk t) + RECORD_BUFF_SIZE * sizeof_Record < 2 ^ 31"
    using n by (simp add: d(2) RECORD_BUFF_SIZE_def sizeof_Record_def RECORD_VALUE_LEN_def)
  then obtain u where u: "db_writes ws t = db_check u" "since t ws u"
    using generation_writes [OF fresh(1-3) gen] by blast
  have u': "db_ok u" "db_map u = contents ws" "mt_wait_for_dump (db_mem u) = []" "db_manifest u = db_manifest t"
    "db_disk u = log_extend (records ws) (db_disk t)"
    using u(2) fresh(2) d(8) by (simp_all add: since_def)
  have full: "card (dom (db_map u)) = RECORD_BUFF_SIZE"
    using g(2,3) unfolding u'(2) dom_contents by (metis distinct_card list.set_map length_map)
  have base: "\<And>name. name \<noteq> [] \<Longrightarrow> path_join [dm_basepath (db_disk u), name] = Some (p @ name)"
    unfolding u'(5) log_extend_simps by (rule d(5))
  have small: "\<forall>k \<in> dom (db_map u). k < INT64_MAX" using g(4) unfolding u'(2) dom_contents by auto
  have files: "dm_files (db_disk u) = (dm_files (db_disk t))(p @ HOT_LOG \<mapsto> log_bytes (records ws))"
    by (simp add: u'(5) log_extend_def d(1,3) write_fd_def)
  have log: "dm_files (db_disk u) (p @ HOT_LOG) = Some (log_bytes (records ws))" "dm_files (db_disk u) (p @ DIED_LOG) = None"
    using d(4) log_names(1) by (simp_all add: files)
  have cnt: "mn_record_cnt (db_manifest u) \<noteq> []" "get_records_num (db_manifest u) = n" using d(6,7) by (simp_all add: u'(4) counted_def)
  obtain t1 qs dd m where bg: "db_check u = Some t1" "merges_to t1 qs (u\<lparr>db_mem := m, db_disk := dd\<rparr>)" "generation u qs"
    "switch_log (db_disk u) = Some dd" "dm_basepath dd = dm_basepath (db_disk u)"
    using generation_begin [OF u'(1) full base u'(3) small log] by blast
  obtain t2 mf where t2: "dumper_round junk t1 = Some t2" "quiet (db_buffer t2)" "in_use (db_buffer t2) = {}"
    "restarted (db_mem t2)" "dm_basepath (db_disk t2) = dm_basepath (db_disk u)"
    "dm_files (db_disk t2) = (dm_files (db_disk u))
        (p @ DIED_LOG \<mapsto> log_bytes (records ws), p @ HOT_LOG \<mapsto> [],
         p @ sst_name n \<mapsto> sst_keys (sorted_list_of_set (dom (db_map u)))
           @ concat (map (\<lambda>k. the (db_map u k)) (sorted_list_of_set (dom (db_map u)))),
         p @ MANIFIST_FILE \<mapsto> mf, p @ DIED_LOG := None)"
    using generation_dump [OF u'(1) full base u'(3) small log cnt(2) n cnt(1), of junk] bg(1) by auto
  have ks: "sorted_list_of_set (dom (db_map u)) = sort (map key_of ws)"
    using g(3) unfolding u'(2) dom_contents by (metis distinct_remdups_id list.set_map sorted_list_of_set_sort_remdups)
  have qs: "map kv_key qs = sort (map key_of ws)" "kv_key ` set qs = key_of ` set ws" "qs \<noteq> []"
    using bg(3) ks u'(2) by (auto simp: generation_def dom_contents RECORD_BUFF_SIZE_def)
  have wr: "db_writes ws t = Some t1" using u(1) bg(1) by simp
  obtain h1 where h1: "db_writes ws s = Some (t1\<lparr>db_hash := h1\<rparr>)" "covers h1 (db_hash t1)"
    "dom (index_lookup h1) = dom (index_lookup (db_hash s)) \<union> key_of ` set ws"
    using writes_covers [OF wr g(1) fresh(4) room] fresh(5) by auto
  have "card (dom (index_lookup h1) \<union> kv_key ` set qs) < 11662" using room by (simp add: h1(3) qs(2) Un_assoc)
  then obtain h2 where h2: "dumper_round junk (t1\<lparr>db_hash := h1\<rparr>) = Some (t2\<lparr>db_hash := h2\<rparr>)" "covers h2 (db_hash t2)"
    "dom (index_lookup h2) = dom (index_lookup (db_hash s)) \<union> key_of ` set ws"
    using round_covers [OF bg(2) t2(1) h1(2)] by (auto simp: h1(3) qs(2))
  have run: "dump_all junk qs (u\<lparr>db_mem := m, db_disk := dd\<rparr>) = Some t2" using t2(1) merges_round [OF bg(2)] by simp
  have n': "n < IOV_MAX" using n by (simp add: IOV_MAX_def)
  let ?v = "u\<lparr>db_mem := m, db_disk := dd\<rparr>"
  have c: "counted (db_manifest ?v)" "get_records_num (db_manifest ?v) = n" using d(6,7) by (simp_all add: u'(4))
  have base': "\<And>name. name \<noteq> [] \<Longrightarrow> path_join [dm_basepath (db_disk ?v), name] = Some (p @ name)"
    using base by (simp add: bg(5) del: path_join.simps)
  note fr = dump_all_frame [OF run c(1) junk c(2) n' base']
  note sw = switch_frame [OF bg(4) base [OF log_names(2)]]
  have disk: "dm_curr_log_fd (db_disk t2) = Some (p @ HOT_LOG)"
    "dm_curr_log_len (db_disk t2) = Suc n * RECORD_BUFF_SIZE * sizeof_Record"
    using fr(1) sw g(2) by (simp_all add: disk_frame_def u'(5) log_extend_def d(2) add_mult_distrib)
  have files2: "dm_files (db_disk t2) = (dm_files (db_disk s))(p @ sst_name n \<mapsto> table_file ws, p @ MANIFIST_FILE \<mapsto> mf)"
    using d(3,4) log_names(1) sst_name_names [of n] MANIFIST_names
    unfolding t2(6) files ks unfolding u'(2) by (auto simp: fun_eq_iff table_file_def Let_def t_def)
  have recs: "mn_records (db_manifest t2) = mn_records (db_manifest s) @ [table_record junk n ws]"
  proof -
    have "hd (sort (map key_of ws)) = kv_key (hd qs)" "last (sort (map key_of ws)) = kv_key (last qs)"
      "length (sort (map key_of ws)) = length qs"
      unfolding qs(1) [symmetric] using qs(3) by (simp_all add: hd_map last_map)
    then show ?thesis using fr(4) by (simp add: u'(4) t_def table_record_def)
  qed
  have "idle_db p (Suc n) (t2\<lparr>db_hash := h2\<rparr>)"
    using t2(2-4) h2(2) fr(2,3) recs disk base d(3,4) log_names(1) sst_name_names [of n] MANIFIST_names cnt(2)
    by (auto simp: idle_db_def covers_def get_records_num_def t2(5) files2 u'(4) t_def simp del: path_join.simps)
  moreover have "dm_basepath (db_disk t2) = dm_basepath (db_disk s)" by (simp add: t2(5) u'(5) log_extend_simps t_def)
  ultimately show ?thesis
    using h1(1) h2(1,3) recs files2 by (intro exI conjI) (assumption | simp)+
qed

subsection \<open>Many generations\<close>

fun run_generations :: "u8 list \<Rightarrow> write_op list list \<Rightarrow> DBSystem \<Rightarrow> DBSystem option" where
  "run_generations junk [] s = Some s"
| "run_generations junk (ws # wss) s = do {
     s \<leftarrow> db_writes ws s;
     s \<leftarrow> dumper_round junk s;
     run_generations junk wss s
   }"

lemma run_generations_snoc:
  "run_generations junk (wss @ [ws]) s
    = Option.bind (run_generations junk wss s) (\<lambda>s. Option.bind (db_writes ws s) (dumper_round junk))"
  by (induction wss arbitrary: s) (auto split: Option.bind_split)

lemma sst_name_inject [simp]: "sst_name m = sst_name n \<longleftrightarrow> m = n"
  by (simp add: sst_name_def dec_digits_inj)

definition gen_keys :: "write_op list list \<Rightarrow> KEY_T set" where
  "gen_keys wss = (\<Union>ws \<in> set wss. key_of ` set ws)"

lemma generations_run:
  assumes idle: "idle_db p 0 s" "dom (index_lookup (db_hash s)) = {}" "mn_records (db_manifest s) = []" and junk: "length junk = 256"
    and "\<forall>ws \<in> set wss. full_generation ws" and "length wss \<le> 256" and "card (gen_keys wss) < 11662"
  shows "\<exists>s'. run_generations junk wss s = Some s' \<and> idle_db p (length wss) s'
    \<and> dom (index_lookup (db_hash s')) = gen_keys wss
    \<and> mn_records (db_manifest s') = map (\<lambda>n. table_record junk n (wss ! n)) [0..<length wss]
    \<and> dm_basepath (db_disk s') = dm_basepath (db_disk s)
    \<and> map (\<lambda>n. dm_files (db_disk s') (p @ sst_name n)) [0..<length wss] = map (\<lambda>ws. Some (table_file ws)) wss"
  using assms(5-7)
proof (induction wss rule: rev_induct)
  case Nil
  then show ?case using idle by (simp add: gen_keys_def)
next
  case (snoc ws wss)
  have keys: "gen_keys (wss @ [ws]) = gen_keys wss \<union> key_of ` set ws" by (auto simp: gen_keys_def)
  have fin: "finite (gen_keys (wss @ [ws]))" by (simp add: gen_keys_def)
  have "card (gen_keys wss) < 11662"
    using card_mono [OF fin, of "gen_keys wss"] snoc.prems(3) by (auto simp: keys)
  with snoc.IH snoc.prems obtain s1 where s1: "run_generations junk wss s = Some s1" "idle_db p (length wss) s1"
    "dom (index_lookup (db_hash s1)) = gen_keys wss"
    "mn_records (db_manifest s1) = map (\<lambda>n. table_record junk n (wss ! n)) [0..<length wss]"
    "dm_basepath (db_disk s1) = dm_basepath (db_disk s)"
    "map (\<lambda>n. dm_files (db_disk s1) (p @ sst_name n)) [0..<length wss] = map (\<lambda>ws. Some (table_file ws)) wss" by auto
  have "full_generation ws" "length wss < 256" "card (dom (index_lookup (db_hash s1)) \<union> key_of ` set ws) < 11662"
    using snoc.prems by (simp_all add: s1(3) keys)
  from generation_step [OF s1(2) this(1,2) junk this(3)] obtain s2 s3 mf where s3: "db_writes ws s1 = Some s2"
    "dumper_round junk s2 = Some s3" "idle_db p (Suc (length wss)) s3"
    "dom (index_lookup (db_hash s3)) = gen_keys wss \<union> key_of ` set ws"
    "mn_records (db_manifest s3) = mn_records (db_manifest s1) @ [table_record junk (length wss) ws]"
    "dm_basepath (db_disk s3) = dm_basepath (db_disk s1)"
    "dm_files (db_disk s3) = (dm_files (db_disk s1))(p @ sst_name (length wss) \<mapsto> table_file ws, p @ MANIFIST_FILE \<mapsto> mf)"
    unfolding s1(3) by blast
  have "map (\<lambda>n. dm_files (db_disk s3) (p @ sst_name n)) [0..<length wss] = map (\<lambda>n. dm_files (db_disk s1) (p @ sst_name n)) [0..<length wss]"
    using sst_name_names(4) by (auto simp: s3(7))
  then have "map (\<lambda>n. dm_files (db_disk s3) (p @ sst_name n)) [0..<length (wss @ [ws])] = map (\<lambda>ws. Some (table_file ws)) (wss @ [ws])"
    using s1(6) sst_name_names(4) by (simp add: s3(7))
  moreover have "map (\<lambda>n. table_record junk n ((wss @ [ws]) ! n)) [0..<length wss] = map (\<lambda>n. table_record junk n (wss ! n)) [0..<length wss]"
    by (simp add: nth_append)
  ultimately show ?case using s1(1,4,5) s3(1-6) by (simp add: run_generations_snoc keys)
qed

text \<open>Some more writes, which do not fill the generation.\<close>

lemma partial_generation:
  assumes idle: "idle_db p n s" and valid: "\<forall>w \<in> set ws. valid_write w" and len: "length ws < RECORD_BUFF_SIZE"
    and n: "n \<le> 256" and room: "card (dom (index_lookup (db_hash s)) \<union> key_of ` set ws) < 11662"
  shows "\<exists>s1. db_writes ws s = Some s1 \<and> quiet (db_buffer s1) \<and> db_manifest s1 = db_manifest s
    \<and> db_disk s1 = log_extend (records ws) (db_disk s)
    \<and> (\<forall>key k v. contents ws k = Some v \<longrightarrow> get_key_string key = Some k \<longrightarrow> DBSystem_read key s1 = Some (v, s1))"
proof -
  define t where "t = s\<lparr>db_hash := IndexHashMap_new\<rparr>"
  note fresh = idle_fresh [OF idle, folded t_def]
  have "length ws * sizeof_Record \<le> RECORD_BUFF_SIZE * sizeof_Record" using len by simp
  moreover have "n * RECORD_BUFF_SIZE * sizeof_Record \<le> 256 * RECORD_BUFF_SIZE * sizeof_Record" using n by simp
  moreover have "257 * RECORD_BUFF_SIZE * sizeof_Record < 2 ^ 31" by (simp add: RECORD_BUFF_SIZE_def sizeof_Record_def RECORD_VALUE_LEN_def)
  moreover have "dm_curr_log_len (db_disk t) = n * RECORD_BUFF_SIZE * sizeof_Record" using idle by (simp add: t_def idle_db_def)
  ultimately have "dm_curr_log_len (db_disk t) + length ws * sizeof_Record < 2 ^ 31" by linarith
  moreover have "card (key_of ` set ws) \<le> length ws" by (metis card_length list.set_map length_map)
  ultimately obtain t1 where t1: "db_writes ws t = Some t1" "since t ws t1"
    using since_writes [OF fresh(1) valid] fresh(2,3) len by auto
  obtain h where h: "db_writes ws s = Some (t1\<lparr>db_hash := h\<rparr>)" "covers h (db_hash t1)"
    using writes_covers [OF t1(1) valid fresh(4) room] fresh(5) by auto
  let ?s = "t1\<lparr>db_hash := h\<rparr>"
  have core: "db_core t1" and map: "db_map t1 = contents ws" using t1(2) fresh(2) by (simp_all add: since_def db_ok_core)
  have q: "quiet (db_buffer ?s)" using core by (simp add: db_core_def)
  have "DBSystem_read key ?s = Some (v, ?s)" if "contents ws k = Some v" "get_key_string key = Some k" for key k v
  proof -
    have "db_map t1 k = Some v" using that(1) by (simp add: map)
    then obtain a where a: "slot_of t1 k = Some a" "v = get_value (bf_data (db_buffer t1) ! a)"
      by (auto simp: db_map_def)
    have "slot_of ?s k = Some a" using a(1) h(2) by (auto simp: slot_of_def covers_def map_le_def dom_def)
    moreover have "a < RECORD_BUFF_SIZE" using db_core_card(2) [OF core a(1)] .
    ultimately show ?thesis using db_read_slot [OF q that(2)] a(2) by simp
  qed
  with h(1) q t1(2) show ?thesis by (auto simp: since_def t_def)
qed

text \<open>What a new process finds.\<close>

lemma recover_tables:
  assumes base: "base \<noteq> []" and p: "\<And>name. name \<noteq> [] \<Longrightarrow> path_join [base, name] = Some (p @ name)"
    and mn: "Manifester_new d = Some mn" and d: "dm_basepath d = base" "dm_files d (p @ DIED_LOG) = None"
      "dm_files d (p @ HOT_LOG) = Some (log_bytes rs)"
    and rs: "\<forall>r \<in> set rs. sized r" "length rs < RECORD_BUFF_SIZE"
  shows "\<exists>s. DBSystem_init h h' base (dm_files d) = Some s \<and> db_manifest s = mn
    \<and> (\<forall>key k. get_key_string key = Some k \<longrightarrow> DBSystem_read key s = map_option (\<lambda>v. (v, s)) (log_map rs Map.empty k))"
proof -
  note paths = p [OF log_names(2)] p [OF log_names(3)] p [OF MANIFIST_names(1)]
  have mf: "Manifester_new (DiskManager_init base (dm_files d)) = Some mn"
    unfolding mn [symmetric] using paths(3)
    by (intro Manifester_new_cong) (auto simp: DiskManager_init_def d(1) simp del: path_join.simps)
  have "holds (dm_files d) (the (path_join [base, DIED_LOG])) []" "holds (dm_files d) (the (path_join [base, HOT_LOG])) rs"
    using d(2,3) rs(1) by (simp_all add: holds_def paths del: path_join.simps)
  moreover have "length ([] :: Record list) + length rs < RECORD_BUFF_SIZE" using rs(2) by simp
  ultimately obtain s where "DBSystem_init h h' base (dm_files d) = Some s" "db_ok s" "db_map s = log_map ([] @ rs) Map.empty"
    "db_manifest s = mn"
    using DBSystem_recover_manifest [OF base mf] by blast
  then show ?thesis using db_read_eq db_ok_core by (metis append_Nil)
qed

text \<open>C5: Generation after generation, in a process that started in an empty directory: each time
  \<^verbatim>\<open>RECORD_BUFF_SIZE\<close> different keys below \<^verbatim>\<open>INT64_MAX\<close> have been written (the
  same as before or other ones) and the dumper has had its round, there is one more table file, with
  exactly the keys and values of that generation in order, and the older ones are as they were; the
  manifest lists them all, with their first and last keys, and is on disk as it is in memory; the slots
  are free and both logs are empty again. This holds for at most 256 generations, which is how many
  file numbers an index word can hold, with fewer than 11662 different keys in all of them together, for
  which the probe sequence of the hash index is known to find room.\<close>

theorem generations_to_tables:
  assumes "no_files base fs" and "DBSystem_init g g' base fs = Some s" and "\<forall>ws \<in> set wss. full_generation ws"
    and "length wss \<le> 256" and "card (gen_keys wss) < 11662" and "length junk = 256"
  shows "\<exists>s'. run_generations junk wss s = Some s'
    \<and> map (\<lambda>n. dm_files (db_disk s') (the (path_join [base, sst_name n]))) [0..<length wss] = map (\<lambda>ws. Some (table_file ws)) wss
    \<and> mn_records (db_manifest s') = map (\<lambda>n. table_record junk n (wss ! n)) [0..<length wss]
    \<and> recover_manifist (db_disk s') = Some (mn_records (db_manifest s'))
    \<and> in_use (db_buffer s') = {} \<and> dm_files (db_disk s') (the (path_join [base, HOT_LOG])) = Some []
    \<and> dm_files (db_disk s') (the (path_join [base, DIED_LOG])) = None"
proof -
  obtain p where p: "\<And>name. name \<noteq> [] \<Longrightarrow> path_join [base, name] = Some (p @ name)"
    using path_join_names no_files_holds(1) [OF assms(1)] by blast
  then have "\<forall>name. name \<noteq> [] \<longrightarrow> path_join [base, name] = Some (p @ name)" by blast
  note start = idle_db_start [OF assms(1,2) this]
  from generations_run [OF start(1,2,4) assms(6,3-5)] obtain s' where s': "run_generations junk wss s = Some s'"
    "idle_db p (length wss) s'" "mn_records (db_manifest s') = map (\<lambda>n. table_record junk n (wss ! n)) [0..<length wss]"
    "map (\<lambda>n. dm_files (db_disk s') (p @ sst_name n)) [0..<length wss] = map (\<lambda>ws. Some (table_file ws)) wss" by blast
  have "recover_manifist (db_disk s') = Some (mn_records (db_manifest s'))"
    using s'(2) by (intro Manifester_new_records) (simp add: idle_db_def)
  with s' show ?thesis
    using p [OF log_names(2)] p [OF log_names(3)] p [OF sst_name_names(1)]
    by (intro exI [of _ s']) (simp add: idle_db_def del: path_join.simps)
qed

text \<open>C6: But the table files are never read again. Let a process that started in an empty directory
  do at most 256 generations as in \<open>generations_to_tables\<close> and then fewer than
  \<^verbatim>\<open>RECORD_BUFF_SIZE\<close> more valid writes, with fewer than 11662 different keys in all and the keys
  of the generations below \<^verbatim>\<open>INT64_MAX\<close>. The last writes read back, and the process ends. A new
  one finds all table files in its manifest, but it can read only the writes that were still in the
  log: for every other key, also for those in the table files, \<^verbatim>\<open>read\<close> dereferences a null
  pointer.\<close>

theorem restart_loses_tables:
  assumes "no_files base fs" and "DBSystem_init g g' base fs = Some s" and "\<forall>ws \<in> set wss. full_generation ws"
    and "length wss \<le> 256" and "card (gen_keys wss \<union> key_of ` set ws) < 11662" and "length junk = 256"
    and "\<forall>w \<in> set ws. valid_write w" and "length ws < RECORD_BUFF_SIZE" and "get_key_string key = Some k"
  shows "\<exists>s1 s2. Option.bind (run_generations junk wss s) (db_writes ws) = Some s1
    \<and> (contents ws k = None \<or> DBSystem_read key s1 = Some (the (contents ws k), s1))
    \<and> DBSystem_init h h' base (dm_files (db_disk s1)) = Some s2
    \<and> mn_records (db_manifest s2) = map (\<lambda>n. table_record junk n (wss ! n)) [0..<length wss]
    \<and> DBSystem_read key s2 = map_option (\<lambda>v. (v, s2)) (contents ws k)"
proof -
  obtain p where p: "\<And>name. name \<noteq> [] \<Longrightarrow> path_join [base, name] = Some (p @ name)"
    using path_join_names no_files_holds(1) [OF assms(1)] by blast
  then have "\<forall>name. name \<noteq> [] \<longrightarrow> path_join [base, name] = Some (p @ name)" by blast
  note start = idle_db_start [OF assms(1,2) this]
  have "finite (gen_keys wss \<union> key_of ` set ws)" by (simp add: gen_keys_def)
  from card_mono [OF this Un_upper1] assms(5) have "card (gen_keys wss) < 11662" by simp
  from generations_run [OF start(1,2,4) assms(6,3,4) this] obtain s' where s': "run_generations junk wss s = Some s'"
    "idle_db p (length wss) s'" "mn_records (db_manifest s') = map (\<lambda>n. table_record junk n (wss ! n)) [0..<length wss]"
    "dom (index_lookup (db_hash s')) = gen_keys wss" "dm_basepath (db_disk s') = base" unfolding start(5) by blast
  have room: "card (dom (index_lookup (db_hash s')) \<union> key_of ` set ws) < 11662" using assms(5) by (simp add: s'(4))
  obtain s1 where s1: "db_writes ws s' = Some s1" "db_manifest s1 = db_manifest s'" "db_disk s1 = log_extend (records ws) (db_disk s')"
    "\<And>v. contents ws k = Some v \<Longrightarrow> DBSystem_read key s1 = Some (v, s1)"
    using partial_generation [OF s'(2) assms(7,8,4) room] assms(9) by blast
  have d: "dm_curr_log_fd (db_disk s') = Some (p @ HOT_LOG)" "dm_files (db_disk s') (p @ HOT_LOG) = Some []"
    "dm_files (db_disk s') (p @ DIED_LOG) = None" "Manifester_new (db_disk s') = Some (db_manifest s')"
    using s'(2) by (simp_all add: idle_db_def del: path_join.simps)
  have files: "dm_files (db_disk s1) = (dm_files (db_disk s'))(p @ HOT_LOG \<mapsto> log_bytes (records ws))"
    by (simp add: s1(3) log_extend_def d(1,2) write_fd_def)
  have bp: "dm_basepath (db_disk s1) = dm_basepath (db_disk s')" by (simp add: s1(3) log_extend_simps)
  have "path_join [dm_basepath (db_disk s'), MANIFIST_FILE] = Some (p @ MANIFIST_FILE)"
    unfolding s'(5) using p MANIFIST_names(1) by blast
  moreover have "dm_files (db_disk s1) (p @ MANIFIST_FILE) = dm_files (db_disk s') (p @ MANIFIST_FILE)"
    using MANIFIST_names(2) by (simp add: files)
  ultimately have "Manifester_new (db_disk s1) = Some (db_manifest s')"
    unfolding d(4) [symmetric] by (rule Manifester_new_cong [OF bp])
  moreover have "dm_basepath (db_disk s1) = base" by (simp only: bp s'(5))
  moreover have "dm_files (db_disk s1) (p @ DIED_LOG) = None" "dm_files (db_disk s1) (p @ HOT_LOG) = Some (log_bytes (records ws))"
    using d(3) log_names(1) by (simp_all add: files)
  moreover have "length (records ws) < RECORD_BUFF_SIZE" using assms(8) by simp
  ultimately obtain s2 where s2: "DBSystem_init h h' base (dm_files (db_disk s1)) = Some s2" "db_manifest s2 = db_manifest s'"
    "DBSystem_read key s2 = map_option (\<lambda>v. (v, s2)) (contents ws k)"
    using recover_tables [OF no_files_holds(1) [OF assms(1)] p _ _ _ _ sized_records [OF assms(7)], of "db_disk s1" "db_manifest s'" h h']
      assms(9) unfolding log_map_contents [OF assms(7)] by blast
  moreover have "contents ws k = None \<or> DBSystem_read key s1 = Some (the (contents ws k), s1)"
    using s1(4) by (cases "contents ws k") simp_all
  ultimately show ?thesis using s'(1,3) s1(1) s2 by (intro exI conjI) (assumption | simp)+
qed

subsection \<open>Examples\<close>

lemma num_generations:
  "full_generation num_writes" "card (gen_keys [num_writes, num_writes]) < 11662"
  "card (gen_keys [num_writes] \<union> key_of ` set [num_write 1023]) < 11662"
proof -
  show "full_generation num_writes" using num_writes_ok by (simp add: full_generation_def)
  have "card (key_of ` set num_writes) \<le> 1024"
    using num_writes_ok(2) by (metis RECORD_BUFF_SIZE_def card_length list.set_map length_map)
  then show "card (gen_keys [num_writes, num_writes]) < 11662"
    "card (gen_keys [num_writes] \<union> key_of ` set [num_write 1023]) < 11662"
    using card_insert_le_m1 [of 1025 "key_of ` set num_writes" "key_of (num_write 1023)"] by (simp_all add: gen_keys_def)
qed

text \<open>The same keys in two generations.\<close>

theorem generations_to_tables_witness:
  "\<exists>s s'. DBSystem_init (\<lambda>_ _. 1) (\<lambda>_ _. 1) [100] Map.empty = Some s
    \<and> run_generations (replicate 256 0) [num_writes, num_writes] s = Some s'
    \<and> map (\<lambda>n. dm_files (db_disk s') (the (path_join [[100], sst_name n]))) [0, 1]
      = [Some (table_file num_writes), Some (table_file num_writes)]"
proof -
  obtain s where s: "DBSystem_init (\<lambda>_ _. 1) (\<lambda>_ _. 1) [100] Map.empty = Some s"
    using DBSystem_init_fresh [OF no_files_empty] by blast
  have gens: "\<forall>ws \<in> set [num_writes, num_writes]. full_generation ws" "length [num_writes, num_writes] \<le> 256"
    "length (replicate 256 (0 :: u8)) = 256" using num_generations(1) by simp_all
  have "[0..<length [num_writes, num_writes]] = [0, 1]" by (simp add: upt_rec)
  then show ?thesis
    using generations_to_tables [OF no_files_empty s gens(1,2) num_generations(2) gens(3)] s by auto
qed

text \<open>The key \<^verbatim>\<open>00000000\<close> is in the table file and cannot be read.\<close>

theorem restart_loses_tables_witness:
  "\<exists>s s1 s2. DBSystem_init (\<lambda>_ _. 1) (\<lambda>_ _. 1) [100] Map.empty = Some s
    \<and> Option.bind (run_generations (replicate 256 0) [num_writes] s) (db_writes [num_write 1023]) = Some s1
    \<and> DBSystem_init (\<lambda>_ _. 1) (\<lambda>_ _. 1) [100] (dm_files (db_disk s1)) = Some s2
    \<and> length (mn_records (db_manifest s2)) = 1 \<and> DBSystem_read (fixed_dec 8 0) s2 = None"
proof -
  obtain s where s: "DBSystem_init (\<lambda>_ _. 1) (\<lambda>_ _. 1) [100] Map.empty = Some s"
    using DBSystem_init_fresh [OF no_files_empty] by blast
  have gens: "\<forall>ws \<in> set [num_writes]. full_generation ws" "length [num_writes] \<le> 256"
    "length (replicate 256 (0 :: u8)) = 256" "length [num_write 1023] < RECORD_BUFF_SIZE"
    using num_generations(1) by (simp_all add: RECORD_BUFF_SIZE_def)
  have valid: "\<forall>w \<in> set [num_write 1023]. valid_write w" using num_write_key(2) [of 1023] by simp
  have "contents [num_write 1023] (key_of (num_write 0)) = None"
    using num_write_less [of 0 1023] by (simp add: contents_def)
  then show ?thesis
    using restart_loses_tables [OF no_files_empty s gens(1,2) num_generations(3) gens(3) valid gens(4) num_write_key(1) [of 0],
        of "\<lambda>_ _. 1" "\<lambda>_ _. 1"] s by auto
qed

end
