(* ===== verification/Lost_Write.thy ===== *)
theory Lost_Write
  imports Dump_Steps Generations
begin

text \<open>
  A write that overtakes the dumper. \<^verbatim>\<open>dump_all\<close> enters the file position of a record
  into the hash index without looking whether a newer write of the key is there by now.
\<close>

subsection \<open>A write between two records of a dump\<close>

lemma put_buffer:
  assumes q: "quiet (db_buffer s)" and val: "RECORD_VALUE_LEN \<le> length v" and run: "db_put r k v s = Some s'"
  shows "quiet (db_buffer s')"
    and "bf_data (db_buffer s') = (bf_data (db_buffer s))[last (bf_empty (db_buffer s)) := new_record k v]"
    and "in_use (db_buffer s') = insert (last (bf_empty (db_buffer s))) (in_use (db_buffer s))"
proof -
  obtain i b b' where 1: "request_record_buff (db_buffer s) = Some (i, b)" "store_record i (new_record k v) b = Some b'"
    "db_buffer s' = b'"
    using run make_record_eq [OF val] by (auto simp: db_put_def bind_eq_Some_conv)
  then have "bf_empty (db_buffer s) \<noteq> []" by (auto simp: request_record_buff_def take_free_def)
  from request_quiet [OF q this] 1(1) have b: "quiet b" "i < RECORD_BUFF_SIZE" "in_use b = insert i (in_use (db_buffer s))"
    "bf_data b = bf_data (db_buffer s)" "i = last (bf_empty (db_buffer s))" by auto
  have "b' = b\<lparr>bf_data := (bf_data b)[i := new_record k v]\<rparr>" using store_record_ok [OF b(1,2)] 1(2) by simp
  with b quiet_data [OF b(1)] show "quiet (db_buffer s')"
    "bf_data (db_buffer s') = (bf_data (db_buffer s))[last (bf_empty (db_buffer s)) := new_record k v]"
    "in_use (db_buffer s') = insert (last (bf_empty (db_buffer s))) (in_use (db_buffer s))"
    by (simp_all add: 1(3) in_use_def)
qed

lemma records_index:
  assumes "dump_records fid i qs (b, h, d) = Some (b', h', d')" and "index_inv h"
    and "card (dom (index_lookup h) \<union> kv_key ` set qs) < 11662"
  shows "index_inv h'" and "dom (index_lookup h') = dom (index_lookup h) \<union> kv_key ` set qs"
  using records_covers [OF assms(1) _ assms(3)] assms(1,2) by (auto simp: covers_def)

text \<open>
  In the middle of a dump, when the first slot has come back, a write finds new lists, and all that
  it needs; the hash index has old entries.
\<close>

lemma middle_put:
  assumes m: "restarted m" and b: "quiet b" "bf_empty b \<noteq> []" and h: "index_inv h" "card (dom (index_lookup h)) < 11662"
    and log: "dm_curr_log_fd d = Some hot" "dm_files d hot = Some bs" "dm_curr_log_len d + sizeof_Record < 2 ^ 31"
    and val: "RECORD_VALUE_LEN \<le> length v"
  shows "\<exists>w. db_put r k v (s\<lparr>db_mem := m, db_buffer := b, db_hash := h, db_disk := d\<rparr>) = Some w
    \<and> get_total_items (db_mem w) = Some 1 \<and> db_manifest w = db_manifest s \<and> index_inv (db_hash w)
    \<and> dom (index_lookup (db_hash w)) = insert k (dom (index_lookup h)) \<and> db_disk w = log_append (new_record k v) d"
proof -
  let ?t = "s\<lparr>db_mem := m, db_buffer := b, db_hash := IndexHashMap_new, db_disk := d\<rparr>"
  have slots: "slot_of ?t = Map.empty" by (simp add: slot_of_def [abs_def] index_new_lookup)
  have "calm m" "only_first m" "first_map m = Map.empty" using m by (auto simp: restarted_def intro: fresh_calm)
  then have "db_core ?t" using b(1) slots index_new_inv by (simp add: db_core_def)
  then have ok: "db_ok ?t" using log by (simp add: db_ok_def)
  obtain t' where t': "db_put r k v ?t = Some t'" "db_step k v ?t t'"
    using db_put_ok [OF ok val] b(2) log(3) by auto
  have "covers h (db_hash ?t)" using covers_new [OF h(1)] by simp
  from put_covers [OF t'(1) this h(2)] obtain h' where h': "db_put r k v (?t\<lparr>db_hash := h\<rparr>) = Some (t'\<lparr>db_hash := h'\<rparr>)"
    "covers h' (db_hash t')" "dom (index_lookup h') = insert k (dom (index_lookup h))" by blast
  have "db_map ?t = Map.empty" by (simp add: db_map_def [abs_def] slots)
  then have "dom (db_map t') = {k}" using t'(2) by (simp add: db_step_def)
  then have "get_total_items (db_mem t') = Some 1" using db_total [of t'] t'(2) by (simp add: db_step_def db_ok_core)
  moreover have "s\<lparr>db_mem := m, db_buffer := b, db_hash := h, db_disk := d\<rparr> = ?t\<lparr>db_hash := h\<rparr>" by simp
  ultimately show ?thesis
    using h' t'(2) by (intro exI [of _ "t'\<lparr>db_hash := h'\<rparr>"]) (simp only:, simp add: covers_def db_step_def)
qed

lemma dump_with_write:
  assumes core: "db_core s" and gen: "generation s qs" and qs: "qs = q0 # q1 # rs" and m: "restarted m"
    and fid: "fid < 256" and path: "dm_dumping_fd d = Some path" "dm_files d path = Some bs" "hot \<noteq> path"
    and log: "dm_curr_log_fd d = Some hot" "dm_files d hot = Some []" "dm_curr_log_len d + sizeof_Record < 2 ^ 31"
    and val: "RECORD_VALUE_LEN \<le> length v"
  shows "\<exists>b1 h1 d1 w b3 h3 d3. dump_records fid 0 [q0] (db_buffer s, db_hash s, d) = Some (b1, h1, d1)
    \<and> db_put r (kv_key q1) v (s\<lparr>db_mem := m, db_buffer := b1, db_hash := h1, db_disk := d1\<rparr>) = Some w
    \<and> get_total_items (db_mem w) = Some 1 \<and> db_manifest w = db_manifest s
    \<and> dump_records fid 1 (q1 # rs) (db_buffer w, db_hash w, db_disk w) = Some (b3, h3, d3)
    \<and> quiet b3 \<and> bf_data b3 = (bf_data (db_buffer s))[pair_slot q0 := new_record (kv_key q1) v]
    \<and> hash_slots h3 (kv_key q1) = Some 1
    \<and> dm_files d3 hot = Some (record_bytes (new_record (kv_key q1) v)) \<and> dm_basepath d3 = dm_basepath d
    \<and> (\<forall>p. p \<noteq> hot \<longrightarrow> p \<noteq> path \<longrightarrow> dm_files d3 p = dm_files d p)"
proof -
  note ready = generation_ready [OF core gen]
  let ?r = "new_record (kv_key q1) v"
  have fin: "finite (dom (index_lookup (db_hash s)) \<union> kv_key ` set qs)" using ready(6) by simp
  have sub: "kv_key ` set [q0] \<subseteq> kv_key ` set qs" "kv_key q1 \<in> kv_key ` set qs" by (auto simp: qs)
  have card: "card (dom (index_lookup (db_hash s)) \<union> kv_key ` set [q0]) < 11662"
    using card_mono [OF fin Un_mono [OF order_refl sub(1)]] ready(9) by (rule le_less_trans)
  obtain b1 h1 where one: "dump_records fid 0 [q0] (db_buffer s, db_hash s, d) = Some (b1, h1, d\<lparr>dm_files :=
      (dm_files d)(path \<mapsto> bs @ concat (map (\<lambda>q. get_value (bf_data (db_buffer s) ! pair_slot q)) [q0]))\<rparr>)"
    "quiet b1" "bf_data b1 = bf_data (db_buffer s)" "in_use b1 = in_use (db_buffer s) - pair_slot ` set [q0]"
    "bf_empty b1 = rev (map pair_slot [q0]) @ bf_empty (db_buffer s)"
    using dump_records_ok [of "db_buffer s" "[q0]" "db_hash s" d path bs 0 fid] ready(1,4-6) path card fid
    by (auto simp: qs simp del: dump_records.simps)
  let ?d1 = "d\<lparr>dm_files := (dm_files d)(path \<mapsto> bs @ concat (map (\<lambda>q. get_value (bf_data (db_buffer s) ! pair_slot q)) [q0]))\<rparr>"
  note idx1 = records_index [OF one(1) ready(5) card]
  have "card (dom (index_lookup h1)) < 11662" unfolding idx1(2) by (rule card)
  with middle_put [OF m one(2) _ idx1(1), where d = ?d1 and hot = hot and bs = "[]" and v = v and k = "kv_key q1" and r = r and s = s]
  obtain w where w: "db_put r (kv_key q1) v (s\<lparr>db_mem := m, db_buffer := b1, db_hash := h1, db_disk := ?d1\<rparr>) = Some w"
    "get_total_items (db_mem w) = Some 1" "db_manifest w = db_manifest s" "index_inv (db_hash w)"
    "dom (index_lookup (db_hash w)) = insert (kv_key q1) (dom (index_lookup h1))" "db_disk w = log_append ?r ?d1"
    using one(5) path(3) log val by auto
  have "bf_empty b1 = [pair_slot q0]" using one(5) ready(10) by simp
  with put_buffer [OF _ val w(1)] one(2-4) have b2: "quiet (db_buffer w)" "bf_data (db_buffer w) = (bf_data (db_buffer s))[pair_slot q0 := ?r]"
    "in_use (db_buffer s) \<subseteq> in_use (db_buffer w)" by auto
  have d2: "dm_dumping_fd (db_disk w) = Some path" "\<exists>bs'. dm_files (db_disk w) path = Some bs'"
    using path log(1) by (simp_all add: w(6) log_append_def write_fd_def)
  have "dom (index_lookup (db_hash w)) \<union> kv_key ` set (q1 # rs) = dom (index_lookup (db_hash s)) \<union> kv_key ` set qs"
    using idx1(2) by (auto simp: w(5) qs)
  then have card2: "card (dom (index_lookup (db_hash w)) \<union> kv_key ` set (q1 # rs)) < 11662" using ready(9) by simp
  from d2(2) obtain bs' where bs': "dm_files (db_disk w) path = Some bs'" by blast
  have "\<exists>b3 h3. dump_records fid 1 (q1 # rs) (db_buffer w, db_hash w, db_disk w) = Some (b3, h3, (db_disk w)\<lparr>dm_files :=
      (dm_files (db_disk w))(path \<mapsto> bs' @ concat (map (\<lambda>q. get_value (bf_data (db_buffer w) ! pair_slot q)) (q1 # rs)))\<rparr>)
    \<and> quiet b3 \<and> bf_data b3 = bf_data (db_buffer w) \<and> in_use b3 = in_use (db_buffer w) - pair_slot ` set (q1 # rs)
    \<and> bf_empty b3 = rev (map pair_slot (q1 # rs)) @ bf_empty (db_buffer w)
    \<and> hash_slots h3 = hash_slots (db_hash w) ++ map_of (zip (map kv_key (q1 # rs)) [1..<1 + length (q1 # rs)])"
  proof (rule dump_records_ok)
    show "distinct (map pair_slot (q1 # rs))" "distinct (map kv_key (q1 # rs))" using ready(2,3) by (simp_all add: qs)
    show "pair_slot ` set (q1 # rs) \<subseteq> in_use (db_buffer w)" using ready(4) b2(3) by (auto simp: qs)
    show "finite (dom (index_lookup (db_hash w)))" using w(4) by (rule finite_index)
    show "1 + length (q1 # rs) \<le> 2 ^ 20" using ready(8) by (simp add: qs)
  qed (use b2(1) w(4) card2 d2(1) bs' fid in simp_all)
  then obtain b3 h3 where rest: "dump_records fid 1 (q1 # rs) (db_buffer w, db_hash w, db_disk w) = Some (b3, h3, (db_disk w)\<lparr>dm_files :=
      (dm_files (db_disk w))(path \<mapsto> bs' @ concat (map (\<lambda>q. get_value (bf_data (db_buffer w) ! pair_slot q)) (q1 # rs)))\<rparr>)"
    "quiet b3" "bf_data b3 = bf_data (db_buffer w)"
    "hash_slots h3 = hash_slots (db_hash w) ++ map_of (zip (map kv_key (q1 # rs)) [1..<1 + length (q1 # rs)])" by blast
  have "[1..<1 + length (q1 # rs)] = 1 # [Suc 1..<1 + length (q1 # rs)]" by (rule upt_conv_Cons) simp
  then have "hash_slots h3 (kv_key q1) = Some 1" by (simp add: rest(4) map_add_def)
  with one(1) w(1-3) rest(1-3) b2(2) log path(3) show ?thesis
    by (intro exI conjI) (assumption | simp add: w(6) log_append_def write_fd_def)+
qed

subsection \<open>The schedule\<close>

text \<open>A writer alone among all kinds of threads.\<close>

lemma writing_run:
  "run_schedule (replicate n 0) [w] s = Some ([w'], s') \<Longrightarrow> t < length ths \<Longrightarrow>
    run_threads (engine_step junk) (replicate n t) (ths[t := Writing w]) s = Some (ths[t := Writing w'], s')"
  by (induction n arbitrary: w s) (auto simp: engine_step_def bind_eq_Some_conv)

lemma writing_alone:
  assumes put: "db_put r k v s = Some u" and total: "get_total_items (db_mem u) = Some n" "n < int RECORD_BUFF_SIZE"
    and t: "t < length ths"
  shows "run_threads (engine_step junk) (replicate 10 t) (ths[t := Writing (writer_start r k v)]) s
    = Some (ths[t := Writing ((writer_start r k v)\<lparr>wr_pc := Written\<rparr>)], u)"
proof -
  let ?w = "writer_start r k v"
  have "run_schedule (replicate 9 0) [?w] s = Some ([?w\<lparr>wr_pc := At_total\<rparr>], u)"
    using run_put [of 0 "[?w]" s] put by (simp add: writer_start_def)
  moreover have "run_schedule [0] [?w\<lparr>wr_pc := At_total\<rparr>] u = Some ([?w\<lparr>wr_pc := Written\<rparr>], u)"
    using total by (simp add: writer_step_def)
  ultimately have "run_schedule (replicate 9 0 @ [0]) [?w] s = Some ([?w\<lparr>wr_pc := Written\<rparr>], u)"
    by (rule run_threads_join)
  moreover have "replicate 9 0 @ [0 :: nat] = replicate 10 0" by (simp add: numeral_eq_Suc)
  ultimately have "run_schedule (replicate 10 0) [?w] s = Some ([?w\<lparr>wr_pc := Written\<rparr>], u)" by (simp only:)
  then show ?thesis using t by (rule writing_run)
qed

text \<open>The writer (thread 1) runs when the dumper (thread 0) has finished its first record.\<close>

definition overtake :: "nat \<Rightarrow> nat list" where
  "overtake n = [0] @ [0] @ replicate (5 * 1) 0 @ replicate 10 1 @ replicate (5 * (n - 1)) 0 @ [0, 0]"

lemma overtake_run:
  assumes core: "db_core s" and bg: "merges_to s1 qs (s\<lparr>db_mem := m, db_disk := d\<rparr>)" "generation s qs" "restarted m"
    and qs: "qs = q0 # q1 # rs" and fid: "get_records_num (db_manifest s) < 256" and mf: "counted (db_manifest s)" "length junk = 256"
    and base: "\<And>name. name \<noteq> [] \<Longrightarrow> path_join [dm_basepath d, name] = Some (p @ name)"
    and log: "dm_curr_log_fd d = Some (p @ HOT_LOG)" "dm_files d (p @ HOT_LOG) = Some []" "dm_curr_log_len d + sizeof_Record < 2 ^ 31"
    and val: "RECORD_VALUE_LEN \<le> length v"
  shows "\<exists>d' w' s'. run_threads (engine_step junk) (overtake (length qs)) [Dumping dumper_start, Writing (writer_start r (kv_key q1) v)] s1
      = Some ([Dumping d', Writing w'], s') \<and> du_pc d' = D_idle \<and> wr_pc w' = Written
    \<and> quiet (db_buffer s') \<and> bf_data (db_buffer s') = (bf_data (db_buffer s))[pair_slot q0 := new_record (kv_key q1) v]
    \<and> slot_of s' (kv_key q1) = Some 1 \<and> Manifester_new (db_disk s') = Some (db_manifest s')
    \<and> dm_basepath (db_disk s') = dm_basepath d \<and> dm_files (db_disk s') (p @ DIED_LOG) = None
    \<and> dm_files (db_disk s') (p @ HOT_LOG) = Some (log_bytes [new_record (kv_key q1) v])"
proof -
  let ?fid = "get_records_num (db_manifest s)" and ?k = "kv_key q1" and ?r = "new_record (kv_key q1) v"
  let ?sst = "p @ sst_name ?fid" and ?w = "writer_start r (kv_key q1) v"
  let ?d1 = "d\<lparr>dm_dumping_fd := Some ?sst, dm_files := (dm_files d)(?sst \<mapsto> sst_keys (map kv_key qs))\<rparr>"
  have keys: "dumpint_keys (sst_name ?fid) (map kv_key qs) d = Some ?d1"
    by (rule dumpint_keys_eq) (rule base, rule sst_name_names)
  have "\<exists>b1 h1 d1 w b3 h3 d3. dump_records ?fid 0 [q0] (db_buffer s, db_hash s, ?d1) = Some (b1, h1, d1)
    \<and> db_put r ?k v (s\<lparr>db_mem := m, db_buffer := b1, db_hash := h1, db_disk := d1\<rparr>) = Some w
    \<and> get_total_items (db_mem w) = Some 1 \<and> db_manifest w = db_manifest s
    \<and> dump_records ?fid 1 (q1 # rs) (db_buffer w, db_hash w, db_disk w) = Some (b3, h3, d3)
    \<and> quiet b3 \<and> bf_data b3 = (bf_data (db_buffer s))[pair_slot q0 := ?r] \<and> hash_slots h3 ?k = Some 1
    \<and> dm_files d3 (p @ HOT_LOG) = Some (record_bytes ?r) \<and> dm_basepath d3 = dm_basepath ?d1
    \<and> (\<forall>f. f \<noteq> p @ HOT_LOG \<longrightarrow> f \<noteq> ?sst \<longrightarrow> dm_files d3 f = dm_files ?d1 f)"
    by (rule dump_with_write [OF core bg(2) qs bg(3) fid _ _ _ _ _ _ val, where path = ?sst]) (use log sst_name_names(2) [symmetric] in simp_all)
  then obtain b1 h1 d1 w b3 h3 d3 where 1: "dump_records ?fid 0 [q0] (db_buffer s, db_hash s, ?d1) = Some (b1, h1, d1)"
    "db_put r ?k v (s\<lparr>db_mem := m, db_buffer := b1, db_hash := h1, db_disk := d1\<rparr>) = Some w"
    "get_total_items (db_mem w) = Some 1" "db_manifest w = db_manifest s"
    "dump_records ?fid 1 (q1 # rs) (db_buffer w, db_hash w, db_disk w) = Some (b3, h3, d3)"
    "quiet b3" "bf_data b3 = (bf_data (db_buffer s))[pair_slot q0 := ?r]" "hash_slots h3 ?k = Some 1"
    "dm_files d3 (p @ HOT_LOG) = Some (record_bytes ?r)" "dm_basepath d3 = dm_basepath d" by auto
  let ?x = "w\<lparr>db_buffer := b3, db_hash := h3, db_disk := d3\<rparr>"
  have base3: "\<And>name. name \<noteq> [] \<Longrightarrow> path_join [dm_basepath d3, name] = Some (p @ name)"
    using base by (simp add: 1(10) del: path_join.simps)
  have cnt: "mn_record_cnt (db_manifest s) \<noteq> []" using mf(1) by (simp add: counted_def)
  obtain mn d4 x d5 where tail: "insert_record junk 0 (kv_key (hd qs)) (kv_key (last qs)) (of_nat (length qs)) (db_manifest s) d3 = Some (mn, d4)"
    "d4 = d3\<lparr>dm_files := (dm_files d3)(p @ MANIFIST_FILE \<mapsto> x)\<rparr>"
    "end_dumping d4 = Some d5" "d5 = d4\<lparr>dm_dumping_fd := None, dm_files := (dm_files d4)(p @ DIED_LOG := None)\<rparr>"
    using dump_tail_ok [OF base3 refl cnt] by metis
  have n: "get_records_num (db_manifest s) < IOV_MAX" using fid by (simp add: IOV_MAX_def)
  note ins = insert_counted [OF mf refl n sst_name_length [OF n] tail(1)]
  have "Manifester_new d5 = Manifester_new d4"
    using base3 [OF MANIFIST_names(1)] MANIFIST_names(3)
    by (intro Manifester_new_cong) (auto simp: tail(2,4) simp del: path_join.simps)
  then have mnd: "Manifester_new d5 = Some mn" using ins(2) by simp
  have tl: "dump_tail junk qs ?x = Some (?x\<lparr>db_disk := d5, db_manifest := mn\<rparr>)"
    using tail(1,3) qs 1(4) by (simp add: dump_tail_def)
  let ?u = "s\<lparr>db_mem := m, db_disk := ?d1\<rparr>" and ?v = "s\<lparr>db_mem := m, db_buffer := b1, db_hash := h1, db_disk := d1\<rparr>"
  let ?D = "\<lambda>i. Dumping (dump_loop \<lparr>du_kvidxes = qs, du_i = i, du_pc = D_keys\<rparr>)"
  let ?W = "Writing ?w" and ?W' = "Writing (?w\<lparr>wr_pc := Written\<rparr>)"
  let ?E = "\<lambda>pc. Dumping \<lparr>du_kvidxes = qs, du_i = length qs, du_pc = pc\<rparr>"
  have run1: "run_threads (engine_step junk) [0] [Dumping dumper_start, ?W] s1
      = Some ([Dumping \<lparr>du_kvidxes = qs, du_i = 0, du_pc = D_keys\<rparr>, ?W], s\<lparr>db_mem := m, db_disk := d\<rparr>)"
    using merges_step [OF bg(1), of 0 "[Dumping dumper_start, ?W]" junk] by (simp del: run_threads.simps)
  have run2: "run_threads (engine_step junk) [0] [Dumping \<lparr>du_kvidxes = qs, du_i = 0, du_pc = D_keys\<rparr>, ?W] (s\<lparr>db_mem := m, db_disk := d\<rparr>)
      = Some ([?D 0, ?W], ?u)"
    using keys_step [of 0 "[Dumping dumper_start, ?W]" junk qs "s\<lparr>db_mem := m, db_disk := d\<rparr>"] keys by (simp del: run_threads.simps)
  have run3: "run_threads (engine_step junk) (replicate (5 * 1) 0) [?D 0, ?W] ?u = Some ([?D 1, ?W], ?v)"
    using loop_some [of 0 "[Dumping dumper_start, ?W]" 0 1 qs junk D_keys ?u D_keys] 1(1) qs by (simp del: run_threads.simps replicate.simps)
  have run4: "run_threads (engine_step junk) (replicate 10 1) [?D 1, ?W] ?v = Some ([?D 1, ?W'], w)"
    using writing_alone [OF 1(2,3), of 1 "[?D 1, ?W]" junk] by (simp add: RECORD_BUFF_SIZE_def del: run_threads.simps replicate.simps)
  have run5: "run_threads (engine_step junk) (replicate (5 * (length qs - 1)) 0) [?D 1, ?W'] w = Some ([?E D_insert, ?W'], ?x)"
    using loop_alone [of 0 "[Dumping dumper_start, ?W']" 1 qs junk D_keys w] 1(4,5) qs by (simp del: run_threads.simps)
  have run6: "run_threads (engine_step junk) [0, 0] [?E D_insert, ?W'] ?x = Some ([?E D_idle, ?W'], ?x\<lparr>db_disk := d5, db_manifest := mn\<rparr>)"
    using tail_steps [of 0 "[Dumping dumper_start, ?W']" junk qs "length qs" ?x] tl by (simp del: run_threads.simps)
  have run: "run_threads (engine_step junk) (overtake (length qs)) [Dumping dumper_start, ?W] s1
      = Some ([?E D_idle, ?W'], ?x\<lparr>db_disk := d5, db_manifest := mn\<rparr>)"
    unfolding overtake_def by (rule run_threads_join [OF run1 run_threads_join [OF run2 run_threads_join [OF run3
      run_threads_join [OF run4 run_threads_join [OF run5 run6]]]]])
  have "slot_of (?x\<lparr>db_disk := d5, db_manifest := mn\<rparr>) ?k = Some 1" using 1(8) by (simp add: slot_of_def hash_slots_def)
  moreover have "dm_files d5 (p @ HOT_LOG) = Some (log_bytes [?r])"
    using 1(9) log_names(1) MANIFIST_names(2) [symmetric] by (simp add: tail(2,4) log_bytes_def)
  ultimately show ?thesis using run 1(6,7,10) mnd
    by (intro exI conjI) (assumption | simp add: tail(2,4))+
qed

text \<open>Slot 1 belongs to the last but one write.\<close>

lemma slot_one:
  assumes core: "db_core s" and map: "db_map s = contents ws" and slots: "slots_in_order ws s" and len: "length ws = RECORD_BUFF_SIZE"
    and dist: "distinct (map key_of ws)" and k0: "slot_of s k0 = Some a" "key_of (ws ! (RECORD_BUFF_SIZE - 2)) \<noteq> k0"
  shows "a \<noteq> 1" and "get_value (bf_data (db_buffer s) ! 1) = take RECORD_VALUE_LEN (snd (snd (ws ! (RECORD_BUFF_SIZE - 2))))"
proof -
  let ?i = "RECORD_BUFF_SIZE - 2"
  have i: "?i < length ws" "RECORD_BUFF_SIZE - 1 - ?i = 1" by (simp_all add: len RECORD_BUFF_SIZE_def)
  then have one: "slot_of s (key_of (ws ! ?i)) = Some 1" using slots by (metis slots_in_order_def)
  have "inj_on (slot_of s) (dom (slot_of s))" using core by (simp add: db_core_def)
  then show "a \<noteq> 1" using one k0 by (metis domI inj_onD)
  have "contents ws (key_of (ws ! ?i)) = Some (get_value (bf_data (db_buffer s) ! 1))"
    using one by (simp add: db_map_def flip: map)
  then show "get_value (bf_data (db_buffer s) ! 1) = take RECORD_VALUE_LEN (snd (snd (ws ! ?i)))"
    using contents_nth [OF dist i(1)] by simp
qed

text \<open>C9: A completed write is lost when it overtakes the dumper. A generation is full; when the
  dumper has written its first record out, the slot that came back lets another thread write a new
  value of the second key, and the write returns. Then the dumper comes to the second record and
  enters its file position into the hash index, over the slot of the new value. After that a read of
  the key gives what the last but one write of the old generation wrote, under whatever key. The new
  value is still in the log: when the process is restarted, the key reads it again.\<close>

theorem lost_write:
  assumes "no_files base fs" and "full_generation ws" and "length junk = 256"
    and "sort (map key_of ws) = k0 # k1 # ks" and "key_of (ws ! (RECORD_BUFF_SIZE - 2)) \<noteq> k0"
    and "get_key_string key = Some k1" and "RECORD_VALUE_LEN \<le> length v"
  shows "\<exists>s d w s1 s2. Option.bind (DBSystem_init g g' base fs) (db_writes ws) = Some s
    \<and> run_threads (engine_step junk) (overtake RECORD_BUFF_SIZE) [Dumping dumper_start, Writing (writer_start r k1 v)] s
      = Some ([Dumping d, Writing w], s1) \<and> du_pc d = D_idle \<and> wr_pc w = Written
    \<and> DBSystem_read key s1 = Some (take RECORD_VALUE_LEN (snd (snd (ws ! (RECORD_BUFF_SIZE - 2)))), s1)
    \<and> DBSystem_init h h' base (dm_files (db_disk s1)) = Some s2
    \<and> DBSystem_read key s2 = Some (take RECORD_VALUE_LEN v, s2)"
proof -
  obtain p where p: "\<And>name. name \<noteq> [] \<Longrightarrow> path_join [base, name] = Some (p @ name)"
    using path_join_names no_files_holds(1) [OF assms(1)] by blast
  have g: "\<forall>w \<in> set ws. valid_write w" "length ws = RECORD_BUFF_SIZE" "distinct (map key_of ws)" "\<forall>w \<in> set ws. key_of w < INT64_MAX"
    using assms(2) by (simp_all add: full_generation_def)
  obtain s where s: "Option.bind (DBSystem_init g g' base fs) (db_writes ws) = db_check s" "db_ok s"
    "db_map s = contents ws" "slots_in_order ws s" "mt_wait_for_dump (db_mem s) = []" "dm_basepath (db_disk s) = base"
    "db_manifest s = manifest_new" "dm_curr_log_len (db_disk s) = RECORD_BUFF_SIZE * sizeof_Record"
    and full: "card (dom (db_map s)) = RECORD_BUFF_SIZE" and small: "\<forall>k \<in> dom (db_map s). k < INT64_MAX"
    and sorted: "sorted_list_of_set (dom (db_map s)) = sort (map key_of ws)"
    and log: "dm_files (db_disk s) (p @ HOT_LOG) = Some (log_bytes (records ws))" "dm_files (db_disk s) (p @ DIED_LOG) = None"
    using fresh_full [OF assms(1) g p, of g g'] by blast
  have base: "\<And>name. name \<noteq> [] \<Longrightarrow> path_join [dm_basepath (db_disk s), name] = Some (p @ name)"
    unfolding s(6) by (rule p)
  obtain t qs d m where bg: "db_check s = Some t" "merges_to t qs (s\<lparr>db_mem := m, db_disk := d\<rparr>)" "generation s qs"
    "restarted m" "switch_log (db_disk s) = Some d" "dm_basepath d = base"
    "dm_files d = (dm_files (db_disk s))(p @ DIED_LOG \<mapsto> log_bytes (records ws), p @ HOT_LOG \<mapsto> [])"
    using generation_begin [OF s(2) full base s(5) small log] unfolding s(6) by blast
  note core = db_ok_core [OF s(2)] and sw = switch_frame [OF bg(5) base [OF log_names(2)]]
  have "map kv_key qs = k0 # k1 # ks" using bg(3) sorted assms(4) by (simp add: generation_def)
  then obtain q0 q1 rs where qs: "qs = q0 # q1 # rs" "kv_key q0 = k0" "kv_key q1 = k1" by (auto simp: map_eq_Cons_conv)
  have fd: "dm_curr_log_fd d = Some (p @ HOT_LOG)" "dm_files d (p @ HOT_LOG) = Some []" "dm_curr_log_len d + sizeof_Record < 2 ^ 31"
    using sw s(8) by (simp_all add: bg(7) RECORD_BUFF_SIZE_def sizeof_Record_def RECORD_VALUE_LEN_def)
  have lq: "length qs = RECORD_BUFF_SIZE" and q0: "slot_of s k0 = Some (pair_slot q0)"
    using bg(3) qs by (auto simp: generation_def)
  have mf: "get_records_num (db_manifest s) < 256" "counted (db_manifest s)"
    using counted_new by (simp_all add: s(7) get_records_num_def manifest_new_def)
  obtain d' w' s1 where run: "run_threads (engine_step junk) (overtake RECORD_BUFF_SIZE) [Dumping dumper_start, Writing (writer_start r k1 v)] t
      = Some ([Dumping d', Writing w'], s1)" "du_pc d' = D_idle" "wr_pc w' = Written"
    and s1: "quiet (db_buffer s1)" "bf_data (db_buffer s1) = (bf_data (db_buffer s))[pair_slot q0 := new_record k1 v]"
    "slot_of s1 k1 = Some 1" "Manifester_new (db_disk s1) = Some (db_manifest s1)" "dm_basepath (db_disk s1) = base"
    "dm_files (db_disk s1) (p @ DIED_LOG) = None" "dm_files (db_disk s1) (p @ HOT_LOG) = Some (log_bytes [new_record k1 v])"
    using overtake_run [OF core bg(2-4) qs(1) mf assms(3) p [folded bg(6)] fd assms(7), of r] unfolding lq qs(3) bg(6) by blast
  note one = slot_one [OF core s(3,4) g(2,3) q0 assms(5)]
  have "DBSystem_read key s1 = Some (take RECORD_VALUE_LEN (snd (snd (ws ! (RECORD_BUFF_SIZE - 2)))), s1)"
    using db_read_slot [OF s1(1) assms(6) s1(3)] one by (simp add: s1(2) RECORD_BUFF_SIZE_def)
  moreover have "\<forall>r \<in> set [new_record k1 v]. sized r" "length [new_record k1 v] < RECORD_BUFF_SIZE"
    using assms(7) by (simp_all add: sized_def new_record_def RECORD_BUFF_SIZE_def)
  with recover_tables [OF no_files_holds(1) [OF assms(1)] p s1(4-7), of h h'] assms(6) obtain s2 where
    "DBSystem_init h h' base (dm_files (db_disk s1)) = Some s2" "DBSystem_read key s2 = Some (take RECORD_VALUE_LEN v, s2)"
    by (fastforce simp: log_map_def new_record_def get_value_def)
  ultimately show ?thesis using s(1) bg(1) run by (intro exI conjI) (assumption | simp)+
qed

text \<open>The new value is 77, the read gives 254.\<close>

theorem lost_write_witness:
  "\<exists>s d w s1 s2. Option.bind (DBSystem_init (\<lambda>_ _. 1) (\<lambda>_ _. 1) [100] Map.empty) (db_writes num_writes) = Some s
    \<and> run_threads (engine_step (replicate 256 0)) (overtake RECORD_BUFF_SIZE)
        [Dumping dumper_start, Writing (writer_start (\<lambda>_. 1) (key_of (num_write 1)) (replicate RECORD_VALUE_LEN 77))] s
      = Some ([Dumping d, Writing w], s1) \<and> wr_pc w = Written
    \<and> DBSystem_read (fixed_dec 8 1) s1 = Some (replicate RECORD_VALUE_LEN 254, s1)
    \<and> DBSystem_init (\<lambda>_ _. 1) (\<lambda>_ _. 1) [100] (dm_files (db_disk s1)) = Some s2
    \<and> DBSystem_read (fixed_dec 8 1) s2 = Some (replicate RECORD_VALUE_LEN 77, s2)"
proof -
  have nth: "num_writes ! 0 = num_write 0" "num_writes ! 1 = num_write 1" "num_writes ! (RECORD_BUFF_SIZE - 2) = num_write 1022"
    by (simp_all add: num_writes_def RECORD_BUFF_SIZE_def)
  have len: "0 < length num_writes" "Suc 0 < length num_writes" using num_writes_ok(2) by (simp_all add: RECORD_BUFF_SIZE_def)
  have "num_writes = num_writes ! 0 # num_writes ! 1 # drop 2 num_writes"
    using Cons_nth_drop_Suc [OF len(1)] Cons_nth_drop_Suc [OF len(2)] by (simp add: numeral_2_eq_2)
  then have keys: "sort (map key_of num_writes) = key_of (num_write 0) # key_of (num_write 1) # map key_of (drop 2 num_writes)"
    unfolding num_writes_ok(5) nth(1,2) by (metis list.simps(9))
  have other: "key_of (num_writes ! (RECORD_BUFF_SIZE - 2)) \<noteq> key_of (num_write 0)"
    using num_write_less [of 0 1022] by (simp add: nth(3))
  have key: "get_key_string (fixed_dec 8 1) = Some (key_of (num_write 1))" by (rule num_write_key) simp
  have val: "RECORD_VALUE_LEN \<le> length (replicate RECORD_VALUE_LEN (77 :: u8))" "length (replicate 256 (0 :: u8)) = 256" by simp_all
  have "take RECORD_VALUE_LEN (snd (snd (num_writes ! (RECORD_BUFF_SIZE - 2)))) = replicate RECORD_VALUE_LEN 254"
    "take RECORD_VALUE_LEN (replicate RECORD_VALUE_LEN (77 :: u8)) = replicate RECORD_VALUE_LEN 77"
    by (simp_all add: nth(3) num_write_def)
  with lost_write [OF no_files_empty num_generations(1) val(2) keys other key val(1), of "\<lambda>_ _. 1" "\<lambda>_ _. 1" "\<lambda>_. 1" "\<lambda>_ _. 1" "\<lambda>_ _. 1"]
  show ?thesis by metis
qed

end
