(* ===== verification/Slot_Leak.thy ===== *)
theory Slot_Leak
  imports DB_Dump
begin

text \<open>
  Rewriting a key uses up the record slots without ever starting a dump. The state that follows is
  reached and described here, with what recovery does when it finds the log of that state: it
  switches the log that it is reading.
\<close>

subsection \<open>The descriptor of the current log\<close>

text \<open>Nothing that the dumper does opens the current log.\<close>

definition keeps_log :: "(DBSystem \<Rightarrow> DBSystem option) \<Rightarrow> bool" where
  "keeps_log f \<longleftrightarrow> (\<forall>s s'. f s = Some s' \<longrightarrow> dm_log_readable (db_disk s') = dm_log_readable (db_disk s))"

lemma dumpint_keys_log: "dumpint_keys name ks d = Some d' \<Longrightarrow> dm_log_readable d' = dm_log_readable d"
proof -
  have "dm_log_readable (fold (\<lambda>k. append_dumping (f k)) ks d) = dm_log_readable d" for f d
    by (induction ks arbitrary: d) (simp_all add: append_dumping_def)
  then show "dumpint_keys name ks d = Some d' \<Longrightarrow> dm_log_readable d' = dm_log_readable d"
    by (auto simp: dumpint_keys_def append_dumping_def Let_def Option.bind_eq_Some_conv simp del: path_join.simps)
qed

lemma dump_records_log:
  "dump_records fid i qs (b, h, d) = Some (b', h', d') \<Longrightarrow> dm_log_readable d' = dm_log_readable d"
proof (induction qs arbitrary: i b h d)
  case (Cons q qs)
  then obtain b1 h1 r where "dump_records fid (Suc i) qs (b1, h1, append_dumping r d) = Some (b', h', d')"
    by (auto simp: Let_def Option.bind_eq_Some_conv)
  from Cons.IH [OF this] show ?case by (simp add: append_dumping_def)
qed simp

lemma dump_all_log: "keeps_log (dump_all junk qs)"
  using dumpint_keys_log dump_records_log
  by (fastforce simp: keeps_log_def dump_all_def insert_record_def write_to_manifist_def end_dumping_def Let_def
      Option.bind_eq_Some_conv simp del: path_join.simps split: if_splits)

lemma dumper_round_log: "keeps_log (dumper_round junk)"
  using dump_all_log unfolding keeps_log_def dumper_round_def
  by (fastforce simp: Let_def Option.bind_eq_Some_conv split: option.splits)

subsection \<open>A hot log with more records than slots\<close>

text \<open>Whatever happens while recovery waits for a slot, it has no log to read afterwards.\<close>

lemma recover_next_unreadable:
  assumes "keeps_log wait" and "bf_empty (db_buffer u) = []" and "recover_next wait HOT_LOG_T u = Some (i, v)"
  shows "\<not> readable HOT_LOG_T v"
proof -
  obtain t w where t: "recover_full HOT_LOG_T u = Some t" "(if if_full (db_buffer t) then wait t else Some t) = Some w"
    "db_disk v = db_disk w"
    using assms(2,3) by (auto simp: recover_next_def if_full_def Option.bind_eq_Some_conv)
  have "\<not> dm_log_readable (db_disk t)"
    using t(1) switch_log_unreadable by (auto simp: recover_full_def Option.bind_eq_Some_conv)
  moreover have "dm_log_readable (db_disk w) = dm_log_readable (db_disk t)"
    using t(2) assms(1) by (auto simp: keeps_log_def split: if_splits)
  ultimately show ?thesis using t(3) by (simp add: readable_def)
qed

text \<open>When the dumper has written the records out, there are slots again.\<close>

lemma recover_next_dumped:
  assumes core: "db_core u" and full: "bf_empty (db_buffer u) = []" and some: "db_map u \<noteq> Map.empty"
    and wait: "mt_wait_for_dump (db_mem u) = []" and small: "\<forall>k \<in> dom (db_map u). k < INT64_MAX"
    and base: "\<And>name. name \<noteq> [] \<Longrightarrow> path_join [dm_basepath (db_disk u), name] = Some (p @ name)"
    and log: "dm_files (db_disk u) (p @ HOT_LOG) = Some bs" and died: "dm_files (db_disk u) (p @ DIED_LOG) = None"
    and fid: "get_records_num (db_manifest u) < 256" and cnt: "mn_record_cnt (db_manifest u) \<noteq> []"
  shows "recover_next (dumper_round junk) HOT_LOG_T u \<noteq> None"
proof -
  obtain d where d: "switch_log (db_disk u) = Some d" "dm_basepath d = dm_basepath (db_disk u)"
    using switch_log_ok [OF base log died] by blast
  obtain m m' qs where m: "submit_dump (db_mem u) = Some m"
    "\<forall>d. merges_to (u\<lparr>db_mem := m, db_disk := d\<rparr>) qs (u\<lparr>db_mem := m', db_disk := d\<rparr>)" "restarted m'"
    "map kv_key qs = sorted_list_of_set (dom (db_map u))" "\<forall>q \<in> set qs. slot_of u (kv_key q) = Some (pair_slot q)"
    using submit_merges [OF core wait small] by blast
  note pairs = pair_slots [OF core m(4,5)]
  let ?t = "u\<lparr>db_mem := m', db_disk := d\<rparr>"
  have fin: "finite (dom (db_map u))" by (rule db_core_finite [OF core])
  have card: "card (dom (db_map u)) \<le> RECORD_BUFF_SIZE" using db_core_card(1) [OF core] by (simp add: dom_db_map(1))
  have "dom (db_map u) = kv_key ` set qs" using pairs(2) by simp
  then have ne: "qs \<noteq> []" using some by auto
  have hash: "dom (index_lookup (db_hash u)) = dom (db_map u)" by (simp add: dom_db_map)
  have "\<exists>s' mf. dump_all junk qs ?t = Some s' \<and> quiet (db_buffer s') \<and> bf_data (db_buffer s') = bf_data (db_buffer ?t)
    \<and> in_use (db_buffer s') = in_use (db_buffer ?t) - pair_slot ` set qs
    \<and> hash_slots (db_hash s') = hash_slots (db_hash ?t) ++ map_of (zip (map kv_key qs) [0..<length qs])
    \<and> db_mem s' = db_mem ?t \<and> length (mn_records (db_manifest s')) = Suc (get_records_num (db_manifest u))
    \<and> dm_basepath (db_disk s') = dm_basepath (db_disk ?t)
    \<and> dm_files (db_disk s') = (dm_files (db_disk ?t))
        (p @ sst_name (get_records_num (db_manifest u)) \<mapsto> sst_keys (map kv_key qs)
            @ concat (map (\<lambda>q. get_value (bf_data (db_buffer ?t) ! pair_slot q)) qs),
         p @ MANIFIST_FILE \<mapsto> mf, p @ DIED_LOG := None)"
  proof (rule dump_all_ok)
    show "index_inv (db_hash ?t)" "quiet (db_buffer ?t)" using core by (simp_all add: db_core_def)
    show "card (dom (index_lookup (db_hash ?t)) \<union> kv_key ` set qs) < 11662" "length qs \<le> 2 ^ 20"
      using card pairs(2,3) hash by (simp_all add: RECORD_BUFF_SIZE_def)
  qed (use base d(2) fid cnt ne pairs fin hash in \<open>simp_all del: path_join.simps\<close>)
  then obtain v where v: "dump_all junk qs ?t = Some v" "quiet (db_buffer v)"
    "in_use (db_buffer v) = in_use (db_buffer u) - pair_slot ` set qs" by auto
  have "card (in_use (db_buffer v)) < card (in_use (db_buffer u))"
    unfolding v(3) using ne pairs(5) by (intro psubset_card_mono) (auto simp: in_use_def neq_Nil_conv)
  then have "bf_empty (db_buffer v) \<noteq> []"
    using in_use_card [of "db_buffer u"] in_use_card [of "db_buffer v"] v(2) core full
    by (auto simp: db_core_def quiet_def)
  from request_quiet [OF v(2) this] obtain i b where "request_record_buff (db_buffer v) = Some (i, b)" "quiet b"
    "i < RECORD_BUFF_SIZE" by blast
  moreover have "dumper_round junk (u\<lparr>db_mem := m, db_disk := d\<rparr>) = Some v"
    using merges_round m(2) v(1) by metis
  ultimately show ?thesis
    using full d(1) m(1) quiet_access(1) by (simp add: recover_next_def recover_full_def if_full_def)
qed

text \<open>A new process finds the log of \<^verbatim>\<open>RECORD_BUFF_SIZE\<close> writes.\<close>

lemma open_hot_full:
  assumes nf: "no_files base fs" and valid: "\<forall>w \<in> set ws. valid_write w" and len: "length ws = RECORD_BUFF_SIZE"
    and keep: "keeps_log wait"
  defines "fs' \<equiv> fs(the (path_join [base, HOT_LOG]) \<mapsto> log_bytes (records ws))"
  shows "DBSystem_open wait h h' base fs' \<noteq> Some (Inr t)"
    and "\<forall>w \<in> set ws. key_of w < INT64_MAX \<Longrightarrow> DBSystem_open (dumper_round junk) h h' base fs' = Some (Inl Assertion_failed)"
proof -
  note files = log_files [OF nf fs'_def [THEN meta_eq_to_obj_eq]]
  note base = no_files_holds(1) [OF nf]
  obtain s where s: "db_core s" "db_map s = Map.empty" "db_buffer s = Buffer_new" "mt_wait_for_dump (db_mem s) = []"
    "db_manifest s = manifest_new" "db_disk s = DiskManager_init base fs'"
    "\<forall>wait. DBSystem_open wait h h' base fs' = init_log wait h' HOT_LOG_T s"
    using DBSystem_open_hot [OF base files, of h h'] by blast
  obtain p where p: "\<And>name. name \<noteq> [] \<Longrightarrow> path_join [base, name] = Some (p @ name)" using path_join_names [OF base] by blast
  note paths = p [OF log_names(2)] p [OF log_names(3)]
  have d: "dm_basepath (db_disk s) = base" "dm_files (db_disk s) = fs'" using s(6) by (simp_all add: DiskManager_init_def)
  have hot: "fs' (p @ HOT_LOG) = Some (log_bytes (records ws))" by (simp add: fs'_def paths del: path_join.simps)
  have slots: "length (bf_empty (db_buffer s)) = RECORD_BUFF_SIZE" by (simp add: s(3) Buffer_new_def)
  then have "length (bf_empty (db_buffer s)) \<le> length (records ws)" "bf_empty (db_buffer s) \<noteq> []"
    using len by (auto simp: RECORD_BUFF_SIZE_def)
  note full = init_hot_full [OF s(1) _ _ sized_records [OF valid] this, of "p @ HOT_LOG", unfolded d, OF paths(1) hot]
  have after: "\<exists>u g' bs. init_log wait h' HOT_LOG_T s
        = map_option (map_sum id (\<lambda>s. s\<lparr>db_disk := open_append (p @ HOT_LOG) (db_disk s)\<rparr>)) (do {
         (i, v) \<leftarrow> recover_next wait HOT_LOG_T u;
         recover_records wait g' HOT_LOG_T bs i v
       })
    \<and> db_core u \<and> db_map u = contents ws \<and> bf_empty (db_buffer u) = [] \<and> mt_wait_for_dump (db_mem u) = []
    \<and> db_manifest u = manifest_new \<and> dm_basepath (db_disk u) = base \<and> dm_files (db_disk u) = fs'" for wait
  proof -
    have mp: "log_map (take (length (bf_empty (db_buffer s))) (records ws)) (db_map s) = contents ws"
      using len log_map_contents [OF valid] by (simp add: slots s(2))
    obtain u g' bs where u: "init_log wait h' HOT_LOG_T s
        = map_option (map_sum id (\<lambda>s. s\<lparr>db_disk := open_append (p @ HOT_LOG) (db_disk s)\<rparr>)) (do {
         (i, v) \<leftarrow> recover_next wait HOT_LOG_T u;
         recover_records wait g' HOT_LOG_T bs i v
       })" "db_core u" "db_map u = contents ws" "bf_empty (db_buffer u) = []" "mt_wait_for_dump (db_mem u) = []"
      "db_manifest u = manifest_new" "db_disk u = open_read (p @ HOT_LOG) (db_disk s)"
      using full [of wait h'] unfolding mp s(4,5) by blast
    from u(7) d have "dm_basepath (db_disk u) = base" "dm_files (db_disk u) = fs'" by (simp_all add: open_read_def)
    with u show ?thesis by blast
  qed
  show "DBSystem_open wait h h' base fs' \<noteq> Some (Inr t)"
  proof -
    obtain u g' bs where u: "init_log wait h' HOT_LOG_T s
        = map_option (map_sum id (\<lambda>s. s\<lparr>db_disk := open_append (p @ HOT_LOG) (db_disk s)\<rparr>)) (do {
         (i, v) \<leftarrow> recover_next wait HOT_LOG_T u;
         recover_records wait g' HOT_LOG_T bs i v
       })" "bf_empty (db_buffer u) = []" using after by blast
    show ?thesis
    proof (cases "recover_next wait HOT_LOG_T u")
      case None
      then show ?thesis using s(7) u(1) by simp
    next
      case (Some iv)
      obtain i v where v: "recover_next wait HOT_LOG_T u = Some (i, v)" using Some by (cases iv) simp
      then show ?thesis using s(7) u(1) recover_next_unreadable [OF keep u(2) v] by (simp add: recover_records_abort(2))
    qed
  qed
  show "DBSystem_open (dumper_round junk) h h' base fs' = Some (Inl Assertion_failed)"
    if small: "\<forall>w \<in> set ws. key_of w < INT64_MAX"
  proof -
    obtain u g' bs where u: "init_log (dumper_round junk) h' HOT_LOG_T s
        = map_option (map_sum id (\<lambda>s. s\<lparr>db_disk := open_append (p @ HOT_LOG) (db_disk s)\<rparr>)) (do {
         (i, v) \<leftarrow> recover_next (dumper_round junk) HOT_LOG_T u;
         recover_records (dumper_round junk) g' HOT_LOG_T bs i v
       })" "db_core u" "db_map u = contents ws" "bf_empty (db_buffer u) = []" "mt_wait_for_dump (db_mem u) = []"
      "db_manifest u = manifest_new" "dm_basepath (db_disk u) = base" "dm_files (db_disk u) = fs'" using after by blast
    have "dom (contents ws) = key_of ` set ws" by (rule dom_contents)
    moreover have "ws \<noteq> []" using len by (auto simp: RECORD_BUFF_SIZE_def)
    ultimately have keys: "db_map u \<noteq> Map.empty" "\<forall>k \<in> dom (db_map u). k < INT64_MAX"
      using small by (auto simp: u(3))
    have died: "fs' (p @ DIED_LOG) = None" using files(2) by (simp add: paths del: path_join.simps)
    have "recover_next (dumper_round junk) HOT_LOG_T u \<noteq> None"
      by (rule recover_next_dumped [OF u(2,4) keys(1) u(5) keys(2)])
        (use p hot died in \<open>simp_all add: u(6-8) manifest_new_def get_records_num_def MAX_LOG_RECORD_NUM_def del: path_join.simps\<close>)
    then obtain i v where v: "recover_next (dumper_round junk) HOT_LOG_T u = Some (i, v)" by auto
    then show ?thesis
      using s(7) u(1) recover_next_unreadable [OF dumper_round_log u(4) v] by (simp add: recover_records_abort(2))
  qed
qed

text \<open>C13: Every write takes a new slot, and only a dump returns slots; a dump starts when the
  memory tables hold \<^verbatim>\<open>RECORD_BUFF_SIZE\<close> different keys. So in a store that started in an
  empty directory, after \<^verbatim>\<open>RECORD_BUFF_SIZE\<close> valid writes of which two have the same key,
  there is no free slot and the dumper has nothing to do: every later write waits for a slot for
  ever, whatever other writes have logged before they blocked. A restart does not help: when the
  slots are used up, recovery switches the log that it is reading, so it never returns, whatever is
  done while it waits for a slot; if the keys are below \<^verbatim>\<open>INT64_MAX\<close> and the dumper
  finishes its round meanwhile, recovery goes on and its next \<^verbatim>\<open>read\<close> fails the
  assertion.\<close>

theorem db_slot_leak:
  assumes "no_files base fs" and "\<forall>w \<in> set ws. valid_write w" and "length ws = RECORD_BUFF_SIZE"
    and "card (key_of ` set ws) < RECORD_BUFF_SIZE"
  shows "\<exists>s. Option.bind (DBSystem_init g g' base fs) (db_writes ws) = Some s
    \<and> request_record_buff (db_buffer s) = None \<and> dumper_round junk s = None
    \<and> (\<forall>disk rnd key val. DBSystem_write rnd key val (s\<lparr>db_disk := disk\<rparr>) = None)
    \<and> (\<forall>wait. keeps_log wait \<longrightarrow> (\<forall>t. DBSystem_open wait h h' base (dm_files (db_disk s)) \<noteq> Some (Inr t)))
    \<and> ((\<forall>w \<in> set ws. key_of w < INT64_MAX) \<longrightarrow>
        DBSystem_open (dumper_round junk) h h' base (dm_files (db_disk s)) = Some (Inl Assertion_failed))"
proof -
  obtain s where s: "Option.bind (DBSystem_init g g' base fs) (db_writes ws) = Some s"
    "length (bf_empty (db_buffer s)) + length ws = RECORD_BUFF_SIZE" "mt_wait_for_dump (db_mem s) = []"
    "dm_files (db_disk s) = fs(the (path_join [base, HOT_LOG]) \<mapsto> log_bytes (records ws))"
    using fresh_writes [OF assms(1,2) _ assms(4), of g g'] assms(3) by auto
  have full: "request_record_buff (db_buffer s) = None"
    using s(2) assms(3) by (simp add: request_record_buff_def take_free_def)
  then have "DBSystem_write rnd key val (s\<lparr>db_disk := disk\<rparr>) = None" for disk rnd key val
    by (auto simp: write_split db_put_def split: bind_splits)
  moreover have "dumper_round junk s = None" using s(3) by (simp add: dumper_round_def)
  moreover have "DBSystem_open wait h h' base (dm_files (db_disk s)) \<noteq> Some (Inr t)" if "keeps_log wait" for wait t
    using open_hot_full(1) [OF assms(1-3) that] unfolding s(4) by blast
  moreover have "DBSystem_open (dumper_round junk) h h' base (dm_files (db_disk s)) = Some (Inl Assertion_failed)"
    if "\<forall>w \<in> set ws. key_of w < INT64_MAX"
    using open_hot_full(2) [OF assms(1-3) dumper_round_log that] unfolding s(4) by blast
  ultimately show ?thesis using s(1) full by blast
qed

theorem db_slot_leak_witness:
  "\<exists>s. Option.bind (DBSystem_init (\<lambda>_ _. 1) (\<lambda>_ _. 1) [100] Map.empty)
      (db_writes (replicate RECORD_BUFF_SIZE one_write)) = Some s
    \<and> DBSystem_write (\<lambda>_. 1) (cstr ''hgfedcba'') (replicate RECORD_VALUE_LEN 0) s = None
    \<and> DBSystem_open (dumper_round []) (\<lambda>_ _. 1) (\<lambda>_ _. 1) [100] (dm_files (db_disk s)) = Some (Inl Assertion_failed)"
proof -
  have key: "key_of one_write < INT64_MAX"
    by (simp add: key_of_def one_write_def get_key_string_def get_key_def get_key_step_def cstr_def upt_rec INT64_MAX_def)
  have "\<exists>s. Option.bind (DBSystem_init (\<lambda>_ _. 1) (\<lambda>_ _. 1) [100] Map.empty)
      (db_writes (replicate RECORD_BUFF_SIZE one_write)) = Some s
    \<and> request_record_buff (db_buffer s) = None \<and> dumper_round [] s = None
    \<and> (\<forall>disk rnd key val. DBSystem_write rnd key val (s\<lparr>db_disk := disk\<rparr>) = None)
    \<and> (\<forall>wait. keeps_log wait \<longrightarrow> (\<forall>t. DBSystem_open wait (\<lambda>_ _. 1) (\<lambda>_ _. 1) [100] (dm_files (db_disk s)) \<noteq> Some (Inr t)))
    \<and> ((\<forall>w \<in> set (replicate RECORD_BUFF_SIZE one_write). key_of w < INT64_MAX) \<longrightarrow>
        DBSystem_open (dumper_round []) (\<lambda>_ _. 1) (\<lambda>_ _. 1) [100] (dm_files (db_disk s)) = Some (Inl Assertion_failed))"
    by (rule db_slot_leak [OF no_files_empty]) (simp_all add: one_write_valid RECORD_BUFF_SIZE_def)
  then obtain s where s: "Option.bind (DBSystem_init (\<lambda>_ _. 1) (\<lambda>_ _. 1) [100] Map.empty)
      (db_writes (replicate RECORD_BUFF_SIZE one_write)) = Some s"
    "\<forall>disk rnd key val. DBSystem_write rnd key val (s\<lparr>db_disk := disk\<rparr>) = None"
    "(\<forall>w \<in> set (replicate RECORD_BUFF_SIZE one_write). key_of w < INT64_MAX) \<longrightarrow>
        DBSystem_open (dumper_round []) (\<lambda>_ _. 1) (\<lambda>_ _. 1) [100] (dm_files (db_disk s)) = Some (Inl Assertion_failed)"
    by blast
  have "\<forall>w \<in> set (replicate RECORD_BUFF_SIZE one_write). key_of w < INT64_MAX" using key by simp
  with s(3) have open_eq: "DBSystem_open (dumper_round []) (\<lambda>_ _. 1) (\<lambda>_ _. 1) [100] (dm_files (db_disk s)) = Some (Inl Assertion_failed)"
    by (rule mp)
  have "s\<lparr>db_disk := db_disk s\<rparr> = s" by simp
  with s(2) have "DBSystem_write (\<lambda>_. 1) (cstr ''hgfedcba'') (replicate RECORD_VALUE_LEN 0) s = None" by metis
  with s(1) open_eq show ?thesis by blast
qed

end
